(* ===== verification/Qut_Prelude.thy ===== *)
theory Qut_Prelude
  imports "HOL-Library.Word"
begin

text \<open>
  Shared vocabulary of the development: the machine-integer types of the C++ code, the faults
  a run of the model can end in besides the code's own error values, and the word and list facts
  that the component theories use through the collections \<open>bytes\<close> and \<open>bitvals\<close>.
\<close>

unbundle bit_operations_syntax

section \<open>Machine integers\<close>

type_synonym u8 = "8 word"
type_synonym u16 = "16 word"
type_synonym u32 = "32 word"
type_synonym u64 = "64 word"

text \<open>
  What stops a run outside the code's own error values: a read or a write past the end of an array
  (undefined behaviour in C++) or of memory that may not be read, an aborting \<open>CHECK\<close>, the use of a variable that was never written, a shift by
the width of the operand or more, or an overflow of signed arithmetic (both undefined as well).
\<close>

datatype fault = ReadPastEnd | WritePastEnd | CheckFailed | Uninitialised | BadShift | SignedOverflow

named_theorems bytes \<open>facts about bytes cut out of words and bytes put into words\<close>
named_theorems bitvals \<open>bit-level readings of masks and shifts\<close>

section \<open>Masks and single bits\<close>

lemmas [bitvals] =
  bit_word_of_int_iff bit_take_bit_iff bit_or_iff bit_and_iff bit_not_iff bit_mask_iff
  bit_push_bit_iff bit_ucast_iff

lemma and_7f_int [bitvals]: "(v::int) AND 0x7f = take_bit 7 v"
  by (simp add: take_bit_eq_mask mask_eq_exp_minus_1)

lemma and_7f_u8 [bitvals]: "(b::u8) AND 0x7f = take_bit 7 b"
  by (simp add: take_bit_eq_mask mask_eq_exp_minus_1)

lemma and_80_u8 [bitvals]: "(b::u8) AND 0x80 \<noteq> 0 \<longleftrightarrow> bit b 7"
  using and_exp_eq_0_iff_not_bit [of b 7] by simp

lemma and_40_u8 [bitvals]: "(b::u8) AND 0x40 \<noteq> 0 \<longleftrightarrow> bit b 6"
  using and_exp_eq_0_iff_not_bit [of b 6] by simp

lemma and_80_u8_eq [bitvals]: "(b::u8) AND 0x80 = 0 \<longleftrightarrow> \<not> bit b 7"
  using and_80_u8 [of b] by blast

lemma and_40_u8_eq [bitvals]: "(b::u8) AND 0x40 = 0 \<longleftrightarrow> \<not> bit b 6"
  using and_40_u8 [of b] by blast

lemma bit_80_u8 [bitvals]: "bit (0x80::u8) i \<longleftrightarrow> i = 7"
proof -
  have "(0x80::u8) = 2 ^ 7" by simp
  then show ?thesis by (simp only: bit_exp_iff) auto
qed

lemma ge_80_u8 [bitvals]: "(0x80::u8) \<le> b \<longleftrightarrow> bit b 7"
proof -
  have arith: "(128 \<le> n) = (n div 128 \<noteq> 0)" if "0 \<le> n" for n :: int
    using that by presburger
  have "(0x80::u8) \<le> b \<longleftrightarrow> drop_bit 7 (uint b) \<noteq> 0"
    using arith [of "uint b"] by (simp add: word_le_def drop_bit_eq_div)
  also have "\<dots> \<longleftrightarrow> bit b 7"
  proof -
    have "drop_bit 7 (uint b) \<noteq> 0 \<longleftrightarrow> odd (drop_bit 7 (uint b))"
    proof -
      have "uint b < 256" using uint_lt2p [of b] by simp
      then have "drop_bit 7 (uint b) < 2" "0 \<le> drop_bit 7 (uint b)"
        by (simp_all add: drop_bit_eq_div pos_imp_zdiv_nonneg_iff)
      then have "drop_bit 7 (uint b) = 0 \<or> drop_bit 7 (uint b) = 1" by linarith
      then show ?thesis by auto
    qed
    then show ?thesis by (simp add: bit_iff_odd_drop_bit [symmetric] bit_uint_iff)
  qed
  finally show ?thesis .
qed

lemma unat_u8_less: "unat (b::u8) < 256"
proof -
  have "unat b < 2 ^ LENGTH(8)" by (rule unsigned_less)
  then show ?thesis by simp
qed

section \<open>Words in memory\<close>

text \<open>A word that is read through a pointer: all targets are little-endian.\<close>

definition le_word :: "u8 list \<Rightarrow> 'w::len word" where
  "le_word bs = foldr (\<lambda>b w. push_bit 8 w OR ucast b) bs 0"

definition le_bytes :: "nat \<Rightarrow> 'w::len word \<Rightarrow> u8 list" where
  "le_bytes n w = map (\<lambda>i. ucast (drop_bit (8 * i) w)) [0..<n]"

lemma length_le_bytes [simp]: "length (le_bytes n w) = n"
  by (simp add: le_bytes_def)

lemma le_bytes_Suc: "le_bytes (Suc n) w = ucast w # le_bytes n (drop_bit 8 w)"
  by (simp add: le_bytes_def upt_conv_Cons map_Suc_upt [symmetric] comp_def algebra_simps del: upt_Suc)

lemma le_word_le_bytes: "le_word (le_bytes n w) = take_bit (8 * n) w"
proof (induction n arbitrary: w)
  case 0
  then show ?case by (simp add: le_word_def le_bytes_def)
next
  case (Suc n)
  have "le_word (le_bytes (Suc n) w) = push_bit 8 (take_bit (8 * n) (drop_bit 8 w)) OR ucast (ucast w :: u8)"
    using Suc.IH [of "drop_bit 8 w"] by (simp add: le_bytes_Suc le_word_def)
  also have "\<dots> = take_bit (8 * Suc n) w"
    by (rule bit_word_eqI)
      (auto simp: bit_push_bit_iff bit_take_bit_iff bit_drop_bit_eq bit_or_iff bit_ucast_iff)
  finally show ?case .
qed

section \<open>Frames\<close>

text \<open>
  The program counter of a \<open>Frame\<close> of \<^verbatim>\<open>include/BacktraceDefine.h\<close>, which both unwinders write: on aarch64
  a field of 56 bits.
\<close>

definition frame_pc :: "bool \<Rightarrow> 'w::len word \<Rightarrow> 'w word" where
  "frame_pc arm pc = (if arm then pc else take_bit 56 pc)"

end
