(* ===== verification/Sleb128.thy ===== *)
theory Sleb128
  imports Qut_Prelude
begin

text \<open>
  SLEB128 operands of the unwind table: the writer \<open>EncodeSLEB128\<close> of
  \<^verbatim>\<open>include/QuickenInstructions.h\<close>, and the reading loop that the macro
  \<open>DecodeSLEB128\<close> of \<^verbatim>\<open>QuickenTable.cpp\<close> and the ULEB128 reader of
  \<^verbatim>\<open>ExidxDecoder.cpp\<close> share.  The locale \<open>byte_source\<close> is the interface
  between such a loop and whatever hands it bytes; the round trip is proved once inside it.
\<close>

section \<open>Writing\<close>

text \<open>
  The \<open>do ... while (More)\<close> loop.  \<open>Value\<close> is an \<open>int64_t\<close>, read as
  an integer: its arithmetic right shift is \<open>drop_bit\<close> on \<open>int\<close>.  The result
  is the bytes written, the last \<open>Value\<close> and the last \<open>Count\<close>.
\<close>

definition sleb_more :: "int \<Rightarrow> bool" where
  "sleb_more Value =
     (let Byte = (word_of_int (Value AND 0x7f) :: u8); Value' = drop_bit 7 Value
      in \<not> ((Value' = 0 \<and> Byte AND 0x40 = 0) \<or> (Value' = -1 \<and> Byte AND 0x40 \<noteq> 0)))"

lemma sleb_more_decreases:
  assumes "sleb_more Value" shows "\<bar>drop_bit 7 Value\<bar> < \<bar>Value\<bar>"
proof (rule ccontr)
  assume "\<not> ?thesis"
  then have "Value = 0 \<or> Value = -1"
    by (simp add: drop_bit_eq_div) linarith
  with assms show False by (auto simp: sleb_more_def drop_bit_eq_div)
qed

function EncodeSLEB128_loop :: "int \<Rightarrow> nat \<Rightarrow> nat \<Rightarrow> u8 list \<times> int \<times> nat" where
  "EncodeSLEB128_loop Value Count PadTo =
     (let Byte = word_of_int (Value AND 0x7f);
          Byte' = (if sleb_more Value \<or> Suc Count < PadTo then Byte OR 0x80 else Byte)
      in if sleb_more Value
         then (case EncodeSLEB128_loop (drop_bit 7 Value) (Suc Count) PadTo of
                 (bs, v, c) \<Rightarrow> (Byte' # bs, v, c))
         else ([Byte'], drop_bit 7 Value, Suc Count))"
  by pat_completeness auto
termination
  by (relation "measure (\<lambda>(v, c, p). nat \<bar>v\<bar>)") (auto dest: sleb_more_decreases)

declare EncodeSLEB128_loop.simps [simp del]

definition EncodeSLEB128 :: "int \<Rightarrow> nat \<Rightarrow> u8 list" where
  "EncodeSLEB128 Value PadTo =
     (case EncodeSLEB128_loop Value 0 PadTo of
        (bs, v, Count) \<Rightarrow>
          if Count < PadTo
          then (let PadValue = (if v < 0 then 0x7f else 0x00)
                in bs @ replicate (PadTo - 1 - Count) (PadValue OR 0x80) @ [PadValue])
          else bs)"

section \<open>Reading\<close>

text \<open>
  The reading loop \<open>do { b = next byte; acc |= (b & 0x7f) << shift; shift += 7; } while (b & 0x80)\<close>,
  over any supply \<open>get\<close> of bytes.  The result is the accumulator, the final shift, the last
  byte and the advanced cursor; \<open>None\<close> means that the supply ran out first.  \<open>bad\<close> tells for a shift and
  a byte what is undefined about shifting the byte, which depends on the type of \<open>b & 0x7f\<close>.
\<close>

partial_function (option) leb128_loop ::
  "('c \<Rightarrow> (u8 \<times> 'c) option) \<Rightarrow> (nat \<Rightarrow> u8 \<Rightarrow> fault option) \<Rightarrow> 'w::len word \<Rightarrow> nat \<Rightarrow> 'c
     \<Rightarrow> (fault + ('w word \<times> nat \<times> u8 \<times> 'c)) option" where
  "leb128_loop get bad acc shift c =
     Option.bind (get c) (\<lambda>(b, c').
       case bad shift b of
         Some f \<Rightarrow> Some (Inl f)
       | None \<Rightarrow>
           let acc' = acc OR push_bit shift (ucast (b AND 0x7f))
           in if b AND 0x80 \<noteq> 0 then leb128_loop get bad acc' (shift + 7) c'
              else Some (Inr (acc', shift + 7, b, c')))"

declare leb128_loop.simps [code]

text \<open>\<open>DecodeSLEB128\<close> shifts a \<open>uint64_t\<close>: by 64 or more is undefined.\<close>

definition sleb_bad :: "nat \<Rightarrow> u8 \<Rightarrow> fault option" where
  "sleb_bad shift b = (if 64 \<le> shift then Some BadShift else None)"

text \<open>The sign extension after the loop of \<open>DecodeSLEB128\<close>.\<close>

definition sleb_extend :: "u64 \<Rightarrow> nat \<Rightarrow> u8 \<Rightarrow> u64" where
  "sleb_extend value Shift Byte =
     (if Shift < 64 \<and> Byte AND 0x40 \<noteq> 0 then value OR push_bit Shift (-1) else value)"

text \<open>The same loop on a list of bytes: the meaning of \<open>leb128_loop\<close>.\<close>

fun leb_list ::
  "(nat \<Rightarrow> u8 \<Rightarrow> fault option) \<Rightarrow> 'w::len word \<Rightarrow> nat \<Rightarrow> u8 list
     \<Rightarrow> (fault + ('w word \<times> nat \<times> u8 \<times> u8 list)) option" where
  "leb_list bad acc shift [] = None"
| "leb_list bad acc shift (b # bs) =
     (case bad shift b of
        Some f \<Rightarrow> Some (Inl f)
      | None \<Rightarrow>
          let acc' = acc OR push_bit shift (ucast (b AND 0x7f))
          in if b AND 0x80 \<noteq> 0 then leb_list bad acc' (shift + 7) bs else Some (Inr (acc', shift + 7, b, bs)))"

definition sleb_list :: "u8 list \<Rightarrow> (u64 \<times> u8 list) option" where
  "sleb_list bs =
     (case leb_list sleb_bad (0::u64) 0 bs of
        Some (Inr (value, Shift, Byte, rest)) \<Rightarrow> Some (sleb_extend value Shift Byte, rest)
      | _ \<Rightarrow> None)"

section \<open>The interface to a supply of bytes\<close>

text \<open>
  A supply is a cursor type with an operation \<open>get\<close> and the list \<open>stream c\<close> of
  the bytes left.  The provider promises that \<open>get\<close> hands out the head of the list and
  fails exactly at its end.
\<close>

locale byte_source =
  fixes get :: "'c \<Rightarrow> (u8 \<times> 'c) option"
    and stream :: "'c \<Rightarrow> u8 list"
  assumes get_empty: "stream c = [] \<Longrightarrow> get c = None"
    and get_cons: "stream c = b # bs \<Longrightarrow> \<exists>c'. get c = Some (b, c') \<and> stream c' = bs"
begin

lemma loop_list:
  "case leb_list bad acc shift (stream c) of
     None \<Rightarrow> leb128_loop get bad acc shift c = None
   | Some (Inl f) \<Rightarrow> leb128_loop get bad acc shift c = Some (Inl f)
   | Some (Inr (v, sh, b, rest)) \<Rightarrow>
       (\<exists>c'. leb128_loop get bad acc shift c = Some (Inr (v, sh, b, c')) \<and> stream c' = rest)"
proof (induction "stream c" arbitrary: acc shift c)
  case Nil
  then show ?case by (subst leb128_loop.simps) (simp add: Nil [symmetric] get_empty)
next
  case (Cons b bs)
  from get_cons [OF Cons.hyps(2) [symmetric]] obtain c' where
    c': "get c = Some (b, c')" "stream c' = bs" by blast
  let ?acc = "acc OR push_bit shift (ucast (b AND 0x7f))"
  note unf = leb128_loop.simps [of get bad acc shift c]
  show ?case
  proof (cases "bad shift b")
    case None
    then show ?thesis
      using Cons.hyps(1) [of c' ?acc "shift + 7"] c' Cons.hyps(2)
      by (cases "b AND 0x80 = 0")
        (auto simp add: unf Let_def simp flip: Cons.hyps(2) split: option.splits sum.splits)
  next
    case (Some f)
    then show ?thesis using c' by (simp add: unf flip: Cons.hyps(2))
  qed
qed

lemma loop_SomeI:
  assumes "leb_list bad acc shift (stream c) = Some (Inr (v, sh, b, rest))"
  obtains c' where "leb128_loop get bad acc shift c = Some (Inr (v, sh, b, c'))" "stream c' = rest"
  using loop_list [of bad acc shift c] assms by auto

lemma loop_NoneI:
  "leb_list bad acc shift (stream c) = None \<Longrightarrow> leb128_loop get bad acc shift c = None"
  "leb_list bad acc shift (stream c) = Some (Inl f) \<Longrightarrow> leb128_loop get bad acc shift c = Some (Inl f)"
  using loop_list [of bad acc shift c] by simp_all

text \<open>The loop always ends: with a result, with an undefined shift or by running out of bytes.\<close>

lemma loop_result_stream:
  "leb128_loop get bad acc shift c = Some (Inr (v, sh, b, c')) \<Longrightarrow>
     leb_list bad acc shift (stream c) = Some (Inr (v, sh, b, stream c'))"
  using loop_list [of bad acc shift c] by (auto split: option.splits prod.splits sum.splits)

end

section \<open>The round trip\<close>

text \<open>Bits of one written byte.\<close>

lemma bit_sleb_byte [bitvals]:
  "bit (word_of_int ((v::int) AND 0x7f) :: u8) i \<longleftrightarrow> i < 7 \<and> bit v i"
  by (auto simp: bitvals)

lemma sleb_more_iff:
  "sleb_more v \<longleftrightarrow> \<not> (drop_bit 7 v = (if bit v 6 then -1 else 0))"
  by (auto simp: sleb_more_def Let_def bitvals)

text \<open>
  The list loop, started at any accumulator and shift, on the bytes written for \<open>v\<close>: it
  stops at the last of them, has or-ed the bits of \<open>v\<close> in at their places, and what is left
  of \<open>v\<close> is the sign that bit 6 of the last byte shows.
\<close>

lemma leb_list_EncodeSLEB128_loop:
  fixes acc :: "'w::len word"
  assumes "EncodeSLEB128_loop v n 0 = (bs, v', n')" "\<forall>i < length bs. \<forall>b. bad (shift + 7 * i) b = None"
  shows "\<exists>acc' b. leb_list bad acc shift (bs @ rest) = Some (Inr (acc', shift + 7 * length bs, b, rest))
     \<and> (\<forall>i. bit acc' i = (bit acc i \<or>
            (shift \<le> i \<and> i < shift + 7 * length bs \<and> i < LENGTH('w) \<and> bit v (i - shift))))
     \<and> drop_bit (7 * length bs) v = (if bit b 6 then -1 else 0) \<and> bs \<noteq> []"
  using assms
proof (induction v n "0::nat" arbitrary: acc shift bs rule: EncodeSLEB128_loop.induct)
  case (1 v n)
  let ?B = "word_of_int (v AND 0x7f) :: u8"
  let ?acc = "acc OR push_bit shift (ucast (?B AND 0x7f))"
  have acc_bits: "bit ?acc i = (bit acc i \<or> (shift \<le> i \<and> i < shift + 7 \<and> i < LENGTH('w) \<and> bit v (i - shift)))"
    for i
    by (auto simp: bitvals)
  show ?case
  proof (cases "sleb_more v")
    case True
    obtain bs1 where rec: "EncodeSLEB128_loop (drop_bit 7 v) (Suc n) 0 = (bs1, v', n')"
      and bs: "bs = (?B OR 0x80) # bs1"
      using "1.prems"(1) True
      by (subst (asm) EncodeSLEB128_loop.simps) (auto simp: Let_def split: prod.splits)
    have head: "(?B OR 0x80) AND 0x7f = ?B AND 0x7f" "(?B OR 0x80) AND 0x80 \<noteq> 0"
      by (rule bit_eqI, auto simp: bitvals)
    have good: "bad shift b = None" for b using "1.prems"(2) by (force simp: bs)
    have "\<forall>i < length bs1. \<forall>b. bad (shift + 7 + 7 * i) b = None"
      using "1.prems"(2) by (force simp: bs add.assoc)
    from "1.hyps" [OF refl refl True rec this, of ?acc] obtain acc' b where
      ih: "leb_list bad ?acc (shift + 7) (bs1 @ rest) = Some (Inr (acc', shift + 7 + 7 * length bs1, b, rest))"
      "\<forall>i. bit acc' i = (bit ?acc i \<or> (shift + 7 \<le> i \<and> i < shift + 7 + 7 * length bs1 \<and>
             i < LENGTH('w) \<and> bit (drop_bit 7 v) (i - (shift + 7))))"
      "drop_bit (7 * length bs1) (drop_bit 7 v) = (if bit b 6 then -1 else 0)"
      by blast
    show ?thesis
    proof (intro exI conjI)
      show "leb_list bad acc shift (bs @ rest) = Some (Inr (acc', shift + 7 * length bs, b, rest))"
        using head ih(1) good by (simp add: bs Let_def)
      show "drop_bit (7 * length bs) v = (if bit b 6 then -1 else 0)"
        using ih(3) by (simp add: bs drop_bit_drop_bit add.commute)
      show "\<forall>i. bit acc' i = (bit acc i \<or> (shift \<le> i \<and> i < shift + 7 * length bs \<and>
              i < LENGTH('w) \<and> bit v (i - shift)))"
      proof
        fix i
        have "shift + 7 \<le> i \<Longrightarrow> bit (drop_bit 7 v) (i - (shift + 7)) = bit v (i - shift)"
          by (simp add: bit_drop_bit_eq)
        then show "bit acc' i = (bit acc i \<or> (shift \<le> i \<and> i < shift + 7 * length bs \<and>
              i < LENGTH('w) \<and> bit v (i - shift)))"
          using ih(2) [rule_format, of i] acc_bits [of i]
          by (cases "i < shift + 7") (auto simp: bs)
      qed
    qed (simp add: bs)
  next
    case False
    then have bs: "bs = [?B]"
      using "1.prems"(1) by (subst (asm) EncodeSLEB128_loop.simps) (simp add: Let_def)
    have good: "bad shift b = None" for b using "1.prems"(2) by (force simp: bs)
    have "?B AND 0x80 = 0" by (simp add: bitvals)
    with False acc_bits good show ?thesis
      by (intro exI [of _ ?acc] exI [of _ ?B]) (simp add: bs Let_def sleb_more_iff bitvals)
  qed
qed

lemma EncodeSLEB128_no_pad:
  "EncodeSLEB128 v 0 = fst (EncodeSLEB128_loop v 0 0)"
  by (simp add: EncodeSLEB128_def split: prod.splits)

lemma EncodeSLEB128_nonempty [simp]: "EncodeSLEB128 v 0 \<noteq> []"
  by (simp add: EncodeSLEB128_no_pad) (subst EncodeSLEB128_loop.simps, simp add: Let_def split: prod.splits)

text \<open>
  The caller's buffer is \<open>uint8_t encoded_bytes[5]\<close>: values of 35 bits, hence every
  \<open>int32_t\<close>, fit.
\<close>

lemma length_EncodeSLEB128_loop:
  assumes "- (2 ^ (7 * k + 6)) \<le> v" "v < 2 ^ (7 * k + 6)"
  shows "length (fst (EncodeSLEB128_loop v n 0)) \<le> Suc k"
  using assms
proof (induction k arbitrary: v n)
  case 0
  then have rng: "- 64 \<le> v" "v < 64" by simp_all
  have "v div 128 = (if odd (v div 64) then -1 else 0)"
  proof (cases "0 \<le> v")
    case True
    with rng have "v div 64 = 0" "v div 128 = 0" by simp_all
    then show ?thesis by simp
  next
    case False
    with rng have "v div 64 = -1" "v div 128 = -1" by presburger+
    then show ?thesis by simp
  qed
  then have "\<not> sleb_more v"
    by (simp add: sleb_more_iff drop_bit_eq_div bit_iff_odd)
  then show ?case by (subst EncodeSLEB128_loop.simps) (simp add: Let_def)
next
  case (Suc k)
  have "- (2 ^ (7 * k + 6)) \<le> drop_bit 7 v \<and> drop_bit 7 v < 2 ^ (7 * k + 6)"
    using Suc.prems by (simp add: drop_bit_eq_div power_add) linarith
  then have "length (fst (EncodeSLEB128_loop (drop_bit 7 v) (Suc n) 0)) \<le> Suc k"
    using Suc.IH by blast
  then show ?case
    by (subst EncodeSLEB128_loop.simps) (auto simp: Let_def split: prod.splits)
qed

lemma length_EncodeSLEB128_int32:
  "- (2 ^ 31) \<le> v \<Longrightarrow> v < 2 ^ 31 \<Longrightarrow> length (EncodeSLEB128 v 0) \<le> 5"
  using length_EncodeSLEB128_loop [of 4 v 0] by (simp add: EncodeSLEB128_no_pad)

text \<open>The values whose ten bytes, or fewer, are read back without a bad shift.\<close>

definition sleb_fits :: "int \<Rightarrow> bool" where
  "sleb_fits v \<longleftrightarrow> - (2 ^ 69) \<le> v \<and> v < 2 ^ 69"

lemma sleb_list_encode:
  assumes "sleb_fits v"
  shows "sleb_list (EncodeSLEB128 v 0 @ rest) = Some (word_of_int v, rest)"
proof -
  obtain bs v' n' where loop: "EncodeSLEB128_loop v 0 0 = (bs, v', n')"
    by (cases "EncodeSLEB128_loop v 0 0") auto
  have "length bs \<le> 10"
    using length_EncodeSLEB128_loop [of 9 v 0] assms loop by (simp add: sleb_fits_def)
  then have good: "\<forall>i < length bs. \<forall>b. sleb_bad (0 + 7 * i) b = None"
    by (auto simp: sleb_bad_def)
  from leb_list_EncodeSLEB128_loop [OF loop good, of "0::u64" rest] obtain acc b where
    ll: "leb_list sleb_bad (0::u64) 0 (bs @ rest) = Some (Inr (acc, 7 * length bs, b, rest))"
    and bits: "\<forall>i. bit acc i = (i < 7 * length bs \<and> i < 64 \<and> bit v i)"
    and sgn: "drop_bit (7 * length bs) v = (if bit b 6 then -1 else 0)"
    by auto
  have high: "bit v i = bit b 6" if "7 * length bs \<le> i" for i
  proof -
    have "bit v i = bit (drop_bit (7 * length bs) v) (i - 7 * length bs)"
      using that by (simp add: bit_drop_bit_eq)
    then show ?thesis using sgn by (simp split: if_splits)
  qed
  have "sleb_extend acc (7 * length bs) b = word_of_int v"
    by (rule bit_eqI)
      (use bits high in \<open>auto simp: sleb_extend_def bitvals not_less\<close>)
  with loop ll show ?thesis by (simp add: sleb_list_def EncodeSLEB128_no_pad)
qed

end
