(* ===== verification/Qut_Instructions.thy ===== *)
theory Qut_Instructions
  imports Sleb128
begin

text \<open>
  The unwind-table instruction set of \<^verbatim>\<open>include/QuickenInstructions.h\<close> and its two
  byte encoders.  An instruction is a \<open>uint64_t\<close>: the operation in the high half, a signed
  32-bit immediate in the low half.  The encoders turn a vector of such instructions into the byte
  string that the table stores; \<open>Encode32\<close> is the build for \<open>__arm__\<close>,
  \<open>Encode64\<close> the other one.  Logging and statistics have no part in the result and are left
  out.
\<close>

section \<open>Operations\<close>

text \<open>The enumeration \<open>QutInstruction\<close>, in its order, less the common prefix of the names.\<close>

datatype QutInstruction =
    R4_OFFSET | R7_OFFSET | R10_OFFSET | R11_OFFSET | SP_OFFSET | LR_OFFSET | PC_OFFSET
  | X20_OFFSET | X28_OFFSET | X29_OFFSET
  | VSP_OFFSET | VSP_SET_IMM
  | VSP_SET_BY_R7 | VSP_SET_BY_R11 | VSP_SET_BY_X29
  | VSP_SET_BY_SP | VSP_SET_BY_JNI_SP
  | DEX_PC_SET | DEX_PC_SET_FOR_SWITCH_INTERPRETER
  | END_OF_INS | FIN | NOP

definition QutInstructions :: "QutInstruction list" where
  "QutInstructions =
     [R4_OFFSET, R7_OFFSET, R10_OFFSET, R11_OFFSET, SP_OFFSET, LR_OFFSET, PC_OFFSET,
      X20_OFFSET, X28_OFFSET, X29_OFFSET, VSP_OFFSET, VSP_SET_IMM, VSP_SET_BY_R7, VSP_SET_BY_R11,
      VSP_SET_BY_X29, VSP_SET_BY_SP, VSP_SET_BY_JNI_SP, DEX_PC_SET,
      DEX_PC_SET_FOR_SWITCH_INTERPRETER, END_OF_INS, FIN]"

primrec qut_code :: "QutInstruction \<Rightarrow> nat" where
  "qut_code R4_OFFSET = 0"
| "qut_code R7_OFFSET = 1"
| "qut_code R10_OFFSET = 2"
| "qut_code R11_OFFSET = 3"
| "qut_code SP_OFFSET = 4"
| "qut_code LR_OFFSET = 5"
| "qut_code PC_OFFSET = 6"
| "qut_code X20_OFFSET = 7"
| "qut_code X28_OFFSET = 8"
| "qut_code X29_OFFSET = 9"
| "qut_code VSP_OFFSET = 10"
| "qut_code VSP_SET_IMM = 11"
| "qut_code VSP_SET_BY_R7 = 12"
| "qut_code VSP_SET_BY_R11 = 13"
| "qut_code VSP_SET_BY_X29 = 14"
| "qut_code VSP_SET_BY_SP = 15"
| "qut_code VSP_SET_BY_JNI_SP = 16"
| "qut_code DEX_PC_SET = 17"
| "qut_code DEX_PC_SET_FOR_SWITCH_INTERPRETER = 18"
| "qut_code END_OF_INS = 19"
| "qut_code FIN = 20"
| "qut_code NOP = 0xFF"

text \<open>The operation that a number names; a \<open>switch\<close> on any other number takes no branch.\<close>

definition qut_of_code :: "nat \<Rightarrow> QutInstruction option" where
  "qut_of_code n = (if n < 21 then Some (QutInstructions ! n) else if n = 0xFF then Some NOP else None)"

lemma qut_of_code_code [simp]: "qut_of_code (qut_code i) = Some i"
  by (cases i) (simp_all add: qut_of_code_def QutInstructions_def)

lemma qut_code_inject: "qut_code i = qut_code j \<longleftrightarrow> i = j"
  by (metis option.inject qut_of_code_code)

lemma qut_code_bound: "qut_code i < 2 ^ 32"
  by (cases i) simp_all

definition instr_op :: "u64 \<Rightarrow> QutInstruction option" where
  "instr_op instruction = qut_of_code (unat (drop_bit 32 instruction))"

definition instr_imm :: "u64 \<Rightarrow> int" where
  "instr_imm instruction = sint (ucast (instruction AND 0xFFFFFFFF) :: u32)"

definition mk_instr :: "QutInstruction \<Rightarrow> int \<Rightarrow> u64" where
  "mk_instr i imm = push_bit 32 (of_nat (qut_code i)) OR (word_of_int imm AND 0xFFFFFFFF)"

lemma and_ffffffff_u64 [bitvals]: "(w::u64) AND 0xFFFFFFFF = take_bit 32 w"
  by (simp add: take_bit_eq_mask mask_eq_exp_minus_1)

lemma instr_op_mk [simp]: "instr_op (mk_instr i imm) = Some i"
proof -
  have "take_bit 32 (qut_code i) = qut_code i"
    using qut_code_bound by (rule take_bit_nat_eq_self)
  then have "bit (qut_code i) n \<Longrightarrow> n < 32" for n
    by (metis bit_take_bit_iff)
  then have "drop_bit 32 (mk_instr i imm) = of_nat (qut_code i)"
    by (intro bit_eqI) (auto simp: mk_instr_def bitvals bit_drop_bit_eq bit_of_nat_iff)
  then show ?thesis
    using qut_code_bound [of i] by (simp add: instr_op_def unat_of_nat)
qed

lemma instr_imm_mk:
  assumes "- (2 ^ 31) \<le> imm" "imm < 2 ^ 31"
  shows "instr_imm (mk_instr i imm) = imm"
proof -
  have "(ucast (mk_instr i imm AND 0xFFFFFFFF) :: u32) = word_of_int imm"
    by (intro bit_eqI) (auto simp: mk_instr_def bitvals)
  then show ?thesis
    using assms by (simp add: instr_imm_def sint_sbintrunc' signed_take_bit_int_eq_self)
qed

section \<open>Immediates\<close>

definition IMM :: "nat \<Rightarrow> int" where
  "IMM N = push_bit 2 (push_bit N 1 - 1)"

definition IMM_ALIGNED :: "int \<Rightarrow> int" where
  "IMM_ALIGNED N = drop_bit 2 N"

definition FILL_WITH_IMM :: "int \<Rightarrow> int \<Rightarrow> nat \<Rightarrow> u8" where
  "FILL_WITH_IMM Prefix Imm Mask = word_of_int (Prefix OR ((push_bit Mask 1 - 1) AND IMM_ALIGNED Imm))"

lemma IMM_simps [simp]: "IMM 4 = 60" "IMM 6 = 252" "IMM 7 = 508"
  by (simp_all add: IMM_def)

section \<open>Bytes of one instruction\<close>

text \<open>Operation bytes, as the \<open>OP(...)\<close> macros build them.\<close>

definition OP_COMBINE :: "u8 \<Rightarrow> u8 \<Rightarrow> u8" where
  "OP_COMBINE X1 X2 = push_bit 4 X1 + X2"

abbreviation (input) VSP_SET_BY_R7_OP :: u8 where "VSP_SET_BY_R7_OP \<equiv> 0x80"
abbreviation (input) VSP_SET_BY_R7_PROLOGUE_OP :: u8 where "VSP_SET_BY_R7_PROLOGUE_OP \<equiv> 0x81"
abbreviation (input) VSP_SET_BY_R11_OP :: u8 where "VSP_SET_BY_R11_OP \<equiv> 0x82"
abbreviation (input) VSP_SET_BY_R11_PROLOGUE_OP :: u8 where "VSP_SET_BY_R11_PROLOGUE_OP \<equiv> 0x83"
abbreviation (input) VSP_SET_BY_R7_IMM_OP :: u8 where "VSP_SET_BY_R7_IMM_OP \<equiv> 0x85"
abbreviation (input) VSP_SET_BY_R11_IMM_OP :: u8 where "VSP_SET_BY_R11_IMM_OP \<equiv> 0x86"
abbreviation (input) VSP_SET_BY_X29_OP :: u8 where "VSP_SET_BY_X29_OP \<equiv> 0x80"
abbreviation (input) VSP_SET_BY_X29_PROLOGUE_OP :: u8 where "VSP_SET_BY_X29_PROLOGUE_OP \<equiv> 0x81"
abbreviation (input) VSP_SET_BY_X29_IMM_OP :: u8 where "VSP_SET_BY_X29_IMM_OP \<equiv> 0x85"
abbreviation (input) VSP_SET_BY_X29_OFFSET_OP :: u8 where "VSP_SET_BY_X29_OFFSET_OP \<equiv> 0x86"
abbreviation (input) VSP_SET_BY_SP_OP :: u8 where "VSP_SET_BY_SP_OP \<equiv> 0x84"
abbreviation (input) VSP_SET_BY_JNI_SP_OP :: u8 where "VSP_SET_BY_JNI_SP_OP \<equiv> 0x95"
abbreviation (input) VSP_SET_IMM_OP :: u8 where "VSP_SET_IMM_OP \<equiv> 0x96"
abbreviation (input) DEX_PC_SET_OP :: u8 where "DEX_PC_SET_OP \<equiv> 0x97"
abbreviation (input) END_OF_INS_OP :: u8 where "END_OF_INS_OP \<equiv> 0x99"
abbreviation (input) FINISH_OP :: u8 where "FINISH_OP \<equiv> 0x9F"
abbreviation (input) R7_OFFSET_SLEB128_OP :: u8 where "R7_OFFSET_SLEB128_OP \<equiv> 0xF9"
abbreviation (input) R10_OFFSET_SLEB128_OP :: u8 where "R10_OFFSET_SLEB128_OP \<equiv> 0xFA"
abbreviation (input) R11_OFFSET_SLEB128_OP :: u8 where "R11_OFFSET_SLEB128_OP \<equiv> 0xFB"
abbreviation (input) X20_OFFSET_SLEB128_OP :: u8 where "X20_OFFSET_SLEB128_OP \<equiv> 0xF9"
abbreviation (input) X28_OFFSET_SLEB128_OP :: u8 where "X28_OFFSET_SLEB128_OP \<equiv> 0xFA"
abbreviation (input) X29_OFFSET_SLEB128_OP :: u8 where "X29_OFFSET_SLEB128_OP \<equiv> 0xFB"
abbreviation (input) SP_OFFSET_SLEB128_OP :: u8 where "SP_OFFSET_SLEB128_OP \<equiv> 0xFC"
abbreviation (input) LR_OFFSET_SLEB128_OP :: u8 where "LR_OFFSET_SLEB128_OP \<equiv> 0xFD"
abbreviation (input) PC_OFFSET_SLEB128_OP :: u8 where "PC_OFFSET_SLEB128_OP \<equiv> 0xFE"
abbreviation (input) VSP_OFFSET_SLEB128_OP :: u8 where "VSP_OFFSET_SLEB128_OP \<equiv> 0xFF"
abbreviation (input) R4_OFFSET_OP_PREFIX :: int where "R4_OFFSET_OP_PREFIX \<equiv> 0xA0"
abbreviation (input) R7_OFFSET_OP_PREFIX :: int where "R7_OFFSET_OP_PREFIX \<equiv> 0xB0"
abbreviation (input) R10_OFFSET_OP_PREFIX :: int where "R10_OFFSET_OP_PREFIX \<equiv> 0xC0"
abbreviation (input) R11_OFFSET_OP_PREFIX :: int where "R11_OFFSET_OP_PREFIX \<equiv> 0xD0"
abbreviation (input) X20_OFFSET_OP_PREFIX :: int where "X20_OFFSET_OP_PREFIX \<equiv> 0xB0"
abbreviation (input) X28_OFFSET_OP_PREFIX :: int where "X28_OFFSET_OP_PREFIX \<equiv> 0xC0"
abbreviation (input) X29_OFFSET_OP_PREFIX :: int where "X29_OFFSET_OP_PREFIX \<equiv> 0xD0"
abbreviation (input) LR_OFFSET_OP_PREFIX :: int where "LR_OFFSET_OP_PREFIX \<equiv> 0xE0"

text \<open>
  What one pass of the encoding loop does: go on or give up (\<open>return false\<close>), the bytes it
  pushes before either, the number of following instructions it swallows, and whether it sets
  \<open>*prologue_conformed\<close>.
\<close>

record emitted =
  ok :: bool
  pushed :: "u8 list"
  skipped :: nat
  conformed :: bool

definition emit :: "u8 list \<Rightarrow> emitted" where
  "emit bs = \<lparr>ok = True, pushed = bs, skipped = 0, conformed = False\<rparr>"

definition give_up :: "u8 list \<Rightarrow> emitted" where
  "give_up bs = \<lparr>ok = False, pushed = bs, skipped = 0, conformed = False\<rparr>"

definition encode_vsp_offset :: "int \<Rightarrow> u8 list" where
  "encode_vsp_offset imm =
     (if - IMM 6 \<le> imm \<and> imm \<le> IMM 6
      then [FILL_WITH_IMM (if imm > 0 then 0 else 0x40) imm 6]
      else VSP_OFFSET_SLEB128_OP # EncodeSLEB128 imm 0)"

text \<open>
  \<open>rk = [vsp - imm]\<close>: one byte with a 4-bit immediate, or the operation's SLEB128 form.  The
  same branch serves R7, R10, R11, X20, X28, X29 and LR.
\<close>

definition encode_reg_offset :: "int \<Rightarrow> u8 \<Rightarrow> int \<Rightarrow> u8 list" where
  "encode_reg_offset prefix sleb_op imm =
     (if 0 \<le> imm \<and> imm \<le> IMM 4 then [FILL_WITH_IMM prefix imm 4]
      else sleb_op # EncodeSLEB128 imm 0)"

section \<open>The 32-bit encoder\<close>

text \<open>
  The look-ahead for a prologue: after \<open>vsp = r7\<close> (or \<open>r11\<close>) come \<open>vsp += k\<close>,
  \<open>lr = [vsp - (k - 4)]\<close> and \<open>r7 = [vsp - k]\<close>.  The code compares \<open>k\<close> with
  itself only, never with 8.
\<close>

definition have_prologue32 :: "QutInstruction \<Rightarrow> u64 list \<Rightarrow> bool" where
  "have_prologue32 op rest =
     (case rest of
        n0 # n1 # n2 # _ \<Rightarrow>
          instr_op n0 = Some VSP_OFFSET
          \<and> (instr_op n1 = Some LR_OFFSET \<and> instr_imm n1 = instr_imm n0 - 4)
          \<and> ((op = VSP_SET_BY_R7 \<and> instr_op n2 = Some R7_OFFSET
               \<or> op = VSP_SET_BY_R11 \<and> instr_op n2 = Some R11_OFFSET)
              \<and> instr_imm n2 = instr_imm n0)
      | _ \<Rightarrow> False)"

definition encode_vsp_set_by_fp32 :: "QutInstruction \<Rightarrow> int \<Rightarrow> u64 list \<Rightarrow> emitted" where
  "encode_vsp_set_by_fp32 op imm rest =
     (if imm \<noteq> 0
      then (let byte = (if op = VSP_SET_BY_R7 then VSP_SET_BY_R7_IMM_OP else VSP_SET_BY_R11_IMM_OP)
            in if imm > 0 \<and> imm \<le> IMM 7
               then emit [byte, FILL_WITH_IMM 0 imm 7]
               else give_up [byte])
      else if have_prologue32 op rest
      then \<lparr>ok = True,
             pushed = [if op = VSP_SET_BY_R7 then VSP_SET_BY_R7_PROLOGUE_OP
                       else VSP_SET_BY_R11_PROLOGUE_OP],
             skipped = 3, conformed = True\<rparr>
      else emit [if op = VSP_SET_BY_R7 then VSP_SET_BY_R7_OP else VSP_SET_BY_R11_OP])"

definition encode_op32 :: "QutInstruction option \<Rightarrow> int \<Rightarrow> u64 list \<Rightarrow> emitted" where
  "encode_op32 op imm rest =
     (case op of
        Some VSP_OFFSET \<Rightarrow> emit (encode_vsp_offset imm)
      | Some VSP_SET_BY_R7 \<Rightarrow> encode_vsp_set_by_fp32 VSP_SET_BY_R7 imm rest
      | Some VSP_SET_BY_R11 \<Rightarrow> encode_vsp_set_by_fp32 VSP_SET_BY_R11 imm rest
      | Some VSP_SET_BY_SP \<Rightarrow> emit [VSP_SET_BY_SP_OP]
      | Some VSP_SET_BY_JNI_SP \<Rightarrow> emit [VSP_SET_BY_JNI_SP_OP, FILL_WITH_IMM 0 imm 7]
      | Some VSP_SET_IMM \<Rightarrow> emit (VSP_SET_IMM_OP # EncodeSLEB128 imm 0)
      | Some DEX_PC_SET \<Rightarrow> emit [DEX_PC_SET_OP]
      | Some END_OF_INS \<Rightarrow> emit [END_OF_INS_OP]
      | Some FIN \<Rightarrow> emit [FINISH_OP]
      | Some R4_OFFSET \<Rightarrow>
          (if 0 \<le> imm \<and> imm \<le> IMM 4 then emit [FILL_WITH_IMM R4_OFFSET_OP_PREFIX imm 4]
           else give_up [])
      | Some R7_OFFSET \<Rightarrow> emit (encode_reg_offset R7_OFFSET_OP_PREFIX R7_OFFSET_SLEB128_OP imm)
      | Some R10_OFFSET \<Rightarrow> emit (encode_reg_offset R10_OFFSET_OP_PREFIX R10_OFFSET_SLEB128_OP imm)
      | Some R11_OFFSET \<Rightarrow> emit (encode_reg_offset R11_OFFSET_OP_PREFIX R11_OFFSET_SLEB128_OP imm)
      | Some LR_OFFSET \<Rightarrow> emit (encode_reg_offset LR_OFFSET_OP_PREFIX LR_OFFSET_SLEB128_OP imm)
      | Some SP_OFFSET \<Rightarrow> emit (SP_OFFSET_SLEB128_OP # EncodeSLEB128 imm 0)
      | Some PC_OFFSET \<Rightarrow> emit (PC_OFFSET_SLEB128_OP # EncodeSLEB128 imm 0)
      | _ \<Rightarrow> emit [])"

text \<open>
  The loop over the vector.  The result: the return value, the bytes in \<open>encoded\<close> (also when
  the loop gives up half way), and \<open>*prologue_conformed\<close>.
\<close>

function QuickenInstructionsEncode32 :: "u64 list \<Rightarrow> u8 list \<Rightarrow> bool \<Rightarrow> bool \<times> u8 list \<times> bool" where
  "QuickenInstructionsEncode32 [] encoded prologue_conformed = (True, encoded, prologue_conformed)"
| "QuickenInstructionsEncode32 (instruction # rest) encoded prologue_conformed =
     (let imm = instr_imm instruction
      in if imm AND 3 \<noteq> 0 then (False, encoded, prologue_conformed)
         else (let e = encode_op32 (instr_op instruction) imm rest;
                   encoded' = encoded @ pushed e;
                   conformed' = (prologue_conformed \<or> conformed e)
               in if ok e
                  then QuickenInstructionsEncode32 (drop (skipped e) rest) encoded' conformed'
                  else (False, encoded', conformed')))"
  by pat_completeness auto
termination
  by (relation "measure (\<lambda>(is, e, p). length is)") auto

section \<open>The 64-bit encoder\<close>

definition have_prologue64 :: "u64 list \<Rightarrow> bool" where
  "have_prologue64 rest =
     (case rest of
        n0 # n1 # n2 # _ \<Rightarrow>
          instr_op n0 = Some VSP_OFFSET
          \<and> (instr_op n1 = Some LR_OFFSET \<and> instr_imm n1 = instr_imm n0 - 8)
          \<and> (instr_op n2 = Some X29_OFFSET \<and> instr_imm n2 = instr_imm n0)
      | _ \<Rightarrow> False)"

definition encode_vsp_set_by_x29 :: "int \<Rightarrow> u64 list \<Rightarrow> emitted" where
  "encode_vsp_set_by_x29 imm rest =
     (if imm \<noteq> 0
      then (if imm > 0 \<and> imm \<le> IMM 7
            then emit [VSP_SET_BY_X29_IMM_OP, FILL_WITH_IMM 0 imm 7]
            else emit (VSP_SET_BY_X29_OFFSET_OP # EncodeSLEB128 imm 0))
      else if have_prologue64 rest
      then \<lparr>ok = True, pushed = [VSP_SET_BY_X29_PROLOGUE_OP], skipped = 3, conformed = False\<rparr>
      else emit [VSP_SET_BY_X29_OP])"

definition encode_op64 :: "QutInstruction option \<Rightarrow> int \<Rightarrow> u64 list \<Rightarrow> emitted" where
  "encode_op64 op imm rest =
     (case op of
        Some VSP_OFFSET \<Rightarrow> emit (encode_vsp_offset imm)
      | Some VSP_SET_BY_X29 \<Rightarrow> encode_vsp_set_by_x29 imm rest
      | Some VSP_SET_BY_JNI_SP \<Rightarrow>
          (if imm \<le> IMM 7 then emit [VSP_SET_BY_JNI_SP_OP, FILL_WITH_IMM 0 imm 7]
           else give_up [VSP_SET_BY_JNI_SP_OP])
      | Some VSP_SET_IMM \<Rightarrow> emit (VSP_SET_IMM_OP # EncodeSLEB128 imm 0)
      | Some DEX_PC_SET \<Rightarrow> emit [DEX_PC_SET_OP]
      | Some END_OF_INS \<Rightarrow> emit [END_OF_INS_OP]
      | Some FIN \<Rightarrow> emit [FINISH_OP]
      | Some X20_OFFSET \<Rightarrow> emit (encode_reg_offset X20_OFFSET_OP_PREFIX X20_OFFSET_SLEB128_OP imm)
      | Some X29_OFFSET \<Rightarrow> emit (encode_reg_offset X29_OFFSET_OP_PREFIX X29_OFFSET_SLEB128_OP imm)
      | Some X28_OFFSET \<Rightarrow> emit (encode_reg_offset X28_OFFSET_OP_PREFIX X28_OFFSET_SLEB128_OP imm)
      | Some LR_OFFSET \<Rightarrow> emit (encode_reg_offset LR_OFFSET_OP_PREFIX LR_OFFSET_SLEB128_OP imm)
      | Some SP_OFFSET \<Rightarrow> emit (SP_OFFSET_SLEB128_OP # EncodeSLEB128 imm 0)
      | Some PC_OFFSET \<Rightarrow> emit (PC_OFFSET_SLEB128_OP # EncodeSLEB128 imm 0)
      | _ \<Rightarrow> emit [])"

function QuickenInstructionsEncode64 :: "u64 list \<Rightarrow> u8 list \<Rightarrow> bool \<times> u8 list" where
  "QuickenInstructionsEncode64 [] encoded = (True, encoded)"
| "QuickenInstructionsEncode64 (instruction # rest) encoded =
     (let imm = instr_imm instruction
      in if imm AND 3 \<noteq> 0 then (False, encoded)
         else (let e = encode_op64 (instr_op instruction) imm rest;
                   encoded' = encoded @ pushed e
               in if ok e
                  then QuickenInstructionsEncode64 (drop (skipped e) rest) encoded'
                  else (False, encoded')))"
  by pat_completeness auto
termination
  by (relation "measure (\<lambda>(is, e). length is)") auto

text \<open>The entry point: \<open>arm\<close> is the build's \<open>#ifdef __arm__\<close>.\<close>

definition QuickenInstructionsEncode :: "bool \<Rightarrow> u64 list \<Rightarrow> u8 list \<Rightarrow> bool \<Rightarrow> bool \<times> u8 list \<times> bool" where
  "QuickenInstructionsEncode arm instructions encoded prologue_conformed =
     (if arm then QuickenInstructionsEncode32 instructions encoded prologue_conformed
      else (case QuickenInstructionsEncode64 instructions encoded of
              (r, bs) \<Rightarrow> (r, bs, prologue_conformed)))"



end
