(* ===== verification/Quicken_Table.thy ===== *)
theory Quicken_Table
  imports Qut_Instructions
begin

text \<open>
  The evaluator of the unwind table, \<^verbatim>\<open>QuickenTable.cpp\<close>: the byte cursor over table
  rows, the reads from the stack being unwound, \<open>Decode32\<close>, \<open>Decode64\<close> and
  \<open>Eval\<close>.  The cursor is a provider of the locale \<open>byte_source\<close>.
\<close>

section \<open>State\<close>

datatype QutErrorCode =
    QUT_ERROR_NONE | QUT_ERROR_UNWIND_INFO | QUT_ERROR_INVALID_MAP
  | QUT_ERROR_MAX_FRAMES_EXCEEDED | QUT_ERROR_REPEATED_FRAME | QUT_ERROR_INVALID_ELF
  | QUT_ERROR_QUT_SECTION_INVALID | QUT_ERROR_INVALID_QUT_INSTR | QUT_ERROR_MAPS_IS_NULL
  | QUT_ERROR_CONTEXT_IS_NULL | QUT_ERROR_REQUEST_QUT_FILE_FAILED
  | QUT_ERROR_REQUEST_QUT_INMEM_FAILED | QUT_ERROR_READ_STACK_FAILED
  | QUT_ERROR_TABLE_INDEX_OVERFLOW

text \<open>
  The registers are an array of seven words; the macros of \<^verbatim>\<open>include/MinimalRegs.h\<close> name its
  slots, the first four differently on the two architectures.
\<close>

abbreviation (input) R4 :: nat where "R4 \<equiv> 0"
abbreviation (input) R7 :: nat where "R7 \<equiv> 1"
abbreviation (input) R10 :: nat where "R10 \<equiv> 2"
abbreviation (input) R11 :: nat where "R11 \<equiv> 3"
abbreviation (input) R20 :: nat where "R20 \<equiv> 1"
abbreviation (input) R28 :: nat where "R28 \<equiv> 2"
abbreviation (input) R29 :: nat where "R29 \<equiv> 3"
abbreviation (input) SP :: nat where "SP \<equiv> 4"
abbreviation (input) PC :: nat where "PC \<equiv> 5"
abbreviation (input) LR :: nat where "LR \<equiv> 6"

text \<open>
  What the evaluator writes: \<open>cfa_\<close>, \<open>dex_pc_\<close>, \<open>pc_set_\<close> and the register array
  that \<open>regs_\<close> points to.  \<open>'v\<close> is \<open>uptr\<close>: \<open>u32\<close> or \<open>u64\<close>.
\<close>

record 'v qtable =
  cfa :: 'v
  dexpc :: 'v
  pc_set :: bool
  regs :: "nat \<Rightarrow> 'v"

text \<open>
  What it only reads: the bounds in \<open>step_context_\<close> and the bytes of the process memory.  A word is read through
  a pointer, \<open>*((uptr *) addr)\<close>, so the test of the address lets a read pass that begins at \<open>stack_top\<close>.
\<close>

record 'v stack_env =
  stack_bottom :: 'v
  stack_top :: 'v
  memory :: "'v \<Rightarrow> u8"

definition stack_word :: "'w::len word stack_env \<Rightarrow> 'w word \<Rightarrow> 'w word" where
  "stack_word env addr = le_word (map (\<lambda>i. memory env (addr + of_nat i)) [0..<LENGTH('w) div 8])"

definition ReadStack :: "'w::len word stack_env \<Rightarrow> 'w word \<Rightarrow> 'w word option" where
  "ReadStack env addr =
     (if addr > stack_top env \<or> addr < stack_bottom env then None else Some (stack_word env addr))"

text \<open>The memory that holds a given word at every aligned address, for the examples.\<close>

definition holding_words :: "('w::len word \<Rightarrow> 'w word) \<Rightarrow> 'w word \<Rightarrow> u8" where
  "holding_words f a =
     (let i = unat a mod (LENGTH('w) div 8) in ucast (drop_bit (8 * i) (f (a - of_nat i))))"

lemma stack_word_holding_words:
  fixes a :: "'w::len word"
  assumes "unat a mod (LENGTH('w) div 8) = 0" "(LENGTH('w) div 8) dvd 2 ^ LENGTH('w)" "LENGTH('w) div 8 * 8 = LENGTH('w)"
    and "memory env = holding_words f"
  shows "stack_word env a = f a"
proof -
  let ?n = "LENGTH('w) div 8"
  have n: "0 < ?n" using assms(3) len_gt_0 [where 'a = 'w] by (intro gr0I) simp
  have room: "unat a + ?n \<le> 2 ^ LENGTH('w)"
  proof -
    obtain k m where k: "unat a = ?n * k" and m: "2 ^ LENGTH('w) = ?n * m"
      using assms(1,2) by (auto simp: mod_eq_0_iff_dvd dvd_def)
    have "unat a < 2 ^ LENGTH('w)" by (rule unsigned_less)
    then have "k < m" unfolding k m using n by simp
    then have "?n * (k + 1) \<le> ?n * m" by (intro mult_le_mono2) simp
    then show ?thesis unfolding k m by simp
  qed
  have byte: "memory env (a + of_nat i) = ucast (drop_bit (8 * i) (f a))" if "i < ?n" for i
  proof -
    have "unat (of_nat i :: 'w word) = i"
      using that room by (simp add: unat_of_nat take_bit_nat_eq_self)
    then have "unat (a + of_nat i) = unat a + i"
      using that room by (simp add: unat_word_ariths)
    then have "unat (a + of_nat i) mod ?n = i" using that assms(1) by (metis add_0 mod_add_left_eq mod_less)
    then show ?thesis by (simp add: assms(4) holding_words_def Let_def)
  qed
  have "stack_word env a = le_word (le_bytes ?n (f a))"
    unfolding stack_word_def le_bytes_def by (intro arg_cong [of _ _ le_word] map_cong) (simp_all add: byte)
  also have "\<dots> = f a"
    using assms(3) by (simp add: le_word_le_bytes take_bit_word_eq_self mult.commute)
  finally show ?thesis .
qed

lemma stack_word_sample [simp]:
  "unat (a::u32) mod 4 = 0 \<Longrightarrow> stack_word \<lparr>stack_bottom = l, stack_top = h, memory = holding_words f\<rparr> a = f a"
  "unat (b::u64) mod 8 = 0 \<Longrightarrow> stack_word \<lparr>stack_bottom = l', stack_top = h', memory = holding_words g\<rparr> b = g b"
  by (simp_all add: stack_word_holding_words)

section \<open>The byte cursor\<close>

text \<open>
  A cursor \<open>(j, i)\<close> points to byte \<open>j\<close> of row \<open>i\<close>; bytes are read from the most
  significant one down.  \<open>row\<close> is \<open>QUT_TBL_ROW_SIZE\<close>, the index of the most significant
  byte.  The list holds the \<open>amount\<close> rows; the macro does not check the index, so a read at
  \<open>i \<ge> amount\<close> leaves the entry, which is \<open>None\<close> here.
\<close>

definition QUT_TBL_ROW_SIZE :: "bool \<Rightarrow> nat" where
  "QUT_TBL_ROW_SIZE arm = (if arm then 3 else 7)"

definition row_byte :: "nat \<Rightarrow> 'w::len word \<Rightarrow> u8" where
  "row_byte j w = ucast (drop_bit (8 * j) w AND 0xff)"

definition IterateNextByteIdx :: "nat \<Rightarrow> nat \<times> nat \<Rightarrow> nat \<times> nat" where
  "IterateNextByteIdx row c = (case c of (j, i) \<Rightarrow> if j = 0 then (row, Suc i) else (j - 1, i))"

definition ReadByte :: "nat \<Rightarrow> 'w::len word list \<Rightarrow> nat \<times> nat \<Rightarrow> (u8 \<times> nat \<times> nat) option" where
  "ReadByte row instructions c =
     (case c of (j, i) \<Rightarrow>
        if i < length instructions
        then Some (row_byte j (instructions ! i), IterateNextByteIdx row c) else None)"

text \<open>The bytes from a cursor to the end of the entry.\<close>

primrec word_bytes :: "nat \<Rightarrow> 'w::len word \<Rightarrow> u8 list" where
  "word_bytes 0 w = [row_byte 0 w]"
| "word_bytes (Suc j) w = row_byte (Suc j) w # word_bytes j w"

definition stream :: "nat \<Rightarrow> 'w::len word list \<Rightarrow> nat \<times> nat \<Rightarrow> u8 list" where
  "stream row instructions c =
     (case c of (j, i) \<Rightarrow>
        if i < length instructions
        then word_bytes j (instructions ! i)
             @ concat (map (word_bytes row) (drop (Suc i) instructions))
        else [])"

lemma length_word_bytes [simp]: "length (word_bytes j w) = Suc j"
  by (induction j) simp_all

lemma word_bytes_nonempty [simp]: "word_bytes j w \<noteq> []"
  by (cases j) simp_all

lemma word_bytes_map: "word_bytes j w = map (\<lambda>i. row_byte (j - i) w) [0..<Suc j]"
proof (induction j)
  case (Suc j)
  have "[0..<Suc (Suc j)] = 0 # map Suc [0..<Suc j]"
    by (metis map_Suc_upt upt_conv_Cons zero_less_Suc)
  then show ?case using Suc by (simp del: upt_Suc)
qed simp

lemma stream_Nil_iff: "stream row is (j, i) = [] \<longleftrightarrow> length is \<le> i"
  by (simp add: stream_def)

lemma stream_row_start:
  "stream row is (row, i) = concat (map (word_bytes row) (drop i is))"
  by (simp add: stream_def Cons_nth_drop_Suc flip: concat.simps(2) list.map(2))

interpretation rows: byte_source "ReadByte row instructions" "stream row instructions"
  for row :: nat and instructions :: "'w::len word list"
proof (unfold_locales, goal_cases)
  case (1 c)
  then show ?case by (auto simp: ReadByte_def stream_def split: prod.splits if_splits)
next
  case (2 c b bs)
  obtain j i where c: "c = (j, i)" by (cases c)
  from 2 c have i: "i < length instructions" by (auto simp: stream_def split: if_splits)
  show ?case
  proof (cases j)
    case 0
    then show ?thesis
      using 2 c i stream_row_start [of row instructions "Suc i"]
      by (auto simp: ReadByte_def IterateNextByteIdx_def stream_def)
  next
    case (Suc k)
    then show ?thesis
      using 2 c i by (auto simp: ReadByte_def IterateNextByteIdx_def stream_def)
  qed
qed

section \<open>One operation\<close>

text \<open>
  A pass of the decoding loop: \<open>break\<close> out of the switch and go on, \<open>return\<close> an error code,
  or leave the defined behaviour of the code.  The table state goes along in the first two.
\<close>

datatype 'q outcome = Next "nat \<times> nat" 'q | Return QutErrorCode 'q | Undefined fault

text \<open>
  The macro \<open>DecodeSLEB128\<close>: its first read is unchecked, the later ones stop at the end of the
  entry and then the function returns \<open>QUT_ERROR_TABLE_INDEX_OVERFLOW\<close>.  From the eleventh byte on
  the shift of the 64-bit value is undefined.
\<close>

definition DecodeSLEB128 ::
  "nat \<Rightarrow> 'w::len word list \<Rightarrow> nat \<times> nat \<Rightarrow> 'q \<Rightarrow> (u64 \<Rightarrow> nat \<times> nat \<Rightarrow> 'q outcome) \<Rightarrow> 'q outcome" where
  "DecodeSLEB128 row instructions c q k =
     (if ReadByte row instructions c = None then Undefined ReadPastEnd
      else (case leb128_loop (ReadByte row instructions) sleb_bad 0 0 c of
              None \<Rightarrow> Return QUT_ERROR_TABLE_INDEX_OVERFLOW q
            | Some (Inl f) \<Rightarrow> Undefined f
            | Some (Inr (value, Shift, Byte, c')) \<Rightarrow> k (sleb_extend value Shift Byte) c'))"

text \<open>The unchecked read of a one-byte immediate.\<close>

definition read_imm7 ::
  "nat \<Rightarrow> 'w::len word list \<Rightarrow> nat \<times> nat \<Rightarrow> ('w word \<Rightarrow> nat \<times> nat \<Rightarrow> 'q outcome) \<Rightarrow> 'q outcome" where
  "read_imm7 row instructions c k =
     (case ReadByte row instructions c of
        None \<Rightarrow> Undefined ReadPastEnd
      | Some (byte, c') \<Rightarrow> k (push_bit 2 (ucast (byte AND 0x7f))) c')"

definition load_reg ::
  "'w::len word stack_env \<Rightarrow> 'w word \<Rightarrow> nat \<Rightarrow> nat \<times> nat \<Rightarrow> 'w word qtable \<Rightarrow> 'w word qtable outcome" where
  "load_reg env addr r c q =
     (case ReadStack env addr of
        None \<Rightarrow> Return QUT_ERROR_READ_STACK_FAILED q
      | Some v \<Rightarrow> Next c (q\<lparr>regs := (regs q)(r := v)\<rparr>))"

text \<open>\<open>vsp = r + 2n, lr = [vsp - n], r = [vsp - 2n]\<close> for a word size \<open>n\<close>.\<close>

definition load_prologue ::
  "'w::len word stack_env \<Rightarrow> 'w word \<Rightarrow> nat \<Rightarrow> nat \<times> nat \<Rightarrow> 'w word qtable \<Rightarrow> 'w word qtable outcome" where
  "load_prologue env n r c q =
     (let q1 = q\<lparr>cfa := regs q r + (n + n)\<rparr>
      in case load_reg env (cfa q1 - n) LR c q1 of
           Next c2 q2 \<Rightarrow> load_reg env (cfa q2 - (n + n)) r c2 q2
         | other \<Rightarrow> other)"

definition imm4 :: "u8 \<Rightarrow> 'w::len word" where
  "imm4 byte = push_bit 2 (ucast (byte AND 0xf))"

definition set_cfa :: "'v \<Rightarrow> nat \<times> nat \<Rightarrow> 'v qtable \<Rightarrow> 'v qtable outcome" where
  "set_cfa v c q = Next c (q\<lparr>cfa := v\<rparr>)"

definition finish :: "'w::len word qtable \<Rightarrow> 'w word qtable outcome" where
  "finish q = Return QUT_ERROR_NONE (q\<lparr>regs := (regs q)(PC := 0, LR := 0)\<rparr>)"

section \<open>\<open>Decode32\<close>\<close>

definition decode32_10 ::
  "u32 stack_env \<Rightarrow> u32 list \<Rightarrow> u8 \<Rightarrow> nat \<times> nat \<Rightarrow> u32 qtable \<Rightarrow> u32 qtable outcome" where
  "decode32_10 env instructions byte c q =
     (if byte = VSP_SET_BY_R7_OP then set_cfa (regs q R7) c q
      else if byte = VSP_SET_BY_R7_PROLOGUE_OP then load_prologue env 4 R7 c q
      else if byte = VSP_SET_BY_R11_OP then set_cfa (regs q R11) c q
      else if byte = VSP_SET_BY_R11_PROLOGUE_OP then load_prologue env 4 R11 c q
      else if byte = VSP_SET_BY_SP_OP then set_cfa (regs q SP) c q
      else if byte = VSP_SET_BY_JNI_SP_OP then
        read_imm7 3 instructions c (\<lambda>n c'. set_cfa (regs q R10 + n) c' q)
      else if byte = VSP_SET_IMM_OP then
        DecodeSLEB128 3 instructions c q (\<lambda>value c'. set_cfa (ucast value) c' q)
      else if byte = VSP_SET_BY_R7_IMM_OP then
        read_imm7 3 instructions c (\<lambda>n c'. set_cfa (regs q R7 + n) c' q)
      else if byte = VSP_SET_BY_R11_IMM_OP then
        read_imm7 3 instructions c (\<lambda>n c'. set_cfa (regs q R11 + n) c' q)
      else if byte = DEX_PC_SET_OP then Next c (q\<lparr>dexpc := regs q R4\<rparr>)
      else if byte = END_OF_INS_OP then Return QUT_ERROR_NONE q
      else if byte = FINISH_OP then finish q
      else if byte AND 0xf0 = 0xA0 then load_reg env (cfa q - imm4 byte) R4 c q
      else if byte AND 0xf0 = 0xB0 then load_reg env (cfa q - imm4 byte) R7 c q
      else Next c q)"

definition decode32_11 ::
  "u32 stack_env \<Rightarrow> u32 list \<Rightarrow> u8 \<Rightarrow> nat \<times> nat \<Rightarrow> u32 qtable \<Rightarrow> u32 qtable outcome" where
  "decode32_11 env instructions byte c q =
     (if byte AND 0xf0 = 0xC0 then load_reg env (cfa q - imm4 byte) R10 c q
      else if byte AND 0xf0 = 0xD0 then load_reg env (cfa q - imm4 byte) R11 c q
      else if byte AND 0xf0 = 0xE0 then load_reg env (cfa q - imm4 byte) LR c q
      else if byte = R7_OFFSET_SLEB128_OP then
        DecodeSLEB128 3 instructions c q (\<lambda>value c'. load_reg env (cfa q - ucast value) R7 c' q)
      else if byte = R10_OFFSET_SLEB128_OP then
        DecodeSLEB128 3 instructions c q (\<lambda>value c'. load_reg env (cfa q - ucast value) R10 c' q)
      else if byte = R11_OFFSET_SLEB128_OP then
        DecodeSLEB128 3 instructions c q (\<lambda>value c'. load_reg env (cfa q - ucast value) R11 c' q)
      else if byte = SP_OFFSET_SLEB128_OP then
        DecodeSLEB128 3 instructions c q (\<lambda>value c'. load_reg env (cfa q - ucast value) SP c' q)
      else if byte = LR_OFFSET_SLEB128_OP then
        DecodeSLEB128 3 instructions c q (\<lambda>value c'. load_reg env (cfa q - ucast value) LR c' q)
      else if byte = PC_OFFSET_SLEB128_OP then
        DecodeSLEB128 3 instructions c q (\<lambda>value c'.
          case load_reg env (cfa q - ucast value) PC c' q of
            Next c2 q2 \<Rightarrow> Next c2 (q2\<lparr>pc_set := True\<rparr>)
          | other \<Rightarrow> other)
      else if byte = VSP_OFFSET_SLEB128_OP then
        DecodeSLEB128 3 instructions c q (\<lambda>value c'. set_cfa (cfa q + ucast value) c' q)
      else Return QUT_ERROR_INVALID_QUT_INSTR q)"

text \<open>The outer switch on the two top bits.\<close>

definition decode32_op ::
  "u32 stack_env \<Rightarrow> u32 list \<Rightarrow> u8 \<Rightarrow> nat \<times> nat \<Rightarrow> u32 qtable \<Rightarrow> u32 qtable outcome" where
  "decode32_op env instructions byte c q =
     (if drop_bit 6 byte = 0 then set_cfa (cfa q + push_bit 2 (ucast byte)) c q
      else if drop_bit 6 byte = 1 then set_cfa (cfa q - ucast (push_bit 2 byte :: u8)) c q
      else if drop_bit 6 byte = 2 then decode32_10 env instructions byte c q
      else decode32_11 env instructions byte c q)"

section \<open>No operation moves the cursor backwards\<close>

definition advances :: "nat \<Rightarrow> 'w::len word list \<Rightarrow> nat \<times> nat \<Rightarrow> 'q outcome \<Rightarrow> bool" where
  "advances row instructions c out \<longleftrightarrow>
     (\<forall>c' q'. out = Next c' q' \<longrightarrow>
        length (stream row instructions c') \<le> length (stream row instructions c))"

named_theorems advance \<open>cursor progress of the operations\<close>

lemma ReadByte_stream:
  "ReadByte row instructions c = Some (b, c') \<Longrightarrow> stream row instructions c = b # stream row instructions c'"
  using rows.get_cons [of row instructions c] rows.get_empty [of row instructions c]
  by (cases "stream row instructions c") fastforce+

lemma ReadByte_None_iff: "ReadByte row instructions c = None \<longleftrightarrow> stream row instructions c = []"
  using rows.get_cons [of row instructions c] rows.get_empty [of row instructions c]
  by (cases "stream row instructions c") auto

lemma leb_list_shrinks: "leb_list bad acc sh bs = Some (Inr (v, sh', b, rest)) \<Longrightarrow> length rest < length bs"
  by (induction bad acc sh bs rule: leb_list.induct) (force simp: Let_def split: if_splits option.splits)+

lemma advances_Return [advance]: "advances row is c (Return e q)"
  and advances_Undefined [advance]: "advances row is c (Undefined f)"
  and advances_Next [advance]: "advances row is c (Next c q)"
  and advances_set_cfa [advance]: "advances row is c (set_cfa v c q)"
  by (simp_all add: advances_def set_cfa_def)

lemma advances_load_reg [advance]: "advances row is c (load_reg env a r c q)"
  by (simp add: advances_def load_reg_def split: option.splits)

lemma advances_load_prologue [advance]: "advances row is c (load_prologue env n r c q)"
  by (auto simp: advances_def load_prologue_def load_reg_def Let_def split: option.splits)

lemma advances_finish [advance]: "advances row is c (finish q)"
  by (simp add: advances_def finish_def)

lemma advances_load_then [advance]:
  "advances row is c (case load_reg env a r c q of Next c2 q2 \<Rightarrow> Next c2 (f q2) | other \<Rightarrow> other)"
  by (auto simp: advances_def load_reg_def split: option.splits)

lemma advances_read_imm7 [advance]:
  assumes "\<And>n c'. advances row is c' (k n c')"
  shows "advances row is c (read_imm7 row is c k)"
  using assms
  by (fastforce simp: advances_def read_imm7_def split: option.splits dest: ReadByte_stream)

lemma advances_DecodeSLEB128 [advance]:
  assumes "\<And>v c'. advances row is c' (k v c')"
  shows "advances row is c (DecodeSLEB128 row is c q k)"
  unfolding advances_def
proof (intro allI impI)
  fix c' q' assume *: "DecodeSLEB128 row is c q k = Next c' q'"
  then obtain v sh b c1 where loop: "leb128_loop (ReadByte row is) sleb_bad (0::u64) 0 c = Some (Inr (v, sh, b, c1))"
    and k: "k (sleb_extend v sh b) c1 = Next c' q'"
    by (auto simp: DecodeSLEB128_def split: if_splits option.splits sum.splits)
  from leb_list_shrinks [OF rows.loop_result_stream [OF loop]] assms k
  show "length (stream row is c') \<le> length (stream row is c)"
    unfolding advances_def by (meson le_trans nat_less_le)
qed

lemma advances_decode32_op: "advances 3 is c (decode32_op env is byte c q)"
  unfolding decode32_op_def decode32_10_def decode32_11_def
  by (auto intro!: advance)

lemma decode_step_shrinks:
  assumes "ReadByte row is c = Some (byte, c1)" "advances row is c1 out" "out = Next c2 q2"
  shows "length (stream row is c2) < length (stream row is c)"
  using assms by (auto simp: advances_def dest!: ReadByte_stream)

section \<open>The decoding loop, 32 bits\<close>

text \<open>
  \<open>while (i < amount)\<close>: the loop ends when the cursor has left the entry, which is when
  \<open>ReadByte\<close> has nothing to hand out.  The result is the error code with the final state, or the
  fault in which the run left the defined behaviour.
\<close>

function Decode32_loop ::
  "u32 stack_env \<Rightarrow> u32 list \<Rightarrow> nat \<times> nat \<Rightarrow> u32 qtable \<Rightarrow> fault + (QutErrorCode \<times> u32 qtable)" where
  "Decode32_loop env instructions c q =
     (case ReadByte 3 instructions c of
        None \<Rightarrow> Inr (QUT_ERROR_NONE, q)
      | Some (byte, c1) \<Rightarrow>
          (case decode32_op env instructions byte c1 q of
             Next c2 q2 \<Rightarrow> Decode32_loop env instructions c2 q2
           | Return e q2 \<Rightarrow> Inr (e, q2)
           | Undefined f \<Rightarrow> Inl f))"
  by pat_completeness auto
termination
  by (relation "measure (\<lambda>(env, is, c, q). length (stream 3 is c))")
    (auto intro: decode_step_shrinks advances_decode32_op)

declare Decode32_loop.simps [simp del]

definition Decode32 ::
  "u32 stack_env \<Rightarrow> u32 list \<Rightarrow> nat \<Rightarrow> u32 qtable \<Rightarrow> fault + (QutErrorCode \<times> u32 qtable)" where
  "Decode32 env instructions start_pos q = Decode32_loop env instructions (start_pos, 0) q"

section \<open>\<open>Decode64\<close>\<close>

text \<open>
  The 64-bit build.  The branch for \<open>vsp = x29 + SLEB128\<close> has no \<open>break\<close>: it falls through
  into the one that sets \<open>dex_pc_\<close>.
\<close>

definition decode64_10 ::
  "u64 stack_env \<Rightarrow> u64 list \<Rightarrow> u8 \<Rightarrow> nat \<times> nat \<Rightarrow> u64 qtable \<Rightarrow> u64 qtable outcome" where
  "decode64_10 env instructions byte c q =
     (if byte = VSP_SET_BY_X29_OP then set_cfa (regs q R29) c q
      else if byte = VSP_SET_BY_X29_PROLOGUE_OP then load_prologue env 8 R29 c q
      else if byte = VSP_SET_BY_SP_OP then set_cfa (regs q SP) c q
      else if byte = VSP_SET_BY_JNI_SP_OP then
        read_imm7 7 instructions c (\<lambda>n c'. set_cfa (regs q R28 + n) c' q)
      else if byte = VSP_SET_IMM_OP then
        DecodeSLEB128 7 instructions c q (\<lambda>value c'. set_cfa value c' q)
      else if byte = VSP_SET_BY_X29_IMM_OP then
        read_imm7 7 instructions c (\<lambda>n c'. set_cfa (regs q R29 + n) c' q)
      else if byte = VSP_SET_BY_X29_OFFSET_OP then
        DecodeSLEB128 7 instructions c q (\<lambda>value c'.
          Next c' (q\<lparr>cfa := regs q R29 + value, dexpc := regs q R20\<rparr>))
      else if byte = DEX_PC_SET_OP then Next c (q\<lparr>dexpc := regs q R20\<rparr>)
      else if byte = END_OF_INS_OP then Return QUT_ERROR_NONE q
      else if byte = FINISH_OP then finish q
      else if byte AND 0xf0 = 0xB0 then load_reg env (cfa q - imm4 byte) R20 c q
      else Next c q)"

definition decode64_11 ::
  "u64 stack_env \<Rightarrow> u64 list \<Rightarrow> u8 \<Rightarrow> nat \<times> nat \<Rightarrow> u64 qtable \<Rightarrow> u64 qtable outcome" where
  "decode64_11 env instructions byte c q =
     (if byte AND 0xf0 = 0xC0 then load_reg env (cfa q - imm4 byte) R28 c q
      else if byte AND 0xf0 = 0xD0 then load_reg env (cfa q - imm4 byte) R29 c q
      else if byte AND 0xf0 = 0xE0 then load_reg env (cfa q - imm4 byte) LR c q
      else if byte = X20_OFFSET_SLEB128_OP then
        DecodeSLEB128 7 instructions c q (\<lambda>value c'. load_reg env (cfa q - value) R20 c' q)
      else if byte = X28_OFFSET_SLEB128_OP then
        DecodeSLEB128 7 instructions c q (\<lambda>value c'. load_reg env (cfa q - value) R28 c' q)
      else if byte = X29_OFFSET_SLEB128_OP then
        DecodeSLEB128 7 instructions c q (\<lambda>value c'.
          case load_reg env (cfa q - value) R29 c' q of
            Next c2 q2 \<Rightarrow> if regs q2 R29 = 0 then Return QUT_ERROR_NONE q2 else Next c2 q2
          | other \<Rightarrow> other)
      else if byte = SP_OFFSET_SLEB128_OP then
        DecodeSLEB128 7 instructions c q (\<lambda>value c'. load_reg env (cfa q - value) SP c' q)
      else if byte = LR_OFFSET_SLEB128_OP then
        DecodeSLEB128 7 instructions c q (\<lambda>value c'. load_reg env (cfa q - value) LR c' q)
      else if byte = PC_OFFSET_SLEB128_OP then
        DecodeSLEB128 7 instructions c q (\<lambda>value c'.
          case load_reg env (cfa q - value) PC c' q of
            Next c2 q2 \<Rightarrow> Next c2 (q2\<lparr>pc_set := True\<rparr>)
          | other \<Rightarrow> other)
      else if byte = VSP_OFFSET_SLEB128_OP then
        DecodeSLEB128 7 instructions c q (\<lambda>value c'. set_cfa (cfa q + value) c' q)
      else Return QUT_ERROR_INVALID_QUT_INSTR q)"

definition decode64_op ::
  "u64 stack_env \<Rightarrow> u64 list \<Rightarrow> u8 \<Rightarrow> nat \<times> nat \<Rightarrow> u64 qtable \<Rightarrow> u64 qtable outcome" where
  "decode64_op env instructions byte c q =
     (if drop_bit 6 byte = 0 then set_cfa (cfa q + push_bit 2 (ucast byte)) c q
      else if drop_bit 6 byte = 1 then set_cfa (cfa q - ucast (push_bit 2 byte :: u8)) c q
      else if drop_bit 6 byte = 2 then decode64_10 env instructions byte c q
      else decode64_11 env instructions byte c q)"

lemma advances_load_stop [advance]:
  "advances row is c
     (case load_reg env a r c q of
        Next c2 q2 \<Rightarrow> if P q2 then Return e q2 else Next c2 q2 | other \<Rightarrow> other)"
  by (auto simp: advances_def load_reg_def split: option.splits)

lemma advances_decode64_op: "advances 7 is c (decode64_op env is byte c q)"
  unfolding decode64_op_def decode64_10_def decode64_11_def
  by (auto intro!: advance)

function Decode64_loop ::
  "u64 stack_env \<Rightarrow> u64 list \<Rightarrow> nat \<times> nat \<Rightarrow> u64 qtable \<Rightarrow> fault + (QutErrorCode \<times> u64 qtable)" where
  "Decode64_loop env instructions c q =
     (case ReadByte 7 instructions c of
        None \<Rightarrow> Inr (QUT_ERROR_NONE, q)
      | Some (byte, c1) \<Rightarrow>
          (case decode64_op env instructions byte c1 q of
             Next c2 q2 \<Rightarrow> Decode64_loop env instructions c2 q2
           | Return e q2 \<Rightarrow> Inr (e, q2)
           | Undefined f \<Rightarrow> Inl f))"
  by pat_completeness auto
termination
  by (relation "measure (\<lambda>(env, is, c, q). length (stream 7 is c))")
    (auto intro: decode_step_shrinks advances_decode64_op)

declare Decode64_loop.simps [simp del]

definition Decode64 ::
  "u64 stack_env \<Rightarrow> u64 list \<Rightarrow> nat \<Rightarrow> u64 qtable \<Rightarrow> fault + (QutErrorCode \<times> u64 qtable)" where
  "Decode64 env instructions start_pos q = Decode64_loop env instructions (start_pos, 0) q"

section \<open>\<open>Eval\<close>\<close>

text \<open>
  The sections of a table, as far as they are data: the index (pairs of an entry point and a
  command) and the rows.  The allocation fields of the C++ struct are the lengths of the lists.
\<close>

record 'v qut_sections =
  quidx :: "'v list"
  qutbl :: "'v list"
  idx_size :: nat
  tbl_size :: nat

text \<open>
  \<open>Eval\<close>, with the decoder of the build as an argument (\<open>Decode32\<close> or \<open>Decode64\<close>): the top bit
  of the command tells a compact entry, else seven bits are the row count and the low 24 the row
  offset.  The aborting \<open>CHECK\<close> and an index outside \<open>quidx\<close> are faults.
\<close>

definition row_count_of :: "'w::len word \<Rightarrow> nat" where
  "row_count_of command = unat (drop_bit (LENGTH('w) - 8) command AND 0x7f)"

definition row_offset_of :: "'w::len word \<Rightarrow> nat" where
  "row_offset_of command = unat (command AND 0xffffff)"

definition Eval ::
  "('w::len word list \<Rightarrow> nat \<Rightarrow> 'q \<Rightarrow> fault + (QutErrorCode \<times> 'q)) \<Rightarrow> nat
     \<Rightarrow> 'w word qut_sections \<Rightarrow> nat \<Rightarrow> 'q \<Rightarrow> fault + (QutErrorCode \<times> 'q)" where
  "Eval Decode row sections entry_offset q =
     (if length (quidx sections) \<le> entry_offset + 1 then Inl ReadPastEnd
      else (let command = quidx sections ! (entry_offset + 1)
            in if drop_bit (LENGTH('w) - 1) command \<noteq> 0
               then Decode [command] (row - 1) q
               else if row_offset_of command + row_count_of command \<le> tbl_size sections
               then Decode (take (row_count_of command)
                              (drop (row_offset_of command) (qutbl sections))) row q
               else Inl CheckFailed))"

definition Eval32 ::
  "u32 stack_env \<Rightarrow> u32 qut_sections \<Rightarrow> nat \<Rightarrow> u32 qtable \<Rightarrow> fault + (QutErrorCode \<times> u32 qtable)" where
  "Eval32 env = Eval (Decode32 env) 3"

definition Eval64 ::
  "u64 stack_env \<Rightarrow> u64 qut_sections \<Rightarrow> nat \<Rightarrow> u64 qtable \<Rightarrow> fault + (QutErrorCode \<times> u64 qtable)" where
  "Eval64 env = Eval (Decode64 env) 7"

section \<open>The decoders read the stack only between its bounds\<close>

definition same_stack :: "'w::len word stack_env \<Rightarrow> 'w word stack_env \<Rightarrow> bool" where
  "same_stack env env' \<longleftrightarrow>
     stack_bottom env = stack_bottom env' \<and> stack_top env = stack_top env'
     \<and> (\<forall>a i. stack_bottom env \<le> a \<and> a \<le> stack_top env \<and> i < LENGTH('w) div 8
           \<longrightarrow> memory env (a + of_nat i) = memory env' (a + of_nat i))"

lemma same_stack_ReadStack: "same_stack env env' \<Longrightarrow> ReadStack env = ReadStack env'"
  by (auto simp: same_stack_def ReadStack_def stack_word_def fun_eq_iff not_less intro!: arg_cong [of _ _ le_word])

lemma same_stack_load_reg: "same_stack env env' \<Longrightarrow> load_reg env = load_reg env'"
  by (simp add: load_reg_def fun_eq_iff same_stack_ReadStack)

lemma same_stack_load_prologue: "same_stack env env' \<Longrightarrow> load_prologue env = load_prologue env'"
  by (intro ext) (simp only: load_prologue_def same_stack_load_reg)

lemma same_stack_Decode32_loop:
  "same_stack env env' \<Longrightarrow> Decode32_loop env is c q = Decode32_loop env' is c q"
proof (induction env "is" c q rule: Decode32_loop.induct)
  case (1 env "is" c q)
  have op: "decode32_op env = decode32_op env'"
    using 1(2) by (simp add: fun_eq_iff decode32_op_def decode32_10_def decode32_11_def
        same_stack_load_reg same_stack_load_prologue)
  show ?case
    using 1 by (subst (1 2) Decode32_loop.simps) (auto simp: op split: option.split outcome.split)
qed

lemma same_stack_Decode64_loop:
  "same_stack env env' \<Longrightarrow> Decode64_loop env is c q = Decode64_loop env' is c q"
proof (induction env "is" c q rule: Decode64_loop.induct)
  case (1 env "is" c q)
  have op: "decode64_op env = decode64_op env'"
    using 1(2) by (simp add: fun_eq_iff decode64_op_def decode64_10_def decode64_11_def
        same_stack_load_reg same_stack_load_prologue)
  show ?case
    using 1 by (subst (1 2) Decode64_loop.simps) (auto simp: op split: option.split outcome.split)
qed

text \<open>The compact entry \<open>lr = [vsp - 4]\<close>, then the end.\<close>

definition load_lr_entry :: "u32 qut_sections" where
  "load_lr_entry = \<lparr>quidx = [0x100, 0x80E19999], qutbl = [], idx_size = 2, tbl_size = 0\<rparr>"

lemma Eval32_load_lr:
  "Eval32 env load_lr_entry 0 q =
     (case ReadStack env (cfa q - 4) of
        None \<Rightarrow> Inr (QUT_ERROR_READ_STACK_FAILED, q)
      | Some v \<Rightarrow> Inr (QUT_ERROR_NONE, q\<lparr>regs := (regs q)(LR := v)\<rparr>))"
  by (simp add: Eval32_def Eval_def load_lr_entry_def Let_def Decode32_def Decode32_loop.simps [of env "[0x80E19999]"]
      ReadByte_def IterateNextByteIdx_def row_byte_def decode32_op_def decode32_11_def decode32_10_def imm4_def load_reg_def
      split: option.split)

text \<open>
  C31. Whatever bytes a table holds, evaluating it depends only on the bytes of the words that begin
  between the two stack bounds, both of them included: two memories that agree there give the same error code, registers, frame
  address and faults, in the 32-bit and in the 64-bit build.  The word that begins at \<open>stack_top\<close>, which is the
  end of the stack, so that the word lies outside of it, does count: a table that loads \<open>lr\<close> from there gets it.
\<close>

theorem eval_confined_to_stack:
  assumes "same_stack env32 env32'" "same_stack env64 env64'"
  shows "Eval32 env32 sections32 i q32 = Eval32 env32' sections32 i q32
       \<and> Eval64 env64 sections64 i q64 = Eval64 env64' sections64 i q64
       \<and> (stack_bottom env32 \<le> stack_top env32 \<longrightarrow>
            (\<exists>sections q q'. Eval32 env32 sections 0 q = Inr (QUT_ERROR_NONE, q')
               \<and> regs q' LR = stack_word env32 (stack_top env32)))"
proof -
  have "Decode32 env32 = Decode32 env32'" "Decode64 env64 = Decode64 env64'"
    using assms by (auto simp: fun_eq_iff Decode32_def Decode64_def
        same_stack_Decode32_loop same_stack_Decode64_loop)
  moreover have "\<exists>sections q q'. Eval32 env32 sections 0 q = Inr (QUT_ERROR_NONE, q')
      \<and> regs q' LR = stack_word env32 (stack_top env32)" if "stack_bottom env32 \<le> stack_top env32"
  proof -
    let ?q = "\<lparr>cfa = stack_top env32 + 4, dexpc = 0, pc_set = False, regs = \<lambda>r. 0\<rparr>"
    have "ReadStack env32 (stack_top env32) = Some (stack_word env32 (stack_top env32))"
      using that by (simp add: ReadStack_def not_less)
    then have "Eval32 env32 load_lr_entry 0 ?q
        = Inr (QUT_ERROR_NONE, ?q\<lparr>regs := (regs ?q)(LR := stack_word env32 (stack_top env32))\<rparr>)"
      by (simp add: Eval32_load_lr)
    then show ?thesis by fastforce
  qed
  ultimately show ?thesis by (simp add: Eval32_def Eval64_def)
qed

theorem eval_confined_to_stack_witness:
  "Eval32 \<lparr>stack_bottom = 0x1000, stack_top = 0x1ffc, memory = (\<lambda>a. ucast a)\<rparr> load_lr_entry 0
     \<lparr>cfa = 0x1800, dexpc = 0, pc_set = False, regs = (\<lambda>r. 0)\<rparr>
   = Eval32 \<lparr>stack_bottom = 0x1000, stack_top = 0x1ffc, memory = (\<lambda>a. if a < 0x1000 then 7 else ucast a)\<rparr> load_lr_entry 0
     \<lparr>cfa = 0x1800, dexpc = 0, pc_set = False, regs = (\<lambda>r. 0)\<rparr>"
proof -
  have "\<not> a + of_nat i < 0x1000" if "0x1000 \<le> a" "a \<le> 0x1ffc" "i < 4" for a :: u32 and i
  proof -
    have "unat (of_nat i :: u32) = i" using that(3) by (simp add: unat_of_nat take_bit_nat_eq_self)
    then have "unat (a + of_nat i) = unat a + i"
      using that by (simp add: unat_word_ariths word_le_nat_alt)
    then show ?thesis using that(1) by (simp add: word_less_nat_alt word_le_nat_alt)
  qed
  then show ?thesis
    by (intro eval_confined_to_stack [THEN conjunct1,
        of _ _ "\<lparr>stack_bottom = 0, stack_top = 0, memory = \<lambda>a. 0\<rparr>" "\<lparr>stack_bottom = 0, stack_top = 0, memory = \<lambda>a. 0\<rparr>"])
      (auto simp: same_stack_def)
qed

end
