(* ===== verification/Qut_Semantics.thy ===== *)
theory Qut_Semantics
  imports Quicken_Table
begin

text \<open>
  What an unwind-table instruction means, stated over instructions rather than bytes (the comment
  tables in \<^verbatim>\<open>include/QuickenInstructions.h\<close> give this meaning), and the proof that
  the bytes written by the encoders make the decoders compute it.
\<close>

section \<open>The meaning of an instruction\<close>

datatype 'q effect = Go 'q | Stop QutErrorCode 'q

text \<open>The register an operation loads, and the register it takes the frame address from.\<close>

definition loaded_reg :: "bool \<Rightarrow> QutInstruction \<Rightarrow> nat option" where
  "loaded_reg arm i =
     (case i of
        R4_OFFSET \<Rightarrow> if arm then Some R4 else None
      | R7_OFFSET \<Rightarrow> if arm then Some R7 else None
      | R10_OFFSET \<Rightarrow> if arm then Some R10 else None
      | R11_OFFSET \<Rightarrow> if arm then Some R11 else None
      | X20_OFFSET \<Rightarrow> if arm then None else Some R20
      | X28_OFFSET \<Rightarrow> if arm then None else Some R28
      | X29_OFFSET \<Rightarrow> if arm then None else Some R29
      | SP_OFFSET \<Rightarrow> Some SP
      | LR_OFFSET \<Rightarrow> Some LR
      | PC_OFFSET \<Rightarrow> Some PC
      | _ \<Rightarrow> None)"

definition frame_reg :: "bool \<Rightarrow> QutInstruction \<Rightarrow> nat option" where
  "frame_reg arm i =
     (case i of
        VSP_SET_BY_R7 \<Rightarrow> if arm then Some R7 else None
      | VSP_SET_BY_R11 \<Rightarrow> if arm then Some R11 else None
      | VSP_SET_BY_X29 \<Rightarrow> if arm then None else Some R29
      | VSP_SET_BY_SP \<Rightarrow> if arm then Some SP else None
      | VSP_SET_BY_JNI_SP \<Rightarrow> Some (if arm then R10 else R28)
      | _ \<Rightarrow> None)"

definition load_effect ::
  "'w::len word stack_env \<Rightarrow> 'w word \<Rightarrow> nat \<Rightarrow> 'w word qtable \<Rightarrow> 'w word qtable effect" where
  "load_effect env addr r q =
     (case ReadStack env addr of
        None \<Rightarrow> Stop QUT_ERROR_READ_STACK_FAILED q
      | Some v \<Rightarrow> Go (q\<lparr>regs := (regs q)(r := v), pc_set := (pc_set q \<or> r = PC)\<rparr>))"

text \<open>
  The 64-bit decoder stops when it loads a zero frame pointer, but only in the SLEB128 form of
  \<open>x29 = [vsp - imm]\<close>; the one-byte form has no such test.
\<close>

definition stop_at_zero :: "bool \<Rightarrow> nat \<Rightarrow> 'w::len word qtable effect \<Rightarrow> 'w word qtable effect" where
  "stop_at_zero b r e =
     (case e of
        Go q \<Rightarrow> if b \<and> regs q r = 0 then Stop QUT_ERROR_NONE q else Go q
      | Stop c q \<Rightarrow> Stop c q)"

lemma stop_at_zero_False [simp]: "stop_at_zero False r e = e"
  by (simp add: stop_at_zero_def split: effect.split)

definition ends_chain :: "bool \<Rightarrow> QutInstruction \<Rightarrow> int \<Rightarrow> bool" where
  "ends_chain arm i imm \<longleftrightarrow> \<not> arm \<and> i = X29_OFFSET \<and> (imm < 0 \<or> 60 < imm)"

lemma ends_chain_simps [simp]:
  "\<not> ends_chain True i imm" "i \<noteq> X29_OFFSET \<Longrightarrow> \<not> ends_chain arm i imm"
  by (simp_all add: ends_chain_def)

definition exec_instr ::
  "bool \<Rightarrow> 'w::len word stack_env \<Rightarrow> QutInstruction \<Rightarrow> int \<Rightarrow> 'w word qtable \<Rightarrow> 'w word qtable effect" where
  "exec_instr arm env i imm q =
     (case i of
        VSP_OFFSET \<Rightarrow> Go (q\<lparr>cfa := cfa q + word_of_int imm\<rparr>)
      | VSP_SET_IMM \<Rightarrow> Go (q\<lparr>cfa := word_of_int imm\<rparr>)
      | DEX_PC_SET \<Rightarrow> Go (q\<lparr>dexpc := regs q (if arm then R4 else R20)\<rparr>)
      | END_OF_INS \<Rightarrow> Stop QUT_ERROR_NONE q
      | FIN \<Rightarrow> Stop QUT_ERROR_NONE (q\<lparr>regs := (regs q)(PC := 0, LR := 0)\<rparr>)
      | _ \<Rightarrow>
          (case frame_reg arm i of
             Some r \<Rightarrow> Go (q\<lparr>cfa := regs q r + word_of_int imm\<rparr>)
           | None \<Rightarrow>
               (case loaded_reg arm i of
                  Some r \<Rightarrow>
                    stop_at_zero (ends_chain arm i imm) r
                      (load_effect env (cfa q - word_of_int imm) r q)
                | None \<Rightarrow> Go q)))"

definition exec_word ::
  "bool \<Rightarrow> 'w::len word stack_env \<Rightarrow> u64 \<Rightarrow> 'w word qtable \<Rightarrow> 'w word qtable effect" where
  "exec_word arm env instruction q =
     (case instr_op instruction of
        Some i \<Rightarrow> exec_instr arm env i (instr_imm instruction) q
      | None \<Rightarrow> Go q)"

fun exec_words ::
  "bool \<Rightarrow> 'w::len word stack_env \<Rightarrow> u64 list \<Rightarrow> 'w word qtable \<Rightarrow> 'w word qtable effect" where
  "exec_words arm env [] q = Go q"
| "exec_words arm env (i # is) q =
     (case exec_word arm env i q of Go q' \<Rightarrow> exec_words arm env is q' | Stop e q' \<Rightarrow> Stop e q')"

lemma exec_words_append:
  "exec_words arm env (xs @ ys) q =
     (case exec_words arm env xs q of Go q' \<Rightarrow> exec_words arm env ys q' | Stop e q' \<Rightarrow> Stop e q')"
  by (induction xs arbitrary: q) (simp_all split: effect.splits)

definition effect_result :: "'q effect \<Rightarrow> fault + (QutErrorCode \<times> 'q)" where
  "effect_result e = (case e of Go q \<Rightarrow> Inr (QUT_ERROR_NONE, q) | Stop c q \<Rightarrow> Inr (c, q))"

section \<open>What the encodings can express\<close>

text \<open>
  The immediates that survive.  A \<open>vsp\<close> offset in [-252, -1] does not: its byte gets the two's
  complement bits of the offset under a prefix that means subtraction.
\<close>

definition expressible :: "bool \<Rightarrow> QutInstruction \<Rightarrow> int \<Rightarrow> bool" where
  "expressible arm i imm \<longleftrightarrow>
     4 dvd imm \<and>
     (case i of
        VSP_OFFSET \<Rightarrow> 0 \<le> imm \<or> imm < - 252
      | VSP_SET_BY_R7 \<Rightarrow> arm \<longrightarrow> 0 \<le> imm \<and> imm \<le> 508
      | VSP_SET_BY_R11 \<Rightarrow> arm \<longrightarrow> 0 \<le> imm \<and> imm \<le> 508
      | VSP_SET_BY_X29 \<Rightarrow> arm \<or> 0 \<le> imm \<and> imm \<le> 508
      | VSP_SET_BY_JNI_SP \<Rightarrow> 0 \<le> imm \<and> imm \<le> 508
      | VSP_SET_BY_SP \<Rightarrow> arm \<longrightarrow> imm = 0
      | R4_OFFSET \<Rightarrow> arm \<longrightarrow> 0 \<le> imm \<and> imm \<le> 60
      | _ \<Rightarrow> True)"

definition expressible_word :: "bool \<Rightarrow> u64 \<Rightarrow> bool" where
  "expressible_word arm instruction =
     (case instr_op instruction of
        Some i \<Rightarrow> expressible arm i (instr_imm instruction)
      | None \<Rightarrow> 4 dvd instr_imm instruction)"

text \<open>The prologue byte stands for \<open>vsp = fp + 2 words\<close>: the look-ahead must have met that offset.\<close>

definition prologue_fits :: "bool \<Rightarrow> u64 \<Rightarrow> u64 list \<Rightarrow> bool" where
  "prologue_fits arm instruction rest =
     (if instr_imm instruction = 0
         \<and> (if arm then (\<exists>i. i \<in> {VSP_SET_BY_R7, VSP_SET_BY_R11} \<and> instr_op instruction = Some i
                             \<and> have_prologue32 i rest)
            else instr_op instruction = Some VSP_SET_BY_X29 \<and> have_prologue64 rest)
      then instr_imm (hd rest) = (if arm then 8 else 16) else True)"

fun expressible_words :: "bool \<Rightarrow> u64 list \<Rightarrow> bool" where
  "expressible_words arm [] = True"
| "expressible_words arm (i # is) =
     (expressible_word arm i \<and> prologue_fits arm i is \<and> expressible_words arm is)"

section \<open>Bytes with immediates\<close>

lemma aligned_iff: "(imm::int) AND 3 = 0 \<longleftrightarrow> 4 dvd imm"
proof -
  have "imm AND 3 = take_bit 2 imm" by (simp add: take_bit_eq_mask mask_eq_exp_minus_1)
  then show ?thesis by (simp add: take_bit_eq_mod dvd_eq_mod_eq_0)
qed

lemma imm_cases:
  assumes "4 dvd (imm::int)" "0 \<le> imm" "imm \<le> 4 * int n"
  obtains k where "k \<le> n" "imm = 4 * int k"
proof -
  from assms(1) obtain m where m: "imm = 4 * m" ..
  with assms have "imm = 4 * int (nat m)" "nat m \<le> n" by auto
  then show ?thesis using that by blast
qed

lemma FILL_WITH_IMM_small:
  assumes "k < 2 ^ m"
  shows "FILL_WITH_IMM p (4 * int k) m = word_of_int (p OR int k)"
proof -
  have "(push_bit m 1 - 1) AND IMM_ALIGNED (4 * int k) = (int k :: int)"
  proof -
    have "(push_bit m 1 - 1 :: int) = mask m" by (simp add: mask_eq_exp_minus_1 push_bit_eq_mult)
    moreover have "IMM_ALIGNED (4 * int k) = int k" by (simp add: IMM_ALIGNED_def drop_bit_eq_div)
    ultimately show ?thesis
      using assms by (simp only: and.commute [of "mask m"] flip: take_bit_eq_mask)
        (simp add: take_bit_int_eq_self)
  qed
  then show ?thesis by (simp add: FILL_WITH_IMM_def)
qed

lemma less_16_cases:
  "(k::nat) < 16 \<longleftrightarrow> k = 0 \<or> k = 1 \<or> k = 2 \<or> k = 3 \<or> k = 4 \<or> k = 5 \<or> k = 6 \<or> k = 7 \<or> k = 8
     \<or> k = 9 \<or> k = 10 \<or> k = 11 \<or> k = 12 \<or> k = 13 \<or> k = 14 \<or> k = 15"
  by presburger

lemma imm4_prefix:
  assumes "k < 16" "p \<in> {0xA0, 0xB0, 0xC0, 0xD0, 0xE0}"
  shows "imm4 (word_of_int (p OR int k)) = (word_of_int (4 * int k) :: 'w::len word)"
    and "word_of_int (p OR int k) AND (0xf0 :: u8) = word_of_int p"
    and "drop_bit 6 (word_of_int (p OR int k) :: u8) = drop_bit 6 (word_of_int p)"
proof -
  show "imm4 (word_of_int (p OR int k)) = (word_of_int (4 * int k) :: 'w word)"
    using assms unfolding less_16_cases imm4_def push_bit_eq_mult by auto
  show "word_of_int (p OR int k) AND (0xf0 :: u8) = word_of_int p"
    and "drop_bit 6 (word_of_int (p OR int k) :: u8) = drop_bit 6 (word_of_int p)"
    using assms unfolding less_16_cases by auto
qed

text \<open>The offset of the two forms with six bits, and of a seven-bit immediate byte.\<close>

lemma ucast_of_nat_u8: "k < 256 \<Longrightarrow> ucast (of_nat k :: u8) = (of_nat k :: 'w::len word)"
  by (simp add: ucast_eq unsigned_of_nat take_bit_nat_eq_self flip: of_nat_take_bit)

lemma vsp_add_byte:
  assumes "k < 64"
  shows "drop_bit 6 (of_nat k :: u8) = 0"
    and "push_bit 2 (ucast (of_nat k :: u8)) = (4 * of_nat k :: 'w::len word)"
proof -
  have "unat (drop_bit 6 (of_nat k :: u8)) = 0"
    using assms by (simp add: drop_bit_eq_div unat_div_distrib unsigned_of_nat take_bit_nat_eq_self)
  then show "drop_bit 6 (of_nat k :: u8) = 0" by (simp only: unat_0_iff)
  show "push_bit 2 (ucast (of_nat k :: u8)) = (4 * of_nat k :: 'w::len word)"
    using assms by (simp add: push_bit_eq_mult ucast_of_nat_u8)
qed

lemma imm7_byte:
  assumes "k < 128"
  shows "push_bit 2 (ucast ((of_nat k :: u8) AND 0x7f)) = (4 * of_nat k :: 'w::len word)"
proof -
  have "(of_nat k :: u8) AND 0x7f = of_nat k"
    using assms by (simp add: bitvals take_bit_nat_eq_self flip: of_nat_take_bit)
  then show ?thesis using assms by (simp add: push_bit_eq_mult ucast_of_nat_u8)
qed

lemma ucast_word_of_int_u64: "(ucast (word_of_int v :: u64) :: u32) = word_of_int v"
  by (rule bit_eqI) (auto simp: bitvals)

section \<open>Reading operands back\<close>

lemma read_imm7_encoded:
  assumes "stream row is c = FILL_WITH_IMM 0 imm 7 # rest" "4 dvd imm" "0 \<le> imm" "imm \<le> 508"
  obtains c' where "\<And>k. read_imm7 row is c k = k (word_of_int imm) c'" "stream row is c' = rest"
proof -
  obtain n where n: "n < 128" "imm = 4 * int n" using imm_cases [of imm 127] assms by auto
  obtain c' where "ReadByte row is c = Some (FILL_WITH_IMM 0 imm 7, c')" "stream row is c' = rest"
    using rows.get_cons assms(1) by blast
  then show ?thesis
    using n by (intro that [of c']) (simp_all add: read_imm7_def FILL_WITH_IMM_small imm7_byte)
qed

text \<open>An immediate is an \<open>int32_t\<close>.\<close>

lemma sleb_fits_imm [simp]: "sleb_fits (instr_imm w)"
proof -
  have "- (2 ^ 31) \<le> instr_imm w \<and> instr_imm w < 2 ^ 31"
    using sint_range_size [of "ucast (w AND 0xFFFFFFFF) :: u32"] by (simp add: instr_imm_def word_size)
  then show ?thesis by (simp add: sleb_fits_def)
qed

lemma DecodeSLEB128_encoded:
  assumes "stream row is c = EncodeSLEB128 v 0 @ rest" "sleb_fits v"
  obtains c' where "\<And>q k. DecodeSLEB128 row is c q k = k (word_of_int v) c'" "stream row is c' = rest"
proof -
  from sleb_list_encode [of v rest] assms obtain w sh b where
    ll: "leb_list sleb_bad (0::u64) 0 (stream row is c) = Some (Inr (w, sh, b, rest))"
    and w: "sleb_extend w sh b = word_of_int v"
    by (auto simp: sleb_list_def split: option.splits sum.splits)
  from rows.loop_SomeI [OF ll] obtain c' where
    "leb128_loop (ReadByte row is) sleb_bad (0::u64) 0 c = Some (Inr (w, sh, b, c'))" "stream row is c' = rest" .
  moreover have "ReadByte row is c \<noteq> None"
    using assms by (simp add: ReadByte_None_iff)
  ultimately show ?thesis
    using w by (intro that [of c']) (auto simp: DecodeSLEB128_def)
qed

section \<open>The interface of a row decoder\<close>

text \<open>
  Both decoding loops have one shape: read a byte, run its operation, go on, return or leave.
  The locale captures that shape; \<open>continues\<close> says that from a cursor the loop has the effect
  \<open>eff\<close> and, if that goes on, is left with the bytes \<open>rest\<close>.
\<close>

definition outcome_of :: "nat \<times> nat \<Rightarrow> 'q effect \<Rightarrow> 'q outcome" where
  "outcome_of c eff = (case eff of Go q \<Rightarrow> Next c q | Stop e q \<Rightarrow> Return e q)"

lemma outcome_of_simps [simp]:
  "outcome_of c (Go q) = Next c q" "outcome_of c (Stop e q) = Return e q"
  by (simp_all add: outcome_of_def)

definition continues ::
  "nat \<Rightarrow> 'w::len word list \<Rightarrow> (nat \<times> nat \<Rightarrow> 'q \<Rightarrow> fault + (QutErrorCode \<times> 'q))
     \<Rightarrow> nat \<times> nat \<Rightarrow> 'q \<Rightarrow> u8 list \<Rightarrow> 'q effect \<Rightarrow> bool" where
  "continues row is loop c q rest eff \<longleftrightarrow>
     (case eff of
        Go q' \<Rightarrow> \<exists>c'. stream row is c' = rest \<and> loop c q = loop c' q'
      | Stop e q' \<Rightarrow> loop c q = Inr (e, q'))"

lemma continues_bind:
  assumes "continues row is loop c q mid eff"
    and "\<And>q' c'. eff = Go q' \<Longrightarrow> stream row is c' = mid \<Longrightarrow> continues row is loop c' q' rest (f q')"
  shows "continues row is loop c q rest (case eff of Go q' \<Rightarrow> f q' | Stop e q' \<Rightarrow> Stop e q')"
proof (cases eff)
  case (Go q')
  then obtain c' where c': "stream row is c' = mid" "loop c q = loop c' q'"
    using assms(1) by (auto simp: continues_def)
  from assms(2) [OF Go c'(1)] c' Go show ?thesis
    by (auto simp: continues_def split: effect.splits)
next
  case (Stop e q')
  then show ?thesis using assms(1) by (simp add: continues_def)
qed

locale row_decoder =
  fixes row :: nat
    and dec :: "'w::len word list \<Rightarrow> u8 \<Rightarrow> nat \<times> nat \<Rightarrow> 'q \<Rightarrow> 'q outcome"
    and loop :: "'w word list \<Rightarrow> nat \<times> nat \<Rightarrow> 'q \<Rightarrow> fault + (QutErrorCode \<times> 'q)"
  assumes loop_unfold:
    "loop is c q =
       (case ReadByte row is c of
          None \<Rightarrow> Inr (QUT_ERROR_NONE, q)
        | Some (byte, c1) \<Rightarrow>
            (case dec is byte c1 q of
               Next c2 q2 \<Rightarrow> loop is c2 q2
             | Return e q2 \<Rightarrow> Inr (e, q2)
             | Undefined f \<Rightarrow> Inl f))"
begin

lemma at_end: "stream row is c = [] \<Longrightarrow> loop is c q = Inr (QUT_ERROR_NONE, q)"
  by (subst loop_unfold) (simp add: rows.get_empty)

lemma continuesI:
  assumes "stream row is c = b # bs"
    and "\<And>c1. stream row is c1 = bs \<Longrightarrow> \<exists>c'. stream row is c' = rest \<and> dec is b c1 q = outcome_of c' eff"
  shows "continues row is (loop is) c q rest eff"
proof -
  obtain c1 where c1: "ReadByte row is c = Some (b, c1)" "stream row is c1 = bs"
    using rows.get_cons assms(1) by blast
  obtain c' where c': "stream row is c' = rest" "dec is b c1 q = outcome_of c' eff"
    using assms(2) [OF c1(2)] by blast
  have "loop is c q = (case eff of Go q' \<Rightarrow> loop is c' q' | Stop e q' \<Rightarrow> Inr (e, q'))"
    by (subst loop_unfold, cases eff) (simp_all add: c1 c')
  with c'(1) have "eff = Go q' \<Longrightarrow> \<exists>c'. stream row is c' = rest \<and> loop is c q = loop is c' q'"
    and "eff = Stop e q' \<Longrightarrow> loop is c q = Inr (e, q')" for e q'
    by (metis effect.simps(5), simp)
  then show ?thesis
    unfolding continues_def by (simp split: effect.split)
qed

lemma plain_op:
  assumes "stream row is c = b # rest" and "\<And>c1. dec is b c1 q = outcome_of c1 eff"
  shows "continues row is (loop is) c q rest eff"
  using assms by (intro continuesI [of "is" c b rest]) auto

lemma imm7_op:
  assumes "stream row is c = b # FILL_WITH_IMM 0 imm 7 # rest" "4 dvd imm" "0 \<le> imm" "imm \<le> 508"
    and "\<And>c1 c'. (\<And>k. read_imm7 row is c1 k = (k (word_of_int imm) c' :: 'q outcome)) \<Longrightarrow>
           dec is b c1 q = outcome_of c' eff"
  shows "continues row is (loop is) c q rest eff"
proof (rule continuesI [OF assms(1)])
  fix c1 assume "stream row is c1 = FILL_WITH_IMM 0 imm 7 # rest"
  from read_imm7_encoded [OF this assms(2-4)] obtain c' where
    "\<And>k. read_imm7 row is c1 k = (k (word_of_int imm) c' :: 'q outcome)" "stream row is c' = rest"
    by blast
  then show "\<exists>c'. stream row is c' = rest \<and> dec is b c1 q = outcome_of c' eff"
    using assms(5) by blast
qed

lemma sleb_op:
  assumes "stream row is c = b # EncodeSLEB128 imm 0 @ rest" "sleb_fits imm"
    and "\<And>c1 c'. (\<And>q k. DecodeSLEB128 row is c1 q k = (k (word_of_int imm) c' :: 'q outcome)) \<Longrightarrow>
           dec is b c1 q = outcome_of c' eff"
  shows "continues row is (loop is) c q rest eff"
proof (rule continuesI [OF assms(1)])
  fix c1 assume "stream row is c1 = EncodeSLEB128 imm 0 @ rest"
  from DecodeSLEB128_encoded [OF this assms(2)] obtain c' where
    "\<And>q k. DecodeSLEB128 row is c1 q k = (k (word_of_int imm) c' :: 'q outcome)"
    "stream row is c' = rest" by blast
  then show "\<exists>c'. stream row is c' = rest \<and> dec is b c1 q = outcome_of c' eff"
    using assms(3) by blast
qed

lemma no_op: "stream row is c = rest \<Longrightarrow> continues row is (loop is) c q rest (Go q)"
  unfolding continues_def by (simp, intro exI [of _ "fst c"] exI [of _ "snd c"]) simp

end

interpretation dec32: row_decoder 3 "decode32_op env" "Decode32_loop env"
  for env :: "u32 stack_env"
  by unfold_locales (subst Decode32_loop.simps, rule refl)

interpretation dec64: row_decoder 7 "decode64_op env" "Decode64_loop env"
  for env :: "u64 stack_env"
  by unfold_locales (subst Decode64_loop.simps, rule refl)

section \<open>One instruction, 32 bits\<close>

lemma load_reg_effect:
  "r \<noteq> PC \<Longrightarrow> load_reg env a r c q = outcome_of c (load_effect env a r q)"
  by (cases q) (simp add: load_reg_def load_effect_def split: option.splits)

text \<open>The prologue byte, as instructions.\<close>

definition prologue_effect ::
  "'w::len word stack_env \<Rightarrow> 'w word \<Rightarrow> nat \<Rightarrow> 'w word qtable \<Rightarrow> 'w word qtable effect" where
  "prologue_effect env n r q =
     (case load_effect env (regs q r + (n + n) - n) LR (q\<lparr>cfa := regs q r + (n + n)\<rparr>) of
        Go q2 \<Rightarrow> load_effect env (cfa q2 - (n + n)) r q2
      | Stop e q2 \<Rightarrow> Stop e q2)"

lemma load_prologue_effect:
  "r \<noteq> PC \<Longrightarrow> load_prologue env n r c q = outcome_of c (prologue_effect env n r q)"
  by (simp add: load_prologue_def prologue_effect_def load_reg_effect Let_def split: effect.split)

lemma load_pc_effect:
  "(case load_reg env a PC c q of Next c2 q2 \<Rightarrow> Next c2 (q2\<lparr>pc_set := True\<rparr>) | other \<Rightarrow> other)
     = outcome_of c (load_effect env a PC q)"
  by (cases q) (simp add: load_reg_def load_effect_def split: option.splits)

lemmas decode32_defs = decode32_op_def decode32_10_def decode32_11_def set_cfa_def finish_def
lemmas decode64_defs = decode64_op_def decode64_10_def decode64_11_def set_cfa_def finish_def

lemma decode_vsp_offset32:
  assumes "stream 3 is c = encode_vsp_offset imm @ rest" "4 dvd imm" "0 \<le> imm \<or> imm < - 252"
    and fits: "sleb_fits imm"
  shows "continues 3 is (Decode32_loop env is) c q rest (Go (q\<lparr>cfa := cfa q + word_of_int imm\<rparr>))"
proof (cases "0 < imm \<and> imm \<le> 252")
  case True
  then obtain k where k: "k < 64" "imm = 4 * int k" using imm_cases [of imm 63] assms by auto
  show ?thesis
    by (rule dec32.plain_op [of _ _ "of_nat k"])
      (use assms True k in \<open>simp_all add: encode_vsp_offset_def FILL_WITH_IMM_small vsp_add_byte decode32_defs\<close>)
next
  case False
  show ?thesis
  proof (cases "imm = 0")
    case True
    show ?thesis
      by (rule dec32.plain_op [of _ _ "0x40"])
        (use assms True in \<open>simp_all add: encode_vsp_offset_def FILL_WITH_IMM_def IMM_ALIGNED_def decode32_defs\<close>)
  next
    case nz: False
    show ?thesis
      by (rule dec32.sleb_op [of _ _ VSP_OFFSET_SLEB128_OP imm, OF _ fits])
        (use assms False nz in \<open>auto simp: encode_vsp_offset_def decode32_defs ucast_word_of_int_u64\<close>)
  qed
qed

text \<open>Bytes that carry a register in the high half.\<close>

lemma decode32_prefix:
  "b AND 0xf0 = 0xA0 \<Longrightarrow> drop_bit 6 b = 2 \<Longrightarrow> decode32_op env is b c q = load_reg env (cfa q - imm4 b) R4 c q"
  "b AND 0xf0 = 0xB0 \<Longrightarrow> drop_bit 6 b = 2 \<Longrightarrow> decode32_op env is b c q = load_reg env (cfa q - imm4 b) R7 c q"
  "b AND 0xf0 = 0xC0 \<Longrightarrow> drop_bit 6 b = 3 \<Longrightarrow> decode32_op env is b c q = load_reg env (cfa q - imm4 b) R10 c q"
  "b AND 0xf0 = 0xD0 \<Longrightarrow> drop_bit 6 b = 3 \<Longrightarrow> decode32_op env is b c q = load_reg env (cfa q - imm4 b) R11 c q"
  "b AND 0xf0 = 0xE0 \<Longrightarrow> drop_bit 6 b = 3 \<Longrightarrow> decode32_op env is b c q = load_reg env (cfa q - imm4 b) LR c q"
  by (auto simp: decode32_defs)

lemma FILL_prefix:
  assumes "4 dvd imm" "0 \<le> imm" "imm \<le> 60" "p \<in> {0xA0, 0xB0, 0xC0, 0xD0, 0xE0}"
  shows "imm4 (FILL_WITH_IMM p imm 4) = (word_of_int imm :: 'w::len word)"
    and "FILL_WITH_IMM p imm 4 AND 0xf0 = word_of_int p"
    and "drop_bit 6 (FILL_WITH_IMM p imm 4) = drop_bit 6 (word_of_int p)"
proof -
  obtain k where k: "k < 16" "imm = 4 * int k" using imm_cases [of imm 15] assms by auto
  have b: "FILL_WITH_IMM p imm 4 = word_of_int (p OR int k)"
    using k by (simp add: FILL_WITH_IMM_small)
  note pre = imm4_prefix [OF k(1) assms(4)]
  show "imm4 (FILL_WITH_IMM p imm 4) = (word_of_int imm :: 'w word)"
    unfolding b by (subst k(2)) (rule pre(1))
  show "FILL_WITH_IMM p imm 4 AND 0xf0 = word_of_int p"
    unfolding b by (rule pre(2))
  show "drop_bit 6 (FILL_WITH_IMM p imm 4) = drop_bit 6 (word_of_int p)"
    unfolding b by (rule pre(3))
qed

text \<open>
  \<open>rk = [vsp - imm]\<close>, in its two forms.  The premises on the operation bytes hold for each
  register the encoder can name.
\<close>

lemma decode_reg_offset32:
  assumes "stream 3 is c = encode_reg_offset p s imm @ rest" "4 dvd imm" "r \<noteq> PC"
    and "(p, s, r) \<in> {(0xB0, R7_OFFSET_SLEB128_OP, R7), (0xC0, R10_OFFSET_SLEB128_OP, R10),
                     (0xD0, R11_OFFSET_SLEB128_OP, R11), (0xE0, LR_OFFSET_SLEB128_OP, LR)}"
    and fits: "sleb_fits imm"
  shows "continues 3 is (Decode32_loop env is) c q rest (load_effect env (cfa q - word_of_int imm) r q)"
proof (cases "0 \<le> imm \<and> imm \<le> 60")
  case True
  then have st: "stream 3 is c = FILL_WITH_IMM p imm 4 # rest"
    using assms(1) by (simp add: encode_reg_offset_def)
  have p: "p \<in> {0xA0, 0xB0, 0xC0, 0xD0, 0xE0}" using assms(4) by auto
  note rng = assms(2) conjunct1 [OF True] conjunct2 [OF True] p
  note pre = FILL_prefix(1) [where 'w = 32, OF rng] FILL_prefix(2-3) [OF rng]
  show ?thesis
    by (rule dec32.plain_op [OF st])
      (use assms(3,4) pre in \<open>auto simp: decode32_prefix load_reg_effect\<close>)
next
  case False
  then have st: "stream 3 is c = s # EncodeSLEB128 imm 0 @ rest"
    using assms(1) by (auto simp: encode_reg_offset_def)
  show ?thesis
    by (rule dec32.sleb_op [OF st fits])
      (use assms(3,4) in \<open>auto simp: decode32_defs ucast_word_of_int_u64 load_reg_effect\<close>)
qed

lemmas effect_defs = exec_instr_def frame_reg_def loaded_reg_def expressible_def

lemma decode_r4_offset32:
  assumes "stream 3 is c = FILL_WITH_IMM R4_OFFSET_OP_PREFIX imm 4 # rest" "4 dvd imm" "0 \<le> imm" "imm \<le> 60"
  shows "continues 3 is (Decode32_loop env is) c q rest (load_effect env (cfa q - word_of_int imm) R4 q)"
  by (rule dec32.plain_op [OF assms(1)])
    (use FILL_prefix(1) [where 'w = 32, OF assms(2-4), of "0xA0"]
         FILL_prefix(2-3) [OF assms(2-4), of "0xA0"] in \<open>simp add: decode32_prefix load_reg_effect\<close>)

lemma decode_vsp_set_by_fp32:
  assumes "stream 3 is c = pushed (encode_vsp_set_by_fp32 i imm nexts) @ rest"
    and "i = VSP_SET_BY_R7 \<or> i = VSP_SET_BY_R11"
    and "4 dvd imm" "0 \<le> imm" "imm \<le> 508" "imm = 0 \<longrightarrow> \<not> have_prologue32 i nexts"
  shows "continues 3 is (Decode32_loop env is) c q rest (exec_instr True env i imm q)"
proof (cases "imm = 0")
  case True
  have st: "stream 3 is c = (if i = VSP_SET_BY_R7 then VSP_SET_BY_R7_OP else VSP_SET_BY_R11_OP) # rest"
    using assms True by (simp add: encode_vsp_set_by_fp32_def emit_def)
  show ?thesis
    by (rule dec32.plain_op [OF st]) (use assms(2) True in \<open>auto simp: decode32_defs effect_defs\<close>)
next
  case False
  then have st: "stream 3 is c = (if i = VSP_SET_BY_R7 then VSP_SET_BY_R7_IMM_OP else VSP_SET_BY_R11_IMM_OP)
      # FILL_WITH_IMM 0 imm 7 # rest"
    using assms by (auto simp: encode_vsp_set_by_fp32_def emit_def)
  show ?thesis
    by (rule dec32.imm7_op [OF st assms(3-5)]) (use assms(2) in \<open>auto simp: decode32_defs effect_defs\<close>)
qed

lemma decode_instr32:
  assumes st: "stream 3 is c = pushed (encode_op32 (Some i) imm nexts) @ rest"
    and ex: "expressible True i imm"
    and np: "imm = 0 \<and> i \<in> {VSP_SET_BY_R7, VSP_SET_BY_R11} \<longrightarrow> \<not> have_prologue32 i nexts"
    and fits: "sleb_fits imm"
  shows "continues 3 is (Decode32_loop env is) c q rest (exec_instr True env i imm q)"
proof (cases i)
  case VSP_SET_BY_SP
  have "stream 3 is c = VSP_SET_BY_SP_OP # rest"
    using st VSP_SET_BY_SP by (simp add: encode_op32_def emit_def)
  then show ?thesis
    by (rule dec32.plain_op) (use ex VSP_SET_BY_SP in \<open>simp add: decode32_defs effect_defs\<close>)
next
  case VSP_SET_BY_JNI_SP
  have "stream 3 is c = VSP_SET_BY_JNI_SP_OP # FILL_WITH_IMM 0 imm 7 # rest"
    using st VSP_SET_BY_JNI_SP by (simp add: encode_op32_def emit_def)
  then show ?thesis
    by (rule dec32.imm7_op) (use ex VSP_SET_BY_JNI_SP in \<open>auto simp: decode32_defs effect_defs\<close>)
next
  case VSP_SET_IMM
  have "stream 3 is c = VSP_SET_IMM_OP # EncodeSLEB128 imm 0 @ rest"
    using st VSP_SET_IMM by (simp add: encode_op32_def emit_def)
  then show ?thesis
    by (rule dec32.sleb_op [OF _ fits])
      (use VSP_SET_IMM in \<open>simp add: decode32_defs effect_defs ucast_word_of_int_u64\<close>)
next
  case DEX_PC_SET
  have "stream 3 is c = DEX_PC_SET_OP # rest"
    using st DEX_PC_SET by (simp add: encode_op32_def emit_def)
  then show ?thesis
    by (rule dec32.plain_op) (use DEX_PC_SET in \<open>simp add: decode32_defs effect_defs\<close>)
next
  case END_OF_INS
  have "stream 3 is c = END_OF_INS_OP # rest"
    using st END_OF_INS by (simp add: encode_op32_def emit_def)
  then show ?thesis
    by (rule dec32.plain_op) (use END_OF_INS in \<open>simp add: decode32_defs effect_defs\<close>)
next
  case FIN
  have "stream 3 is c = FINISH_OP # rest"
    using st FIN by (simp add: encode_op32_def emit_def)
  then show ?thesis
    by (rule dec32.plain_op) (use FIN in \<open>simp add: decode32_defs effect_defs\<close>)
next
  case SP_OFFSET
  have "stream 3 is c = SP_OFFSET_SLEB128_OP # EncodeSLEB128 imm 0 @ rest"
    using st SP_OFFSET by (simp add: encode_op32_def emit_def)
  then show ?thesis
    by (rule dec32.sleb_op [OF _ fits])
      (use SP_OFFSET in \<open>simp add: decode32_defs effect_defs ucast_word_of_int_u64 load_reg_effect\<close>)
next
  case PC_OFFSET
  have "stream 3 is c = PC_OFFSET_SLEB128_OP # EncodeSLEB128 imm 0 @ rest"
    using st PC_OFFSET by (simp add: encode_op32_def emit_def)
  then show ?thesis
    by (rule dec32.sleb_op [OF _ fits])
      (use PC_OFFSET in \<open>simp add: decode32_defs effect_defs ucast_word_of_int_u64 load_pc_effect\<close>)
next
  case R4_OFFSET
  then show ?thesis
    using st ex fits decode_r4_offset32 [of "is" c imm rest env q]
    by (simp add: encode_op32_def emit_def effect_defs)
next
  case R7_OFFSET
  then show ?thesis
    using st ex fits decode_reg_offset32 [of "is" c "0xB0" R7_OFFSET_SLEB128_OP imm rest R7 env q]
    by (simp add: encode_op32_def emit_def effect_defs)
next
  case R10_OFFSET
  then show ?thesis
    using st ex fits decode_reg_offset32 [of "is" c "0xC0" R10_OFFSET_SLEB128_OP imm rest R10 env q]
    by (simp add: encode_op32_def emit_def effect_defs)
next
  case R11_OFFSET
  then show ?thesis
    using st ex fits decode_reg_offset32 [of "is" c "0xD0" R11_OFFSET_SLEB128_OP imm rest R11 env q]
    by (simp add: encode_op32_def emit_def effect_defs)
next
  case LR_OFFSET
  then show ?thesis
    using st ex fits decode_reg_offset32 [of "is" c "0xE0" LR_OFFSET_SLEB128_OP imm rest LR env q]
    by (simp add: encode_op32_def emit_def effect_defs)
next
  case VSP_OFFSET
  then show ?thesis
    using st ex fits decode_vsp_offset32 [of "is" c imm rest env q]
    by (simp add: encode_op32_def emit_def effect_defs)
next
  case VSP_SET_BY_R7
  then show ?thesis
    using st ex fits np decode_vsp_set_by_fp32 [of "is" c i imm nexts rest env q]
    by (simp add: encode_op32_def effect_defs)
next
  case VSP_SET_BY_R11
  then show ?thesis
    using st ex fits np decode_vsp_set_by_fp32 [of "is" c i imm nexts rest env q]
    by (simp add: encode_op32_def effect_defs)
qed (use st in \<open>simp_all add: encode_op32_def emit_def effect_defs dec32.no_op\<close>)

section \<open>Whole instruction lists, 32 bits\<close>

lemma decode_prologue32:
  assumes "stream 3 is c = (if i = VSP_SET_BY_R7 then VSP_SET_BY_R7_PROLOGUE_OP else VSP_SET_BY_R11_PROLOGUE_OP) # rest"
    and "instr_op n = Some i" "i = VSP_SET_BY_R7 \<or> i = VSP_SET_BY_R11" "instr_imm n = 0"
    and "have_prologue32 i (n0 # n1 # n2 # ns)" "instr_imm n0 = 8"
  shows "continues 3 is (Decode32_loop env is) c q rest (exec_words True env [n, n0, n1, n2] q)"
proof (rule dec32.plain_op [OF assms(1)])
  fix c1
  let ?b = "if i = VSP_SET_BY_R7 then VSP_SET_BY_R7_PROLOGUE_OP else VSP_SET_BY_R11_PROLOGUE_OP"
  let ?r = "if i = VSP_SET_BY_R7 then R7 else R11"
  have n0: "instr_op n0 = Some VSP_OFFSET" "instr_op n1 = Some LR_OFFSET" "instr_imm n1 = 4"
      "instr_op n2 = Some (if i = VSP_SET_BY_R7 then R7_OFFSET else R11_OFFSET)" "instr_imm n2 = 8"
    using assms(3,5,6) by (auto simp: have_prologue32_def)
  have "exec_words True env [n, n0, n1, n2] q = prologue_effect env 4 ?r q"
    using assms(2-4,6) n0
    by (auto simp: exec_word_def effect_defs prologue_effect_def split: effect.splits)
  moreover have "decode32_op env is ?b c1 q = load_prologue env 4 ?r c1 q"
    using assms(3) by (auto simp: decode32_defs)
  ultimately show "decode32_op env is ?b c1 q = outcome_of c1 (exec_words True env [n, n0, n1, n2] q)"
    by (simp add: load_prologue_effect)
qed

lemma encode_op32_ok:
  assumes "expressible True i imm"
    and "imm = 0 \<and> i \<in> {VSP_SET_BY_R7, VSP_SET_BY_R11} \<longrightarrow> \<not> have_prologue32 i nexts"
  shows "ok (encode_op32 (Some i) imm nexts)" "skipped (encode_op32 (Some i) imm nexts) = 0"
  using assms
  by (auto simp: encode_op32_def encode_vsp_set_by_fp32_def emit_def expressible_def
      split: QutInstruction.splits)

theorem decode_encoded32:
  assumes "expressible_words True is"
  shows "\<exists>bs p. QuickenInstructionsEncode32 is enc pc = (True, enc @ bs, p) \<and>
           (\<forall>(rows :: u32 list) c rest q. stream 3 rows c = bs @ rest \<longrightarrow>
              continues 3 rows (Decode32_loop env rows) c q rest (exec_words True env is q))"
  using assms
proof (induction "is" enc pc rule: QuickenInstructionsEncode32.induct)
  case (1 enc pc)
  then show ?case by (intro exI [of _ "[]"]) (simp add: dec32.no_op)
next
  case (2 n nexts enc pc)
  let ?imm = "instr_imm n"
  let ?e = "encode_op32 (instr_op n) ?imm nexts"
  have al: "?imm AND 3 = 0"
    using 2(2) by (auto simp: aligned_iff expressible_word_def expressible_def split: option.splits)
  consider (none) "instr_op n = None"
    | (plain) i where "instr_op n = Some i"
        "?imm = 0 \<and> i \<in> {VSP_SET_BY_R7, VSP_SET_BY_R11} \<longrightarrow> \<not> have_prologue32 i nexts"
    | (pro) i where "instr_op n = Some i" "?imm = 0" "i = VSP_SET_BY_R7 \<or> i = VSP_SET_BY_R11"
        "have_prologue32 i nexts"
    by (cases "instr_op n") auto
  then show ?case
  proof cases
    case none
    then have e: "?e = emit []" by (simp add: encode_op32_def)
    from 2(1) [OF refl _ refl refl refl] al e 2(2) obtain bs p where
      enc: "QuickenInstructionsEncode32 nexts enc (pc \<or> False) = (True, enc @ bs, p)"
      and dec: "\<And>(rows :: u32 list) c rest q. stream 3 rows c = bs @ rest \<Longrightarrow>
              continues 3 rows (Decode32_loop env rows) c q rest (exec_words True env nexts q)"
      by (auto simp: emit_def)
    with al e none show ?thesis
      by (intro exI [of _ bs] exI [of _ p]) (auto simp: emit_def exec_word_def Let_def)
  next
    case (plain i)
    have ex: "expressible True i ?imm" using 2(2) plain by (simp add: expressible_word_def)
    note oke = encode_op32_ok [OF ex plain(2)]
    from 2(1) [OF refl _ refl refl refl] al oke plain 2(2) obtain bs p where
      enc: "QuickenInstructionsEncode32 nexts (enc @ pushed ?e) (pc \<or> conformed ?e) = (True, (enc @ pushed ?e) @ bs, p)"
      and dec: "\<And>(rows :: u32 list) c rest q. stream 3 rows c = bs @ rest \<Longrightarrow>
              continues 3 rows (Decode32_loop env rows) c q rest (exec_words True env nexts q)"
      by auto
    show ?thesis
    proof (intro exI conjI allI impI)
      show "QuickenInstructionsEncode32 (n # nexts) enc pc = (True, enc @ (pushed ?e @ bs), p)"
        using al oke plain enc by (simp add: Let_def)
      fix rows :: "u32 list" and c rest q assume "stream 3 rows c = (pushed ?e @ bs) @ rest"
      then have "continues 3 rows (Decode32_loop env rows) c q (bs @ rest) (exec_instr True env i ?imm q)"
        using plain ex by (intro decode_instr32 [of _ _ i ?imm nexts]) auto
      from continues_bind [OF this dec]
      show "continues 3 rows (Decode32_loop env rows) c q rest (exec_words True env (n # nexts) q)"
        using plain by (simp add: exec_word_def)
    qed
  next
    case (pro i)
    then obtain n0 n1 n2 ns where ns: "nexts = n0 # n1 # n2 # ns"
      by (auto simp: have_prologue32_def split: list.splits)
    let ?b = "if i = VSP_SET_BY_R7 then VSP_SET_BY_R7_PROLOGUE_OP else VSP_SET_BY_R11_PROLOGUE_OP"
    have e: "?e = \<lparr>ok = True, pushed = [?b], skipped = 3, conformed = True\<rparr>"
      using pro by (auto simp: encode_op32_def encode_vsp_set_by_fp32_def)
    have imm0: "instr_imm n0 = 8"
      using 2(2) pro ns by (auto simp: prologue_fits_def split: if_splits)
    from 2(1) [OF refl _ refl refl refl] al e 2(2) obtain bs p where
      enc: "QuickenInstructionsEncode32 ns (enc @ [?b]) (pc \<or> True) = (True, (enc @ [?b]) @ bs, p)"
      and dec: "\<And>(rows :: u32 list) c rest q. stream 3 rows c = bs @ rest \<Longrightarrow>
              continues 3 rows (Decode32_loop env rows) c q rest (exec_words True env ns q)"
      by (auto simp: ns)
    show ?thesis
    proof (intro exI conjI allI impI)
      show "QuickenInstructionsEncode32 (n # nexts) enc pc = (True, enc @ (?b # bs), p)"
        using al e enc ns by (simp add: Let_def)
      fix rows :: "u32 list" and c rest q assume "stream 3 rows c = (?b # bs) @ rest"
      then have "continues 3 rows (Decode32_loop env rows) c q (bs @ rest) (exec_words True env [n, n0, n1, n2] q)"
        using pro imm0 ns by (intro decode_prologue32) auto
      from continues_bind [OF this dec]
      show "continues 3 rows (Decode32_loop env rows) c q rest (exec_words True env (n # nexts) q)"
        using exec_words_append [of True env "[n, n0, n1, n2]" ns q] by (simp add: ns)
    qed
  qed
qed

section \<open>One instruction, 64 bits\<close>

lemma ucast_word_of_int_id: "(ucast (word_of_int v :: u64) :: u64) = word_of_int v"
  by simp

lemma decode_vsp_offset64:
  assumes "stream 7 is c = encode_vsp_offset imm @ rest" "4 dvd imm" "0 \<le> imm \<or> imm < - 252"
    and fits: "sleb_fits imm"
  shows "continues 7 is (Decode64_loop env is) c q rest (Go (q\<lparr>cfa := cfa q + word_of_int imm\<rparr>))"
proof (cases "0 < imm \<and> imm \<le> 252")
  case True
  then obtain k where k: "k < 64" "imm = 4 * int k" using imm_cases [of imm 63] assms by auto
  show ?thesis
    by (rule dec64.plain_op [of _ _ "of_nat k"])
      (use assms True k in \<open>simp_all add: encode_vsp_offset_def FILL_WITH_IMM_small vsp_add_byte decode64_defs\<close>)
next
  case False
  show ?thesis
  proof (cases "imm = 0")
    case True
    show ?thesis
      by (rule dec64.plain_op [of _ _ "0x40"])
        (use assms True in \<open>simp_all add: encode_vsp_offset_def FILL_WITH_IMM_def IMM_ALIGNED_def decode64_defs\<close>)
  next
    case nz: False
    show ?thesis
      by (rule dec64.sleb_op [of _ _ VSP_OFFSET_SLEB128_OP imm, OF _ fits])
        (use assms False nz in \<open>auto simp: encode_vsp_offset_def decode64_defs\<close>)
  qed
qed

lemma decode64_prefix:
  "b AND 0xf0 = 0xB0 \<Longrightarrow> drop_bit 6 b = 2 \<Longrightarrow> decode64_op env is b c q = load_reg env (cfa q - imm4 b) R20 c q"
  "b AND 0xf0 = 0xC0 \<Longrightarrow> drop_bit 6 b = 3 \<Longrightarrow> decode64_op env is b c q = load_reg env (cfa q - imm4 b) R28 c q"
  "b AND 0xf0 = 0xD0 \<Longrightarrow> drop_bit 6 b = 3 \<Longrightarrow> decode64_op env is b c q = load_reg env (cfa q - imm4 b) R29 c q"
  "b AND 0xf0 = 0xE0 \<Longrightarrow> drop_bit 6 b = 3 \<Longrightarrow> decode64_op env is b c q = load_reg env (cfa q - imm4 b) LR c q"
  by (auto simp: decode64_defs)

lemma load_x29_effect:
  "(case load_reg env a R29 c q of
      Next c2 q2 \<Rightarrow> if regs q2 R29 = 0 then Return QUT_ERROR_NONE q2 else Next c2 q2
    | other \<Rightarrow> other) = outcome_of c (stop_at_zero True R29 (load_effect env a R29 q))"
  by (simp add: load_reg_effect stop_at_zero_def split: effect.split)

lemma decode_reg_offset64:
  assumes "stream 7 is c = encode_reg_offset p s imm @ rest" "4 dvd imm" "r \<noteq> PC"
    and "(i, p, s, r) \<in> {(X20_OFFSET, 0xB0, X20_OFFSET_SLEB128_OP, R20),
                        (X28_OFFSET, 0xC0, X28_OFFSET_SLEB128_OP, R28),
                        (X29_OFFSET, 0xD0, X29_OFFSET_SLEB128_OP, R29),
                        (LR_OFFSET, 0xE0, LR_OFFSET_SLEB128_OP, LR)}"
    and fits: "sleb_fits imm"
  shows "continues 7 is (Decode64_loop env is) c q rest
           (stop_at_zero (ends_chain False i imm) r (load_effect env (cfa q - word_of_int imm) r q))"
proof (cases "0 \<le> imm \<and> imm \<le> 60")
  case True
  then have st: "stream 7 is c = FILL_WITH_IMM p imm 4 # rest"
    using assms(1) by (simp add: encode_reg_offset_def)
  have p: "p \<in> {0xA0, 0xB0, 0xC0, 0xD0, 0xE0}" using assms(4) by auto
  note rng = assms(2) conjunct1 [OF True] conjunct2 [OF True] p
  note pre = FILL_prefix(1) [where 'w = 64, OF rng] FILL_prefix(2-3) [OF rng]
  have "\<not> ends_chain False i imm" using True by (simp add: ends_chain_def)
  then show ?thesis
    by (intro dec64.plain_op [OF st])
      (use assms(3,4) pre in \<open>auto simp: decode64_prefix load_reg_effect\<close>)
next
  case False
  then have st: "stream 7 is c = s # EncodeSLEB128 imm 0 @ rest"
    using assms(1) by (auto simp: encode_reg_offset_def)
  have ch: "ends_chain False i imm = (i = X29_OFFSET)" using False by (auto simp: ends_chain_def)
  show ?thesis
    by (rule dec64.sleb_op [OF st fits])
      (use assms(3,4) ch in \<open>auto simp: decode64_defs load_reg_effect load_x29_effect [simplified load_reg_effect]\<close>)
qed

lemma decode_vsp_set_by_x29:
  assumes "stream 7 is c = pushed (encode_vsp_set_by_x29 imm nexts) @ rest"
    and "4 dvd imm" "0 \<le> imm" "imm \<le> 508" "imm = 0 \<longrightarrow> \<not> have_prologue64 nexts"
  shows "continues 7 is (Decode64_loop env is) c q rest (exec_instr False env VSP_SET_BY_X29 imm q)"
proof (cases "imm = 0")
  case True
  then have st: "stream 7 is c = VSP_SET_BY_X29_OP # rest"
    using assms by (simp add: encode_vsp_set_by_x29_def emit_def)
  show ?thesis
    by (rule dec64.plain_op [OF st]) (use True in \<open>auto simp: decode64_defs effect_defs\<close>)
next
  case False
  then have st: "stream 7 is c = VSP_SET_BY_X29_IMM_OP # FILL_WITH_IMM 0 imm 7 # rest"
    using assms by (auto simp: encode_vsp_set_by_x29_def emit_def)
  show ?thesis
    by (rule dec64.imm7_op [OF st assms(2-4)]) (auto simp: decode64_defs effect_defs)
qed

lemma decode_instr64:
  assumes st: "stream 7 is c = pushed (encode_op64 (Some i) imm nexts) @ rest"
    and ex: "expressible False i imm"
    and np: "imm = 0 \<and> i = VSP_SET_BY_X29 \<longrightarrow> \<not> have_prologue64 nexts"
    and fits: "sleb_fits imm"
  shows "continues 7 is (Decode64_loop env is) c q rest (exec_instr False env i imm q)"
proof (cases i)
  case VSP_SET_BY_JNI_SP
  have "stream 7 is c = VSP_SET_BY_JNI_SP_OP # FILL_WITH_IMM 0 imm 7 # rest"
    using st ex fits VSP_SET_BY_JNI_SP by (simp add: encode_op64_def emit_def effect_defs)
  then show ?thesis
    by (rule dec64.imm7_op) (use ex VSP_SET_BY_JNI_SP in \<open>auto simp: decode64_defs effect_defs\<close>)
next
  case VSP_SET_IMM
  have "stream 7 is c = VSP_SET_IMM_OP # EncodeSLEB128 imm 0 @ rest"
    using st VSP_SET_IMM by (simp add: encode_op64_def emit_def)
  then show ?thesis
    by (rule dec64.sleb_op [OF _ fits]) (use VSP_SET_IMM in \<open>simp add: decode64_defs effect_defs\<close>)
next
  case DEX_PC_SET
  have "stream 7 is c = DEX_PC_SET_OP # rest"
    using st DEX_PC_SET by (simp add: encode_op64_def emit_def)
  then show ?thesis
    by (rule dec64.plain_op) (use DEX_PC_SET in \<open>simp add: decode64_defs effect_defs\<close>)
next
  case END_OF_INS
  have "stream 7 is c = END_OF_INS_OP # rest"
    using st END_OF_INS by (simp add: encode_op64_def emit_def)
  then show ?thesis
    by (rule dec64.plain_op) (use END_OF_INS in \<open>simp add: decode64_defs effect_defs\<close>)
next
  case FIN
  have "stream 7 is c = FINISH_OP # rest"
    using st FIN by (simp add: encode_op64_def emit_def)
  then show ?thesis
    by (rule dec64.plain_op) (use FIN in \<open>simp add: decode64_defs effect_defs\<close>)
next
  case SP_OFFSET
  have "stream 7 is c = SP_OFFSET_SLEB128_OP # EncodeSLEB128 imm 0 @ rest"
    using st SP_OFFSET by (simp add: encode_op64_def emit_def)
  then show ?thesis
    by (rule dec64.sleb_op [OF _ fits]) (use SP_OFFSET in \<open>simp add: decode64_defs effect_defs load_reg_effect\<close>)
next
  case PC_OFFSET
  have "stream 7 is c = PC_OFFSET_SLEB128_OP # EncodeSLEB128 imm 0 @ rest"
    using st PC_OFFSET by (simp add: encode_op64_def emit_def)
  then show ?thesis
    by (rule dec64.sleb_op [OF _ fits]) (use PC_OFFSET in \<open>simp add: decode64_defs effect_defs load_pc_effect\<close>)
next
  case X20_OFFSET
  then show ?thesis
    using st ex fits decode_reg_offset64 [of "is" c "0xB0" X20_OFFSET_SLEB128_OP imm rest R20 i env q]
    by (simp add: encode_op64_def emit_def effect_defs)
next
  case X28_OFFSET
  then show ?thesis
    using st ex fits decode_reg_offset64 [of "is" c "0xC0" X28_OFFSET_SLEB128_OP imm rest R28 i env q]
    by (simp add: encode_op64_def emit_def effect_defs)
next
  case X29_OFFSET
  then show ?thesis
    using st ex fits decode_reg_offset64 [of "is" c "0xD0" X29_OFFSET_SLEB128_OP imm rest R29 i env q]
    by (simp add: encode_op64_def emit_def effect_defs)
next
  case LR_OFFSET
  then show ?thesis
    using st ex fits decode_reg_offset64 [of "is" c "0xE0" LR_OFFSET_SLEB128_OP imm rest LR i env q]
    by (simp add: encode_op64_def emit_def effect_defs)
next
  case VSP_OFFSET
  then show ?thesis
    using st ex fits decode_vsp_offset64 [of "is" c imm rest env q]
    by (simp add: encode_op64_def emit_def effect_defs)
next
  case VSP_SET_BY_X29
  then show ?thesis
    using st ex fits np decode_vsp_set_by_x29 [of "is" c imm nexts rest env q]
    by (simp add: encode_op64_def expressible_def)
qed (use st in \<open>simp_all add: encode_op64_def emit_def effect_defs dec64.no_op\<close>)

section \<open>Whole instruction lists, 64 bits\<close>

lemma decode_prologue64:
  assumes "stream 7 is c = VSP_SET_BY_X29_PROLOGUE_OP # rest"
    and "instr_op n = Some VSP_SET_BY_X29" "instr_imm n = 0"
    and "have_prologue64 (n0 # n1 # n2 # ns)" "instr_imm n0 = 16"
  shows "continues 7 is (Decode64_loop env is) c q rest (exec_words False env [n, n0, n1, n2] q)"
proof (rule dec64.plain_op [OF assms(1)])
  fix c1
  have n0: "instr_op n0 = Some VSP_OFFSET" "instr_op n1 = Some LR_OFFSET" "instr_imm n1 = 8"
      "instr_op n2 = Some X29_OFFSET" "instr_imm n2 = 16"
    using assms(4,5) by (auto simp: have_prologue64_def)
  have "exec_words False env [n, n0, n1, n2] q = prologue_effect env 8 R29 q"
    using assms(2,3,5) n0
    by (auto simp: exec_word_def effect_defs prologue_effect_def ends_chain_def split: effect.splits)
  moreover have "decode64_op env is VSP_SET_BY_X29_PROLOGUE_OP c1 q = load_prologue env 8 R29 c1 q"
    by (simp add: decode64_defs)
  ultimately show "decode64_op env is VSP_SET_BY_X29_PROLOGUE_OP c1 q
      = outcome_of c1 (exec_words False env [n, n0, n1, n2] q)"
    by (simp add: load_prologue_effect)
qed

lemma encode_op64_ok:
  assumes "expressible False i imm" "imm = 0 \<and> i = VSP_SET_BY_X29 \<longrightarrow> \<not> have_prologue64 nexts"
  shows "ok (encode_op64 (Some i) imm nexts)" "skipped (encode_op64 (Some i) imm nexts) = 0"
  using assms
  by (auto simp: encode_op64_def encode_vsp_set_by_x29_def emit_def expressible_def
      split: QutInstruction.splits)

theorem decode_encoded64:
  assumes "expressible_words False is"
  shows "\<exists>bs. QuickenInstructionsEncode64 is enc = (True, enc @ bs) \<and>
           (\<forall>(rows :: u64 list) c rest q. stream 7 rows c = bs @ rest \<longrightarrow>
              continues 7 rows (Decode64_loop env rows) c q rest (exec_words False env is q))"
  using assms
proof (induction "is" enc rule: QuickenInstructionsEncode64.induct)
  case (1 enc)
  then show ?case by (intro exI [of _ "[]"]) (simp add: dec64.no_op)
next
  case (2 n nexts enc)
  let ?imm = "instr_imm n"
  let ?e = "encode_op64 (instr_op n) ?imm nexts"
  have al: "?imm AND 3 = 0"
    using 2(2) by (auto simp: aligned_iff expressible_word_def expressible_def split: option.splits)
  consider (none) "instr_op n = None"
    | (plain) i where "instr_op n = Some i" "?imm = 0 \<and> i = VSP_SET_BY_X29 \<longrightarrow> \<not> have_prologue64 nexts"
    | (pro) "instr_op n = Some VSP_SET_BY_X29" "?imm = 0" "have_prologue64 nexts"
    by (cases "instr_op n") auto
  then show ?case
  proof cases
    case none
    then have e: "?e = emit []" by (simp add: encode_op64_def)
    from 2(1) [OF refl _ refl refl] al e 2(2) obtain bs where
      enc: "QuickenInstructionsEncode64 nexts enc = (True, enc @ bs)"
      and dec: "\<And>(rows :: u64 list) c rest q. stream 7 rows c = bs @ rest \<Longrightarrow>
              continues 7 rows (Decode64_loop env rows) c q rest (exec_words False env nexts q)"
      by (auto simp: emit_def)
    with al e none show ?thesis
      by (intro exI [of _ bs]) (auto simp: emit_def exec_word_def Let_def)
  next
    case (plain i)
    have ex: "expressible False i ?imm" using 2(2) plain by (simp add: expressible_word_def)
    note oke = encode_op64_ok [OF ex plain(2)]
    from 2(1) [OF refl _ refl refl] al oke plain 2(2) obtain bs where
      enc: "QuickenInstructionsEncode64 nexts (enc @ pushed ?e) = (True, (enc @ pushed ?e) @ bs)"
      and dec: "\<And>(rows :: u64 list) c rest q. stream 7 rows c = bs @ rest \<Longrightarrow>
              continues 7 rows (Decode64_loop env rows) c q rest (exec_words False env nexts q)"
      by auto
    show ?thesis
    proof (intro exI conjI allI impI)
      show "QuickenInstructionsEncode64 (n # nexts) enc = (True, enc @ (pushed ?e @ bs))"
        using al oke plain enc by (simp add: Let_def)
      fix rows :: "u64 list" and c rest q assume "stream 7 rows c = (pushed ?e @ bs) @ rest"
      then have "continues 7 rows (Decode64_loop env rows) c q (bs @ rest) (exec_instr False env i ?imm q)"
        using plain ex by (intro decode_instr64 [of _ _ i ?imm nexts]) auto
      from continues_bind [OF this dec]
      show "continues 7 rows (Decode64_loop env rows) c q rest (exec_words False env (n # nexts) q)"
        using plain by (simp add: exec_word_def)
    qed
  next
    case pro
    then obtain n0 n1 n2 ns where ns: "nexts = n0 # n1 # n2 # ns"
      by (auto simp: have_prologue64_def split: list.splits)
    have e: "?e = \<lparr>ok = True, pushed = [VSP_SET_BY_X29_PROLOGUE_OP], skipped = 3, conformed = False\<rparr>"
      using pro by (auto simp: encode_op64_def encode_vsp_set_by_x29_def)
    have imm0: "instr_imm n0 = 16"
      using 2(2) pro ns by (auto simp: prologue_fits_def split: if_splits)
    from 2(1) [OF refl _ refl refl] al e 2(2) obtain bs where
      enc: "QuickenInstructionsEncode64 ns (enc @ [VSP_SET_BY_X29_PROLOGUE_OP])
              = (True, (enc @ [VSP_SET_BY_X29_PROLOGUE_OP]) @ bs)"
      and dec: "\<And>(rows :: u64 list) c rest q. stream 7 rows c = bs @ rest \<Longrightarrow>
              continues 7 rows (Decode64_loop env rows) c q rest (exec_words False env ns q)"
      by (auto simp: ns)
    show ?thesis
    proof (intro exI conjI allI impI)
      show "QuickenInstructionsEncode64 (n # nexts) enc = (True, enc @ (VSP_SET_BY_X29_PROLOGUE_OP # bs))"
        using al e enc ns by (simp add: Let_def)
      fix rows :: "u64 list" and c rest q
      assume "stream 7 rows c = (VSP_SET_BY_X29_PROLOGUE_OP # bs) @ rest"
      then have "continues 7 rows (Decode64_loop env rows) c q (bs @ rest) (exec_words False env [n, n0, n1, n2] q)"
        using pro imm0 ns by (intro decode_prologue64) auto
      from continues_bind [OF this dec]
      show "continues 7 rows (Decode64_loop env rows) c q rest (exec_words False env (n # nexts) q)"
        using exec_words_append [of False env "[n, n0, n1, n2]" ns q] by (simp add: ns)
    qed
  qed
qed

section \<open>Where the encoding and the meaning part\<close>

lemma negative_vsp_bits:
  "\<forall>n \<in> {1..<64::nat}. drop_bit 6 (word_of_int (0x40 OR (64 - int n)) :: u8) = 1
     \<and> (push_bit 2 (word_of_int (0x40 OR (64 - int n)) :: u8) :: u8) = word_of_int (256 - 4 * int n)"
  by code_simp

lemma negative_vsp_byte:
  assumes "4 dvd imm" "- 252 \<le> imm" "imm < 0"
  shows "drop_bit 6 (FILL_WITH_IMM 0x40 imm 6) = 1"
    and "push_bit 2 (FILL_WITH_IMM 0x40 imm 6) = (word_of_int (256 + imm) :: u8)"
proof -
  from assms(1) obtain m where m: "imm = 4 * m" ..
  define n where "n = nat (- m)"
  have n: "n \<in> {1..<64}" "imm = - 4 * int n" using assms m by (auto simp: n_def)
  have "63 AND (- int n) = (64 - int n)"
  proof -
    have "63 AND (- int n) = (- int n) mod 64"
      using take_bit_eq_mask [of 6 "- int n"]
      by (simp add: mask_eq_exp_minus_1 take_bit_eq_mod and.commute)
    also have "\<dots> = 64 - int n" using n(1) by (simp add: zmod_zminus1_eq_if)
    finally show ?thesis .
  qed
  moreover have "IMM_ALIGNED imm = - int n"
    unfolding IMM_ALIGNED_def n(2) by (simp only: drop_bit_eq_div minus_mult_left) simp
  ultimately have "FILL_WITH_IMM 0x40 imm 6 = word_of_int (0x40 OR (64 - int n))"
    by (simp add: FILL_WITH_IMM_def push_bit_eq_mult)
  then show "drop_bit 6 (FILL_WITH_IMM 0x40 imm 6) = 1"
    and "push_bit 2 (FILL_WITH_IMM 0x40 imm 6) = (word_of_int (256 + imm) :: u8)"
    using bspec [OF negative_vsp_bits n(1)] n(2) by simp_all
qed

lemma ucast_word_of_int_u8:
  "0 \<le> n \<Longrightarrow> n < 256 \<Longrightarrow> ucast (word_of_int n :: u8) = (word_of_int n :: 'w::len word)"
  by (simp add: ucast_eq unsigned_of_int take_bit_int_eq_self)

text \<open>
  C40. A negative \<open>vsp\<close> offset in [-252, -4] is not read back: its one byte carries the two's
  complement of the offset under the prefix of a subtraction, so that \<open>vsp += imm\<close> is decoded as
  \<open>vsp -= 256 + imm\<close>, which is the same only for \<open>imm = -128\<close>.
\<close>

theorem negative_vsp_offset_misread:
  assumes "4 dvd imm" "- 252 \<le> imm" "imm < 0"
  shows "\<exists>byte. encode_vsp_offset imm = [byte]
     \<and> decode32_op env32 rows32 byte c q32
         = Next c (q32\<lparr>cfa := cfa q32 - word_of_int (256 + imm)\<rparr>)
     \<and> decode64_op env64 rows64 byte c q64
         = Next c (q64\<lparr>cfa := cfa q64 - word_of_int (256 + imm)\<rparr>)"
proof -
  have "ucast (word_of_int (256 + imm) :: u8) = (word_of_int (256 + imm) :: u32)"
    and "ucast (word_of_int (256 + imm) :: u8) = (word_of_int (256 + imm) :: u64)"
    using assms by (auto intro!: ucast_word_of_int_u8 simp del: of_int_add)
  then show ?thesis
    using assms negative_vsp_byte [OF assms]
    by (intro exI [of _ "FILL_WITH_IMM 0x40 imm 6"])
      (simp add: encode_vsp_offset_def decode32_op_def decode64_op_def set_cfa_def)
qed

theorem negative_vsp_offset_misread_witness:
  "\<exists>byte. encode_vsp_offset (- 8) = [byte]
     \<and> decode32_op \<lparr>stack_bottom = 0, stack_top = 0, memory = \<lambda>a. 0\<rparr> [] byte (3, 0)
          \<lparr>cfa = 0x1000, dexpc = 0, pc_set = False, regs = of_nat\<rparr>
        = Next (3, 0) \<lparr>cfa = 0xf08, dexpc = 0, pc_set = False, regs = of_nat\<rparr>"
  using negative_vsp_offset_misread [of "- 8" "\<lparr>stack_bottom = 0, stack_top = 0, memory = \<lambda>a. 0\<rparr>" "[]" "(3, 0)"
      "\<lparr>cfa = 0x1000, dexpc = 0, pc_set = False, regs = of_nat\<rparr>"]
  by simp blast

text \<open>
  The look-ahead for a prologue compares the three instructions with each other but never with
  the word size: \<open>vsp = r7; vsp += k; lr = [vsp - (k - 4)]; r7 = [vsp - k]\<close> becomes the byte
  for \<open>vsp = r7 + 8\<close> for every \<open>k\<close>, and likewise with \<open>x29\<close>.
\<close>

theorem prologue_offset_dropped:
  assumes "4 dvd k" "- (2 ^ 31) + 8 \<le> k" "k < 2 ^ 31"
  shows "QuickenInstructionsEncode32
           [mk_instr VSP_SET_BY_R7 0, mk_instr VSP_OFFSET k, mk_instr LR_OFFSET (k - 4),
            mk_instr R7_OFFSET k] [] False = (True, [VSP_SET_BY_R7_PROLOGUE_OP], True)
       \<and> QuickenInstructionsEncode64
           [mk_instr VSP_SET_BY_X29 0, mk_instr VSP_OFFSET k, mk_instr LR_OFFSET (k - 8),
            mk_instr X29_OFFSET k] [] = (True, [VSP_SET_BY_X29_PROLOGUE_OP])"
  using assms
  by (simp_all add: instr_imm_mk encode_op32_def encode_vsp_set_by_fp32_def have_prologue32_def
      encode_op64_def encode_vsp_set_by_x29_def have_prologue64_def)

theorem prologue_offset_dropped_witness:
  "QuickenInstructionsEncode32
     [mk_instr VSP_SET_BY_R7 0, mk_instr VSP_OFFSET 24, mk_instr LR_OFFSET 20, mk_instr R7_OFFSET 24] [] False
   = QuickenInstructionsEncode32
     [mk_instr VSP_SET_BY_R7 0, mk_instr VSP_OFFSET 8, mk_instr LR_OFFSET 4, mk_instr R7_OFFSET 8] [] False"
  using prologue_offset_dropped [of 24] prologue_offset_dropped [of 8] by simp

text \<open>
  The 64-bit form \<open>vsp = x29 + SLEB128\<close>, used when the offset is negative or above 508, also
  overwrites \<open>dex_pc\<close> with \<open>x20\<close>: the branch of the decoder has no \<open>break\<close>.
\<close>

theorem x29_offset_sets_dex_pc:
  assumes "imm < 0 \<or> 508 < imm" "stream 7 rows c = EncodeSLEB128 imm 0 @ rest" "sleb_fits imm"
  shows "\<exists>c'. pushed (encode_vsp_set_by_x29 imm next) = VSP_SET_BY_X29_OFFSET_OP # EncodeSLEB128 imm 0
     \<and> decode64_op env rows VSP_SET_BY_X29_OFFSET_OP c q
         = Next c' (q\<lparr>cfa := regs q R29 + word_of_int imm, dexpc := regs q R20\<rparr>)
     \<and> stream 7 rows c' = rest"
proof -
  from DecodeSLEB128_encoded [OF assms(2,3)] obtain c' where
    "\<And>q k. DecodeSLEB128 7 rows c q k = (k (word_of_int imm) c' :: u64 qtable outcome)"
    "stream 7 rows c' = rest" by blast
  then show ?thesis
    using assms(1) by (auto simp: encode_vsp_set_by_x29_def emit_def decode64_defs)
qed

theorem x29_offset_sets_dex_pc_witness:
  "\<exists>c'. decode64_op \<lparr>stack_bottom = 0, stack_top = 0, memory = \<lambda>a. 0\<rparr> [0x7899999999999999]
          VSP_SET_BY_X29_OFFSET_OP (7, 0) \<lparr>cfa = 0, dexpc = 0, pc_set = False, regs = \<lambda>r. if r = R29 then 0x1000 else 0x20\<rparr>
        = Next c' \<lparr>cfa = 0xff8, dexpc = 0x20, pc_set = False, regs = \<lambda>r. if r = R29 then 0x1000 else 0x20\<rparr>"
proof -
  have "EncodeSLEB128 (- 8) 0 = [0x78]"
    by (simp add: EncodeSLEB128_def EncodeSLEB128_loop.simps [of "- 8"] sleb_more_def drop_bit_eq_div)
  moreover have "stream 7 [0x7899999999999999 :: u64] (7, 0) = [0x78, 0x99, 0x99, 0x99, 0x99, 0x99, 0x99, 0x99]"
    by (simp add: stream_def word_bytes_map upt_rec row_byte_def)
  ultimately show ?thesis
    using x29_offset_sets_dex_pc [of "- 8" "[0x7899999999999999]" "(7, 0)" "[0x99, 0x99, 0x99, 0x99, 0x99, 0x99, 0x99]" "[]"
        "\<lparr>stack_bottom = 0, stack_top = 0, memory = \<lambda>a. 0\<rparr>"
        "\<lparr>cfa = 0, dexpc = 0, pc_set = False, regs = \<lambda>r. if r = R29 then 0x1000 else 0x20\<rparr>"]
    by (auto simp: sleb_fits_def)
qed

end
