(* ===== verification/Table_Packing.thy ===== *)
theory Table_Packing
  imports Qut_Semantics
begin

text \<open>
  \<open>PackEntriesToQutSections\<close> of \<^verbatim>\<open>QuickenTableGenerator.cpp\<close>: the instructions of every
  entry are encoded, short ones go into the index word itself, long ones into rows of the table.
  The end of the theory puts the encoder, the packing and \<open>Eval\<close> together.  \<open>'w\<close> is
  \<open>uptr\<close> and \<open>row\<close> is \<open>QUT_TBL_ROW_SIZE\<close>, so that a word has \<open>row + 1\<close> bytes.
\<close>

section \<open>The entries\<close>

text \<open>
  \<open>QutInstructionsOfEntries\<close> is a \<open>std::map\<close> from the start of a range to its end and its
  instructions, here in iteration order.
\<close>

type_synonym qut_entries = "(u64 \<times> u64 \<times> u64 list) list"

text \<open>
  One pass of the first loop: the entry point and the bytes.  When the encoder gives up, what it
  has pushed so far stays, and an end marker is put behind it.
\<close>

definition encode_entry :: "bool \<Rightarrow> u64 \<times> u64 \<times> u64 list \<Rightarrow> u64 \<times> u8 list" where
  "encode_entry arm entry =
     (case entry of (entry_point, entry_end, instructions) \<Rightarrow>
        (case QuickenInstructionsEncode arm instructions [] False of
           (r, encoded, prologue_conformed) \<Rightarrow>
             (entry_point, if r then encoded else encoded @ [END_OF_INS_OP])))"

definition rows_needed :: "nat \<Rightarrow> u8 list \<Rightarrow> nat" where
  "rows_needed row encoded =
     (if length encoded > row then (length encoded + row) div (row + 1) else 0)"

section \<open>Words out of bytes\<close>

text \<open>Byte \<open>i\<close> of an entry, padded behind with end markers.\<close>

definition padded :: "u8 list \<Rightarrow> nat \<Rightarrow> u8" where
  "padded encoded i = (if i < length encoded then encoded ! i else END_OF_INS_OP)"

definition compact_step :: "nat \<Rightarrow> u8 list \<Rightarrow> nat \<Rightarrow> 'w::len word \<Rightarrow> 'w word" where
  "compact_step row encoded i compact =
     compact OR push_bit ((row - 1 - i) * 8) (ucast (padded encoded i))"

definition compact_word :: "nat \<Rightarrow> u8 list \<Rightarrow> 'w::len word" where
  "compact_word row encoded =
     fold (compact_step row encoded) [0..<row] (push_bit (row * 8) 0x80)"

text \<open>The length rounded up to whole rows, in the 32-bit arithmetic of the code.\<close>

definition size_ceil :: "nat \<Rightarrow> u8 list \<Rightarrow> nat" where
  "size_ceil row encoded =
     unat ((of_nat (length encoded + row) :: u32) AND (0xffffffff - of_nat row))"

definition row_step :: "nat \<Rightarrow> u8 list \<Rightarrow> nat \<Rightarrow> 'w::len word \<times> 'w word list \<Rightarrow> 'w word \<times> 'w word list" where
  "row_step row encoded i st =
     (case st of (w, out) \<Rightarrow>
        let left_shift = (row - i mod (row + 1)) * 8;
            w' = w OR push_bit left_shift (ucast (padded encoded i))
        in if left_shift = 0 then (0, out @ [w']) else (w', out))"

definition table_rows :: "nat \<Rightarrow> u8 list \<Rightarrow> 'w::len word list" where
  "table_rows row encoded = snd (fold (row_step row encoded) [0..<size_ceil row encoded] (0, []))"

definition combined_word :: "nat \<Rightarrow> nat \<Rightarrow> nat \<Rightarrow> 'w::len word" where
  "combined_word row row_count last_tbl_size =
     push_bit (row * 8) (of_nat row_count AND 0x7f) OR (of_nat last_tbl_size AND 0xffffff)"

section \<open>The packing loop\<close>

record 'v packing =
  temp_quidx :: "'v list"
  temp_qutbl :: "'v list"

text \<open>One pass of the second loop; the aborting \<open>CHECK\<close>s are faults.\<close>

definition pack_entry ::
  "nat \<Rightarrow> nat \<Rightarrow> nat \<Rightarrow> u64 \<times> u8 list \<Rightarrow> 'w::len word packing \<Rightarrow> fault + 'w word packing" where
  "pack_entry row temp_idx_capacity temp_tbl_capacity entry p =
     (case entry of (entry_point, encoded) \<Rightarrow>
        let idx1 = temp_quidx p @ [ucast entry_point];
            checked = (\<lambda>p'. if length (temp_quidx p') \<le> temp_idx_capacity
                            \<and> length (temp_qutbl p') \<le> temp_tbl_capacity
                         then Inr p' else Inl CheckFailed)
        in if length encoded \<le> row
           then checked (p\<lparr>temp_quidx := idx1 @ [compact_word row encoded]\<rparr>)
           else (let last_tbl_size = length (temp_qutbl p);
                     new_rows = table_rows row encoded;
                     row_count = length new_rows
                 in if row_count \<le> 0x7f \<and> last_tbl_size \<le> 0xffffff
                    then checked \<lparr>temp_quidx = idx1 @ [combined_word row row_count last_tbl_size],
                                  temp_qutbl = temp_qutbl p @ new_rows\<rparr>
                    else Inl CheckFailed))"

fun pack_loop ::
  "nat \<Rightarrow> nat \<Rightarrow> nat \<Rightarrow> (u64 \<times> u8 list) list \<Rightarrow> 'w::len word packing \<Rightarrow> fault + 'w word packing" where
  "pack_loop row icap tcap [] p = Inr p"
| "pack_loop row icap tcap (e # es) p =
     (case pack_entry row icap tcap e p of
        Inl f \<Rightarrow> Inl f
      | Inr p' \<Rightarrow> pack_loop row icap tcap es p')"

definition PackEntriesToQutSections ::
  "bool \<Rightarrow> qut_entries \<Rightarrow> fault + 'w::len word qut_sections" where
  "PackEntriesToQutSections arm entries =
     (let row = QUT_TBL_ROW_SIZE arm;
          entries_encoded = map (encode_entry arm) entries;
          instr_tbl_count = sum_list (map (\<lambda>e. rows_needed row (snd e)) entries_encoded)
      in case pack_loop row (length entries_encoded * 2) instr_tbl_count entries_encoded
                \<lparr>temp_quidx = [], temp_qutbl = []\<rparr> of
           Inl f \<Rightarrow> Inl f
         | Inr p \<Rightarrow> Inr \<lparr>quidx = temp_quidx p, qutbl = temp_qutbl p,
                         idx_size = length (temp_quidx p), tbl_size = length (temp_qutbl p)\<rparr>)"

section \<open>Bytes back out of words\<close>

lemma bit_fold_or:
  "bit (fold (\<lambda>i (w :: 'w::len word). w OR push_bit (sh i) (ucast (f i :: u8))) is acc) k \<longleftrightarrow>
     bit acc k \<or> (\<exists>i \<in> set is. sh i \<le> k \<and> k < LENGTH('w) \<and> bit (f i) (k - sh i))"
  by (induction "is" arbitrary: acc) (auto simp: bitvals)

lemma bit_u8_less: "bit (b :: u8) n \<Longrightarrow> n < 8"
  using bit_imp_le_length [of b n] by simp

lemma bit_row_byte: "bit (row_byte j w) n \<longleftrightarrow> n < 8 \<and> bit w (8 * j + n)"
proof -
  have "row_byte j w = ucast (take_bit 8 (drop_bit (8 * j) w))"
    by (simp add: row_byte_def take_bit_eq_mask mask_eq_exp_minus_1)
  then show ?thesis
    by (auto simp: bitvals bit_drop_bit_eq dest: bit_imp_le_length)
qed

text \<open>\<open>n\<close> bytes or-ed in from byte position \<open>n - 1\<close> down, over a word that is zero there.\<close>

lemma row_byte_fold_or:
  assumes "j < n" "8 * n \<le> LENGTH('w::len)" "\<forall>k < 8 * n. \<not> bit acc k"
    and "\<And>i. i < n \<Longrightarrow> sh (a + i) = (n - 1 - i) * 8"
  shows "row_byte j (fold (\<lambda>i (w :: 'w word). w OR push_bit (sh i) (ucast (f i :: u8))) [a..<a + n] acc)
           = f (a + (n - 1 - j))"
proof (rule bit_eqI)
  fix b assume "possible_bit TYPE(8 word) b"
  then have b: "b < 8" by simp
  let ?k = "8 * j + b"
  have k: "?k < 8 * n" using b assms(1) by linarith
  have "(\<exists>i \<in> set [a..<a + n]. sh i \<le> ?k \<and> ?k < LENGTH('w) \<and> bit (f i) (?k - sh i))
          \<longleftrightarrow> bit (f (a + (n - 1 - j))) b" (is "?L = ?R")
  proof
    assume ?L
    then obtain m where m: "m < n" "sh (a + m) \<le> ?k" "bit (f (a + m)) (?k - sh (a + m))"
      by (auto simp: le_iff_add)
    then have "n - 1 - m = j"
      using assms(4) [OF m(1)] bit_u8_less [OF m(3)] b by linarith
    then have "m = n - 1 - j" using m(1) by linarith
    moreover from this have "sh (a + m) = j * 8" using assms(4) [OF m(1)] \<open>n - 1 - m = j\<close> by simp
    ultimately show ?R using m(3) by (simp add: mult.commute)
  next
    assume ?R
    have "sh (a + (n - 1 - j)) = j * 8" using assms(1) assms(4) [of "n - 1 - j"] by simp
    with \<open>?R\<close> show ?L
      using assms(1,2) k b by (intro bexI [of _ "a + (n - 1 - j)"]) (auto simp: mult.commute)
  qed
  then show "bit (row_byte j (fold (\<lambda>i (w :: 'w word). w OR push_bit (sh i) (ucast (f i))) [a..<a + n] acc)) b
      = bit (f (a + (n - 1 - j))) b"
    using assms(3) k b by (simp add: bit_row_byte bit_fold_or)
qed

section \<open>Compact words\<close>

lemma bit_0x80: "bit (0x80 :: 'w::len word) k \<longleftrightarrow> k = 7 \<and> 7 < LENGTH('w)"
proof -
  have "(0x80 :: 'w word) = 2 ^ 7" by simp
  then show ?thesis by (simp only: bit_exp_iff) auto
qed

lemma bit_compact_top:
  assumes "LENGTH('w::len) = 8 * (row + 1)"
  shows "bit (compact_word row bs :: 'w word) (8 * row + 7)"
  unfolding compact_word_def compact_step_def bit_fold_or
  using assms by (simp add: bit_push_bit_iff bit_0x80)

lemma stream_compact_word:
  assumes "LENGTH('w::len) = 8 * (row + 1)" "0 < row"
  shows "stream row [compact_word row bs :: 'w word] (row - 1, 0) = map (padded bs) [0..<row]"
proof -
  have "row_byte (row - 1 - i) (compact_word row bs :: 'w word) = padded bs i" if "i < row" for i
  proof -
    have "row_byte (row - 1 - i)
            (fold (\<lambda>i (w :: 'w word). w OR push_bit ((row - 1 - i) * 8) (ucast (padded bs i)))
               [0..<0 + row] (push_bit (row * 8) 0x80))
          = padded bs (0 + (row - 1 - (row - 1 - i)))"
      using that assms by (intro row_byte_fold_or) (auto simp: bit_push_bit_iff)
    then show ?thesis using that by (simp add: compact_word_def compact_step_def [abs_def])
  qed
  then have "word_bytes (row - 1) (compact_word row bs :: 'w word) = map (padded bs) [0..<row]"
    using assms(2) by (simp add: word_bytes_map)
  then show ?thesis by (simp add: stream_def)
qed

section \<open>Table rows\<close>

lemma chunk_mod: "k < n \<Longrightarrow> (n * m + k) mod n = (k :: nat)"
  by simp

lemma row_step_partial:
  assumes "k \<le> row"
  shows "fold (row_step row bs) [(row + 1) * m..<(row + 1) * m + k] (w, out)
    = (fold (\<lambda>i v. v OR push_bit ((row - i mod (row + 1)) * 8) (ucast (padded bs i)))
         [(row + 1) * m..<(row + 1) * m + k] w, out)"
  using assms
proof (induction k)
  case (Suc k)
  then have "((row + 1) * m + k) mod (row + 1) = k" by (intro chunk_mod) simp
  then show ?case using Suc by (simp add: row_step_def Let_def)
qed simp

definition table_row :: "nat \<Rightarrow> u8 list \<Rightarrow> nat \<Rightarrow> 'w::len word" where
  "table_row row bs m =
     fold (\<lambda>i v. v OR push_bit ((row - i mod (row + 1)) * 8) (ucast (padded bs i)))
       [(row + 1) * m..<(row + 1) * m + (row + 1)] 0"

lemma row_step_chunk:
  "fold (row_step row bs) [(row + 1) * m..<(row + 1) * m + (row + 1)] (0, out)
     = (0, out @ [table_row row bs m])"
proof -
  have "((row + 1) * m + row) mod (row + 1) = row" by (intro chunk_mod) simp
  then show ?thesis
    using row_step_partial [of row row bs m 0 out]
    by (simp add: row_step_def table_row_def Let_def)
qed

lemma fold_row_step:
  "fold (row_step row bs) [0..<(row + 1) * m] (0, []) = (0, map (table_row row bs) [0..<m])"
proof (induction m)
  case (Suc m)
  have "[0..<(row + 1) * Suc m] = [0..<(row + 1) * m] @ [(row + 1) * m..<(row + 1) * m + (row + 1)]"
    by (metis add.commute le_add2 mult_Suc_right plus_nat.add_0 upt_add_eq_append zero_le)
  then show ?case
    by (simp only: fold_append o_apply Suc row_step_chunk) simp
qed simp

lemma word_bytes_table_row:
  assumes "LENGTH('w::len) = 8 * (row + 1)"
  shows "word_bytes row (table_row row bs m :: 'w word)
           = map (padded bs) [(row + 1) * m..<(row + 1) * Suc m]"
proof -
  have "row_byte (row - i) (table_row row bs m :: 'w word) = padded bs ((row + 1) * m + i)"
    if "i < row + 1" for i
  proof -
    have "row_byte (row - i)
            (fold (\<lambda>i (w :: 'w word). w OR push_bit ((row - i mod (row + 1)) * 8) (ucast (padded bs i)))
               [(row + 1) * m..<(row + 1) * m + (row + 1)] 0)
          = padded bs ((row + 1) * m + (row + 1 - 1 - (row - i)))"
      using that assms
      by (intro row_byte_fold_or) (auto simp: chunk_mod simp del: mult_Suc mult_Suc_right)
    then show ?thesis using that by (simp add: table_row_def)
  qed
  moreover have "[(row + 1) * m..<(row + 1) * Suc m] = map (\<lambda>i. i + (row + 1) * m) [0..<row + 1]"
    by (simp add: map_add_upt)
  ultimately show ?thesis by (simp add: word_bytes_map add.commute del: upt_Suc)
qed

lemma concat_table_rows:
  assumes "LENGTH('w::len) = 8 * (row + 1)"
  shows "concat (map (word_bytes row) (map (table_row row bs :: nat \<Rightarrow> 'w word) [0..<m]))
           = map (padded bs) [0..<(row + 1) * m]"
proof (induction m)
  case (Suc m)
  have "[0..<(row + 1) * Suc m] = [0..<(row + 1) * m] @ [(row + 1) * m..<(row + 1) * Suc m]"
    by (metis le_add1 mult_Suc_right add.commute plus_nat.add_0 upt_add_eq_append zero_le)
  then show ?case using Suc word_bytes_table_row [OF assms] by simp
qed simp

section \<open>Row counts and combined words\<close>

lemma unat_clear_low:
  assumes "x < 2 ^ 32"
  shows "unat ((of_nat x :: u32) AND NOT (mask n)) = x div 2 ^ n * 2 ^ n"
proof -
  have "(of_nat x :: u32) AND NOT (mask n) = push_bit n (drop_bit n (of_nat x))"
    by (rule bit_eqI) (auto simp: bit_simps)
  then have "unat ((of_nat x :: u32) AND NOT (mask n)) = take_bit 32 (push_bit n (drop_bit n x))"
    using assms by (simp only: unsigned_push_bit_eq unsigned_drop_bit_eq unsigned_of_nat)
      (simp add: take_bit_nat_eq_self)
  moreover have "x div 2 ^ n * 2 ^ n < 2 ^ 32"
    using assms by (meson div_times_less_eq_dividend order_le_less_trans)
  ultimately show ?thesis
    by (simp add: push_bit_eq_mult drop_bit_eq_div take_bit_nat_eq_self)
qed

lemma size_ceil_rows:
  assumes "row = 3 \<or> row = 7" "length bs + row < 2 ^ 32" "row < length bs"
  shows "size_ceil row bs = (row + 1) * rows_needed row bs"
proof -
  let ?x = "length bs + row"
  obtain n where n: "row + 1 = 2 ^ n" "(0xffffffff - of_nat row :: u32) = NOT (mask n)"
    using assms(1)
  proof
    assume "row = 3" then show thesis using that [of 2] by (simp add: mask_eq_exp_minus_1)
  next
    assume "row = 7" then show thesis using that [of 3] by (simp add: mask_eq_exp_minus_1)
  qed
  have "size_ceil row bs = ?x div 2 ^ n * 2 ^ n"
    unfolding size_ceil_def n(2) by (rule unat_clear_low [OF assms(2)])
  then show ?thesis
    using assms(3) n(1) by (simp add: rows_needed_def mult.commute)
qed

lemma table_rows_eq:
  assumes "row = 3 \<or> row = 7" "length bs + row < 2 ^ 32" "row < length bs"
  shows "table_rows row bs = map (table_row row bs) [0..<rows_needed row bs]"
  by (simp only: table_rows_def size_ceil_rows [OF assms] fold_row_step snd_conv)

lemma bit_combined_word:
  assumes "LENGTH('w::len) = 8 * (row + 1)" "3 \<le> row"
  shows "bit (combined_word row rc off :: 'w word) k \<longleftrightarrow>
    (8 * row \<le> k \<and> k < 8 * row + 7 \<and> bit rc (k - 8 * row)) \<or> (k < 24 \<and> bit off k)"
proof -
  have "(of_nat rc :: 'w word) AND 0x7f = take_bit 7 (of_nat rc)"
    and "(of_nat off :: 'w word) AND 0xffffff = take_bit 24 (of_nat off)"
    by (simp_all add: take_bit_eq_mask mask_eq_exp_minus_1)
  then show ?thesis
    using assms by (auto simp: combined_word_def bit_simps mult.commute)
qed

lemma unat_take_of_nat:
  "n < 2 ^ k \<Longrightarrow> k \<le> LENGTH('w::len) \<Longrightarrow> unat (take_bit k (of_nat n :: 'w word)) = n"
  by (simp add: unsigned_take_bit_eq unsigned_of_nat take_bit_take_bit min_def take_bit_nat_eq_self)

lemma row_count_of_combined:
  assumes "LENGTH('w::len) = 8 * (row + 1)" "3 \<le> row" "rc \<le> 0x7f"
  shows "row_count_of (combined_word row rc off :: 'w word) = rc"
proof -
  have "drop_bit (LENGTH('w) - 8) (combined_word row rc off) AND 0x7f
      = take_bit 7 (drop_bit (8 * row) (combined_word row rc off :: 'w word))"
    using assms by (simp add: take_bit_eq_mask mask_eq_exp_minus_1)
  also have "\<dots> = take_bit 7 (of_nat rc)"
    by (rule bit_eqI) (use assms in \<open>auto simp: bit_take_bit_iff bit_drop_bit_eq bit_combined_word bit_of_nat_iff\<close>)
  finally have "row_count_of (combined_word row rc off :: 'w word) = unat (take_bit 7 (of_nat rc :: 'w word))"
    by (simp add: row_count_of_def)
  then show ?thesis
    using assms unat_take_of_nat [of rc 7, where 'w = 'w] by simp
qed

lemma row_offset_of_combined:
  assumes "LENGTH('w::len) = 8 * (row + 1)" "3 \<le> row" "off \<le> 0xffffff"
  shows "row_offset_of (combined_word row rc off :: 'w word) = off"
proof -
  have "combined_word row rc off AND 0xffffff = take_bit 24 (combined_word row rc off :: 'w word)"
    by (simp add: take_bit_eq_mask mask_eq_exp_minus_1)
  also have "\<dots> = take_bit 24 (of_nat off)"
    by (rule bit_eqI) (use assms in \<open>auto simp: bit_take_bit_iff bit_combined_word bit_of_nat_iff\<close>)
  finally have "row_offset_of (combined_word row rc off :: 'w word) = unat (take_bit 24 (of_nat off :: 'w word))"
    by (simp add: row_offset_of_def)
  then show ?thesis
    using assms unat_take_of_nat [of off 24, where 'w = 'w] by simp
qed

lemma top_bit_drop: "drop_bit (LENGTH('w) - 1) (w :: 'w::len word) \<noteq> 0 \<longleftrightarrow> bit w (LENGTH('w) - 1)"
proof
  assume "bit w (LENGTH('w) - 1)"
  then show "drop_bit (LENGTH('w) - 1) w \<noteq> 0" by (auto simp: bit_iff_odd_drop_bit)
next
  assume "drop_bit (LENGTH('w) - 1) w \<noteq> 0"
  then obtain n where "bit w (LENGTH('w) - 1 + n)" by (auto simp: bit_eq_iff bit_drop_bit_eq)
  moreover from this have "n = 0" using bit_imp_le_length [of w "LENGTH('w) - 1 + n"] by linarith
  ultimately show "bit w (LENGTH('w) - 1)" by simp
qed

lemma combined_not_compact:
  assumes "LENGTH('w::len) = 8 * (row + 1)" "3 \<le> row"
  shows "\<not> bit (combined_word row rc off :: 'w word) (LENGTH('w) - 1)"
  using assms by (simp add: bit_combined_word)

section \<open>What the packing loop leaves behind\<close>

text \<open>A command word that stands for the bytes of an entry, given the rows of the table.\<close>

definition stored :: "nat \<Rightarrow> 'w::len word list \<Rightarrow> u8 list \<Rightarrow> 'w word \<Rightarrow> bool" where
  "stored row tbl encoded command \<longleftrightarrow>
     (if length encoded \<le> row then command = compact_word row encoded
      else (\<exists>off. off \<le> 0xffffff \<and> rows_needed row encoded \<le> 0x7f
              \<and> off + rows_needed row encoded \<le> length tbl
              \<and> take (rows_needed row encoded) (drop off tbl) = table_rows row encoded
              \<and> command = combined_word row (rows_needed row encoded) off))"

lemma stored_mono: "stored row tbl bs w \<Longrightarrow> stored row (tbl @ ext) bs w"
  by (fastforce simp: stored_def split: if_splits)

definition small_entry :: "nat \<Rightarrow> u8 list \<Rightarrow> bool" where
  "small_entry row bs \<longleftrightarrow> length bs + row < 2 ^ 32"

lemma length_table_rows:
  fixes row :: nat
  assumes "row = 3 \<or> row = 7" "small_entry row bs" "row < length bs"
  shows "length (table_rows row bs) = rows_needed row bs"
proof -
  have "length bs + row < 2 ^ 32" using assms(2) by (simp add: small_entry_def)
  then show ?thesis by (simp add: table_rows_eq [OF assms(1) _ assms(3)])
qed

lemma pack_entry_Inr:
  fixes p p' :: "'w::len word packing"
  assumes "pack_entry row icap tcap (start, bs) p = Inr p'" "row = 3 \<or> row = 7" "small_entry row bs"
  shows "\<exists>w ext. temp_quidx p' = temp_quidx p @ [ucast start, w] \<and> temp_qutbl p' = temp_qutbl p @ ext
           \<and> length ext = rows_needed row bs \<and> stored row (temp_qutbl p') bs w"
proof (cases "length bs \<le> row")
  case True
  then have "p' = p\<lparr>temp_quidx := temp_quidx p @ [ucast start, compact_word row bs]\<rparr>"
    using assms(1) by (simp add: pack_entry_def Let_def split: if_splits)
  with True show ?thesis by (simp add: stored_def rows_needed_def)
next
  case False
  with assms have "length (table_rows row bs :: 'w word list) = rows_needed row bs"
    by (simp add: length_table_rows)
  with False show ?thesis
    using assms(1)
    by (auto simp: pack_entry_def Let_def stored_def split: if_splits
          intro!: exI [of _ "length (temp_qutbl p)"])
qed

lemma pack_loop_Inr:
  assumes "pack_loop row icap tcap es p = Inr p'" "row = 3 \<or> row = 7"
    and "\<forall>e \<in> set es. small_entry row (snd e)"
  shows "\<exists>idx tbl. temp_quidx p' = temp_quidx p @ idx \<and> temp_qutbl p' = temp_qutbl p @ tbl
     \<and> length idx = 2 * length es
     \<and> length tbl = sum_list (map (\<lambda>e. rows_needed row (snd e)) es)
     \<and> (\<forall>k < length es. idx ! (2 * k) = ucast (fst (es ! k))
          \<and> stored row (temp_qutbl p') (snd (es ! k)) (idx ! (2 * k + 1)))"
  using assms
proof (induction es arbitrary: p)
  case (Cons e es)
  obtain start bs where e: "e = (start, bs)" by (cases e)
  from Cons.prems(1) obtain p1 where p1: "pack_entry row icap tcap (start, bs) p = Inr p1"
    and rest: "pack_loop row icap tcap es p1 = Inr p'"
    by (auto simp: e split: sum.splits)
  have "small_entry row bs" using Cons.prems(3) by (simp add: e)
  from pack_entry_Inr [OF p1 assms(2) this] obtain w ext where
    head: "temp_quidx p1 = temp_quidx p @ [ucast start, w]" "temp_qutbl p1 = temp_qutbl p @ ext"
      "length ext = rows_needed row bs" "stored row (temp_qutbl p1) bs w" by blast
  from Cons.IH [OF rest assms(2)] Cons.prems(3) obtain idx tbl where
    tail: "temp_quidx p' = temp_quidx p1 @ idx" "temp_qutbl p' = temp_qutbl p1 @ tbl"
      "length idx = 2 * length es" "length tbl = sum_list (map (\<lambda>e. rows_needed row (snd e)) es)"
      "\<forall>k < length es. idx ! (2 * k) = ucast (fst (es ! k))
          \<and> stored row (temp_qutbl p') (snd (es ! k)) (idx ! (2 * k + 1))"
    by auto
  have "stored row (temp_qutbl p') bs w" using head(4) tail(2) stored_mono by metis
  then show ?case
    using head tail
    by (intro exI [of _ "ucast start # w # idx"] exI [of _ "ext @ tbl"])
      (auto simp: e nth_Cons' less_Suc_eq_0_disj)
qed simp

text \<open>
  The two capacity \<open>CHECK\<close>s cannot fire, so that the packing only aborts when an entry has ext
  than 127 rows or starts beyond row \<open>0xffffff\<close>.
\<close>

lemma pack_entry_succeeds:
  fixes p :: "'w::len word packing"
  assumes "row = 3 \<or> row = 7" "small_entry row bs" "rows_needed row bs \<le> 0x7f"
    and "length (temp_quidx p) + 2 \<le> icap" "length (temp_qutbl p) + rows_needed row bs \<le> tcap"
    and "tcap \<le> 0xffffff"
  shows "\<exists>p'. pack_entry row icap tcap (start, bs) p = Inr p'"
proof (cases "length bs \<le> row")
  case True
  then show ?thesis using assms by (simp add: pack_entry_def Let_def)
next
  case False
  with assms have "length (table_rows row bs :: 'w word list) = rows_needed row bs"
    by (simp add: length_table_rows)
  then show ?thesis using False assms by (simp add: pack_entry_def Let_def)
qed

lemma pack_loop_succeeds:
  fixes p :: "'w::len word packing"
  assumes "row = 3 \<or> row = 7"
    and "\<forall>e \<in> set es. small_entry row (snd e) \<and> rows_needed row (snd e) \<le> 0x7f"
    and "length (temp_quidx p) + 2 * length es \<le> icap"
    and "length (temp_qutbl p) + sum_list (map (\<lambda>e. rows_needed row (snd e)) es) \<le> tcap"
    and "tcap \<le> 0xffffff"
  shows "\<exists>p'. pack_loop row icap tcap es p = Inr p'"
  using assms
proof (induction es arbitrary: p)
  case (Cons e es)
  obtain start bs where e: "e = (start, bs)" by (cases e)
  have small: "small_entry row bs" using Cons.prems(2) by (simp add: e)
  have "\<exists>p1. pack_entry row icap tcap (start, bs) p = Inr p1"
    using Cons.prems by (intro pack_entry_succeeds) (auto simp: e)
  then obtain p1 where p1: "pack_entry row icap tcap (start, bs) p = Inr p1" ..
  from pack_entry_Inr [OF p1 assms(1) small] have
    "length (temp_quidx p1) = length (temp_quidx p) + 2"
    "length (temp_qutbl p1) = length (temp_qutbl p) + rows_needed row bs" by auto
  then have "\<exists>p'. pack_loop row icap tcap es p1 = Inr p'"
    using Cons.prems by (intro Cons.IH) (auto simp: e)
  then show ?case by (auto simp: e p1)
qed simp

section \<open>Evaluating a packed entry\<close>

lemma map_padded:
  "length bs \<le> n \<Longrightarrow> map (padded bs) [0..<n] = bs @ replicate (n - length bs) END_OF_INS_OP"
  by (rule nth_equalityI) (auto simp: padded_def nth_append)

lemma rows_cover: "row < length bs \<Longrightarrow> length bs \<le> (row + 1) * rows_needed row bs"
proof -
  assume "row < length bs"
  have "(row + 1) * ((length bs + row) div (row + 1)) + (length bs + row) mod (row + 1) = length bs + row"
    by (rule mult_div_mod_eq)
  moreover have "(length bs + row) mod (row + 1) \<le> row" by (simp add: less_Suc_eq_le flip: Suc_eq_plus1)
  ultimately have "length bs \<le> (row + 1) * ((length bs + row) div (row + 1))" by linarith
  then show ?thesis using \<open>row < length bs\<close> by (simp add: rows_needed_def)
qed

lemma top_bit_drop_eq:
  "drop_bit (LENGTH('w) - Suc 0) (w :: 'w::len word) = 0 \<longleftrightarrow> \<not> bit w (LENGTH('w) - Suc 0)"
  using top_bit_drop [of w, unfolded One_nat_def] by blast

text \<open>
  A row decoder that stops at the end marker evaluates a stored entry to the effect its bytes have,
  wherever the packing put them and however it padded them.
\<close>

locale ending_row_decoder = row_decoder row dec loop
  for row :: nat
    and dec :: "'w::len word list \<Rightarrow> u8 \<Rightarrow> nat \<times> nat \<Rightarrow> 'q \<Rightarrow> 'q outcome"
    and loop :: "'w word list \<Rightarrow> nat \<times> nat \<Rightarrow> 'q \<Rightarrow> fault + (QutErrorCode \<times> 'q)" +
  assumes end_op: "dec is END_OF_INS_OP c q = Return QUT_ERROR_NONE q"
    and word_size: "LENGTH('w) = 8 * (row + 1)"
    and row_size: "row = 3 \<or> row = 7"
begin

lemma run_padded:
  assumes "continues row is (loop is) c q (replicate n END_OF_INS_OP) eff"
  shows "loop is c q = effect_result eff"
proof (cases eff)
  case (Go q')
  then obtain c' where c': "stream row is c' = replicate n END_OF_INS_OP" "loop is c q = loop is c' q'"
    using assms by (auto simp: continues_def)
  have "loop is c' q' = Inr (QUT_ERROR_NONE, q')"
  proof (cases n)
    case 0
    then show ?thesis using c'(1) by (simp add: at_end)
  next
    case (Suc m)
    then obtain c1 where "ReadByte row is c' = Some (END_OF_INS_OP, c1)"
      using rows.get_cons [of row "is" c'] c'(1) by auto
    then show ?thesis by (subst loop_unfold) (simp add: end_op)
  qed
  with c'(2) Go show ?thesis by (simp add: effect_result_def)
next
  case (Stop e q')
  then show ?thesis using assms by (simp add: continues_def effect_result_def)
qed

lemma Eval_stored:
  assumes st: "stored row (qutbl sections) bs (quidx sections ! (i + 1))"
    and small: "small_entry row bs"
    and wf: "i + 1 < length (quidx sections)" "tbl_size sections = length (qutbl sections)"
    and run: "\<And>is c rest. stream row is c = bs @ rest \<Longrightarrow> continues row is (loop is) c q rest eff"
  shows "Eval (\<lambda>is j. loop is (j, 0)) row sections i q = effect_result eff"
proof (cases "length bs \<le> row")
  case True
  let ?w = "compact_word row bs :: 'w word"
  have w: "quidx sections ! (i + 1) = ?w" using st True by (simp add: stored_def)
  have "bit ?w (LENGTH('w) - 1)" using bit_compact_top [OF word_size] by (simp add: word_size add.commute)
  then have ev: "Eval (\<lambda>is j. loop is (j, 0)) row sections i q = loop [?w] (row - 1, 0) q"
    using wf w by (simp add: Eval_def Let_def top_bit_drop_eq)
  have "stream row [?w] (row - 1, 0) = bs @ replicate (row - length bs) END_OF_INS_OP"
    using stream_compact_word [OF word_size] row_size True by (auto simp: map_padded)
  from run_padded [OF run [OF this]] ev show ?thesis by simp
next
  case False
  define n where "n = rows_needed row bs"
  from st False obtain off where off: "off \<le> 0xffffff" "n \<le> 0x7f" "off + n \<le> length (qutbl sections)"
      "take n (drop off (qutbl sections)) = table_rows row bs"
      "quidx sections ! (i + 1) = combined_word row n off"
    by (auto simp: stored_def n_def)
  have row3: "3 \<le> row" using row_size by auto
  have rows: "(table_rows row bs :: 'w word list) = map (table_row row bs) [0..<n]"
    unfolding n_def using False small by (intro table_rows_eq row_size) (simp_all add: small_entry_def)
  have "stream row (table_rows row bs :: 'w word list) (row, 0) = map (padded bs) [0..<(row + 1) * n]"
    using concat_table_rows [OF word_size] by (simp add: stream_row_start rows)
  then have "stream row (table_rows row bs :: 'w word list) (row, 0)
      = bs @ replicate ((row + 1) * n - length bs) END_OF_INS_OP"
    using rows_cover [of row bs] False by (simp add: map_padded n_def)
  from run_padded [OF run [OF this]]
  have "loop (table_rows row bs) (row, 0) q = effect_result eff" .
  moreover have "Eval (\<lambda>is j. loop is (j, 0)) row sections i q = loop (table_rows row bs) (row, 0) q"
    using wf off combined_not_compact [OF word_size row3, of n off]
    by (simp add: Eval_def Let_def top_bit_drop_eq row_count_of_combined [OF word_size row3]
        row_offset_of_combined [OF word_size row3])
  ultimately show ?thesis by simp
qed

end

interpretation tbl32: ending_row_decoder 3 "decode32_op env" "Decode32_loop env"
  for env :: "u32 stack_env"
  by unfold_locales (simp_all add: decode32_defs)

interpretation tbl64: ending_row_decoder 7 "decode64_op env" "Decode64_loop env"
  for env :: "u64 stack_env"
  by unfold_locales (simp_all add: decode64_defs)

section \<open>From instructions to their effect\<close>

lemma Pack_stored:
  assumes "PackEntriesToQutSections arm entries = Inr (sections :: 'w::len word qut_sections)"
    and "\<forall>e \<in> set entries. small_entry (QUT_TBL_ROW_SIZE arm) (snd (encode_entry arm e))"
    and "k < length entries"
  shows "length (quidx sections) = 2 * length entries"
    and "tbl_size sections = length (qutbl sections)"
    and "quidx sections ! (2 * k) = ucast (fst (entries ! k))"
    and "stored (QUT_TBL_ROW_SIZE arm) (qutbl sections) (snd (encode_entry arm (entries ! k)))
           (quidx sections ! (2 * k + 1))"
proof -
  let ?row = "QUT_TBL_ROW_SIZE arm"
  let ?es = "map (encode_entry arm) entries"
  have row: "?row = 3 \<or> ?row = 7" by (simp add: QUT_TBL_ROW_SIZE_def)
  obtain p where p: "pack_loop ?row (length ?es * 2) (sum_list (map (\<lambda>e. rows_needed ?row (snd e)) ?es))
      ?es \<lparr>temp_quidx = [], temp_qutbl = []\<rparr> = Inr p"
    and s: "sections = \<lparr>quidx = temp_quidx p, qutbl = temp_qutbl p,
                         idx_size = length (temp_quidx p), tbl_size = length (temp_qutbl p)\<rparr>"
    using assms(1) by (auto simp: PackEntriesToQutSections_def Let_def split: sum.splits)
  have "\<forall>e \<in> set ?es. small_entry ?row (snd e)" using assms(2) by simp
  from pack_loop_Inr [OF p row this]
  have "length (temp_quidx p) = 2 * length ?es"
    and all: "\<forall>k < length ?es. temp_quidx p ! (2 * k) = ucast (fst (?es ! k))
          \<and> stored ?row (temp_qutbl p) (snd (?es ! k)) (temp_quidx p ! (2 * k + 1))" by auto
  then show "length (quidx sections) = 2 * length entries"
    and "tbl_size sections = length (qutbl sections)" by (simp_all add: s)
  have "fst (encode_entry arm e) = fst e" for e
    by (simp add: encode_entry_def split: prod.splits)
  then show "quidx sections ! (2 * k) = ucast (fst (entries ! k))"
    and "stored ?row (qutbl sections) (snd (encode_entry arm (entries ! k)))
           (quidx sections ! (2 * k + 1))"
    using all assms(3) by (simp_all add: s)
qed

lemma eta_Decode32: "(\<lambda>is j. Decode32_loop env is (j, 0)) = Decode32 env"
  and eta_Decode64: "(\<lambda>is j. Decode64_loop env' is (j, 0)) = Decode64 env'"
  by (simp_all add: Decode32_def Decode64_def fun_eq_iff)

lemma Eval32_packed:
  assumes "PackEntriesToQutSections True entries = Inr sections"
    and "\<forall>e \<in> set entries. small_entry 3 (snd (encode_entry True e))"
    and "k < length entries" "entries ! k = (start, stop, instructions)"
    and "expressible_words True instructions"
  shows "Eval32 env sections (2 * k) q = effect_result (exec_words True env instructions q)"
proof -
  note packed = Pack_stored [OF assms(1), unfolded QUT_TBL_ROW_SIZE_def, simplified, OF assms(2,3)]
  from decode_encoded32 [OF assms(5), where enc = "[]" and pc = False and env = env] obtain bs p where
    enc: "QuickenInstructionsEncode32 instructions [] False = (True, bs, p)"
    and run: "\<And>rows c rest q. stream 3 rows c = bs @ rest \<Longrightarrow>
           continues 3 rows (Decode32_loop env rows) c q rest (exec_words True env instructions q)"
    by (simp only: append_Nil) blast
  have bs: "snd (encode_entry True (entries ! k)) = bs"
    by (simp add: encode_entry_def QuickenInstructionsEncode_def assms(4) enc)
  have "small_entry 3 bs" using assms(2,3) bs nth_mem by metis
  with packed bs assms(3) show ?thesis
    unfolding Eval32_def eta_Decode32 [symmetric] by (intro tbl32.Eval_stored run) auto
qed

lemma Eval64_packed:
  assumes "PackEntriesToQutSections False entries = Inr sections"
    and "\<forall>e \<in> set entries. small_entry 7 (snd (encode_entry False e))"
    and "k < length entries" "entries ! k = (start, stop, instructions)"
    and "expressible_words False instructions"
  shows "Eval64 env sections (2 * k) q = effect_result (exec_words False env instructions q)"
proof -
  note packed = Pack_stored [OF assms(1), unfolded QUT_TBL_ROW_SIZE_def, simplified, OF assms(2,3)]
  from decode_encoded64 [OF assms(5), where enc = "[]" and env = env] obtain bs where
    enc: "QuickenInstructionsEncode64 instructions [] = (True, bs)"
    and run: "\<And>rows c rest q. stream 7 rows c = bs @ rest \<Longrightarrow>
           continues 7 rows (Decode64_loop env rows) c q rest (exec_words False env instructions q)"
    by (simp only: append_Nil) blast
  have bs: "snd (encode_entry False (entries ! k)) = bs"
    by (simp add: encode_entry_def QuickenInstructionsEncode_def assms(4) enc)
  have "small_entry 7 bs" using assms(2,3) bs nth_mem by metis
  with packed bs assms(3) show ?thesis
    unfolding Eval64_def eta_Decode64 [symmetric] by (intro tbl64.Eval_stored run) auto
qed

section \<open>What packing guarantees\<close>

text \<open>
  C30. Packing aborts only when an entry needs more than 127 rows or the table outgrows 24 bits of
  rows: the two capacity checks never fire, every entry gets an index pair, and the rows of the
  table are exactly the ones counted beforehand.
\<close>

theorem packing_succeeds:
  assumes "\<forall>e \<in> set entries. small_entry (QUT_TBL_ROW_SIZE arm) (snd (encode_entry arm e))
              \<and> rows_needed (QUT_TBL_ROW_SIZE arm) (snd (encode_entry arm e)) \<le> 0x7f"
    and "sum_list (map (\<lambda>e. rows_needed (QUT_TBL_ROW_SIZE arm) (snd (encode_entry arm e))) entries) \<le> 0xffffff"
  shows "\<exists>sections. PackEntriesToQutSections arm entries = Inr (sections :: 'w::len word qut_sections)
     \<and> idx_size sections = 2 * length entries
     \<and> tbl_size sections
         = sum_list (map (\<lambda>e. rows_needed (QUT_TBL_ROW_SIZE arm) (snd (encode_entry arm e))) entries)"
proof -
  let ?row = "QUT_TBL_ROW_SIZE arm"
  let ?es = "map (encode_entry arm) entries"
  let ?n = "sum_list (map (\<lambda>e. rows_needed ?row (snd e)) ?es)"
  let ?p = "\<lparr>temp_quidx = [], temp_qutbl = [] :: 'w word list\<rparr>"
  have row: "?row = 3 \<or> ?row = 7" by (simp add: QUT_TBL_ROW_SIZE_def)
  have n: "?n = sum_list (map (\<lambda>e. rows_needed ?row (snd (encode_entry arm e))) entries)"
    by (simp add: comp_def)
  have "\<exists>p. pack_loop ?row (length ?es * 2) ?n ?es ?p = Inr p"
    using assms n by (intro pack_loop_succeeds [OF row]) auto
  then obtain p where p: "pack_loop ?row (length ?es * 2) ?n ?es ?p = Inr p" ..
  have "\<forall>e \<in> set ?es. small_entry ?row (snd e)" using assms(1) by simp
  from pack_loop_Inr [OF p row this]
  have "length (temp_quidx p) = 2 * length entries" "length (temp_qutbl p) = ?n" by auto
  with p n show ?thesis by (simp add: PackEntriesToQutSections_def Let_def)
qed

definition sample32 :: qut_entries where
  "sample32 =
     [(0x100, 0x180, [mk_instr VSP_SET_BY_R7 0, mk_instr VSP_OFFSET 8, mk_instr LR_OFFSET 4,
                      mk_instr R7_OFFSET 8]),
      (0x200, 0x280, [mk_instr VSP_OFFSET 64, mk_instr LR_OFFSET 4, mk_instr R4_OFFSET 8,
                      mk_instr R11_OFFSET 12])]"

definition sample64 :: qut_entries where
  "sample64 =
     [(0x100, 0x180, [mk_instr VSP_SET_BY_X29 0, mk_instr VSP_OFFSET 16, mk_instr LR_OFFSET 8,
                      mk_instr X29_OFFSET 16])]"

lemmas encode_defs =
  encode_entry_def QuickenInstructionsEncode_def encode_op32_def encode_op64_def emit_def give_up_def
  encode_vsp_offset_def encode_reg_offset_def encode_vsp_set_by_fp32_def encode_vsp_set_by_x29_def
  have_prologue32_def have_prologue64_def FILL_WITH_IMM_def IMM_ALIGNED_def

lemma encode_sample32: "map (encode_entry True) sample32 = [(0x100, [0x81]), (0x200, [0x10, 0xE1, 0xA2, 0xD3])]"
  by (simp add: sample32_def encode_defs instr_imm_mk)

lemma encode_sample64: "map (encode_entry False) sample64 = [(0x100, [0x81])]"
  by (simp add: sample64_def encode_defs instr_imm_mk)

lemmas encode_samples =
  encode_sample32 [unfolded sample32_def list.map list.inject]
  encode_sample64 [unfolded sample64_def list.map list.inject]

theorem packing_succeeds_witness:
  "\<exists>sections. PackEntriesToQutSections True sample32 = Inr (sections :: u32 qut_sections)
     \<and> idx_size sections = 4 \<and> tbl_size sections = 1"
  using packing_succeeds [of sample32 True, where 'w = 32]
  by (simp add: QUT_TBL_ROW_SIZE_def small_entry_def rows_needed_def sample32_def encode_samples)

text \<open>
  An entry whose encoding gives up half way is not neutral.  \<open>vsp = r7 + imm\<close> with
  \<open>imm > 508\<close> pushes its operation byte before it fails; the end marker behind it is then read as
  the operand, and the evaluation reports success with \<open>vsp = r7 + 100\<close>.
\<close>

theorem bad_entry_evaluates:
  assumes "508 < imm" "imm < 2 ^ 31" "4 dvd imm"
  shows "\<exists>sections. PackEntriesToQutSections True [(start, stop, [mk_instr VSP_SET_BY_R7 imm])] = Inr sections
     \<and> Eval32 env sections 0 q = Inr (QUT_ERROR_NONE, q\<lparr>cfa := regs q R7 + 100\<rparr>)"
proof -
  let ?es = "[(start, stop, [mk_instr VSP_SET_BY_R7 imm])]"
  have enc: "encode_entry True (start, stop, [mk_instr VSP_SET_BY_R7 imm]) = (start, [0x85, 0x99])"
    using assms by (simp add: encode_defs instr_imm_mk aligned_iff)
  let ?bs = "[0x85, 0x99] :: u8 list"
  obtain sections :: "u32 qut_sections" where
    pack: "PackEntriesToQutSections True ?es = Inr sections"
    and st: "quidx sections = [ucast start, compact_word 3 ?bs]" "qutbl sections = []"
      "tbl_size sections = 0"
    by (simp add: PackEntriesToQutSections_def enc QUT_TBL_ROW_SIZE_def rows_needed_def pack_entry_def Let_def)
  have "Eval (\<lambda>is j. Decode32_loop env is (j, 0)) 3 sections 0 q
      = effect_result (Go (q\<lparr>cfa := regs q R7 + 100\<rparr>))"
  proof (rule tbl32.Eval_stored)
    show "stored 3 (qutbl sections) ?bs (quidx sections ! (0 + 1))"
      by (simp add: stored_def st)
    fix "is" :: "u32 list" and c rest
    assume "stream 3 is c = ?bs @ rest"
    then have bytes: "stream 3 is c = 0x85 # 0x99 # rest" by simp
    show "continues 3 is (Decode32_loop env is) c q rest (Go (q\<lparr>cfa := regs q R7 + 100\<rparr>))"
    proof (rule dec32.continuesI [OF bytes])
      fix c1 assume "stream 3 is c1 = 0x99 # rest"
      then obtain c2 where "ReadByte 3 is c1 = Some (0x99, c2)" "stream 3 is c2 = rest"
        using rows.get_cons by blast
      then show "\<exists>c'. stream 3 is c' = rest
          \<and> decode32_op env is 0x85 c1 q = outcome_of c' (Go (q\<lparr>cfa := regs q R7 + 100\<rparr>))"
        by (intro exI [of _ c2]) (simp add: decode32_defs read_imm7_def)
    qed
  qed (simp_all add: st small_entry_def)
  then show ?thesis
    using pack by (auto simp: Eval32_def eta_Decode32 effect_result_def)
qed

theorem bad_entry_evaluates_witness:
  "\<exists>sections. PackEntriesToQutSections True [(0x100, 0x200, [mk_instr VSP_SET_BY_R7 512])] = Inr sections
     \<and> Eval32 \<lparr>stack_bottom = 0, stack_top = 0, memory = \<lambda>a. 0\<rparr> sections 0
          \<lparr>cfa = 0, dexpc = 0, pc_set = False, regs = \<lambda>r. 0x1000\<rparr>
       = Inr (QUT_ERROR_NONE, \<lparr>cfa = 0x1064, dexpc = 0, pc_set = False, regs = \<lambda>r. 0x1000\<rparr>)"
  using bad_entry_evaluates [where imm = 512 and start = "0x100" and stop = "0x200" and env = "\<lparr>stack_bottom = 0, stack_top = 0, memory = \<lambda>a. 0\<rparr>"
      and q = "\<lparr>cfa = 0, dexpc = 0, pc_set = False, regs = \<lambda>r. 0x1000\<rparr>"] by simp

end
