(* ===== verification/Quicken_Interface.thy ===== *)
theory Quicken_Interface
  imports Table_Packing
begin

text \<open>
  \<open>QuickenInterface\<close> of \<^verbatim>\<open>QuickenInterface.cpp\<close>: the search for the entry of a
  program counter and one unwinding step on top of \<open>Eval\<close>.  The search is a provider of the
  locale \<open>index_lookup\<close>, which is all that the correctness of a step relies on.
\<close>

section \<open>The index search\<close>

text \<open>
  The loop of \<open>FindEntry\<close> over \<open>first\<close> and \<open>last\<close>.  The mask cuts the middle to 32 bits, so
  that the loop may run forever on larger indices; not returning is \<open>None\<close>.  A result is a read
  outside \<open>quidx\<close>, or the entry offset found, if any.
\<close>

partial_function (option) find_loop ::
  "'w::len word list \<Rightarrow> 'w word \<Rightarrow> nat \<Rightarrow> nat \<Rightarrow> (fault + nat option) option" where
  "find_loop idx pc first last' =
     (if first < last'
      then (let current = ((first + last') div 2) AND 0xfffffffe
            in if length idx \<le> current then Some (Inl ReadPastEnd)
               else if pc = idx ! current then Some (Inr (Some current))
               else if pc < idx ! current then find_loop idx pc first current
               else find_loop idx pc (current + 2) last')
      else Some (Inr (if last' \<noteq> 0 then Some (last' - 2) else None)))"

declare find_loop.simps [code]

definition FindEntry :: "'w::len word qut_sections \<Rightarrow> 'w word \<Rightarrow> (fault + nat option) option" where
  "FindEntry sections pc = find_loop (quidx sections) pc 0 (idx_size sections)"

text \<open>
  A well-formed index: entry points at the even places, strictly ascending, and few enough of them
  for the mask.
\<close>

definition index_keys :: "'w::len word qut_sections \<Rightarrow> 'w word list" where
  "index_keys sections = map (\<lambda>i. quidx sections ! (2 * i)) [0..<idx_size sections div 2]"

definition wf_index :: "'w::len word qut_sections \<Rightarrow> bool" where
  "wf_index sections \<longleftrightarrow>
     idx_size sections = length (quidx sections) \<and> even (idx_size sections)
     \<and> idx_size sections < 2 ^ 32 \<and> sorted_wrt (<) (index_keys sections)"

lemma masked_even:
  assumes "m < 2 ^ 32"
  shows "(m::nat) AND 0xfffffffe = 2 * (m div 2)"
proof -
  have "m AND push_bit k (mask l) = push_bit k (take_bit l (drop_bit k m))" for k l
    by (rule bit_eqI)
      (auto simp: bit_and_iff bit_push_bit_iff_nat bit_mask_iff bit_take_bit_iff bit_drop_bit_eq)
  from this [of 1 31] have "m AND 0xfffffffe = 2 * take_bit 31 (m div 2)"
    by (simp add: push_bit_eq_mult mask_eq_exp_minus_1 drop_bit_eq_div)
  moreover have "m div 2 < 2 ^ 31" using assms by simp
  ultimately show ?thesis by (simp add: take_bit_nat_eq_self)
qed

text \<open>The answer that a search among \<open>n\<close> ascending keys should give, as an entry offset.\<close>

definition predecessor :: "(nat \<Rightarrow> 'k::linorder) \<Rightarrow> nat \<Rightarrow> 'k \<Rightarrow> nat option \<Rightarrow> bool" where
  "predecessor key n x r \<longleftrightarrow>
     (case r of
        None \<Rightarrow> \<forall>i < n. x < key i
      | Some e \<Rightarrow> \<exists>i < n. e = 2 * i \<and> key i \<le> x \<and> (\<forall>j. i < j \<and> j < n \<longrightarrow> x < key j))"

lemma find_loop_correct:
  assumes "a \<le> b" "b \<le> n" "2 * n < 2 ^ 32" "2 * n \<le> length idx"
    and mono: "\<And>i j. i < j \<Longrightarrow> j < n \<Longrightarrow> idx ! (2 * i) < idx ! (2 * j)"
    and "\<And>i. i < a \<Longrightarrow> idx ! (2 * i) < pc" "\<And>i. b \<le> i \<Longrightarrow> i < n \<Longrightarrow> pc < idx ! (2 * i)"
  shows "\<exists>r. find_loop idx pc (2 * a) (2 * b) = Some (Inr r)
           \<and> predecessor (\<lambda>i. idx ! (2 * i)) n pc r"
  using assms(1,2,6,7)
proof (induction "b - a" arbitrary: a b rule: less_induct)
  case less
  show ?case
  proof (cases "a < b")
    case True
    define m where "m = (a + b) div 2"
    have m: "a \<le> m" "m < b" using True by (simp_all add: m_def)
    have current: "((2 * a + 2 * b) div 2) AND 0xfffffffe = 2 * m"
      using masked_even [of "a + b"] less.prems(2) assms(3) True by (simp add: m_def)
    have bound: "2 * m < length idx" using m less.prems(2) assms(4) by linarith
    note unf = find_loop.simps [of idx pc "2 * a" "2 * b", unfolded current Let_def]
    consider (hit) "pc = idx ! (2 * m)" | (left) "pc < idx ! (2 * m)" | (right) "idx ! (2 * m) < pc"
      by (meson linorder_less_linear)
    then show ?thesis
    proof cases
      case hit
      then have "predecessor (\<lambda>i. idx ! (2 * i)) n pc (Some (2 * m))"
        using m less.prems(2) mono by (auto simp: predecessor_def intro!: exI [of _ m])
      moreover have "find_loop idx pc (2 * a) (2 * b) = Some (Inr (Some (2 * m)))"
        using True bound by (simp add: unf flip: hit)
      ultimately show ?thesis by blast
    next
      case left
      have "pc < idx ! (2 * i)" if "m \<le> i" "i < n" for i
        using left mono [of m i] that by (cases "m = i") auto
      then have "\<exists>r. find_loop idx pc (2 * a) (2 * m) = Some (Inr r)
           \<and> predecessor (\<lambda>i. idx ! (2 * i)) n pc r"
        using m less.prems by (intro less.hyps) auto
      then show ?thesis using left True bound by (auto simp: unf)
    next
      case right
      have "idx ! (2 * i) < pc" if "i < Suc m" for i
        using right mono [of i m] that m less.prems(2) by (cases "i = m") auto
      then have "\<exists>r. find_loop idx pc (2 * Suc m) (2 * b) = Some (Inr r)
           \<and> predecessor (\<lambda>i. idx ! (2 * i)) n pc r"
        using m less.prems by (intro less.hyps) auto
      then show ?thesis using right True bound by (auto simp: unf)
    qed
  next
    case False
    then have "a = b" using less.prems(1) by simp
    have "predecessor (\<lambda>i. idx ! (2 * i)) n pc (if b = 0 then None else Some (2 * b - 2))"
    proof (cases b)
      case 0
      then show ?thesis using less.prems(4) by (simp add: predecessor_def)
    next
      case (Suc c)
      then show ?thesis
        using less.prems \<open>a = b\<close>
        by (auto simp: predecessor_def less_imp_le intro!: exI [of _ c])
    qed
    then show ?thesis using \<open>a = b\<close> by (subst find_loop.simps) (cases "b = 0"; simp)
  qed
qed

lemma wf_index_keys:
  assumes "wf_index sections"
  shows "length (index_keys sections) = idx_size sections div 2"
    and "i < idx_size sections div 2 \<Longrightarrow> index_keys sections ! i = quidx sections ! (2 * i)"
    and "i < j \<Longrightarrow> j < idx_size sections div 2 \<Longrightarrow> quidx sections ! (2 * i) < quidx sections ! (2 * j)"
proof -
  show len: "length (index_keys sections) = idx_size sections div 2"
    by (simp add: index_keys_def)
  show nth: "i < idx_size sections div 2 \<Longrightarrow> index_keys sections ! i = quidx sections ! (2 * i)" for i
    by (simp add: index_keys_def)
  show "quidx sections ! (2 * i) < quidx sections ! (2 * j)" if "i < j" "j < idx_size sections div 2"
  proof -
    have "index_keys sections ! i < index_keys sections ! j"
      using assms that len by (intro sorted_wrt_nth_less [of "(<)"]) (auto simp: wf_index_def)
    then show ?thesis using that nth by simp
  qed
qed

section \<open>The interface of an index\<close>

text \<open>
  What a step needs from the index: on a well-formed one the lookup returns, with the last entry
  whose key is not above the program counter.
\<close>

locale index_lookup =
  fixes wf :: "'t \<Rightarrow> bool"
    and keys :: "'t \<Rightarrow> 'k::linorder list"
    and lookup :: "'t \<Rightarrow> 'k \<Rightarrow> (fault + nat option) option"
  assumes returns: "wf t \<Longrightarrow> \<exists>r. lookup t x = Some (Inr r)"
    and found: "wf t \<Longrightarrow> lookup t x = Some (Inr r) \<Longrightarrow> predecessor (\<lambda>i. keys t ! i) (length (keys t)) x r"
    and ascending: "wf t \<Longrightarrow> sorted_wrt (<) (keys t)"
begin

lemma hit:
  assumes "wf t" "k < length (keys t)" "keys t ! k \<le> x"
    and "k + 1 < length (keys t) \<Longrightarrow> x < keys t ! (k + 1)"
  shows "lookup t x = Some (Inr (Some (2 * k)))"
proof -
  obtain r where r: "lookup t x = Some (Inr r)" using returns [OF assms(1)] by blast
  from found [OF assms(1) r] assms(2,3) obtain i where
    i: "i < length (keys t)" "r = Some (2 * i)" "keys t ! i \<le> x"
      "\<forall>j. i < j \<and> j < length (keys t) \<longrightarrow> x < keys t ! j"
    by (auto simp: predecessor_def not_less [symmetric] split: option.splits)
  have "\<not> i < k" using i(4) assms(2,3) by auto
  moreover have "\<not> k < i"
  proof
    assume "k < i"
    then have "keys t ! (k + 1) \<le> keys t ! i"
      using ascending [OF assms(1)] i(1)
      by (cases "k + 1 = i") (auto simp: sorted_wrt_iff_nth_less less_imp_le)
    moreover have "x < keys t ! (k + 1)" using assms(4) \<open>k < i\<close> i(1) by simp
    ultimately show False using i(3) by simp
  qed
  ultimately show ?thesis using r i(2) by (simp add: linorder_neq_iff)
qed

lemma miss:
  assumes "wf t" "keys t = [] \<or> x < hd (keys t)"
  shows "lookup t x = Some (Inr None)"
proof -
  obtain r where r: "lookup t x = Some (Inr r)" using returns [OF assms(1)] by blast
  have "x < keys t ! i" if "i < length (keys t)" for i
  proof -
    have "hd (keys t) \<le> keys t ! i"
      using ascending [OF assms(1)] that by (cases "keys t"; cases i) (auto simp: less_imp_le)
    then show ?thesis using assms(2) that by auto
  qed
  then have "r = None"
    using found [OF assms(1) r] by (auto simp: predecessor_def not_less [symmetric] split: option.splits)
  with r show ?thesis by simp
qed

end

lemma FindEntry_predecessor:
  assumes "wf_index sections"
  shows "\<exists>r. FindEntry sections pc = Some (Inr r)
     \<and> predecessor (\<lambda>i. index_keys sections ! i) (length (index_keys sections)) pc r"
proof -
  let ?n = "idx_size sections div 2"
  have size: "idx_size sections = 2 * ?n" "2 * ?n < 2 ^ 32" "2 * ?n \<le> length (quidx sections)"
    using assms by (auto simp: wf_index_def)
  have "\<exists>r. find_loop (quidx sections) pc (2 * 0) (2 * ?n) = Some (Inr r)
      \<and> predecessor (\<lambda>i. quidx sections ! (2 * i)) ?n pc r"
    using size wf_index_keys(3) [OF assms] by (intro find_loop_correct) auto
  then obtain r where r: "find_loop (quidx sections) pc 0 (2 * ?n) = Some (Inr r)"
      "predecessor (\<lambda>i. quidx sections ! (2 * i)) ?n pc r" by auto
  from r(2) have "predecessor (\<lambda>i. index_keys sections ! i) (length (index_keys sections)) pc r"
    using wf_index_keys(1,2) [OF assms]
    by (fastforce simp: predecessor_def split: option.splits)
  then show ?thesis using r(1) size(1) by (simp add: FindEntry_def)
qed

interpretation qut_index: index_lookup wf_index index_keys FindEntry
proof unfold_locales
  fix t :: "'w::len word qut_sections" and x r
  assume wf: "wf_index t"
  show "\<exists>r. FindEntry t x = Some (Inr r)" using FindEntry_predecessor [OF wf] by blast
  show "predecessor (\<lambda>i. index_keys t ! i) (length (index_keys t)) x r"
    if "FindEntry t x = Some (Inr r)"
    using FindEntry_predecessor [OF wf, of x] that by auto
  show "sorted_wrt (<) (index_keys t)" using wf by (simp add: wf_index_def)
qed

section \<open>One step\<close>

text \<open>
  \<open>StepContext\<close>, less the stack bounds, which are part of the environment of \<open>Eval\<close>.  The
  register array is shared with the table evaluator: what that writes stays written when it fails.
\<close>

record 'v step_context =
  ctx_regs :: "nat \<Rightarrow> 'v"
  ctx_pc :: 'v
  ctx_dex_pc :: 'v
  frame_index :: nat
  finished :: bool

type_synonym 'v evaluator = "'v qut_sections \<Rightarrow> nat \<Rightarrow> 'v qtable \<Rightarrow> fault + (QutErrorCode \<times> 'v qtable)"

text \<open>The result of a step: the returned value, \<open>last_error_code_\<close> and the context.\<close>

type_synonym 'v step_result = "bool \<times> QutErrorCode \<times> 'v step_context"

definition start_table :: "'w::len word step_context \<Rightarrow> 'w word qtable" where
  "start_table ctx = \<lparr>cfa = ctx_regs ctx SP, dexpc = 0, pc_set = False, regs = ctx_regs ctx\<rparr>"

definition end_step ::
  "'w::len word step_context \<Rightarrow> QutErrorCode \<times> 'w word qtable \<Rightarrow> 'w word step_result" where
  "end_step ctx r =
     (case r of (e, q) \<Rightarrow>
        let regs1 = (if e = QUT_ERROR_NONE \<and> \<not> pc_set q then (regs q)(PC := regs q LR) else regs q);
            regs2 = (if e = QUT_ERROR_NONE then regs1(SP := cfa q) else regs1)
        in (e = QUT_ERROR_NONE, e,
            ctx\<lparr>ctx_regs := regs2,
                ctx_dex_pc := (if e = QUT_ERROR_NONE then dexpc q else ctx_dex_pc ctx),
                finished := (regs2 PC = 0)\<rparr>))"

definition StepInternal ::
  "'w::len word evaluator \<Rightarrow> 'w word qut_sections \<Rightarrow> 'w word step_context
     \<Rightarrow> (fault + 'w word step_result) option" where
  "StepInternal eval sections ctx =
     (case FindEntry sections (ctx_pc ctx) of
        None \<Rightarrow> None
      | Some (Inl f) \<Rightarrow> Some (Inl f)
      | Some (Inr None) \<Rightarrow> Some (Inr (False, QUT_ERROR_UNWIND_INFO, ctx))
      | Some (Inr (Some entry_offset)) \<Rightarrow>
          (case eval sections entry_offset (start_table ctx) of
             Inl f \<Rightarrow> Some (Inl f)
           | Inr r \<Rightarrow> Some (Inr (end_step ctx r))))"

section \<open>The interface object\<close>

text \<open>
  The fields that a step reads or writes.  The tables made in memory (\<open>quicken_in_memory_\<close>) and
  those for jitted code (\<open>debug_jit_\<close>) are lookups by program counter.
\<close>

record 'v quicken_interface =
  load_bias :: u64
  qut_sections_ptr :: "'v qut_sections option"
  quicken_in_memory :: "('v \<Rightarrow> 'v qut_sections option) option"
  debug_jit :: "('v \<Rightarrow> 'v qut_sections option) option"
  jit_cache :: bool
  try_load_qut_failed_count :: nat

definition StepJIT ::
  "'w::len word evaluator \<Rightarrow> 'w word quicken_interface \<Rightarrow> 'w word step_context
     \<Rightarrow> (fault + 'w word step_result) option" where
  "StepJIT eval self ctx =
     (case debug_jit self of
        None \<Rightarrow> Some (Inr (False, QUT_ERROR_REQUEST_QUT_INMEM_FAILED, ctx))
      | Some get_sections \<Rightarrow>
          (case get_sections (ctx_pc ctx) of
             None \<Rightarrow> Some (Inr (False, QUT_ERROR_REQUEST_QUT_INMEM_FAILED, ctx))
           | Some sections \<Rightarrow> StepInternal eval sections ctx))"

definition Step ::
  "'w::len word evaluator \<Rightarrow> 'w word quicken_interface \<Rightarrow> 'w word step_context
     \<Rightarrow> (fault + 'w word step_result) option" where
  "Step eval self ctx =
     (if uint (ctx_pc ctx) < uint (load_bias self)
      then Some (Inr (False, QUT_ERROR_UNWIND_INFO, ctx))
      else (case qut_sections_ptr self of
              Some sections \<Rightarrow> StepInternal eval sections ctx
            | None \<Rightarrow>
                (case quicken_in_memory self of
                   None \<Rightarrow> Some (Inr (False, QUT_ERROR_REQUEST_QUT_FILE_FAILED, ctx))
                 | Some get_sections \<Rightarrow>
                     (case get_sections (ctx_pc ctx) of
                        None \<Rightarrow> Some (Inr (False, QUT_ERROR_REQUEST_QUT_FILE_FAILED, ctx))
                      | Some sections \<Rightarrow> StepInternal eval sections ctx))))"

text \<open>
  \<open>TryInitQuickenTable\<close>: the answer of the table manager (an error and the sections it found) and
  of the generation delegate, if one is set, are arguments.
\<close>

datatype QutFileError =
    NoneError | NotInitialized | NotWarmedUp | LoadRequesting | OpenFileFailed | FileStateError
  | FileTooShort | MmapFailed | QutVersionNotMatch | ArchNotMatch | BuildIdNotMatch
  | FileLengthNotMatch | InsertNewQutFailed | TryInvokeJavaRequestQutGenerate | LoadFailed

definition TryInitQuickenTable ::
  "QutFileError \<times> 'v qut_sections option \<Rightarrow> bool option \<Rightarrow> 'v quicken_interface
     \<Rightarrow> QutFileError \<times> 'v quicken_interface" where
  "TryInitQuickenTable requested delegate self =
     (if qut_sections_ptr self \<noteq> None then (NoneError, self)
      else (case requested of (err, found) \<Rightarrow>
        let self1 = (if err = NoneError then self\<lparr>qut_sections_ptr := found\<rparr> else self);
            ret = (if err = NoneError \<and> found = None then LoadFailed else err)
        in if err = NoneError \<and> found \<noteq> None then (NoneError, self1)
           else (case delegate of
                   None \<Rightarrow> (ret, self1)
                 | Some generated \<Rightarrow>
                     if try_load_qut_failed_count self1 < 3
                        \<and> ret \<in> {TryInvokeJavaRequestQutGenerate, NotWarmedUp, LoadRequesting}
                     then (ret, self1\<lparr>try_load_qut_failed_count :=
                                   (if generated then 0 else try_load_qut_failed_count self1 + 1)\<rparr>)
                     else (ret, self1))))"

section \<open>A step over a packed table\<close>

lemma wf_packed:
  fixes sections :: "'w::len word qut_sections"
  assumes "PackEntriesToQutSections arm entries = Inr sections"
    and "\<forall>e \<in> set entries. small_entry (QUT_TBL_ROW_SIZE arm) (snd (encode_entry arm e))"
    and "sorted_wrt (<) (map fst entries)" "\<forall>e \<in> set entries. unat (fst e) < 2 ^ LENGTH('w)"
    and "2 * length entries < 2 ^ 32"
  shows "wf_index sections" "index_keys sections = map (\<lambda>e. ucast (fst e)) entries"
proof -
  have idx: "idx_size sections = length (quidx sections)"
    using assms(1) by (auto simp: PackEntriesToQutSections_def Let_def split: sum.splits)
  note stored = Pack_stored [OF assms(1,2)]
  have len: "length (quidx sections) = 2 * length entries"
    using stored(1) [of 0] assms(1)
    by (cases entries) (auto simp: PackEntriesToQutSections_def Let_def)
  show keys: "index_keys sections = map (\<lambda>e. ucast (fst e)) entries"
    by (rule nth_equalityI) (simp_all add: index_keys_def idx len stored(3))
  have "sorted_wrt (<) (map (\<lambda>e. ucast (fst e) :: 'w word) entries)"
    unfolding sorted_wrt_map
  proof (rule sorted_wrt_mono_rel [rotated])
    show "sorted_wrt (\<lambda>x y. fst x < fst y) entries" using assms(3) by (simp add: sorted_wrt_map)
    show "(ucast (fst x) :: 'w word) < ucast (fst y)"
      if "x \<in> set entries" "y \<in> set entries" "fst x < fst y" for x y
    proof -
      have "unat (ucast (fst z) :: 'w word) = unat (fst z)" if "z \<in> set entries" for z
        using assms(4) that by (simp add: unsigned_ucast_eq take_bit_nat_eq_self)
      then show ?thesis using that by (simp add: word_less_nat_alt)
    qed
  qed
  then show "wf_index sections"
    using assms(5) by (simp add: wf_index_def idx len keys)
qed

lemma StepInternal_entry:
  assumes "wf_index sections" "k < length (index_keys sections)"
    and "index_keys sections ! k \<le> ctx_pc ctx"
    and "k + 1 < length (index_keys sections) \<Longrightarrow> ctx_pc ctx < index_keys sections ! (k + 1)"
    and "eval sections (2 * k) (start_table ctx) = Inr r"
  shows "StepInternal eval sections ctx = Some (Inr (end_step ctx r))"
  using qut_index.hit [OF assms(1-4)] assms(5) by (simp add: StepInternal_def)

definition effect_outcome :: "'q effect \<Rightarrow> QutErrorCode \<times> 'q" where
  "effect_outcome e = (case e of Go q \<Rightarrow> (QUT_ERROR_NONE, q) | Stop c q \<Rightarrow> (c, q))"

lemma effect_result_outcome: "effect_result e = Inr (effect_outcome e)"
  by (simp add: effect_result_def effect_outcome_def split: effect.split)

text \<open>The hypotheses on the entries of a table and on the entry that a program counter falls into.\<close>

definition good_entries :: "nat \<Rightarrow> bool \<Rightarrow> qut_entries \<Rightarrow> bool" where
  "good_entries bits arm entries \<longleftrightarrow>
     (\<forall>e \<in> set entries. small_entry (QUT_TBL_ROW_SIZE arm) (snd (encode_entry arm e))
                       \<and> unat (fst e) < 2 ^ bits)
     \<and> sorted_wrt (<) (map fst entries) \<and> 2 * length entries < 2 ^ 32"

definition falls_into :: "'w::len word \<Rightarrow> qut_entries \<Rightarrow> nat \<Rightarrow> bool" where
  "falls_into pc entries k \<longleftrightarrow>
     k < length entries \<and> ucast (fst (entries ! k)) \<le> pc
     \<and> (k + 1 < length entries \<longrightarrow> pc < ucast (fst (entries ! (k + 1))))"

lemma StepInternal_packed32:
  assumes "PackEntriesToQutSections True entries = Inr sections" "good_entries 32 True entries"
    and "falls_into (ctx_pc ctx) entries k" "entries ! k = (start, stop, instructions)"
    and "expressible_words True instructions"
  shows "StepInternal (Eval32 env) sections ctx
     = Some (Inr (end_step ctx (effect_outcome (exec_words True env instructions (start_table ctx)))))"
proof (rule StepInternal_entry)
  note wf = wf_packed [OF assms(1)]
  show "wf_index sections"
    and "k < length (index_keys sections)" "index_keys sections ! k \<le> ctx_pc ctx"
    and "k + 1 < length (index_keys sections) \<Longrightarrow> ctx_pc ctx < index_keys sections ! (k + 1)"
    using wf assms(2,3) by (auto simp: good_entries_def falls_into_def)
  have "\<forall>e \<in> set entries. small_entry 3 (snd (encode_entry True e))"
    using assms(2) by (simp add: good_entries_def QUT_TBL_ROW_SIZE_def)
  then show "Eval32 env sections (2 * k) (start_table ctx)
      = Inr (effect_outcome (exec_words True env instructions (start_table ctx)))"
    using Eval32_packed [OF assms(1) _ _ assms(4,5)] assms(3)
    by (simp add: falls_into_def effect_result_outcome)
qed

lemma StepInternal_packed64:
  assumes "PackEntriesToQutSections False entries = Inr sections" "good_entries 64 False entries"
    and "falls_into (ctx_pc ctx) entries k" "entries ! k = (start, stop, instructions)"
    and "expressible_words False instructions"
  shows "StepInternal (Eval64 env) sections ctx
     = Some (Inr (end_step ctx (effect_outcome (exec_words False env instructions (start_table ctx)))))"
proof (rule StepInternal_entry)
  note wf = wf_packed [OF assms(1)]
  show "wf_index sections"
    and "k < length (index_keys sections)" "index_keys sections ! k \<le> ctx_pc ctx"
    and "k + 1 < length (index_keys sections) \<Longrightarrow> ctx_pc ctx < index_keys sections ! (k + 1)"
    using wf assms(2,3) by (auto simp: good_entries_def falls_into_def)
  have "\<forall>e \<in> set entries. small_entry 7 (snd (encode_entry False e))"
    using assms(2) by (simp add: good_entries_def QUT_TBL_ROW_SIZE_def)
  then show "Eval64 env sections (2 * k) (start_table ctx)
      = Inr (effect_outcome (exec_words False env instructions (start_table ctx)))"
    using Eval64_packed [OF assms(1) _ _ assms(4,5)] assms(3)
    by (simp add: falls_into_def effect_result_outcome)
qed

text \<open>
  C10. The search of \<open>FindEntry\<close> on a well-formed index always returns, never reads outside the
  index, and finds the last entry whose start is not above the program counter; when there is none
  it reports that.
\<close>

theorem FindEntry_finds_predecessor:
  assumes "wf_index sections"
  shows "\<exists>r. FindEntry sections pc = Some (Inr r)
     \<and> (case r of
          None \<Rightarrow> \<forall>i < idx_size sections div 2. pc < quidx sections ! (2 * i)
        | Some entry_offset \<Rightarrow> \<exists>i < idx_size sections div 2. entry_offset = 2 * i
            \<and> quidx sections ! (2 * i) \<le> pc
            \<and> (\<forall>j. i < j \<and> j < idx_size sections div 2 \<longrightarrow> pc < quidx sections ! (2 * j)))"
proof -
  from qut_index.returns [OF assms] obtain r where r: "FindEntry sections pc = Some (Inr r)" by blast
  from qut_index.found [OF assms r] show ?thesis
    using r wf_index_keys(1,2) [OF assms]
    by (intro exI [of _ r]) (fastforce simp: predecessor_def split: option.splits)
qed

theorem FindEntry_finds_predecessor_witness:
  "\<exists>r. FindEntry \<lparr>quidx = [0x100, 0x80999999, 0x200, 0x80999999 :: u32], qutbl = [], idx_size = 4, tbl_size = 0\<rparr> 0x1ff
         = Some (Inr r)"
  using FindEntry_finds_predecessor [of
      "\<lparr>quidx = [0x100, 0x80999999, 0x200, 0x80999999 :: u32], qutbl = [], idx_size = 4, tbl_size = 0\<rparr>" "0x1ff"]
  by (force simp: wf_index_def index_keys_def upt_rec)

end
