(* ===== verification/Exidx_Decoder.thy ===== *)
theory Exidx_Decoder
  imports Qut_Semantics "HOL-Library.Sublist"
begin

text \<open>
  \<open>ExidxDecoder\<close> of \<^verbatim>\<open>ExidxDecoder.cpp\<close>: the ARM exception-index opcodes are
  turned into unwind-table instructions.  The decoder does not follow the opcodes one by one; it
  collects the change of \<open>vsp\<close> and, for every register it tracks, the distance from the place where
  the register was popped, and writes instructions when it must.  \<open>Exidx_Refinement\<close> relates
  this to an interpreter that performs each opcode at once.
\<close>

section \<open>The collected context\<close>

datatype ArmStatus =
    ARM_STATUS_NONE | ARM_STATUS_NO_UNWIND | ARM_STATUS_FINISH | ARM_STATUS_RESERVED
  | ARM_STATUS_SPARE | ARM_STATUS_TRUNCATED | ARM_STATUS_READ_FAILED | ARM_STATUS_MALFORMED
  | ARM_STATUS_INVALID_ALIGNMENT | ARM_STATUS_INVALID_PERSONALITY

abbreviation (input) ARM_OP_FINISH :: u8 where "ARM_OP_FINISH \<equiv> 0xb0"

text \<open>
  \<open>vsp_\<close>, \<open>transformed_bits\<close> and the entries of \<open>regs_\<close> are \<open>int32_t\<close>: words of 32 bits, read as
  signed where the code compares or widens them.  The entries are indexed by the operation
  numbers of \<open>R4_OFFSET\<close> (0) to \<open>PC_OFFSET\<close> (6).  \<open>ctx_overflow\<close> is not in the code: it notes that an addition to one of them
  has overflowed, which is undefined; \<open>with_context\<close> turns the note into a fault before anything else is done.
\<close>

record exidx_context =
  ctx_vsp :: u32
  ctx_bits :: u32
  ctx_offsets :: "nat \<Rightarrow> u32"
  ctx_overflow :: bool

definition ctx_reset :: exidx_context where
  "ctx_reset = \<lparr>ctx_vsp = 0, ctx_bits = 0, ctx_offsets = (\<lambda>_. 0), ctx_overflow = False\<rparr>"

definition transformed :: "exidx_context \<Rightarrow> nat \<Rightarrow> bool" where
  "transformed c i \<longleftrightarrow> ctx_bits c AND push_bit i 1 \<noteq> 0"

definition add_overflows :: "'w::len word \<Rightarrow> 'w word \<Rightarrow> bool" where
  "add_overflows a b \<longleftrightarrow> sint (a + b) \<noteq> sint a + sint b"

definition AddUpTransformed :: "nat \<Rightarrow> u32 \<Rightarrow> exidx_context \<Rightarrow> exidx_context" where
  "AddUpTransformed reg_idx imm c =
     (if transformed c reg_idx
      then c\<lparr>ctx_offsets := (ctx_offsets c)(reg_idx := ctx_offsets c reg_idx + imm),
             ctx_overflow := (ctx_overflow c \<or> add_overflows (ctx_offsets c reg_idx) imm)\<rparr>
      else c)"

definition AddUpVSP :: "u32 \<Rightarrow> exidx_context \<Rightarrow> exidx_context" where
  "AddUpVSP imm c =
     fold (\<lambda>i. AddUpTransformed (qut_code i) imm)
       [R4_OFFSET, R7_OFFSET, R10_OFFSET, R11_OFFSET, SP_OFFSET, LR_OFFSET, PC_OFFSET]
       (c\<lparr>ctx_vsp := ctx_vsp c + imm, ctx_overflow := (ctx_overflow c \<or> add_overflows (ctx_vsp c) imm)\<rparr>)"

definition Transform :: "nat \<Rightarrow> exidx_context \<Rightarrow> exidx_context" where
  "Transform reg_idx c =
     c\<lparr>ctx_bits := ctx_bits c OR push_bit reg_idx 1,
       ctx_offsets := (ctx_offsets c)(reg_idx := 0)\<rparr>"

section \<open>Writing instructions\<close>

record exidx =
  ex_data :: "u8 list"
  ex_context :: exidx_context
  ex_instructions :: "u64 list"
  ex_status :: ArmStatus
  ex_native_only :: bool
  ex_status_address :: u64

text \<open>
  \<open>((uint64_t) op << 32) | imm\<close>: the \<open>int32_t\<close> on the right is converted to \<open>uint64_t\<close>, which
  extends its sign over the operation.
\<close>

definition flush_word :: "QutInstruction \<Rightarrow> u32 \<Rightarrow> u64" where
  "flush_word op imm = push_bit 32 (of_nat (qut_code op)) OR scast imm"

text \<open>The sorted vector: by offset, ascending, negative ones behind the others.\<close>

fun insert_pos :: "int \<Rightarrow> (nat \<times> int) list \<Rightarrow> nat" where
  "insert_pos vsp_offset [] = 0"
| "insert_pos vsp_offset (p # ps) =
     (if vsp_offset \<ge> 0 \<and> (snd p > vsp_offset \<or> snd p < 0) then 0
      else Suc (insert_pos vsp_offset ps))"

definition insert_reg :: "exidx_context \<Rightarrow> nat \<Rightarrow> (nat \<times> int) list \<Rightarrow> (nat \<times> int) list" where
  "insert_reg c i ps =
     (if \<not> transformed c i then ps
      else (let off = sint (ctx_offsets c i); k = insert_pos off ps
            in take k ps @ (i, off) # drop k ps))"

definition sorted_regs :: "exidx_context \<Rightarrow> (nat \<times> int) list" where
  "sorted_regs c = fold (insert_reg c) [0..<7] []"

text \<open>The second loop: the loads, with the aborting check and the filter of native-only runs.\<close>

fun flush_regs :: "bool \<Rightarrow> exidx_context \<Rightarrow> (nat \<times> int) list \<Rightarrow> u64 list \<Rightarrow> fault + u64 list" where
  "flush_regs native c [] out = Inr out"
| "flush_regs native c ((i, off) # ps) out =
     (if transformed c i
      then (if ctx_offsets c i AND 3 \<noteq> 0 then Inl CheckFailed
            else if native \<and> \<not> (i = qut_code R7_OFFSET \<or> i \<ge> qut_code SP_OFFSET)
            then flush_regs native c ps out
            else flush_regs native c ps (out @ [flush_word (QutInstructions ! i) (ctx_offsets c i)]))
      else flush_regs native c ps out)"

definition FlushInstructions :: "exidx \<Rightarrow> fault + exidx" where
  "FlushInstructions self =
     (let c = ex_context self
      in if ctx_vsp c \<noteq> 0 \<and> ctx_vsp c AND 3 \<noteq> 0 then Inl CheckFailed
         else (let out = ex_instructions self
                     @ (if ctx_vsp c \<noteq> 0 then [flush_word VSP_OFFSET (ctx_vsp c)] else [])
               in case flush_regs (ex_native_only self) c (sorted_regs c) out of
                    Inl f \<Rightarrow> Inl f
                  | Inr out' \<Rightarrow>
                      Inr (self\<lparr>ex_instructions := out'
                             @ (if transformed c (qut_code SP_OFFSET)
                                then [push_bit 32 (of_nat (qut_code VSP_SET_BY_SP))] else []),
                           ex_context := ctx_reset\<rparr>)))"

definition SaveInstructions :: "QutInstruction \<Rightarrow> exidx \<Rightarrow> fault + exidx" where
  "SaveInstructions instruction self =
     (case FlushInstructions self of
        Inl f \<Rightarrow> Inl f
      | Inr self' \<Rightarrow>
          if (if ex_native_only self then instruction = VSP_SET_BY_R7
              else instruction = VSP_SET_BY_R7 \<or> instruction = VSP_SET_BY_R11)
          then Inr (self'\<lparr>ex_instructions := ex_instructions self' @ [push_bit 32 (of_nat (qut_code instruction))]\<rparr>)
          else Inr self')"

section \<open>Opcodes\<close>

text \<open>
  The result of an opcode: what \<open>Decode\<close> returns and the decoder afterwards, or the fault it ends in:
  an aborting \<open>CHECK\<close>, an undefined shift or an overflow.
\<close>

type_synonym exidx_result = "fault + (bool \<times> exidx)"

definition GetByte :: "u8 list \<Rightarrow> (u8 \<times> u8 list) option" where
  "GetByte bs = (case bs of [] \<Rightarrow> None | b # rest \<Rightarrow> Some (b, rest))"

text \<open>Going on with a context, unless an addition has overflowed.\<close>

definition with_context :: "exidx_context \<Rightarrow> exidx \<Rightarrow> (exidx \<Rightarrow> exidx_result) \<Rightarrow> exidx_result" where
  "with_context c self k = (if ctx_overflow c then Inl SignedOverflow else k (self\<lparr>ex_context := c\<rparr>))"

definition decoded :: "exidx \<Rightarrow> exidx_result" where
  "decoded self = Inr (True, self)"

definition add_vsp :: "u32 \<Rightarrow> exidx \<Rightarrow> exidx_result" where
  "add_vsp imm self = with_context (AddUpVSP imm (ex_context self)) self decoded"

definition stop_with :: "ArmStatus \<Rightarrow> exidx \<Rightarrow> exidx_result" where
  "stop_with st self = Inr (False, self\<lparr>ex_status := st\<rparr>)"

text \<open>\<open>if (!GetByte(&byte)) return false;\<close>\<close>

definition with_byte :: "exidx \<Rightarrow> (u8 \<Rightarrow> exidx \<Rightarrow> exidx_result) \<Rightarrow> exidx_result" where
  "with_byte self k =
     (case GetByte (ex_data self) of
        None \<Rightarrow> Inr (False, self)
      | Some (byte, rest) \<Rightarrow> k byte (self\<lparr>ex_data := rest\<rparr>))"

text \<open>The register number of the hardware that an operation loads, where the decoder tracks it.\<close>

definition arm_transform :: "nat \<Rightarrow> exidx_context \<Rightarrow> exidx_context" where
  "arm_transform reg c =
     (if reg = 4 then Transform (qut_code R4_OFFSET) c
      else if reg = 7 then Transform (qut_code R7_OFFSET) c
      else if reg = 10 then Transform (qut_code R10_OFFSET) c
      else if reg = 11 then Transform (qut_code R11_OFFSET) c
      else c)"

definition pop_masked :: "u16 \<Rightarrow> nat \<Rightarrow> exidx_context \<Rightarrow> exidx_context" where
  "pop_masked registers reg c =
     (if registers AND push_bit reg 1 \<noteq> 0 then AddUpVSP 4 (arm_transform reg c) else c)"

definition pop_special :: "u16 \<Rightarrow> nat \<Rightarrow> QutInstruction \<Rightarrow> exidx_context \<Rightarrow> exidx_context" where
  "pop_special registers reg i c =
     (if registers AND push_bit reg 1 \<noteq> 0 then AddUpVSP 4 (Transform (qut_code i) c) else c)"

definition DecodePrefix_10_00 :: "u8 \<Rightarrow> exidx \<Rightarrow> exidx_result" where
  "DecodePrefix_10_00 byte self =
     with_byte self (\<lambda>byte2 self1.
       let registers = (push_bit 8 (ucast (byte AND 0xf)) OR ucast byte2 :: u16)
       in if registers = 0 then Inr (False, self1)
          else (let regs4 = push_bit 4 registers;
                    c = fold (pop_masked regs4) [4..<13] (ex_context self1);
                    c = pop_special regs4 13 SP_OFFSET c;
                    c = pop_special regs4 14 LR_OFFSET c;
                    c = pop_special regs4 15 PC_OFFSET c
                in with_context c self1 (\<lambda>self2.
                     if regs4 AND push_bit 13 1 \<noteq> 0
                     then (case SaveInstructions NOP self2 of Inl f \<Rightarrow> Inl f | Inr s \<Rightarrow> Inr (True, s))
                     else decoded self2)))"

definition drop_untransformed :: "exidx \<Rightarrow> exidx" where
  "drop_untransformed self =
     (if ctx_bits (ex_context self) = 0 then self\<lparr>ex_context := ctx_reset\<rparr> else self)"

definition DecodePrefix_10_01 :: "u8 \<Rightarrow> exidx \<Rightarrow> exidx_result" where
  "DecodePrefix_10_01 byte self =
     (if drop_bit 4 byte \<noteq> 0x9 then Inl CheckFailed
      else (let bits = byte AND 0xf
            in if bits = 13 \<or> bits = 15 then stop_with ARM_STATUS_RESERVED self
               else if bits = 7 \<or> bits = 11
               then (case SaveInstructions (if bits = 7 then VSP_SET_BY_R7 else VSP_SET_BY_R11)
                            (drop_untransformed self) of
                       Inl f \<Rightarrow> Inl f | Inr s \<Rightarrow> Inr (True, s))
               else Inr (False, self)))"

definition DecodePrefix_10_10 :: "u8 \<Rightarrow> exidx \<Rightarrow> exidx_result" where
  "DecodePrefix_10_10 byte self =
     (if drop_bit 4 byte \<noteq> 0xa then Inl CheckFailed
      else (let c = fold (\<lambda>i c. AddUpVSP 4 (arm_transform i c)) [4..<5 + unat (byte AND 0x7)] (ex_context self);
                c = (if byte AND 0x8 \<noteq> 0 then AddUpVSP 4 (Transform (qut_code LR_OFFSET) c) else c)
            in with_context c self decoded))"

definition DecodePrefix_10_11_0000 :: "exidx \<Rightarrow> exidx_result" where
  "DecodePrefix_10_11_0000 self = stop_with ARM_STATUS_FINISH self"

definition DecodePrefix_10_11_0001 :: "exidx \<Rightarrow> exidx_result" where
  "DecodePrefix_10_11_0001 self =
     with_byte self (\<lambda>byte self1.
       if byte = 0 then stop_with ARM_STATUS_SPARE self1
       else if drop_bit 4 byte \<noteq> 0 then stop_with ARM_STATUS_SPARE self1
       else with_context
              (fold (\<lambda>reg c. if byte AND push_bit reg 1 \<noteq> 0 then AddUpVSP 4 c else c) [0..<4] (ex_context self1))
              self1 decoded)"

text \<open>
  The ULEB128 loop; when the bytes run out they have all been taken.  It shifts an \<open>int\<close>, so that both a shift by 32 or more and
  one that does not fit \<open>unsigned\<close> are undefined in the C++17 of the build.
\<close>

definition uleb_bad :: "nat \<Rightarrow> u8 \<Rightarrow> fault option" where
  "uleb_bad shift b =
     (if 32 \<le> shift then Some BadShift
      else if 2 ^ 32 \<le> unat (b AND 0x7f) * 2 ^ shift then Some SignedOverflow else None)"

definition DecodePrefix_10_11_0010 :: "exidx \<Rightarrow> exidx_result" where
  "DecodePrefix_10_11_0010 self =
     (case leb128_loop GetByte uleb_bad (0::u32) 0 (ex_data self) of
        None \<Rightarrow> Inr (False, self\<lparr>ex_data := []\<rparr>)
      | Some (Inl f) \<Rightarrow> Inl f
      | Some (Inr (result, shift, byte, rest)) \<Rightarrow>
          add_vsp (0x204 + push_bit 2 result) (self\<lparr>ex_data := rest\<rparr>))"

definition DecodePrefix_10_11_0011 :: "exidx \<Rightarrow> exidx_result" where
  "DecodePrefix_10_11_0011 self =
     with_byte self (\<lambda>byte self1. add_vsp (ucast (byte AND 0xf) * 8 + 12) self1)"

definition DecodePrefix_10_11_01nn :: "exidx \<Rightarrow> exidx_result" where
  "DecodePrefix_10_11_01nn self = stop_with ARM_STATUS_SPARE self"

definition DecodePrefix_10_11_1nnn :: "u8 \<Rightarrow> exidx \<Rightarrow> exidx_result" where
  "DecodePrefix_10_11_1nnn byte self =
     (if byte AND NOT 0x07 \<noteq> 0xb8 then Inl CheckFailed
      else add_vsp (ucast (byte AND 0x7) * 8 + 12) self)"

definition DecodePrefix_11_000 :: "u8 \<Rightarrow> exidx \<Rightarrow> exidx_result" where
  "DecodePrefix_11_000 byte self =
     (if byte AND NOT 0x07 \<noteq> 0xc0 then Inl CheckFailed
      else (let bits = byte AND 0x7
            in if bits = 6 then with_byte self (\<lambda>b self1. add_vsp (ucast (b AND 0xf) * 8 + 8) self1)
               else if bits = 7 then with_byte self (\<lambda>b self1.
                 if b = 0 then stop_with ARM_STATUS_SPARE self1
                 else if drop_bit 4 b = 0 then add_vsp (of_nat (length (filter (bit b) [0..<8])) * 4) self1
                 else stop_with ARM_STATUS_SPARE self1)
               else add_vsp (ucast (byte AND 0x7) * 8 + 8) self))"

definition DecodePrefix_11_001 :: "u8 \<Rightarrow> exidx \<Rightarrow> exidx_result" where
  "DecodePrefix_11_001 byte self =
     (if byte AND NOT 0x07 \<noteq> 0xc8 then Inl CheckFailed
      else (let bits = byte AND 0x7
            in if bits = 0 then with_byte self (\<lambda>b self1. add_vsp (ucast (b AND 0xf) * 8 + 8) self1)
               else if bits = 1 then with_byte self (\<lambda>b self1. add_vsp (ucast (b AND 0xf) * 8 + 8) self1)
               else stop_with ARM_STATUS_SPARE self))"

definition DecodePrefix_11_010 :: "u8 \<Rightarrow> exidx \<Rightarrow> exidx_result" where
  "DecodePrefix_11_010 byte self =
     (if byte AND NOT 0x07 \<noteq> 0xd0 then Inl CheckFailed
      else add_vsp (ucast (byte AND 0x7) * 8 + 8) self)"

definition DecodePrefix_10 :: "u8 \<Rightarrow> exidx \<Rightarrow> exidx_result" where
  "DecodePrefix_10 byte self =
     (let n = drop_bit 4 byte AND 0x3
      in if n = 0 then DecodePrefix_10_00 byte self
         else if n = 1 then DecodePrefix_10_01 byte self
         else if n = 2 then DecodePrefix_10_10 byte self
         else (let m = byte AND 0xf
               in if m = 0 then DecodePrefix_10_11_0000 self
                  else if m = 1 then DecodePrefix_10_11_0001 self
                  else if m = 2 then DecodePrefix_10_11_0010 self
                  else if m = 3 then DecodePrefix_10_11_0011 self
                  else if byte AND 0x8 \<noteq> 0 then DecodePrefix_10_11_1nnn byte self
                  else DecodePrefix_10_11_01nn self))"

definition DecodePrefix_11 :: "u8 \<Rightarrow> exidx \<Rightarrow> exidx_result" where
  "DecodePrefix_11 byte self =
     (let n = drop_bit 3 byte AND 0x7
      in if n = 0 then DecodePrefix_11_000 byte self
         else if n = 1 then DecodePrefix_11_001 byte self
         else if n = 2 then DecodePrefix_11_010 byte self
         else Inr (False, self))"

definition Decode_exidx :: "exidx \<Rightarrow> exidx_result" where
  "Decode_exidx self =
     with_byte self (\<lambda>byte self1.
       if drop_bit 6 byte = 0 then add_vsp (push_bit 2 (ucast (byte AND 0x3f)) + 4) self1
       else if drop_bit 6 byte = 1 then add_vsp (- (push_bit 2 (ucast (byte AND 0x3f)) + 4)) self1
       else if drop_bit 6 byte = 2 then DecodePrefix_10 byte self1
       else DecodePrefix_11 byte self1)"

section \<open>The loop\<close>

text \<open>Opcodes only take bytes away, and \<open>Decode\<close> takes at least one.\<close>

definition takes :: "u8 list \<Rightarrow> exidx_result \<Rightarrow> bool" where
  "takes bs r \<longleftrightarrow> (\<forall>b s. r = Inr (b, s) \<longrightarrow> suffix (ex_data s) bs)"

named_theorems taking \<open>opcodes take bytes from the front\<close>

lemma FlushInstructions_data: "FlushInstructions self = Inr s \<Longrightarrow> ex_data s = ex_data self"
  by (auto simp: FlushInstructions_def Let_def split: if_splits sum.splits)

lemma SaveInstructions_data: "SaveInstructions i self = Inr s \<Longrightarrow> ex_data s = ex_data self"
  by (auto simp: SaveInstructions_def dest: FlushInstructions_data split: sum.splits if_splits)

lemma takes_saved [taking]:
  "suffix (ex_data self) bs \<Longrightarrow>
     takes bs (case SaveInstructions i self of Inl f \<Rightarrow> Inl f | Inr s \<Rightarrow> Inr (True, s))"
  by (auto simp: takes_def dest: SaveInstructions_data split: sum.splits)

lemma takes_Inr [taking]: "suffix (ex_data s) bs \<Longrightarrow> takes bs (Inr (b, s))"
  and takes_Inl [taking]: "takes bs (Inl f)"
  and takes_decoded [taking]: "suffix (ex_data s) bs \<Longrightarrow> takes bs (decoded s)"
  and takes_add_vsp [taking]: "suffix (ex_data s) bs \<Longrightarrow> takes bs (add_vsp imm s)"
  and takes_stop_with [taking]: "suffix (ex_data s) bs \<Longrightarrow> takes bs (stop_with st s)"
  by (simp_all add: takes_def add_vsp_def stop_with_def with_context_def decoded_def)

lemma takes_with_context [taking]: "takes bs (k (s\<lparr>ex_context := c\<rparr>)) \<Longrightarrow> takes bs (with_context c s k)"
  by (simp add: takes_def with_context_def)

lemma takes_with_byte [taking]:
  assumes "\<And>byte rest. ex_data self = byte # rest \<Longrightarrow> suffix rest bs \<Longrightarrow> takes bs (k byte (self\<lparr>ex_data := rest\<rparr>))"
    and "suffix (ex_data self) bs"
  shows "takes bs (with_byte self k)"
  using assms suffix_ConsD [of _ _ bs] by (auto simp: with_byte_def GetByte_def takes_def split: list.splits)

interpretation data_source: byte_source GetByte id
  by unfold_locales (simp_all add: GetByte_def)

lemma leb_list_suffix: "leb_list bad acc sh bs = Some (Inr (v, sh', b, rest)) \<Longrightarrow> suffix rest bs"
proof (induction bs arbitrary: acc sh)
  case (Cons x bs)
  then show ?case by (auto simp: Let_def intro: suffix_ConsI split: option.splits if_splits)
qed simp

lemma takes_uleb [taking]:
  assumes "suffix (ex_data self) bs"
  shows "takes bs (DecodePrefix_10_11_0010 self)"
proof -
  have "suffix rest (ex_data self)"
    if "leb128_loop GetByte uleb_bad (0::u32) 0 (ex_data self) = Some (Inr (v, sh, b, rest))" for v sh b rest
    using data_source.loop_result_stream [OF that] leb_list_suffix by fastforce
  then show ?thesis
    using assms
    by (auto simp: DecodePrefix_10_11_0010_def intro!: taking split: option.split sum.split
        intro: suffix_order.trans)
qed

lemma takes_opcodes [taking]:
  assumes "suffix (ex_data self) bs"
  shows "takes bs (DecodePrefix_10_00 byte self)" "takes bs (DecodePrefix_10_01 byte self)"
    "takes bs (DecodePrefix_10_10 byte self)" "takes bs (DecodePrefix_10_11_0000 self)"
    "takes bs (DecodePrefix_10_11_0001 self)" "takes bs (DecodePrefix_10_11_0011 self)"
    "takes bs (DecodePrefix_10_11_01nn self)" "takes bs (DecodePrefix_10_11_1nnn byte self)"
  using assms
  unfolding DecodePrefix_10_00_def DecodePrefix_10_01_def DecodePrefix_10_10_def
    DecodePrefix_10_11_0000_def DecodePrefix_10_11_0001_def DecodePrefix_10_11_0011_def
    DecodePrefix_10_11_01nn_def DecodePrefix_10_11_1nnn_def Let_def
  by (auto intro!: taking simp: drop_untransformed_def)

lemma takes_Prefix_10 [taking]:
  "suffix (ex_data self) bs \<Longrightarrow> takes bs (DecodePrefix_10 byte self)"
  unfolding DecodePrefix_10_def Let_def by (simp add: taking)

lemma takes_Prefix_11 [taking]:
  "suffix (ex_data self) bs \<Longrightarrow> takes bs (DecodePrefix_11 byte self)"
  unfolding DecodePrefix_11_def DecodePrefix_11_000_def DecodePrefix_11_001_def
    DecodePrefix_11_010_def Let_def
  by (auto intro!: taking)

lemma Decode_exidx_takes:
  "ex_data self = b # rest \<Longrightarrow> takes rest (Decode_exidx self)"
  unfolding Decode_exidx_def with_byte_def by (simp add: GetByte_def) (auto intro!: taking)

lemma Decode_exidx_nil: "ex_data self = [] \<Longrightarrow> Decode_exidx self = Inr (False, self)"
  by (simp add: Decode_exidx_def with_byte_def GetByte_def)

lemma Decode_exidx_shrinks:
  assumes "Decode_exidx self = Inr (True, s)"
  shows "length (ex_data s) < length (ex_data self)"
proof (cases "ex_data self")
  case Nil
  then show ?thesis using assms by (simp add: Decode_exidx_nil)
next
  case (Cons b rest)
  with Decode_exidx_takes [OF Cons] assms have "suffix (ex_data s) rest" by (auto simp: takes_def)
  then show ?thesis using Cons suffix_length_le by fastforce
qed

text \<open>\<open>while (Decode());\<close>\<close>

function Eval_loop :: "exidx \<Rightarrow> fault + exidx" where
  "Eval_loop self =
     (case Decode_exidx self of
        Inl f \<Rightarrow> Inl f
      | Inr (go_on, s) \<Rightarrow> if go_on then Eval_loop s else Inr s)"
  by pat_completeness auto
termination
  by (relation "measure (\<lambda>self. length (ex_data self))") (auto intro: Decode_exidx_shrinks)

declare Eval_loop.simps [simp del]

definition Eval_exidx :: "exidx \<Rightarrow> fault + (bool \<times> exidx)" where
  "Eval_exidx self =
     (case Eval_loop self of
        Inl f \<Rightarrow> Inl f
      | Inr s \<Rightarrow>
          (case SaveInstructions NOP s of
             Inl f \<Rightarrow> Inl f
           | Inr s' \<Rightarrow> Inr (ex_status s' = ARM_STATUS_FINISH, s')))"

section \<open>The data of an entry\<close>

text \<open>
  \<open>ExtractEntryData\<close>; \<open>read32\<close> is \<open>memory_->Read32\<close>, which may fail.
\<close>

definition byte_of :: "nat \<Rightarrow> u32 \<Rightarrow> u8" where
  "byte_of n w = ucast (drop_bit n w AND 0xff)"

definition fail_entry :: "ArmStatus \<Rightarrow> exidx \<Rightarrow> bool \<times> exidx" where
  "fail_entry st self = (False, self\<lparr>ex_status := st\<rparr>)"

definition read_failed :: "u32 \<Rightarrow> exidx \<Rightarrow> bool \<times> exidx" where
  "read_failed addr self = (False, self\<lparr>ex_status := ARM_STATUS_READ_FAILED, ex_status_address := ucast addr\<rparr>)"

definition push_bytes :: "u8 list \<Rightarrow> exidx \<Rightarrow> exidx" where
  "push_bytes bs self = self\<lparr>ex_data := ex_data self @ bs\<rparr>"

definition push_finish :: "exidx \<Rightarrow> exidx" where
  "push_finish self =
     (if last (ex_data self) \<noteq> ARM_OP_FINISH then push_bytes [ARM_OP_FINISH] self else self)"

fun extract_words :: "(u32 \<Rightarrow> u32 option) \<Rightarrow> nat \<Rightarrow> u32 \<Rightarrow> exidx \<Rightarrow> bool \<times> exidx" where
  "extract_words read32 0 addr self = (True, push_finish self)"
| "extract_words read32 (Suc n) addr self =
     (case read32 addr of
        None \<Rightarrow> read_failed addr self
      | Some w \<Rightarrow>
          extract_words read32 n (addr + 4)
            (push_bytes [byte_of 24 w, byte_of 16 w, byte_of 8 w, byte_of 0 w] self))"

definition extract_table :: "(u32 \<Rightarrow> u32 option) \<Rightarrow> nat \<Rightarrow> u32 \<Rightarrow> exidx \<Rightarrow> bool \<times> exidx" where
  "extract_table read32 num_table_words addr self =
     (if num_table_words > 5 then fail_entry ARM_STATUS_MALFORMED self
      else extract_words read32 num_table_words addr self)"

definition extract_indirect :: "(u32 \<Rightarrow> u32 option) \<Rightarrow> u32 \<Rightarrow> exidx \<Rightarrow> bool \<times> exidx" where
  "extract_indirect read32 addr self =
     (case read32 addr of
        None \<Rightarrow> read_failed addr self
      | Some w \<Rightarrow>
          if w AND push_bit 31 1 \<noteq> 0
          then (let personality = drop_bit 24 w AND 0xf
                in if personality = 0
                   then extract_table read32 0 addr (push_bytes [byte_of 16 w, byte_of 8 w, byte_of 0 w] self)
                   else if personality = 1 \<or> personality = 2
                   then extract_table read32 (unat (drop_bit 16 w AND 0xff)) (addr + 4)
                          (push_bytes [byte_of 8 w, byte_of 0 w] self)
                   else fail_entry ARM_STATUS_INVALID_PERSONALITY self)
          else (case read32 (addr + 4) of
                  None \<Rightarrow> read_failed (addr + 4) self
                | Some v \<Rightarrow>
                    extract_table read32 (unat (drop_bit 24 v AND 0xff)) (addr + 8)
                      (push_bytes [byte_of 16 v, byte_of 8 v, byte_of 0 v] self)))"

definition ExtractEntryData :: "(u32 \<Rightarrow> u32 option) \<Rightarrow> u32 \<Rightarrow> exidx \<Rightarrow> bool \<times> exidx" where
  "ExtractEntryData read32 entry_offset self =
     (let self0 = self\<lparr>ex_data := [], ex_status := ARM_STATUS_NONE, ex_status_address := ucast entry_offset\<rparr>
      in if entry_offset AND 1 \<noteq> 0 then fail_entry ARM_STATUS_INVALID_ALIGNMENT self0
         else (case read32 (entry_offset + 4) of
                 None \<Rightarrow> read_failed (entry_offset + 4) self0
               | Some w \<Rightarrow>
                   if w = 1 then fail_entry ARM_STATUS_NO_UNWIND self0
                   else if w AND push_bit 31 1 \<noteq> 0
                   then (if drop_bit 24 w AND 0xf \<noteq> 0 then fail_entry ARM_STATUS_INVALID_PERSONALITY self0
                         else (True, push_finish (push_bytes [byte_of 16 w, byte_of 8 w, byte_of 0 w] self0)))
                   else extract_indirect read32 (entry_offset + 4 + signed_drop_bit 1 (push_bit 1 w)) self0))"

text \<open>A successful extraction: between three and 24 bytes that end in a finish opcode.\<close>

definition extracted :: "exidx \<Rightarrow> exidx \<Rightarrow> bool \<times> exidx \<Rightarrow> bool" where
  "extracted self0 self r \<longleftrightarrow>
     (case r of (success, s) \<Rightarrow>
        ex_context s = ex_context self \<and> ex_instructions s = ex_instructions self
        \<and> ex_native_only s = ex_native_only self
        \<and> (if success then ex_status s = ex_status self0 \<and> ex_data s \<noteq> []
                           \<and> last (ex_data s) = ARM_OP_FINISH
           else ex_status s \<noteq> ARM_STATUS_NONE \<and> ex_status s \<noteq> ARM_STATUS_FINISH))"

lemma extract_words_extracted:
  assumes "ex_data self \<noteq> []" "ex_context self = ex_context self1"
    "ex_instructions self = ex_instructions self1" "ex_native_only self = ex_native_only self1"
  shows "extracted self self1 (extract_words read32 n addr self)"
  using assms
proof (induction read32 n addr self rule: extract_words.induct)
  case (1 read32 addr self)
  then show ?case by (auto simp: extracted_def push_finish_def push_bytes_def)
next
  case (2 read32 n addr self)
  show ?case
  proof (cases "read32 addr")
    case None
    then show ?thesis using "2.prems" by (simp add: extracted_def read_failed_def)
  next
    case (Some w)
    from "2.IH" [OF Some] "2.prems" show ?thesis
      using Some by (simp add: push_bytes_def extracted_def split: prod.splits)
  qed
qed

lemma extract_words_length:
  "extract_words read32 n addr self = (True, s) \<Longrightarrow>
     length (ex_data s) \<le> length (ex_data self) + 4 * n + 1
     \<and> length (ex_data self) \<le> length (ex_data s)"
proof (induction read32 n addr self rule: extract_words.induct)
  case (1 read32 addr self)
  then show ?case by (auto simp: push_finish_def push_bytes_def split: if_splits)
next
  case (2 read32 n addr self)
  show ?case
  proof (cases "read32 addr")
    case None
    then show ?thesis using "2.prems" by (simp add: read_failed_def)
  next
    case (Some w)
    from "2.IH" [OF Some] "2.prems" show ?thesis
      using Some by (simp add: push_bytes_def)
  qed
qed

lemma extract_indirect_extracted:
  assumes "ex_data self = []" "ex_status self = ARM_STATUS_NONE"
    "ex_context self = ex_context self1" "ex_instructions self = ex_instructions self1"
    "ex_native_only self = ex_native_only self1"
  shows "extracted self self1 (extract_indirect read32 addr self)"
proof -
  have table: "extracted self self1 (extract_table read32 n a (push_bytes bs self))" if "bs \<noteq> []" for n a bs
    using extract_words_extracted [of "push_bytes bs self" self1 read32 n a] that assms
    by (auto simp: extract_table_def push_bytes_def fail_entry_def extracted_def split: prod.splits)
  have failed: "extracted self self1 (read_failed a self)"
    "st \<notin> {ARM_STATUS_NONE, ARM_STATUS_FINISH} \<Longrightarrow> extracted self self1 (fail_entry st self)" for a st
    using assms by (simp_all add: extracted_def read_failed_def fail_entry_def)
  show ?thesis
    unfolding extract_indirect_def Let_def
    by (cases "read32 addr") (simp_all add: table failed del: push_bit_of_1 split: option.split)
qed

lemma extract_indirect_length:
  assumes "extract_indirect read32 addr self = (True, s)" "ex_data self = []"
  shows "2 \<le> length (ex_data s) \<and> length (ex_data s) \<le> 24"
proof -
  have table: "2 \<le> length (ex_data s) \<and> length (ex_data s) \<le> 24"
    if "extract_table read32 n a (push_bytes bs self) = (True, s)" "length bs \<in> {2, 3}" for n a bs
    using that extract_words_length [of read32 n a "push_bytes bs self" s] assms(2)
    by (auto simp: extract_table_def push_bytes_def fail_entry_def split: if_splits)
  show ?thesis
    using assms(1)
    by (auto simp: extract_indirect_def Let_def read_failed_def fail_entry_def
        split: option.splits if_splits dest!: table)
qed

text \<open>
  C34. Extracting an entry either fails with a status that says why (never "none" or "finish"), or
  yields between two and 24 opcode bytes, the last of which is the finish opcode.  The collected
  context and the instructions written so far are not touched.
\<close>

theorem ExtractEntryData_result:
  "case ExtractEntryData read32 entry_offset self of
     (success, s) \<Rightarrow>
       ex_context s = ex_context self \<and> ex_instructions s = ex_instructions self
       \<and> (if success
          then ex_status s = ARM_STATUS_NONE \<and> 2 \<le> length (ex_data s) \<and> length (ex_data s) \<le> 24
               \<and> last (ex_data s) = ARM_OP_FINISH
          else ex_status s \<noteq> ARM_STATUS_NONE \<and> ex_status s \<noteq> ARM_STATUS_FINISH)"
proof -
  define P where "P = (\<lambda>(success, s :: exidx).
       ex_context s = ex_context self \<and> ex_instructions s = ex_instructions self
       \<and> (if success
          then ex_status s = ARM_STATUS_NONE \<and> 2 \<le> length (ex_data s) \<and> length (ex_data s) \<le> 24
               \<and> last (ex_data s) = ARM_OP_FINISH
          else ex_status s \<noteq> ARM_STATUS_NONE \<and> ex_status s \<noteq> ARM_STATUS_FINISH))"
  let ?self0 = "self\<lparr>ex_data := [], ex_status := ARM_STATUS_NONE, ex_status_address := ucast entry_offset\<rparr>"
  have indirect: "P (extract_indirect read32 a ?self0)" for a
    using extract_indirect_extracted [of ?self0 self read32 a]
      extract_indirect_length [of read32 a ?self0]
    by (auto simp: P_def extracted_def split: prod.splits)
  have failed: "P (read_failed a ?self0)" "st \<notin> {ARM_STATUS_NONE, ARM_STATUS_FINISH} \<Longrightarrow> P (fail_entry st ?self0)"
    for a st
    by (simp_all add: P_def read_failed_def fail_entry_def)
  have compact: "P (True, push_finish (push_bytes [a, b, c] ?self0))" for a b c
    by (simp add: P_def push_finish_def push_bytes_def)
  have "P (ExtractEntryData read32 entry_offset self)"
    unfolding ExtractEntryData_def Let_def
    by (cases "read32 (entry_offset + 4)") (simp_all add: indirect failed compact del: push_bit_of_1)
  then show ?thesis by (simp add: P_def)
qed

end
