(* ===== verification/Exidx_Refinement.thy ===== *)
theory Exidx_Refinement
  imports Exidx_Decoder
begin

text \<open>
  The exception-index decoder against an interpreter that performs every opcode at once: what the
  collected context stands for, that flushing performs it, that every opcode handler simulates its
  opcode, that no aborting check of the decoder can fire, and when its arithmetic is defined.
\<close>

section \<open>Performing the opcodes at once\<close>

text \<open>
  The meaning of the opcodes as the comments of the code (and the architecture) give it, performed
  one by one on the state: a pop loads from \<open>vsp\<close> and moves it by a word.  The slot is the place of
  a hardware register among the registers that the unwinder keeps.
\<close>

definition arm_slot :: "nat \<Rightarrow> nat option" where
  "arm_slot reg =
     (if reg = 4 then Some R4 else if reg = 7 then Some R7 else if reg = 10 then Some R10
      else if reg = 11 then Some R11 else if reg = 13 then Some SP else if reg = 14 then Some LR
      else if reg = 15 then Some PC else None)"

definition move_vsp :: "u32 \<Rightarrow> u32 qtable \<Rightarrow> u32 qtable" where
  "move_vsp n q = q\<lparr>cfa := cfa q + n\<rparr>"

definition pop_reg :: "u32 stack_env \<Rightarrow> nat \<Rightarrow> u32 qtable \<Rightarrow> u32 qtable" where
  "pop_reg env reg q =
     move_vsp 4
       (case arm_slot reg of
          None \<Rightarrow> q
        | Some r \<Rightarrow> q\<lparr>regs := (regs q)(r := stack_word env (cfa q)), pc_set := (pc_set q \<or> reg = 15)\<rparr>)"

definition pop_mask :: "u32 stack_env \<Rightarrow> 'w::len word \<Rightarrow> nat list \<Rightarrow> u32 qtable \<Rightarrow> u32 qtable" where
  "pop_mask env registers regs_list q = fold (\<lambda>reg q. if bit registers reg then pop_reg env reg q else q) regs_list q"

text \<open>
  One opcode: whether it is the finish, the bytes left, the state.  \<open>None\<close> is a refusal: no bytes
  left, a reserved or spare code, or a frame register that the unwinder does not keep.
\<close>

type_synonym opcode_effect = "(bool \<times> u8 list \<times> u32 qtable) option"

definition go :: "u8 list \<Rightarrow> u32 qtable \<Rightarrow> opcode_effect" where
  "go rest q = Some (False, rest, q)"

definition opcode_10_11 :: "u32 stack_env \<Rightarrow> u8 \<Rightarrow> u8 list \<Rightarrow> u32 qtable \<Rightarrow> opcode_effect" where
  "opcode_10_11 env byte rest q =
     (let m = byte AND 0xf
      in if m = 0 then Some (True, rest, q)
         else if m = 1 then
           (case rest of [] \<Rightarrow> None
            | b # rest' \<Rightarrow> if b = 0 \<or> drop_bit 4 b \<noteq> 0 then None else go rest' (pop_mask env b [0..<4] q))
         else if m = 2 then
           (case leb_list uleb_bad (0::u32) 0 rest of
              Some (Inr (result, _, _, rest')) \<Rightarrow> go rest' (move_vsp (0x204 + push_bit 2 result) q)
            | _ \<Rightarrow> None)
         else if m = 3 then
           (case rest of [] \<Rightarrow> None | b # rest' \<Rightarrow> go rest' (move_vsp (ucast (b AND 0xf) * 8 + 12) q))
         else if byte AND 0x8 \<noteq> 0 then go rest (move_vsp (ucast (byte AND 0x7) * 8 + 12) q)
         else None)"

definition opcode_10 :: "u32 stack_env \<Rightarrow> u8 \<Rightarrow> u8 list \<Rightarrow> u32 qtable \<Rightarrow> opcode_effect" where
  "opcode_10 env byte rest q =
     (let n = drop_bit 4 byte AND 0x3
      in if n = 0 then
           (case rest of [] \<Rightarrow> None
            | b # rest' \<Rightarrow>
                let registers = (push_bit 8 (ucast (byte AND 0xf)) OR ucast b :: u16);
                    regs4 = push_bit 4 registers; q' = pop_mask env regs4 [4..<16] q
                in if registers = 0 then None
                   else go rest' (if bit regs4 13 then q'\<lparr>cfa := regs q' SP\<rparr> else q'))
         else if n = 1 then
           (if byte AND 0xf = 7 then go rest (q\<lparr>cfa := regs q R7\<rparr>)
            else if byte AND 0xf = 11 then go rest (q\<lparr>cfa := regs q R11\<rparr>)
            else None)
         else if n = 2 then
           (let q' = fold (pop_reg env) [4..<5 + unat (byte AND 0x7)] q
            in go rest (if byte AND 0x8 \<noteq> 0 then pop_reg env 14 q' else q'))
         else opcode_10_11 env byte rest q)"

definition opcode_11 :: "u8 \<Rightarrow> u8 list \<Rightarrow> u32 qtable \<Rightarrow> opcode_effect" where
  "opcode_11 byte rest q =
     (let n = drop_bit 3 byte AND 0x7; m = byte AND 0x7
      in if n = 0 then
           (if m = 6 then
              (case rest of [] \<Rightarrow> None | b # rest' \<Rightarrow> go rest' (move_vsp (ucast (b AND 0xf) * 8 + 8) q))
            else if m = 7 then
              (case rest of [] \<Rightarrow> None
               | b # rest' \<Rightarrow>
                   if b = 0 \<or> drop_bit 4 b \<noteq> 0 then None
                   else go rest' (move_vsp (of_nat (length (filter (bit b) [0..<8])) * 4) q))
            else go rest (move_vsp (ucast m * 8 + 8) q))
         else if n = 1 then
           (if m = 0 \<or> m = 1 then
              (case rest of [] \<Rightarrow> None | b # rest' \<Rightarrow> go rest' (move_vsp (ucast (b AND 0xf) * 8 + 8) q))
            else None)
         else if n = 2 then go rest (move_vsp (ucast m * 8 + 8) q)
         else None)"

definition opcode :: "u32 stack_env \<Rightarrow> u8 list \<Rightarrow> u32 qtable \<Rightarrow> opcode_effect" where
  "opcode env bytes q =
     (case bytes of [] \<Rightarrow> None
      | byte # rest \<Rightarrow>
          if drop_bit 6 byte = 0 then go rest (move_vsp (push_bit 2 (ucast (byte AND 0x3f)) + 4) q)
          else if drop_bit 6 byte = 1 then go rest (move_vsp (- (push_bit 2 (ucast (byte AND 0x3f)) + 4)) q)
          else if drop_bit 6 byte = 2 then opcode_10 env byte rest q
          else opcode_11 byte rest q)"

text \<open>All opcodes up to the finish; \<open>fuel\<close> bounds their number, the length of the bytes is enough.\<close>

fun opcodes :: "u32 stack_env \<Rightarrow> nat \<Rightarrow> u8 list \<Rightarrow> u32 qtable \<Rightarrow> u32 qtable option" where
  "opcodes env 0 bytes q = None"
| "opcodes env (Suc fuel) bytes q =
     (case opcode env bytes q of
        None \<Rightarrow> None
      | Some (True, rest, q') \<Rightarrow> Some q'
      | Some (False, rest, q') \<Rightarrow> opcodes env fuel rest q')"

text \<open>
  The registers that an opcode pops; whether the kept ones among them are popped from inside of the stack bounds; and
  the same for all opcodes up to the finish.
\<close>

definition popped_by :: "u8 list \<Rightarrow> nat list" where
  "popped_by bytes =
     (case bytes of
        [] \<Rightarrow> []
      | byte # rest \<Rightarrow>
          if drop_bit 6 byte \<noteq> 2 then []
          else if drop_bit 4 byte AND 0x3 = 0 then
            (case rest of [] \<Rightarrow> []
             | b # _ \<Rightarrow> filter (bit (push_bit 4 (push_bit 8 (ucast (byte AND 0xf)) OR ucast b) :: u16)) [4..<16])
          else if drop_bit 4 byte AND 0x3 = 2 then [4..<5 + unat (byte AND 0x7)] @ (if byte AND 0x8 \<noteq> 0 then [14] else [])
          else [])"

fun pops_inside :: "u32 stack_env \<Rightarrow> nat list \<Rightarrow> u32 qtable \<Rightarrow> bool" where
  "pops_inside env [] q \<longleftrightarrow> True"
| "pops_inside env (reg # regs_list) q \<longleftrightarrow>
     (arm_slot reg \<noteq> None \<longrightarrow> ReadStack env (cfa q) \<noteq> None) \<and> pops_inside env regs_list (pop_reg env reg q)"

fun opcodes_inside :: "u32 stack_env \<Rightarrow> nat \<Rightarrow> u8 list \<Rightarrow> u32 qtable \<Rightarrow> bool" where
  "opcodes_inside env 0 bytes q \<longleftrightarrow> True"
| "opcodes_inside env (Suc fuel) bytes q \<longleftrightarrow>
     pops_inside env (popped_by bytes) q
     \<and> (case opcode env bytes q of Some (False, rest, q') \<Rightarrow> opcodes_inside env fuel rest q' | _ \<Rightarrow> True)"

section \<open>What a context stands for\<close>

lemma transformed_bit: "i < 32 \<Longrightarrow> transformed c i \<longleftrightarrow> bit (ctx_bits c) i"
  by (simp add: transformed_def and_exp_eq_0_iff_not_bit push_bit_of_1 del: push_bit_of_1)
    (simp add: and_exp_eq_0_iff_not_bit)

definition op_slot :: "nat \<Rightarrow> nat" where
  "op_slot i = (if i = 5 then LR else if i = 6 then PC else i)"

lemma op_slot_inverse [simp]: "op_slot (op_slot i) = i"
  by (simp add: op_slot_def)

lemma op_slot_bound [simp]: "op_slot i < 7 \<longleftrightarrow> i < 7"
  by (simp add: op_slot_def)

text \<open>The state after everything collected has been performed.\<close>

definition pend :: "u32 stack_env \<Rightarrow> exidx_context \<Rightarrow> u32 qtable \<Rightarrow> u32 qtable" where
  "pend env c q =
     q\<lparr>cfa := cfa q + ctx_vsp c,
       pc_set := (pc_set q \<or> transformed c 6),
       regs := (\<lambda>r. if r < 7 \<and> transformed c (op_slot r)
                    then stack_word env (cfa q + ctx_vsp c - ctx_offsets c (op_slot r)) else regs q r)\<rparr>"

lemma less_7_cases: "(i::nat) < 7 \<longleftrightarrow> i = 0 \<or> i = 1 \<or> i = 2 \<or> i = 3 \<or> i = 4 \<or> i = 5 \<or> i = 6"
  by presburger

lemma AddUpTransformed_simps [simp]:
  "ctx_vsp (AddUpTransformed i imm c) = ctx_vsp c" "ctx_bits (AddUpTransformed i imm c) = ctx_bits c"
  "transformed (AddUpTransformed i imm c) j = transformed c j"
  "ctx_offsets (AddUpTransformed i imm c) =
     (ctx_offsets c)(i := ctx_offsets c i + (if transformed c i then imm else 0))"
  by (auto simp: AddUpTransformed_def transformed_def)

lemma AddUpVSP_simps [simp]:
  "ctx_vsp (AddUpVSP imm c) = ctx_vsp c + imm" "ctx_bits (AddUpVSP imm c) = ctx_bits c"
  "transformed (AddUpVSP imm c) j = transformed c j"
  "ctx_offsets (AddUpVSP imm c) j =
     (if j < 7 \<and> transformed c j then ctx_offsets c j + imm else ctx_offsets c j)"
  by (auto simp: AddUpVSP_def transformed_def less_7_cases)

lemma transformed_Transform [simp]:
  "i < 7 \<Longrightarrow> j < 7 \<Longrightarrow> transformed (Transform i c) j \<longleftrightarrow> j = i \<or> transformed c j"
  by (auto simp: transformed_bit Transform_def bit_or_iff bit_exp_iff)

lemma Transform_simps [simp]:
  "ctx_vsp (Transform i c) = ctx_vsp c" "ctx_offsets (Transform i c) = (ctx_offsets c)(i := 0)"
  by (simp_all add: Transform_def)

lemma pend_AddUpVSP [simp]: "pend env (AddUpVSP imm c) q = move_vsp imm (pend env c q)"
  by (cases q) (auto simp: pend_def move_vsp_def fun_eq_iff algebra_simps)

lemma pend_Transform:
  assumes "i < 7"
  shows "pend env (Transform i c) q
    = (pend env c q)\<lparr>regs := (regs (pend env c q))(op_slot i := stack_word env (cfa (pend env c q))),
                    pc_set := (pc_set (pend env c q) \<or> i = 6)\<rparr>"
proof -
  have "regs (pend env (Transform i c) q) r
      = ((regs (pend env c q))(op_slot i := stack_word env (cfa (pend env c q)))) r" for r
  proof (cases "r = op_slot i")
    case True
    then show ?thesis using assms by (simp add: pend_def)
  next
    case False
    then have "op_slot r \<noteq> i" by (metis op_slot_inverse)
    then show ?thesis using False assms by (auto simp: pend_def)
  qed
  moreover have "transformed (Transform i c) 6 \<longleftrightarrow> i = 6 \<or> transformed c 6"
    using assms by auto
  ultimately show ?thesis
    by (intro qtable.equality) (auto simp: pend_def fun_eq_iff)
qed

lemma pend_fold:
  "(\<And>x c. x \<in> set xs \<Longrightarrow> pend env (f x c) q = g x (pend env c q)) \<Longrightarrow>
     pend env (fold f xs c) q = fold g xs (pend env c q)"
  by (induction xs arbitrary: c) auto

lemma pend_arm_pop:
  assumes "reg < 13"
  shows "pend env (AddUpVSP 4 (arm_transform reg c)) q = pop_reg env reg (pend env c q)"
  using assms
  by (cases "pend env c q")
    (auto simp: arm_transform_def pend_Transform pop_reg_def arm_slot_def op_slot_def)

lemma pend_special_pop:
  assumes "(reg, i) \<in> {(13, SP_OFFSET), (14, LR_OFFSET), (15, PC_OFFSET)}"
  shows "pend env (AddUpVSP 4 (Transform (qut_code i) c)) q = pop_reg env reg (pend env c q)"
  using assms
  by (cases "pend env c q") (auto simp: pend_Transform pop_reg_def arm_slot_def op_slot_def)

lemma bit_test: "n < LENGTH('w::len) \<Longrightarrow> (w :: 'w word) AND push_bit n 1 \<noteq> 0 \<longleftrightarrow> bit w n"
  by (simp add: and_exp_eq_0_iff_not_bit)

text \<open>What was collected is loaded from inside of the stack bounds.\<close>

definition pend_inside :: "u32 stack_env \<Rightarrow> exidx_context \<Rightarrow> u32 qtable \<Rightarrow> bool" where
  "pend_inside env c q \<longleftrightarrow>
     (\<forall>i < 7. transformed c i \<longrightarrow> ReadStack env (cfa q + ctx_vsp c - ctx_offsets c i) \<noteq> None)"

lemma pend_inside_AddUpVSP [simp]: "pend_inside env (AddUpVSP imm c) q = pend_inside env c q"
  by (simp add: pend_inside_def algebra_simps)

lemma pend_inside_Transform:
  assumes "pend_inside env c q" "i < 7" "ReadStack env (cfa (pend env c q)) \<noteq> None"
  shows "pend_inside env (Transform i c) q"
  using assms by (auto simp: pend_inside_def pend_def)

lemma pend_inside_arm_pop:
  assumes "pend_inside env c q" "reg < 13" "arm_slot reg \<noteq> None \<longrightarrow> ReadStack env (cfa (pend env c q)) \<noteq> None"
  shows "pend_inside env (AddUpVSP 4 (arm_transform reg c)) q"
  using assms pend_inside_Transform [OF assms(1)] by (auto simp: arm_transform_def arm_slot_def)

lemma pend_inside_special_pop:
  assumes "pend_inside env c q" "(reg, i) \<in> {(13, SP_OFFSET), (14, LR_OFFSET), (15, PC_OFFSET)}"
    and "arm_slot reg \<noteq> None \<longrightarrow> ReadStack env (cfa (pend env c q)) \<noteq> None"
  shows "pend_inside env (AddUpVSP 4 (Transform (qut_code i) c)) q"
  using assms by (auto simp: arm_slot_def intro!: pend_inside_Transform)

lemma pend_inside_fold:
  assumes "\<And>reg c. reg \<in> set xs \<Longrightarrow> pend env (f reg c) q = pop_reg env reg (pend env c q)"
    and "\<And>reg c. reg \<in> set xs \<Longrightarrow> pend_inside env c q \<Longrightarrow> (arm_slot reg \<noteq> None \<longrightarrow> ReadStack env (cfa (pend env c q)) \<noteq> None)
           \<Longrightarrow> pend_inside env (f reg c) q"
    and "pend_inside env c q" "pops_inside env xs (pend env c q)"
  shows "pend_inside env (fold f xs c) q"
  using assms by (induction xs arbitrary: c) auto

lemma pops_inside_append:
  "pops_inside env (xs @ ys) q \<longleftrightarrow> pops_inside env xs q \<and> pops_inside env ys (fold (pop_reg env) xs q)"
  by (induction xs arbitrary: q) auto

section \<open>Writing performs what was collected\<close>

text \<open>
  The word of an instruction is what it should be exactly when the immediate is not negative:
  otherwise the sign extension has overwritten the operation, and no encoder knows it.
\<close>

lemma bit_flush_word:
  "bit (flush_word op v) n \<longleftrightarrow> n < 64 \<and> ((32 \<le> n \<and> bit (qut_code op) (n - 32)) \<or> bit v (min n 31))"
  by (auto simp: flush_word_def bit_or_iff bit_push_bit_iff bit_of_nat_iff bit_signed_iff min_def
      dest: bit_imp_le_length)

lemma qut_code_high: "bit (qut_code op) n \<Longrightarrow> n < 31"
proof -
  assume "bit (qut_code op) n"
  moreover have "qut_code op = take_bit 31 (qut_code op)"
    by (rule sym, rule take_bit_nat_eq_self) (cases op; simp)
  ultimately show "n < 31" by (metis bit_take_bit_iff)
qed

lemma flush_word_op: "instr_op (flush_word op v) = (if bit v 31 then None else Some op)"
proof (cases "bit v 31")
  case True
  have "drop_bit 32 (flush_word op v) = (0xFFFFFFFF :: u64)"
  proof (rule bit_eqI)
    fix n assume "possible_bit TYPE(64 word) n"
    then have n: "n < 64" by simp
    have "(0xFFFFFFFF :: u64) = mask 32" by (simp add: mask_eq_exp_minus_1)
    then have "bit (0xFFFFFFFF :: u64) n \<longleftrightarrow> n < 32" using n by (simp only: bit_mask_iff) simp
    then show "bit (drop_bit 32 (flush_word op v)) n = bit (0xFFFFFFFF :: u64) n"
      using True n by (auto simp: bit_drop_bit_eq bit_flush_word min_def)
  qed
  then show ?thesis using True by (simp add: instr_op_def qut_of_code_def)
next
  case False
  have "drop_bit 32 (flush_word op v) = of_nat (qut_code op)"
    by (rule bit_eqI)
      (use False in \<open>auto simp: bit_drop_bit_eq bit_flush_word min_def bit_of_nat_iff dest: qut_code_high\<close>)
  then show ?thesis
    using False qut_code_bound [of op] by (simp add: instr_op_def unat_of_nat)
qed

lemma flush_word_imm: "word_of_int (instr_imm (flush_word op v)) = v"
proof -
  have "(ucast (flush_word op v AND 0xFFFFFFFF) :: u32) = v"
    by (rule bit_eqI)
      (auto simp: bitvals bit_flush_word min_def split: if_splits dest: le_antisym bit_imp_le_length)
  then show ?thesis by (simp add: instr_imm_def)
qed

definition known :: "u64 list \<Rightarrow> bool" where
  "known ws \<longleftrightarrow> (\<forall>w \<in> set ws. instr_op w \<noteq> None)"

lemma known_append [simp]: "known (xs @ ys) \<longleftrightarrow> known xs \<and> known ys"
  by (auto simp: known_def)

lemma exec_vsp_word:
  "instr_op (flush_word VSP_OFFSET v) \<noteq> None \<Longrightarrow>
     exec_word True env (flush_word VSP_OFFSET v) q = Go (q\<lparr>cfa := cfa q + v\<rparr>)"
  by (simp add: exec_word_def flush_word_op exec_instr_def flush_word_imm split: if_splits)

lemma exec_load_word:
  assumes "instr_op (flush_word (QutInstructions ! i) v) \<noteq> None" "i < 7" "ReadStack env (cfa q - v) \<noteq> None"
  shows "exec_word True env (flush_word (QutInstructions ! i) v) q
    = Go (q\<lparr>regs := (regs q)(op_slot i := stack_word env (cfa q - v)), pc_set := (pc_set q \<or> i = 6)\<rparr>)"
proof -
  have "ReadStack env (cfa q - v) = Some (stack_word env (cfa q - v))"
    using assms(3) by (auto simp: ReadStack_def split: if_splits)
  then show ?thesis
    using assms(1,2)
    by (auto simp: exec_word_def flush_word_op effect_defs flush_word_imm less_7_cases QutInstructions_def
        load_effect_def op_slot_def split: if_splits)
qed

definition load_words :: "exidx_context \<Rightarrow> (nat \<times> int) list \<Rightarrow> u64 list" where
  "load_words c ps = map (\<lambda>(i, off). flush_word (QutInstructions ! i) (ctx_offsets c i)) ps"

lemma set_insert_reg:
  "set (map fst (insert_reg c i ps)) = (if transformed c i then {i} else {}) \<union> set (map fst ps)"
proof -
  have "set (take k ps @ x # drop k ps) = insert x (set ps)" for k and x :: "nat \<times> int"
    by (metis append_take_drop_id set_append list.simps(15) Un_insert_right)
  then show ?thesis by (simp add: insert_reg_def Let_def del: set_append)
qed

lemma set_sorted_regs: "set (map fst (sorted_regs c)) = {i. i < 7 \<and> transformed c i}"
proof -
  have "set (map fst (fold (insert_reg c) is ps)) = {i \<in> set is. transformed c i} \<union> set (map fst ps)"
    for "is" ps
    by (induction "is" arbitrary: ps) (auto simp: set_insert_reg simp del: set_map)
  from this [of "[0..<7]" "[]"] show ?thesis by (auto simp: sorted_regs_def)
qed

lemma flush_regs_words:
  assumes "flush_regs False c ps out = Inr out'" "\<forall>p \<in> set ps. transformed c (fst p)"
  shows "out' = out @ load_words c ps"
  using assms
  by (induction ps arbitrary: out) (fastforce simp: load_words_def split: if_splits)+

lemma exec_load_words:
  assumes "known (load_words c ps)" "\<forall>p \<in> set ps. fst p < 7"
    and "\<forall>p \<in> set ps. ReadStack env (cfa q - ctx_offsets c (fst p)) \<noteq> None"
  shows "\<exists>q'. exec_words True env (load_words c ps) q = Go q'
    \<and> cfa q' = cfa q \<and> dexpc q' = dexpc q
    \<and> pc_set q' = (pc_set q \<or> 6 \<in> set (map fst ps))
    \<and> (\<forall>r. regs q' r = (if op_slot r \<in> set (map fst ps)
                         then stack_word env (cfa q - ctx_offsets c (op_slot r)) else regs q r))"
  using assms
proof (induction ps arbitrary: q)
  case Nil
  then show ?case by (simp add: load_words_def)
next
  case (Cons p ps)
  obtain i off where p: "p = (i, off)" by (cases p)
  let ?v = "ctx_offsets c i"
  let ?q1 = "q\<lparr>regs := (regs q)(op_slot i := stack_word env (cfa q - ?v)), pc_set := (pc_set q \<or> i = 6)\<rparr>"
  have hd: "exec_word True env (flush_word (QutInstructions ! i) ?v) q = Go ?q1"
    using Cons.prems by (intro exec_load_word) (auto simp: p load_words_def known_def)
  have "\<exists>q'. exec_words True env (load_words c ps) ?q1 = Go q'
    \<and> cfa q' = cfa ?q1 \<and> dexpc q' = dexpc ?q1
    \<and> pc_set q' = (pc_set ?q1 \<or> 6 \<in> set (map fst ps))
    \<and> (\<forall>r. regs q' r = (if op_slot r \<in> set (map fst ps)
                         then stack_word env (cfa ?q1 - ctx_offsets c (op_slot r)) else regs ?q1 r))"
    using Cons.prems by (intro Cons.IH) (auto simp: load_words_def known_def)
  then obtain q' where tail: "exec_words True env (load_words c ps) ?q1 = Go q'"
    "cfa q' = cfa ?q1" "dexpc q' = dexpc ?q1" "pc_set q' = (pc_set ?q1 \<or> 6 \<in> set (map fst ps))"
    "\<forall>r. regs q' r = (if op_slot r \<in> set (map fst ps)
                        then stack_word env (cfa ?q1 - ctx_offsets c (op_slot r)) else regs ?q1 r)"
    by blast
  have q': "exec_words True env (load_words c ps) ?q1 = Go q'"
    "cfa q' = cfa q" "dexpc q' = dexpc q" "pc_set q' = (pc_set q \<or> i = 6 \<or> 6 \<in> set (map fst ps))"
    using tail(1-4) by simp_all
  have regs': "regs q' r = (if op_slot r \<in> set (map fst ps)
                        then stack_word env (cfa q - ctx_offsets c (op_slot r))
                        else ((regs q)(op_slot i := stack_word env (cfa q - ?v))) r)" for r
    using tail(5) by simp
  have "op_slot r \<noteq> i" if "r \<noteq> op_slot i" for r using that by (metis op_slot_inverse)
  then have "regs q' r = (if op_slot r \<in> set (map fst (p # ps))
                        then stack_word env (cfa q - ctx_offsets c (op_slot r)) else regs q r)" for r
    unfolding regs' by (cases "r = op_slot i") (simp_all add: p)
  moreover have "exec_words True env (load_words c (p # ps)) q = Go q'"
    using hd q'(1) by (simp add: load_words_def p)
  ultimately show ?case
    using q' by (intro exI [of _ q']) (auto simp: p)
qed

text \<open>Flushing: the new instructions perform the context, and if \<open>sp\<close> was loaded \<open>vsp\<close> follows it.\<close>

definition follow_sp :: "exidx_context \<Rightarrow> u32 qtable \<Rightarrow> u32 qtable" where
  "follow_sp c q = (if transformed c (qut_code SP_OFFSET) then q\<lparr>cfa := regs q SP\<rparr> else q)"

lemma plain_word: "instr_op (push_bit 32 (of_nat (qut_code i))) = Some i" "instr_imm (push_bit 32 (of_nat (qut_code i))) = 0"
  using instr_op_mk [of i 0] instr_imm_mk [of 0 i] by (simp_all add: mk_instr_def)

lemma exec_plain: "exec_word True env (push_bit 32 (of_nat (qut_code i))) q = exec_instr True env i 0 q"
  by (simp add: exec_word_def plain_word)

lemma FlushInstructions_performs:
  assumes "FlushInstructions self = Inr s" "\<not> ex_native_only self"
  obtains ws where "ex_instructions s = ex_instructions self @ ws" "ex_context s = ctx_reset"
    "ex_data s = ex_data self" "ex_status s = ex_status self" "ex_native_only s = ex_native_only self"
    "\<And>q. known ws \<Longrightarrow> pend_inside env (ex_context self) q \<Longrightarrow>
       exec_words True env ws q = Go (follow_sp (ex_context self) (pend env (ex_context self) q))"
proof -
  let ?c = "ex_context self"
  let ?v = "if ctx_vsp ?c \<noteq> 0 then [flush_word VSP_OFFSET (ctx_vsp ?c)] else []"
  let ?l = "load_words ?c (sorted_regs ?c)"
  let ?s = "if transformed ?c (qut_code SP_OFFSET) then [push_bit 32 (of_nat (qut_code VSP_SET_BY_SP))] else []"
  have sorted: "\<forall>p \<in> set (sorted_regs ?c). transformed ?c (fst p) \<and> fst p < 7"
  proof
    fix p assume "p \<in> set (sorted_regs ?c)"
    then have "fst p \<in> set (map fst (sorted_regs ?c))" by simp
    then show "transformed ?c (fst p) \<and> fst p < 7" unfolding set_sorted_regs by simp
  qed
  obtain out where out: "flush_regs False ?c (sorted_regs ?c) (ex_instructions self @ ?v) = Inr out"
    and s: "s = self\<lparr>ex_instructions := out @ ?s, ex_context := ctx_reset\<rparr>"
    using assms(1,2) by (auto simp: FlushInstructions_def Let_def split: if_splits sum.splits)
  have out': "out = (ex_instructions self @ ?v) @ ?l"
    using flush_regs_words [OF out] sorted by blast
  show thesis
  proof (rule that [of "?v @ ?l @ ?s"])
    fix q assume known: "known (?v @ ?l @ ?s)" and inside: "pend_inside env ?c q"
    have v: "exec_words True env ?v q = Go (q\<lparr>cfa := cfa q + ctx_vsp ?c\<rparr>)"
      using known exec_vsp_word [of "ctx_vsp ?c" env q] by (auto simp: known_def)
    let ?q1 = "q\<lparr>cfa := cfa q + ctx_vsp ?c\<rparr>"
    have kl: "known ?l" using known by simp
    have small: "\<forall>p \<in> set (sorted_regs ?c). fst p < 7" using sorted by blast
    have loads: "\<forall>p \<in> set (sorted_regs ?c). ReadStack env (cfa ?q1 - ctx_offsets ?c (fst p)) \<noteq> None"
      using sorted inside by (simp add: pend_inside_def)
    from exec_load_words [OF kl small loads] obtain q2 where q2:
      "exec_words True env ?l ?q1 = Go q2" "cfa q2 = cfa ?q1" "dexpc q2 = dexpc ?q1"
      "pc_set q2 = (pc_set ?q1 \<or> 6 \<in> set (map fst (sorted_regs ?c)))"
      "\<And>r. regs q2 r = (if op_slot r \<in> set (map fst (sorted_regs ?c))
              then stack_word env (cfa ?q1 - ctx_offsets ?c (op_slot r)) else regs ?q1 r)" by blast
    have "q2 = pend env ?c q"
      by (intro qtable.equality) (auto simp: pend_def q2 set_sorted_regs fun_eq_iff simp del: set_map)
    moreover have "exec_words True env ?s q2 = Go (follow_sp ?c q2)"
      by (simp add: follow_sp_def exec_plain effect_defs del: qut_code.simps push_bit_of_nat)
    ultimately show "exec_words True env (?v @ ?l @ ?s) q = Go (follow_sp ?c (pend env ?c q))"
      using v q2(1) by (simp add: exec_words_append)
  qed (simp_all add: s out')
qed

definition set_vsp_by :: "QutInstruction \<Rightarrow> u32 qtable \<Rightarrow> u32 qtable" where
  "set_vsp_by i q =
     (if i = VSP_SET_BY_R7 then q\<lparr>cfa := regs q R7\<rparr>
      else if i = VSP_SET_BY_R11 then q\<lparr>cfa := regs q R11\<rparr> else q)"

lemma SaveInstructions_performs:
  assumes "SaveInstructions i self = Inr s" "\<not> ex_native_only self"
  obtains ws where "ex_instructions s = ex_instructions self @ ws" "ex_context s = ctx_reset"
    "ex_data s = ex_data self" "ex_status s = ex_status self" "ex_native_only s = ex_native_only self"
    "\<And>q. known ws \<Longrightarrow> pend_inside env (ex_context self) q \<Longrightarrow>
       exec_words True env ws q = Go (set_vsp_by i (follow_sp (ex_context self) (pend env (ex_context self) q)))"
proof -
  obtain s1 where s1: "FlushInstructions self = Inr s1"
    and s: "s = (if i = VSP_SET_BY_R7 \<or> i = VSP_SET_BY_R11
                 then s1\<lparr>ex_instructions := ex_instructions s1 @ [push_bit 32 (of_nat (qut_code i))]\<rparr> else s1)"
  proof (cases "FlushInstructions self")
    case (Inr s1)
    moreover from FlushInstructions_performs [OF Inr assms(2)]
    have "\<not> ex_native_only s1" using assms(2) by metis
    ultimately show ?thesis using assms(1,2) that by (auto simp: SaveInstructions_def split: if_splits)
  qed (use assms(1) in \<open>simp add: SaveInstructions_def\<close>)
  from FlushInstructions_performs [OF s1 assms(2)] obtain ws where ws:
    "ex_instructions s1 = ex_instructions self @ ws" "ex_context s1 = ctx_reset"
    "ex_data s1 = ex_data self" "ex_status s1 = ex_status self" "ex_native_only s1 = ex_native_only self"
    "\<And>q. known ws \<Longrightarrow> pend_inside env (ex_context self) q \<Longrightarrow>
       exec_words True env ws q = Go (follow_sp (ex_context self) (pend env (ex_context self) q))" by blast
  show thesis
    by (rule that [of "ws @ (if i = VSP_SET_BY_R7 \<or> i = VSP_SET_BY_R11
                             then [push_bit 32 (of_nat (qut_code i))] else [])"])
      (auto simp: s ws exec_words_append exec_plain set_vsp_by_def effect_defs
         simp del: qut_code.simps push_bit_of_nat)
qed

section \<open>The decoder simulates the opcodes\<close>

text \<open>
  The decoder stands for the state \<open>q\<close>: what it has written leads from \<open>q0\<close> to a state from which
  the collected context leads to \<open>q\<close>, with loads from inside of the stack bounds.
\<close>

definition stands_for :: "u32 stack_env \<Rightarrow> u32 qtable \<Rightarrow> exidx \<Rightarrow> u32 qtable \<Rightarrow> bool" where
  "stands_for env q0 self q \<longleftrightarrow>
     \<not> ex_native_only self \<and> \<not> transformed (ex_context self) 4
     \<and> (known (ex_instructions self) \<longrightarrow>
          (\<exists>q1. exec_words True env (ex_instructions self) q0 = Go q1 \<and> pend_inside env (ex_context self) q1
             \<and> pend env (ex_context self) q1 = q))"

definition simulates :: "u32 stack_env \<Rightarrow> u32 qtable \<Rightarrow> exidx_result \<Rightarrow> opcode_effect \<Rightarrow> bool" where
  "simulates env q0 r e \<longleftrightarrow>
     (\<forall>go_on s. r = Inr (go_on, s) \<longrightarrow>
        (if go_on then ex_status s \<noteq> ARM_STATUS_FINISH
           \<and> (\<exists>q. e = Some (False, ex_data s, q) \<and> stands_for env q0 s q)
         else ex_status s = ARM_STATUS_FINISH \<longrightarrow>
           (\<exists>q. e = Some (True, ex_data s, q) \<and> stands_for env q0 s q)))"

named_theorems simulation \<open>opcode handlers simulate the opcodes\<close>

lemma simulates_Inl [simulation]: "simulates env q0 (Inl f) e"
  by (simp add: simulates_def)

lemma simulates_refused [simulation]:
  "ex_status s \<noteq> ARM_STATUS_FINISH \<Longrightarrow> simulates env q0 (Inr (False, s)) e"
  by (simp add: simulates_def)

lemma simulates_stop [simulation]: "st \<noteq> ARM_STATUS_FINISH \<Longrightarrow> simulates env q0 (stop_with st s) e"
  by (simp add: simulates_def stop_with_def)

lemma stands_for_data [simp]: "stands_for env q0 (s\<lparr>ex_data := bs\<rparr>) q = stands_for env q0 s q"
  and stands_for_status [simp]: "stands_for env q0 (s\<lparr>ex_status := st\<rparr>) q = stands_for env q0 s q"
  by (simp_all add: stands_for_def)

lemma simulates_context [simulation]:
  assumes "stands_for env q0 s q" "ex_status s \<noteq> ARM_STATUS_FINISH" "\<not> transformed c 4"
    and "\<And>q1. pend env c q1 = f (pend env (ex_context s) q1)"
    and "\<And>q1. pend_inside env (ex_context s) q1 \<Longrightarrow> pend env (ex_context s) q1 = q \<Longrightarrow> pend_inside env c q1"
  shows "simulates env q0 (with_context c s decoded) (go (ex_data s) (f q))"
  using assms by (fastforce simp: simulates_def stands_for_def go_def with_context_def decoded_def)

lemma simulates_with_context:
  "simulates env q0 (k (s\<lparr>ex_context := c\<rparr>)) e \<Longrightarrow> simulates env q0 (with_context c s k) e"
  by (simp add: with_context_def simulates_Inl)

lemma simulates_add_vsp [simulation]:
  assumes "stands_for env q0 s q" "ex_status s \<noteq> ARM_STATUS_FINISH" "ex_data s = rest"
  shows "simulates env q0 (add_vsp imm s) (go rest (move_vsp imm q))"
  unfolding add_vsp_def assms(3) [symmetric]
  using assms(1,2) by (intro simulates_context) (auto simp: stands_for_def)

lemma simulates_with_byte:
  assumes "ex_status s \<noteq> ARM_STATUS_FINISH"
    and "\<And>b rest. ex_data s = b # rest \<Longrightarrow> simulates env q0 (k b (s\<lparr>ex_data := rest\<rparr>)) (f b rest)"
  shows "simulates env q0 (with_byte s k) (case ex_data s of [] \<Rightarrow> None | b # rest \<Rightarrow> f b rest)"
  using assms by (auto simp: with_byte_def GetByte_def intro: simulation split: list.split)

lemma simulates_saved:
  assumes "\<not> ex_native_only s" "ex_status s \<noteq> ARM_STATUS_FINISH"
    and "known (ex_instructions s) \<Longrightarrow>
      \<exists>q1. exec_words True env (ex_instructions s) q0 = Go q1 \<and> pend_inside env (ex_context s) q1
        \<and> set_vsp_by i (follow_sp (ex_context s) (pend env (ex_context s) q1)) = q"
  shows "simulates env q0 (case SaveInstructions i s of Inl f \<Rightarrow> Inl f | Inr s' \<Rightarrow> Inr (True, s'))
           (go (ex_data s) q)"
proof (cases "SaveInstructions i s")
  case (Inr s')
  from SaveInstructions_performs [OF Inr assms(1)] obtain ws where ws:
    "ex_instructions s' = ex_instructions s @ ws" "ex_context s' = ctx_reset"
    "ex_data s' = ex_data s" "ex_status s' = ex_status s" "ex_native_only s' = ex_native_only s"
    "\<And>q. known ws \<Longrightarrow> pend_inside env (ex_context s) q \<Longrightarrow>
       exec_words True env ws q = Go (set_vsp_by i (follow_sp (ex_context s) (pend env (ex_context s) q)))"
    by blast
  have reset: "pend env ctx_reset p = p" "\<not> transformed ctx_reset n" "pend_inside env ctx_reset p" for p n
    by (simp_all add: pend_def pend_inside_def ctx_reset_def transformed_def)
  have "stands_for env q0 s' q"
    unfolding stands_for_def
  proof (intro conjI impI)
    assume "known (ex_instructions s')"
    then have k: "known (ex_instructions s)" "known ws" by (simp_all add: ws)
    then obtain q1 where q1: "exec_words True env (ex_instructions s) q0 = Go q1" "pend_inside env (ex_context s) q1"
        "set_vsp_by i (follow_sp (ex_context s) (pend env (ex_context s) q1)) = q"
      using assms(3) by blast
    have "exec_words True env (ex_instructions s') q0 = Go q"
      using ws(6) [OF k(2) q1(2)] q1(1,3) by (simp add: ws(1) exec_words_append)
    then show "\<exists>q1. exec_words True env (ex_instructions s') q0 = Go q1 \<and> pend_inside env (ex_context s') q1
        \<and> pend env (ex_context s') q1 = q"
      by (simp add: ws(2) reset)
  qed (use ws reset assms(1) in simp_all)
  then show ?thesis using Inr ws(3,4) assms(2) by (simp add: simulates_def go_def)
qed (simp add: simulation)

lemma transformed_arm [simp]: "transformed (arm_transform reg c) 4 = transformed c 4"
  by (simp add: arm_transform_def)

lemma pop_masked_bit:
  "reg < 16 \<Longrightarrow> pop_masked m reg c = (if bit m reg then AddUpVSP 4 (arm_transform reg c) else c)"
  using bit_test [of reg m] by (simp add: pop_masked_def)

lemma pop_special_bit:
  "reg < 16 \<Longrightarrow> pop_special m reg i c = (if bit m reg then AddUpVSP 4 (Transform (qut_code i) c) else c)"
  using bit_test [of reg m] by (simp add: pop_special_def)

lemma transformed_pop_masked [simp]: "transformed (pop_masked m reg c) 4 = transformed c 4"
  by (simp add: pop_masked_def)

definition pop_all :: "u16 \<Rightarrow> exidx_context \<Rightarrow> exidx_context" where
  "pop_all m c =
     pop_special m 15 PC_OFFSET (pop_special m 14 LR_OFFSET (pop_special m 13 SP_OFFSET
       (fold (pop_masked m) [4..<13] c)))"

lemma pend_pop_all: "pend env (pop_all m c) q = pop_mask env m [4..<16] (pend env c q)"
proof -
  let ?g = "\<lambda>reg q. if bit m reg then pop_reg env reg q else q"
  have masked: "pend env (fold (pop_masked m) [4..<13] c) q = fold ?g [4..<13] (pend env c q)"
    by (rule pend_fold) (auto simp: pop_masked_bit pend_arm_pop simp del: pend_AddUpVSP)
  have special: "pend env (pop_special m reg i c) q = ?g reg (pend env c q)"
    if "(reg, i) \<in> {(13, SP_OFFSET), (14, LR_OFFSET), (15, PC_OFFSET)}" for reg i c
  proof -
    have "reg < 16" using that by auto
    then show ?thesis
      using pend_special_pop [OF that] by (simp add: pop_special_bit del: pend_AddUpVSP)
  qed
  have "[4..<16::nat] = [4..<13] @ [13, 14, 15]" by (simp add: upt_rec)
  then show ?thesis
    by (simp only: pop_all_def pop_mask_def special masked fold_append o_apply fold_simps insert_iff
        simp_thms prod.inject)
qed

lemma pend_inside_pop_all:
  assumes "pend_inside env c q" "pops_inside env (filter (bit m) [4..<16]) (pend env c q)"
  shows "pend_inside env (pop_all m c) q"
proof -
  let ?f = "\<lambda>reg c. if reg < 13 then AddUpVSP 4 (arm_transform reg c)
      else AddUpVSP 4 (Transform (qut_code (if reg = 13 then SP_OFFSET else if reg = 14 then LR_OFFSET else PC_OFFSET)) c)"
  have low: "pop_masked m reg c = (if bit m reg then ?f reg c else c)" if "reg < 13" for reg c
    using that by (simp add: pop_masked_bit)
  have masked: "fold (pop_masked m) xs c = fold ?f (filter (bit m) xs) c" if "\<forall>reg \<in> set xs. reg < 13" for xs c
    using that
  proof (induction xs arbitrary: c)
    case (Cons reg xs)
    then show ?case using low [of reg c] by simp
  qed simp
  have high: "pop_special m 13 SP_OFFSET c = (if bit m 13 then ?f 13 c else c)"
      "pop_special m 14 LR_OFFSET c = (if bit m 14 then ?f 14 c else c)"
      "pop_special m 15 PC_OFFSET c = (if bit m 15 then ?f 15 c else c)" for c
    by (simp_all add: pop_special_bit)
  have regs: "[4..<16::nat] = [4..<13] @ [13, 14, 15]" by (simp add: upt_rec)
  have "fold (pop_masked m) [4..<13] c = fold ?f (filter (bit m) [4..<13]) c" by (rule masked) simp
  then have "pop_all m c = fold ?f (filter (bit m) [4..<16]) c"
    unfolding pop_all_def high regs filter_append fold_append o_apply by (simp del: upt_rec_numeral)
  moreover have "pend_inside env (fold ?f (filter (bit m) [4..<16]) c) q"
  proof (rule pend_inside_fold [OF _ _ assms])
    fix reg c assume "reg \<in> set (filter (bit m) [4..<16])"
    then have "reg < 13 \<or> reg = 13 \<or> reg = 14 \<or> reg = 15" by (auto simp del: upt_rec_numeral)
    then show "pend env (?f reg c) q = pop_reg env reg (pend env c q)"
      using pend_arm_pop [of reg env c q] pend_special_pop [of reg _ env c q]
      by (auto simp del: pend_AddUpVSP qut_code.simps)
    show "pend_inside env (?f reg c) q" if "pend_inside env c q"
        "arm_slot reg \<noteq> None \<longrightarrow> ReadStack env (cfa (pend env c q)) \<noteq> None"
    proof (cases "reg < 13")
      case True
      then show ?thesis using pend_inside_arm_pop [OF that(1) True that(2)] by (simp del: pend_inside_AddUpVSP)
    next
      case False
      then have "(reg, if reg = 13 then SP_OFFSET else if reg = 14 then LR_OFFSET else PC_OFFSET)
          \<in> {(13, SP_OFFSET), (14, LR_OFFSET), (15, PC_OFFSET)}" using \<open>reg < 13 \<or> _\<close> by auto
      then show ?thesis
        using pend_inside_special_pop [OF that(1) _ that(2)] False by (simp only: if_False)
    qed
  qed
  ultimately show ?thesis by (simp only:)
qed

lemma transformed_pop_all: "transformed (pop_all m c) 4 \<longleftrightarrow> bit m 13 \<or> transformed c 4"
  by (auto simp: pop_all_def pop_special_bit)

lemma simulates_10_00:
  assumes "stands_for env q0 s q" "ex_status s \<noteq> ARM_STATUS_FINISH" "drop_bit 4 byte AND 0x3 = 0"
    and inside: "drop_bit 6 byte = 2" "pops_inside env (popped_by (byte # ex_data s)) q"
  shows "simulates env q0 (DecodePrefix_10_00 byte s) (opcode_10 env byte (ex_data s) q)"
proof -
  define f where "f = (\<lambda>b rest'.
      let registers = (push_bit 8 (ucast (byte AND 0xf)) OR ucast (b :: u8) :: u16);
          regs4 = push_bit 4 registers; q' = pop_mask env regs4 [4..<16] q
      in if registers = 0 then None
         else go rest' (if bit regs4 13 then q'\<lparr>cfa := regs q' SP\<rparr> else q'))"
  have op: "opcode_10 env byte (ex_data s) q = (case ex_data s of [] \<Rightarrow> None | b # rest' \<Rightarrow> f b rest')"
    using assms(3) by (cases "ex_data s") (simp_all add: opcode_10_def f_def)
  show ?thesis
    unfolding op DecodePrefix_10_00_def
  proof (rule simulates_with_byte [OF assms(2)])
    fix b rest assume data: "ex_data s = b # rest"
    define m where "m = (push_bit 8 (ucast (byte AND 0xf)) OR ucast b :: u16)"
    define m4 where "m4 = push_bit 4 m"
    let ?s1 = "s\<lparr>ex_data := rest\<rparr>"
    let ?s2 = "?s1\<lparr>ex_context := pop_all m4 (ex_context s)\<rparr>"
    let ?p = "pop_mask env m4 [4..<16] q"
    have sf: "\<not> transformed (ex_context s) 4" "\<not> ex_native_only s"
      using assms(1) by (simp_all add: stands_for_def)
    have pops: "pops_inside env (filter (bit m4) [4..<16]) q"
      using inside assms(3) by (simp add: popped_by_def data m4_def m_def)
    have test: "m4 AND push_bit 13 1 \<noteq> 0 \<longleftrightarrow> bit m4 13" by (rule bit_test) simp
    have "simulates env q0
       (with_context (pop_all m4 (ex_context s)) ?s1 (\<lambda>self2.
          if bit m4 13
          then (case SaveInstructions NOP self2 of Inl f \<Rightarrow> Inl f | Inr s \<Rightarrow> Inr (True, s))
          else decoded self2))
       (go rest (if bit m4 13 then ?p\<lparr>cfa := regs ?p SP\<rparr> else ?p))"
    proof (cases "bit m4 13")
      case True
      have "simulates env q0 (case SaveInstructions NOP ?s2 of Inl f \<Rightarrow> Inl f | Inr s \<Rightarrow> Inr (True, s))
         (go (ex_data ?s2) (?p\<lparr>cfa := regs ?p SP\<rparr>))"
      proof (rule simulates_saved)
        assume "known (ex_instructions ?s2)"
        then obtain q1 where "exec_words True env (ex_instructions s) q0 = Go q1" "pend_inside env (ex_context s) q1"
            "pend env (ex_context s) q1 = q"
          using assms(1) by (auto simp: stands_for_def)
        then show "\<exists>q1. exec_words True env (ex_instructions ?s2) q0 = Go q1 \<and> pend_inside env (ex_context ?s2) q1
            \<and> set_vsp_by NOP (follow_sp (ex_context ?s2) (pend env (ex_context ?s2) q1)) = ?p\<lparr>cfa := regs ?p SP\<rparr>"
          using True pops
          by (intro exI [of _ q1])
            (simp add: set_vsp_by_def follow_sp_def pend_pop_all transformed_pop_all pend_inside_pop_all
              del: upt_rec_numeral)
      qed (use sf assms(2) in simp_all)
      then have "simulates env q0 (with_context (pop_all m4 (ex_context s)) ?s1 (\<lambda>self2.
          case SaveInstructions NOP self2 of Inl f \<Rightarrow> Inl f | Inr s \<Rightarrow> Inr (True, s)))
         (go rest (?p\<lparr>cfa := regs ?p SP\<rparr>))"
        by (intro simulates_with_context) simp
      then show ?thesis using True by simp
    next
      case False
      have "simulates env q0 (with_context (pop_all m4 (ex_context s)) ?s1 decoded) (go (ex_data ?s1) ?p)"
        using assms(1,2) False sf pops
        by (intro simulates_context) (simp_all add: pend_pop_all transformed_pop_all pend_inside_pop_all del: upt_rec_numeral)
      then show ?thesis using False by simp
    qed
    then have step: "simulates env q0
       (with_context (pop_all m4 (ex_context s)) ?s1 (\<lambda>self2.
          if m4 AND push_bit 13 1 \<noteq> 0
          then (case SaveInstructions NOP self2 of Inl f \<Rightarrow> Inl f | Inr s \<Rightarrow> Inr (True, s))
          else decoded self2))
       (go rest (if bit m4 13 then ?p\<lparr>cfa := regs ?p SP\<rparr> else ?p))"
      by (simp only: test)
    then show "simulates env q0
      (let registers = (push_bit 8 (ucast (byte AND 0xf)) OR ucast b :: u16)
       in if registers = 0 then Inr (False, ?s1)
          else (let regs4 = push_bit 4 registers;
                    c = fold (pop_masked regs4) [4..<13] (ex_context ?s1);
                    c = pop_special regs4 13 SP_OFFSET c;
                    c = pop_special regs4 14 LR_OFFSET c;
                    c = pop_special regs4 15 PC_OFFSET c
                in with_context c ?s1 (\<lambda>self2.
                     if regs4 AND push_bit 13 1 \<noteq> 0
                     then (case SaveInstructions NOP self2 of Inl f \<Rightarrow> Inl f | Inr s \<Rightarrow> Inr (True, s))
                     else decoded self2)))
      (f b rest)"
    proof -
      have ctx: "ex_context ?s1 = ex_context s" by simp
      show ?thesis
      proof (cases "m = 0")
        case True
        then show ?thesis
          using assms(2) by (simp add: Let_def simulates_refused flip: m_def)
      next
        case False
        then show ?thesis
          using step unfolding f_def Let_def m_def [symmetric] m4_def [symmetric] ctx pop_all_def [symmetric]
          by (simp only: if_False)
      qed
    qed
  qed
qed

lemma drop_untransformed_simps [simp]:
  "ex_data (drop_untransformed s) = ex_data s" "ex_status (drop_untransformed s) = ex_status s"
  "ex_instructions (drop_untransformed s) = ex_instructions s"
  "ex_native_only (drop_untransformed s) = ex_native_only s"
  by (simp_all add: drop_untransformed_def)

lemma pend_drop_untransformed:
  "pend env (ex_context (drop_untransformed s)) q
     = (if ctx_bits (ex_context s) = 0 then q else pend env (ex_context s) q)"
  "ctx_bits c = 0 \<Longrightarrow> (pend env c q)\<lparr>cfa := n\<rparr> = q\<lparr>cfa := n\<rparr>"
  "ctx_bits c = 0 \<Longrightarrow> regs (pend env c q) = regs q"
  "pend_inside env (ex_context s) q \<Longrightarrow> pend_inside env (ex_context (drop_untransformed s)) q"
  by (auto simp: drop_untransformed_def pend_def pend_inside_def ctx_reset_def transformed_def)

lemma simulates_10_01:
  assumes "stands_for env q0 s q" "ex_status s \<noteq> ARM_STATUS_FINISH" "drop_bit 4 byte AND 0x3 = 1"
  shows "simulates env q0 (DecodePrefix_10_01 byte s) (opcode_10 env byte (ex_data s) q)"
proof -
  let ?s = "drop_untransformed s"
  have sf: "\<not> transformed (ex_context s) 4" "\<not> ex_native_only s"
    using assms(1) by (simp_all add: stands_for_def)
  have saved: "simulates env q0 (case SaveInstructions i ?s of Inl f \<Rightarrow> Inl f | Inr s' \<Rightarrow> Inr (True, s'))
      (go (ex_data s) (q\<lparr>cfa := regs q r\<rparr>))"
    if "(i, r) \<in> {(VSP_SET_BY_R7, R7), (VSP_SET_BY_R11, R11)}" for i r
  proof -
    have nt: "follow_sp (ex_context ?s) p = p" for p
      using sf(1) by (auto simp: follow_sp_def drop_untransformed_def ctx_reset_def transformed_def)
    have "simulates env q0 (case SaveInstructions i ?s of Inl f \<Rightarrow> Inl f | Inr s' \<Rightarrow> Inr (True, s'))
        (go (ex_data ?s) (q\<lparr>cfa := regs q r\<rparr>))"
    proof (rule simulates_saved)
      assume "known (ex_instructions ?s)"
      then obtain q1 where q1: "exec_words True env (ex_instructions s) q0 = Go q1" "pend_inside env (ex_context s) q1"
          and q: "q = pend env (ex_context s) q1"
        using assms(1) by (auto simp: stands_for_def)
      have "set_vsp_by i (follow_sp (ex_context ?s) (pend env (ex_context ?s) q1)) = q\<lparr>cfa := regs q r\<rparr>"
        using that unfolding nt pend_drop_untransformed(1) q
        by (auto simp: set_vsp_by_def pend_drop_untransformed(2,3))
      then show "\<exists>q1. exec_words True env (ex_instructions ?s) q0 = Go q1 \<and> pend_inside env (ex_context ?s) q1
          \<and> set_vsp_by i (follow_sp (ex_context ?s) (pend env (ex_context ?s) q1)) = q\<lparr>cfa := regs q r\<rparr>"
        using q1 pend_drop_untransformed(4) by auto
    qed (use sf assms(2) in simp_all)
    then show ?thesis by simp
  qed
  show ?thesis
    using saved [of VSP_SET_BY_R7 R7] saved [of VSP_SET_BY_R11 R11] assms(2,3)
    by (simp add: DecodePrefix_10_01_def opcode_10_def Let_def simulation)
qed

lemma simulates_10_10:
  assumes "stands_for env q0 s q" "ex_status s \<noteq> ARM_STATUS_FINISH" "drop_bit 4 byte AND 0x3 = 2"
    and inside: "drop_bit 6 byte = 2" "pops_inside env (popped_by (byte # ex_data s)) q"
  shows "simulates env q0 (DecodePrefix_10_10 byte s) (opcode_10 env byte (ex_data s) q)"
proof -
  let ?n = "5 + unat (byte AND 0x7)"
  let ?c = "fold (\<lambda>i c. AddUpVSP 4 (arm_transform i c)) [4..<?n] (ex_context s)"
  let ?c' = "if byte AND 0x8 \<noteq> 0 then AddUpVSP 4 (Transform (qut_code LR_OFFSET) ?c) else ?c"
  let ?f = "\<lambda>q. let q' = fold (pop_reg env) [4..<?n] q
               in if byte AND 0x8 \<noteq> 0 then pop_reg env 14 q' else q'"
  have "unat (byte AND 0x7) \<le> unat (0x7 :: u8)"
    by (rule word_le_nat_alt [THEN iffD1]) (rule word_and_le1)
  then have bound: "i < 13" if "i \<in> set [4..<?n]" for i using that by auto
  have pops: "pend env ?c q1 = fold (pop_reg env) [4..<?n] (pend env (ex_context s) q1)" for q1
    using bound by (intro pend_fold pend_arm_pop) auto
  have nt: "transformed (fold (\<lambda>i c. AddUpVSP 4 (arm_transform i c)) xs c) 4 = transformed c 4" for xs c
    by (induction xs arbitrary: c) simp_all
  have pops': "pops_inside env ([4..<?n] @ (if byte AND 0x8 \<noteq> 0 then [14] else [])) q"
    using inside assms(3) by (simp add: popped_by_def)
  have "simulates env q0 (with_context ?c' s decoded) (go (ex_data s) (?f q))"
  proof (rule simulates_context [OF assms(1,2)])
    show "\<not> transformed ?c' 4"
      using assms(1) nt by (simp add: stands_for_def)
    show "pend env ?c' q1 = ?f (pend env (ex_context s) q1)" for q1
      using pend_special_pop [of 14 LR_OFFSET env ?c q1] pops [of q1]
      by (simp add: Let_def del: pend_AddUpVSP)
    fix q1 assume q1: "pend_inside env (ex_context s) q1" "pend env (ex_context s) q1 = q"
    have c: "pend_inside env ?c q1"
    proof (rule pend_inside_fold)
      show "pops_inside env [4..<?n] (pend env (ex_context s) q1)"
        using pops' unfolding q1(2) pops_inside_append by blast
    qed (use bound q1(1) in \<open>auto intro: pend_arm_pop pend_inside_arm_pop simp del: pend_AddUpVSP pend_inside_AddUpVSP\<close>)
    show "pend_inside env ?c' q1"
      using c pops' pops [of q1] pend_inside_special_pop [OF c, of 14 LR_OFFSET] unfolding q1(2) pops_inside_append
      by (auto simp del: pend_inside_AddUpVSP)
  qed
  then show ?thesis
    using assms(3) by (simp add: DecodePrefix_10_10_def opcode_10_def Let_def simulation)
qed

lemma simulates_byte_vsp [simulation]:
  assumes "stands_for env q0 s q" "ex_status s \<noteq> ARM_STATUS_FINISH"
  shows "simulates env q0 (with_byte s (\<lambda>b s1. add_vsp (n b) s1))
    (case ex_data s of [] \<Rightarrow> None | b # rest \<Rightarrow> go rest (move_vsp (n b) q))"
  using assms by (intro simulates_with_byte simulation) simp_all

lemma pend_low_pops:
  "pend env (fold (\<lambda>reg c. if b AND push_bit reg 1 \<noteq> 0 then AddUpVSP 4 c else c) [0..<4] c) q
     = pop_mask env (b :: u8) [0..<4] (pend env c q)"
  unfolding pop_mask_def
proof (rule pend_fold)
  fix reg c assume "reg \<in> set [0..<4::nat]"
  then have "reg < 4" by simp
  moreover from this have "b AND push_bit reg 1 \<noteq> 0 \<longleftrightarrow> bit b reg" by (intro bit_test) simp
  ultimately show "pend env (if b AND push_bit reg 1 \<noteq> 0 then AddUpVSP 4 c else c) q
      = (if bit b reg then pop_reg env reg (pend env c q) else pend env c q)"
    by (simp add: pop_reg_def arm_slot_def del: push_bit_of_1)
qed

lemma pend_inside_low_pops:
  "pend_inside env (fold (\<lambda>reg c. if P reg then AddUpVSP imm c else c) xs c) q = pend_inside env c q"
  by (induction xs arbitrary: c) simp_all

lemma transformed_low_pops:
  "transformed (fold (\<lambda>reg c. if P reg then AddUpVSP imm c else c) xs c) i = transformed c i"
  by (induction xs arbitrary: c) simp_all

lemma simulates_10_11:
  assumes "stands_for env q0 s q" "ex_status s \<noteq> ARM_STATUS_FINISH"
    and "drop_bit 4 byte AND 0x3 \<notin> {0, 1, 2 :: u8}"
  shows "simulates env q0 (DecodePrefix_10 byte s) (opcode_10 env byte (ex_data s) q)"
proof -
  have r0001: "simulates env q0 (DecodePrefix_10_11_0001 s)
     (case ex_data s of [] \<Rightarrow> None
      | b # rest' \<Rightarrow> if b = 0 \<or> drop_bit 4 b \<noteq> 0 then None else go rest' (pop_mask env b [0..<4] q))"
    unfolding DecodePrefix_10_11_0001_def
  proof (rule simulates_with_byte [OF assms(2)])
    fix b rest assume "ex_data s = b # rest"
    let ?c = "fold (\<lambda>reg c. if b AND push_bit reg 1 \<noteq> 0 then AddUpVSP 4 c else c) [0..<4] (ex_context s)"
    have "simulates env q0 (with_context ?c (s\<lparr>ex_data := rest\<rparr>) decoded)
        (go (ex_data (s\<lparr>ex_data := rest\<rparr>)) (pop_mask env b [0..<4] q))"
    proof (rule simulates_context [where f = "pop_mask env b [0..<4]"])
      show "\<not> transformed ?c 4"
        using assms(1) unfolding transformed_low_pops by (simp add: stands_for_def)
      show "pend env ?c q1 = pop_mask env b [0..<4] (pend env (ex_context (s\<lparr>ex_data := rest\<rparr>)) q1)" for q1
        unfolding pend_low_pops by simp
      show "pend_inside env ?c q1" if "pend_inside env (ex_context (s\<lparr>ex_data := rest\<rparr>)) q1" for q1
        using that unfolding pend_inside_low_pops by simp
    qed (use assms in simp_all)
    then show "simulates env q0
      (if b = 0 then stop_with ARM_STATUS_SPARE (s\<lparr>ex_data := rest\<rparr>)
       else if drop_bit 4 b \<noteq> 0 then stop_with ARM_STATUS_SPARE (s\<lparr>ex_data := rest\<rparr>)
       else with_context
              (fold (\<lambda>reg c. if b AND push_bit reg 1 \<noteq> 0 then AddUpVSP 4 c else c) [0..<4]
                (ex_context (s\<lparr>ex_data := rest\<rparr>))) (s\<lparr>ex_data := rest\<rparr>) decoded)
      (if b = 0 \<or> drop_bit 4 b \<noteq> 0 then None else go rest (pop_mask env b [0..<4] q))"
      by (simp add: simulation del: upt_rec_numeral fold_simps push_bit_of_1)
  qed
  have r0010: "simulates env q0 (DecodePrefix_10_11_0010 s)
     (case leb_list uleb_bad (0::u32) 0 (ex_data s) of
        Some (Inr (result, _, _, rest')) \<Rightarrow> go rest' (move_vsp (0x204 + push_bit 2 result) q)
      | _ \<Rightarrow> None)"
  proof (cases "leb_list uleb_bad (0::u32) 0 (ex_data s)")
    case None
    then have "leb128_loop GetByte uleb_bad (0::u32) 0 (ex_data s) = None"
      using data_source.loop_NoneI(1) [of uleb_bad 0 0 "ex_data s"] by simp
    then show ?thesis
      using assms(2) None by (simp add: DecodePrefix_10_11_0010_def simulates_refused)
  next
    case (Some r)
    show ?thesis
    proof (cases r)
      case (Inl f)
      then have "leb128_loop GetByte uleb_bad (0::u32) 0 (ex_data s) = Some (Inl f)"
        using data_source.loop_NoneI(2) [of uleb_bad 0 0 "ex_data s" f] Some by simp
      then show ?thesis by (simp add: DecodePrefix_10_11_0010_def simulates_Inl)
    next
      case (Inr p)
      obtain v sh b rest where p: "p = (v, sh, b, rest)" by (cases p)
      from data_source.loop_SomeI [of uleb_bad "0::u32" 0 "ex_data s"] Some Inr p
      have "leb128_loop GetByte uleb_bad (0::u32) 0 (ex_data s) = Some (Inr (v, sh, b, rest))" by auto
      then show ?thesis
        using assms(1,2) Some Inr p by (simp add: DecodePrefix_10_11_0010_def simulates_add_vsp)
    qed
  qed
  have fin: "simulates env q0 (DecodePrefix_10_11_0000 s) (Some (True, ex_data s, q))"
    using assms(1) by (simp add: DecodePrefix_10_11_0000_def simulates_def stop_with_def)
  have last: "simulates env q0 (DecodePrefix_10_11_1nnn byte s) (go (ex_data s) (move_vsp (ucast (byte AND 0x7) * 8 + 12) q))"
    using assms(1,2) by (simp add: DecodePrefix_10_11_1nnn_def simulation)
  show ?thesis
    using assms r0001 r0010 fin last
    by (simp add: DecodePrefix_10_def opcode_10_def opcode_10_11_def Let_def simulation
        DecodePrefix_10_11_0011_def DecodePrefix_10_11_01nn_def)
qed

lemma simulates_10:
  assumes "stands_for env q0 s q" "ex_status s \<noteq> ARM_STATUS_FINISH"
    and "drop_bit 6 byte = 2" "pops_inside env (popped_by (byte # ex_data s)) q"
  shows "simulates env q0 (DecodePrefix_10 byte s) (opcode_10 env byte (ex_data s) q)"
  using simulates_10_00 [OF assms(1,2) _ assms(3,4)] simulates_10_01 [OF assms(1,2)] simulates_10_10 [OF assms(1,2) _ assms(3,4)]
    simulates_10_11 [OF assms(1,2)]
  by (cases "drop_bit 4 byte AND 0x3 \<in> {0, 1, 2 :: u8}") (auto simp: DecodePrefix_10_def Let_def)

lemma simulates_11:
  assumes "stands_for env q0 s q" "ex_status s \<noteq> ARM_STATUS_FINISH"
  shows "simulates env q0 (DecodePrefix_11 byte s) (opcode_11 byte (ex_data s) q)"
proof -
  have wcgr: "simulates env q0
     (with_byte s (\<lambda>b s1.
        if b = 0 then stop_with ARM_STATUS_SPARE s1
        else if drop_bit 4 b = 0 then add_vsp (of_nat (length (filter (bit b) [0..<8])) * 4) s1
        else stop_with ARM_STATUS_SPARE s1))
     (case ex_data s of [] \<Rightarrow> None
      | b # rest' \<Rightarrow> if b = 0 \<or> drop_bit 4 b \<noteq> 0 then None
                    else go rest' (move_vsp (of_nat (length (filter (bit b) [0..<8])) * 4) q))"
    using assms by (intro simulates_with_byte) (simp_all add: simulation del: upt_rec_numeral)
  show ?thesis
    using assms wcgr
    by (simp add: DecodePrefix_11_def opcode_11_def DecodePrefix_11_000_def DecodePrefix_11_001_def
        DecodePrefix_11_010_def Let_def simulation del: upt_rec_numeral)
qed

lemma simulates_Decode:
  assumes "stands_for env q0 s q" "ex_status s \<noteq> ARM_STATUS_FINISH" "pops_inside env (popped_by (ex_data s)) q"
  shows "simulates env q0 (Decode_exidx s) (opcode env (ex_data s) q)"
proof -
  have "simulates env q0 (Decode_exidx s)
    (case ex_data s of [] \<Rightarrow> None
     | byte # rest \<Rightarrow>
          if drop_bit 6 byte = 0 then go rest (move_vsp (push_bit 2 (ucast (byte AND 0x3f)) + 4) q)
          else if drop_bit 6 byte = 1 then go rest (move_vsp (- (push_bit 2 (ucast (byte AND 0x3f)) + 4)) q)
          else if drop_bit 6 byte = 2 then opcode_10 env byte rest q
          else opcode_11 byte rest q)"
    unfolding Decode_exidx_def
  proof (rule simulates_with_byte [OF assms(2)])
    fix b rest assume data: "ex_data s = b # rest"
    let ?s = "s\<lparr>ex_data := rest\<rparr>"
    have s: "stands_for env q0 ?s q" "ex_status ?s \<noteq> ARM_STATUS_FINISH" "pops_inside env (popped_by (b # ex_data ?s)) q"
      using assms data by simp_all
    show "simulates env q0
       (if drop_bit 6 b = 0 then add_vsp (push_bit 2 (ucast (b AND 0x3f)) + 4) ?s
        else if drop_bit 6 b = 1 then add_vsp (- (push_bit 2 (ucast (b AND 0x3f)) + 4)) ?s
        else if drop_bit 6 b = 2 then DecodePrefix_10 b ?s
        else DecodePrefix_11 b ?s)
       (if drop_bit 6 b = 0 then go rest (move_vsp (push_bit 2 (ucast (b AND 0x3f)) + 4) q)
        else if drop_bit 6 b = 1 then go rest (move_vsp (- (push_bit 2 (ucast (b AND 0x3f)) + 4)) q)
        else if drop_bit 6 b = 2 then opcode_10 env b rest q
        else opcode_11 b rest q)"
      using simulates_10 [OF s(1,2) _ s(3)] simulates_11 [OF s(1,2), of b] simulates_add_vsp [OF s(1,2) refl] by simp
  qed
  then show ?thesis by (simp add: opcode_def)
qed

lemma flush_word_imm_eq: "instr_imm (flush_word op v) = sint v"
proof -
  have "(ucast (flush_word op v AND 0xFFFFFFFF) :: u32) = v"
    by (rule bit_eqI)
      (auto simp: bitvals bit_flush_word min_def split: if_splits dest: le_antisym bit_imp_le_length)
  then show ?thesis by (simp add: instr_imm_def)
qed

lemma Eval_loop_simulates:
  assumes "Eval_loop s = Inr s'" "ex_status s' = ARM_STATUS_FINISH"
    and "stands_for env q0 s q" "ex_status s \<noteq> ARM_STATUS_FINISH" "length (ex_data s) \<le> fuel"
    and "opcodes_inside env fuel (ex_data s) q"
  shows "\<exists>q'. opcodes env fuel (ex_data s) q = Some q' \<and> stands_for env q0 s' q'"
  using assms
proof (induction s arbitrary: q fuel rule: Eval_loop.induct)
  case (1 s)
  obtain go_on s1 where r: "Decode_exidx s = Inr (go_on, s1)"
    and rest: "(if go_on then Eval_loop s1 else Inr s1) = Inr s'"
    using "1.prems"(1) by (subst (asm) Eval_loop.simps) (auto split: sum.splits)
  have nonempty: "ex_data s \<noteq> []"
  proof
    assume "ex_data s = []"
    then have "go_on = False" "s1 = s" using r by (simp_all add: Decode_exidx_def with_byte_def GetByte_def)
    then show False using rest "1.prems"(2,4) by simp
  qed
  then obtain n where n: "fuel = Suc n" using "1.prems"(5) by (cases fuel) auto
  have inside: "pops_inside env (popped_by (ex_data s)) q"
      "opcode env (ex_data s) q = Some (False, bs, q') \<Longrightarrow> opcodes_inside env n bs q'" for bs q'
    using "1.prems"(6) n by simp_all
  note sim = simulates_Decode [OF "1.prems"(3,4) inside(1)]
  show ?case
  proof (cases go_on)
    case True
    from sim r True obtain q1 where q1: "opcode env (ex_data s) q = Some (False, ex_data s1, q1)"
      "stands_for env q0 s1 q1" "ex_status s1 \<noteq> ARM_STATUS_FINISH"
      by (auto simp: simulates_def)
    have "length (ex_data s1) \<le> n" using Decode_exidx_shrinks [of s s1] r True "1.prems"(5) n by simp
    with "1.IH" [OF r refl True] True rest "1.prems"(2) q1 inside(2) [OF q1(1)] obtain q' where
      "opcodes env n (ex_data s1) q1 = Some q'" "stands_for env q0 s' q'" by auto
    then show ?thesis using q1(1) n by simp
  next
    case False
    then have "s1 = s'" using rest by simp
    with sim r False "1.prems"(2) obtain q1 where "opcode env (ex_data s) q = Some (True, ex_data s', q1)"
      "stands_for env q0 s' q1" by (auto simp: simulates_def)
    then show ?thesis using n by simp
  qed
qed

lemma Eval_exidx_performs:
  assumes "Eval_exidx self = Inr (True, s)" "ex_status self \<noteq> ARM_STATUS_FINISH"
    and "ex_context self = ctx_reset" "ex_instructions self = []" "\<not> ex_native_only self"
    and "known (ex_instructions s)" "opcodes_inside env (length (ex_data self)) (ex_data self) q"
  shows "\<exists>q'. opcodes env (length (ex_data self)) (ex_data self) q = Some q'
           \<and> exec_words True env (ex_instructions s) q = Go q'"
proof -
  obtain s1 where s1: "Eval_loop self = Inr s1" "SaveInstructions NOP s1 = Inr s"
    and fin: "ex_status s = ARM_STATUS_FINISH"
    using assms(1) by (auto simp: Eval_exidx_def split: sum.splits)
  have init: "stands_for env q self q"
    using assms(3-5) by (simp add: stands_for_def pend_def pend_inside_def ctx_reset_def transformed_def)
  have st: "ex_status s1 = ARM_STATUS_FINISH"
  proof -
    have "ex_status s = ex_status s1"
      using s1(2) by (auto simp: SaveInstructions_def FlushInstructions_def Let_def split: sum.splits if_splits)
    then show ?thesis using fin by simp
  qed
  from Eval_loop_simulates [OF s1(1) st init assms(2) order_refl assms(7)] obtain q' where
    q': "opcodes env (length (ex_data self)) (ex_data self) q = Some q'" "stands_for env q s1 q'" by blast
  have sf: "\<not> ex_native_only s1" "\<not> transformed (ex_context s1) 4"
    using q'(2) by (simp_all add: stands_for_def)
  from SaveInstructions_performs [OF s1(2) sf(1)] obtain ws where ws:
    "ex_instructions s = ex_instructions s1 @ ws"
    "\<And>q. known ws \<Longrightarrow> pend_inside env (ex_context s1) q \<Longrightarrow>
       exec_words True env ws q = Go (set_vsp_by NOP (follow_sp (ex_context s1) (pend env (ex_context s1) q)))"
    by blast
  have k: "known (ex_instructions s1)" "known ws" using assms(6) by (simp_all add: ws)
  then obtain q1 where "exec_words True env (ex_instructions s1) q = Go q1" "pend_inside env (ex_context s1) q1"
      "pend env (ex_context s1) q1 = q'"
    using q'(2) by (auto simp: stands_for_def)
  then have "exec_words True env (ex_instructions s) q = Go q'"
    using ws(2) [OF k(2), of q1] sf(2) by (simp add: ws(1) exec_words_append set_vsp_by_def follow_sp_def)
  with q'(1) show ?thesis by blast
qed

text \<open>A run that the witnesses share: pop \<open>r4\<close> and \<open>lr\<close>, then finish.\<close>

lemma sample_context:
  "AddUpVSP 4 (Transform (qut_code R4_OFFSET) ctx_reset)
     = \<lparr>ctx_vsp = 4, ctx_bits = 1, ctx_offsets = (\<lambda>_. 0)(0 := 4), ctx_overflow = False\<rparr>"
  "AddUpVSP 4 (Transform (qut_code LR_OFFSET)
     \<lparr>ctx_vsp = 4, ctx_bits = 1, ctx_offsets = (\<lambda>_. 0)(0 := 4), ctx_overflow = False\<rparr>)
     = \<lparr>ctx_vsp = 8, ctx_bits = 0x21, ctx_offsets = (\<lambda>_. 0)(0 := 8, 5 := 4), ctx_overflow = False\<rparr>"
  by (simp_all add: Transform_def AddUpVSP_def add_overflows_def AddUpTransformed_def transformed_def
      ctx_reset_def fun_eq_iff)

lemma sample_decode:
  "Decode_exidx \<lparr>ex_data = [0xA8, 0xB0], ex_context = ctx_reset, ex_instructions = out, ex_status = st,
     ex_native_only = native, ex_status_address = addr\<rparr>
   = Inr (True, \<lparr>ex_data = [0xB0],
       ex_context = \<lparr>ctx_vsp = 8, ctx_bits = 0x21, ctx_offsets = (\<lambda>_. 0)(0 := 8, 5 := 4), ctx_overflow = False\<rparr>,
       ex_instructions = out, ex_status = st, ex_native_only = native, ex_status_address = addr\<rparr>)"
  by (simp add: Decode_exidx_def with_byte_def GetByte_def DecodePrefix_10_def DecodePrefix_10_10_def
      sample_context arm_transform_def upt_rec Let_def with_context_def decoded_def del: qut_code.simps)

lemma decode_finish:
  "ex_data s = 0xB0 # rest \<Longrightarrow>
     Decode_exidx s = Inr (False, s\<lparr>ex_data := rest, ex_status := ARM_STATUS_FINISH\<rparr>)"
  by (simp add: Decode_exidx_def with_byte_def GetByte_def DecodePrefix_10_def DecodePrefix_10_11_0000_def
      stop_with_def Let_def)

lemma sample_run:
  "Eval_exidx \<lparr>ex_data = [0xA8, 0xB0], ex_context = ctx_reset, ex_instructions = [],
                       ex_status = ARM_STATUS_NONE, ex_native_only = False, ex_status_address = 0\<rparr>
   = Inr (True, \<lparr>ex_data = [], ex_context = ctx_reset,
         ex_instructions = [0x0000000A00000008, 0x0000000500000004, 0x0000000000000008],
         ex_status = ARM_STATUS_FINISH, ex_native_only = False, ex_status_address = 0\<rparr>)"
  by (simp add: Eval_exidx_def Eval_loop.simps sample_decode decode_finish SaveInstructions_def
      FlushInstructions_def transformed_def sorted_regs_def insert_reg_def upt_rec Let_def flush_word_def
      QutInstructions_def)

lemma sample_opcode:
  "opcode env [0xA8, 0xB0] q
     = Some (False, [0xB0], q\<lparr>cfa := cfa q + 8,
               regs := (regs q)(R4 := stack_word env (cfa q), LR := stack_word env (cfa q + 4))\<rparr>)"
  "opcode env [0xB0] q' = Some (True, [], q')"
  by (simp_all add: opcode_def opcode_10_def opcode_10_11_def go_def pop_reg_def arm_slot_def
        move_vsp_def upt_rec Let_def)

lemma sample_opcodes:
  "opcodes env 2 [0xA8, 0xB0] q
     = Some (q\<lparr>cfa := cfa q + 8,
               regs := (regs q)(R4 := stack_word env (cfa q), LR := stack_word env (cfa q + 4))\<rparr>)"
  by (simp add: numeral_2_eq_2 sample_opcode)

lemma sample_inside:
  assumes "ReadStack env (cfa q) \<noteq> None" "ReadStack env (cfa q + 4) \<noteq> None"
  shows "opcodes_inside env 2 [0xA8, 0xB0] q"
proof -
  have "popped_by [0xA8, 0xB0] = [4, 14]" "popped_by [0xB0] = []"
    by (simp_all add: popped_by_def upt_rec)
  then show ?thesis
    using assms by (simp add: numeral_2_eq_2 sample_opcode pop_reg_def move_vsp_def arm_slot_def)
qed

text \<open>
  C9. The instructions that the exception-index decoder writes do what the opcodes do.  When a run
  over fresh state ends with the finish opcode, the interpreter that performs every opcode at once
  accepts the same bytes, and executing the written instructions gives its final state: collecting
  the moves of \<open>vsp\<close>, sorting the loads and flushing late change nothing.  Two conditions: the words
  are \<open>known\<close>, that is no negative offset has overwritten the operation of one, and the registers
  that the opcodes pop lie inside of the bounds of the stack.
\<close>

theorem exidx_instructions_perform_opcodes:
  assumes "Eval_exidx \<lparr>ex_data = bytes, ex_context = ctx_reset, ex_instructions = [],
                       ex_status = ARM_STATUS_NONE, ex_native_only = False,
                       ex_status_address = addr\<rparr> = Inr (True, s)"
    and "known (ex_instructions s)" "opcodes_inside env (length bytes) bytes q"
  shows "\<exists>q'. opcodes env (length bytes) bytes q = Some q'
           \<and> exec_words True env (ex_instructions s) q = Go q'"
  using Eval_exidx_performs [OF assms(1)] assms(2,3) by simp

theorem exidx_instructions_perform_opcodes_witness:
  "exec_words True \<lparr>stack_bottom = 0x1000, stack_top = 0x1ffc, memory = holding_words (\<lambda>a. a + 1)\<rparr>
     [0x0000000A00000008, 0x0000000500000004, 0x0000000000000008]
     \<lparr>cfa = 0x1000 :: u32, dexpc = 0, pc_set = False, regs = \<lambda>r. 0\<rparr>
   = Go \<lparr>cfa = 0x1008, dexpc = 0, pc_set = False, regs = (\<lambda>r. 0)(R4 := 0x1001, LR := 0x1005)\<rparr>"
proof -
  let ?env = "\<lparr>stack_bottom = 0x1000, stack_top = 0x1ffc, memory = holding_words (\<lambda>a. a + 1)\<rparr>"
  let ?q = "\<lparr>cfa = 0x1000 :: u32, dexpc = 0, pc_set = False, regs = \<lambda>r. 0\<rparr>"
  have "known [0x0000000A00000008, 0x0000000500000004, 0x0000000000000008]"
    by (simp add: known_def instr_op_def qut_of_code_def)
  moreover have "opcodes_inside ?env 2 [0xA8, 0xB0] ?q" by (rule sample_inside) (simp_all add: ReadStack_def)
  moreover note exidx_instructions_perform_opcodes [OF sample_run, of ?env ?q]
  moreover have "opcodes ?env 2 [0xA8, 0xB0] ?q
      = Some \<lparr>cfa = 0x1008, dexpc = 0, pc_set = False, regs = (\<lambda>r. 0)(R4 := 0x1001, LR := 0x1005)\<rparr>"
    unfolding sample_opcodes by simp
  ultimately show ?thesis by (simp add: numeral_2_eq_2 del: opcodes.simps opcodes_inside.simps)
qed

text \<open>
  A context whose \<open>vsp\<close> offset is negative is written as a word that no decoder knows: the
  sign of the 32-bit offset is extended over the operation, the meaning of the word is nothing, and
  the encoder accepts it and drops it.
\<close>

theorem negative_offset_lost:
  assumes "bit v 31" "v AND 3 = 0"
  shows "instr_op (flush_word op v) = None
    \<and> exec_word arm env (flush_word op v) q = Go q
    \<and> QuickenInstructionsEncode32 [flush_word op v] [] False = (True, [], False)"
proof -
  have none: "instr_op (flush_word op v) = None" using assms(1) by (simp add: flush_word_op)
  have "instr_imm (flush_word op v) AND 3 = sint (v AND 3)"
    by (simp add: signed_and_eq flush_word_imm_eq)
  then show ?thesis using assms(2) none by (simp add: exec_word_def encode_op32_def emit_def)
qed

theorem negative_offset_lost_witness:
  "QuickenInstructionsEncode32 [flush_word VSP_OFFSET (- 8)] [] False = (True, [], False)"
  by (rule negative_offset_lost [THEN conjunct2, THEN conjunct2]) simp_all

section \<open>The checks never fire\<close>

lemma and_3_u32: "(w::u32) AND 3 = take_bit 2 w"
  by (simp add: take_bit_eq_mask mask_eq_exp_minus_1)

definition aligned :: "u32 \<Rightarrow> bool" where
  "aligned w \<longleftrightarrow> 4 dvd w"

lemma aligned_and_3: "aligned w \<Longrightarrow> w AND 3 = 0"
proof -
  assume "aligned w"
  then obtain v where "w = push_bit 2 v" by (auto simp: aligned_def push_bit_eq_mult dvd_def mult.commute)
  then show ?thesis by (simp only: and_3_u32 take_bit_push_bit) simp
qed

lemma aligned_add: "aligned a \<Longrightarrow> aligned b \<Longrightarrow> aligned (a + b)"
  by (simp add: aligned_def)

lemma aligned_minus: "aligned a \<Longrightarrow> aligned (- a)"
  by (simp add: aligned_def)

lemma aligned_shift: "aligned (push_bit 2 w)"
  by (simp add: aligned_def push_bit_eq_mult)

lemma aligned_mult: "aligned (w * 4)" "aligned (w * 8)"
proof -
  have "w * 8 = 4 * (2 * w)" by simp
  then show "aligned (w * 8)" unfolding aligned_def by (metis dvd_triv_left)
qed (simp add: aligned_def)

lemma aligned_diff: "aligned a \<Longrightarrow> aligned b \<Longrightarrow> aligned (a - b)"
  by (simp add: aligned_def)

lemma aligned_numerals:
  "aligned 0" "aligned 4" "aligned 8" "aligned 12" "aligned 16" "aligned 56" "aligned 64" "aligned 0x204"
  using dvd_triv_left [of "4::u32" 2] dvd_triv_left [of "4::u32" 3] dvd_triv_left [of "4::u32" 4]
    dvd_triv_left [of "4::u32" 14] dvd_triv_left [of "4::u32" 16] dvd_triv_left [of "4::u32" 129]
  by (simp_all add: aligned_def)

lemmas aligned_intros = aligned_diff aligned_add aligned_minus aligned_shift aligned_mult aligned_numerals

definition aligned_ctx :: "exidx_context \<Rightarrow> bool" where
  "aligned_ctx c \<longleftrightarrow> aligned (ctx_vsp c) \<and> (\<forall>i. aligned (ctx_offsets c i))"

lemma aligned_AddUpVSP [simp]: "aligned_ctx c \<Longrightarrow> aligned imm \<Longrightarrow> aligned_ctx (AddUpVSP imm c)"
  by (simp add: aligned_ctx_def aligned_add)

lemma aligned_Transform [simp]: "aligned_ctx c \<Longrightarrow> aligned_ctx (Transform i c)"
  by (simp add: aligned_ctx_def aligned_numerals)

lemma aligned_arm [simp]: "aligned_ctx c \<Longrightarrow> aligned_ctx (arm_transform reg c)"
  by (simp add: arm_transform_def)

lemma aligned_fold: "aligned_ctx c \<Longrightarrow> (\<And>x c. aligned_ctx c \<Longrightarrow> aligned_ctx (f x c)) \<Longrightarrow> aligned_ctx (fold f xs c)"
  by (induction xs arbitrary: c) simp_all

lemma aligned_reset [simp]: "aligned_ctx ctx_reset"
  by (simp add: aligned_ctx_def ctx_reset_def aligned_numerals)

text \<open>
  What can still go wrong is arithmetic: a ULEB128 operand that goes on too long, and sums that do not fit an
  \<open>int32_t\<close>.  A bound on everything collected rules out the latter, as long as an opcode moves \<open>vsp\<close> by
  \<open>2 ^ 24\<close> at most.
\<close>

lemma add_no_overflow:
  assumes "\<bar>sint a + sint b\<bar> < 2 ^ 31"
  shows "sint (a + b :: u32) = sint a + sint b" "\<not> add_overflows (a :: u32) b"
proof -
  have "sint (a + b) = signed_take_bit 31 (sint a + sint b)" by (simp add: sint_word_ariths)
  also have "\<dots> = sint a + sint b" using assms by (intro signed_take_bit_int_eq_self) (auto simp: abs_less_iff)
  finally show "sint (a + b) = sint a + sint b" .
  then show "\<not> add_overflows a b" by (simp add: add_overflows_def)
qed

definition small :: "int \<Rightarrow> exidx_context \<Rightarrow> bool" where
  "small B c \<longleftrightarrow> \<not> ctx_overflow c \<and> \<bar>sint (ctx_vsp c)\<bar> \<le> B \<and> (\<forall>i. \<bar>sint (ctx_offsets c i)\<bar> \<le> B)"

lemma small_0_le: "small B c \<Longrightarrow> 0 \<le> B"
  by (auto simp: small_def intro: order_trans [OF abs_ge_zero])

lemma small_mono: "small B c \<Longrightarrow> B \<le> B' \<Longrightarrow> small B' c"
  by (auto simp: small_def intro: order_trans)

lemma AddUpVSP_overflow:
  "ctx_overflow (AddUpVSP imm c) \<longleftrightarrow>
     ctx_overflow c \<or> add_overflows (ctx_vsp c) imm \<or> (\<exists>i < 7. transformed c i \<and> add_overflows (ctx_offsets c i) imm)"
proof -
  have note_overflow: "ctx_overflow (AddUpTransformed i imm c) \<longleftrightarrow>
      ctx_overflow c \<or> (transformed c i \<and> add_overflows (ctx_offsets c i) imm)" for i c
    by (simp add: AddUpTransformed_def)
  have upd: "transformed (c\<lparr>ctx_vsp := v, ctx_overflow := b\<rparr>) i = transformed c i" for v b i
    by (simp add: transformed_def)
  have ex: "(\<exists>i < 7. P i) \<longleftrightarrow> P 0 \<or> P 1 \<or> P 2 \<or> P 3 \<or> P 4 \<or> P 5 \<or> P 6" for P :: "nat \<Rightarrow> bool"
    unfolding less_7_cases by blast
  show ?thesis
    by (simp add: AddUpVSP_def note_overflow upd ex disj_ac)
qed

lemma small_AddUpVSP:
  assumes "small B c" "\<bar>sint imm\<bar> \<le> d" "B + d < 2 ^ 31"
  shows "small (B + d) (AddUpVSP imm c)"
proof -
  have room: "\<bar>sint v + sint imm\<bar> < 2 ^ 31" "\<bar>sint (v + imm)\<bar> \<le> B + d" if "\<bar>sint v\<bar> \<le> B" for v :: u32
  proof -
    show "\<bar>sint v + sint imm\<bar> < 2 ^ 31" using that assms(2,3) by linarith
    from add_no_overflow(1) [OF this] show "\<bar>sint (v + imm)\<bar> \<le> B + d" using that assms(2) by linarith
  qed
  have "0 \<le> d" using assms(2) by linarith
  then show ?thesis
    using assms(1) room add_no_overflow(2)
    by (auto simp: small_def AddUpVSP_overflow intro: order_trans [of _ B])
qed

lemma small_Transform: "small B c \<Longrightarrow> small B (Transform i c)"
  using small_0_le [of B c] by (simp add: small_def Transform_def)

lemma small_arm: "small B c \<Longrightarrow> small B (arm_transform reg c)"
  by (simp add: arm_transform_def small_Transform)

lemma small_reset: "0 \<le> B \<Longrightarrow> small B ctx_reset"
  by (simp add: small_def ctx_reset_def)

text \<open>
  A context is fine when it is aligned and, in a \<open>strict\<close> reading, also bounded.  A result is safe when its context is fine with a bound that has
  grown by one opcode, or, when the reading is not strict, when it is one of the two faults of arithmetic.
\<close>

definition fine :: "bool \<Rightarrow> int \<Rightarrow> exidx_context \<Rightarrow> bool" where
  "fine strict B c \<longleftrightarrow> aligned_ctx c \<and> (strict \<longrightarrow> small B c)"

lemma fine_AddUpVSP:
  assumes "fine strict B c" "aligned imm" "strict \<Longrightarrow> \<bar>sint imm\<bar> \<le> d" "strict \<Longrightarrow> B + d < 2 ^ 31"
  shows "fine strict (B + d) (AddUpVSP imm c)"
  using assms by (auto simp: fine_def intro: small_AddUpVSP)

lemma fine_pop:
  "fine strict B c \<Longrightarrow> (strict \<Longrightarrow> B + 4 < 2 ^ 31) \<Longrightarrow> fine strict (B + 4) (AddUpVSP 4 c)"
  by (rule fine_AddUpVSP) (simp_all add: aligned_numerals)

lemma fine_Transform: "fine strict B c \<Longrightarrow> fine strict B (Transform i c)"
  by (simp add: fine_def small_Transform)

lemma fine_arm: "fine strict B c \<Longrightarrow> fine strict B (arm_transform reg c)"
  by (simp add: fine_def small_arm)

lemma fine_mono: "fine strict B c \<Longrightarrow> B \<le> B' \<Longrightarrow> fine strict B' c"
  by (auto simp: fine_def intro: small_mono)

lemma fine_reset: "(strict \<Longrightarrow> 0 \<le> B) \<Longrightarrow> fine strict B ctx_reset"
  by (simp add: fine_def small_reset)

lemma fine_fold:
  assumes "fine strict B c" "strict \<Longrightarrow> B + 4 * int (length xs) < 2 ^ 31"
    and "\<And>x c B. x \<in> set xs \<Longrightarrow> fine strict B c \<Longrightarrow> (strict \<Longrightarrow> B + 4 < 2 ^ 31) \<Longrightarrow> fine strict (B + 4) (f x c)"
  shows "fine strict (B + 4 * int (length xs)) (fold f xs c)"
  using assms
proof (induction xs arbitrary: B c)
  case (Cons x xs)
  have "fine strict (B + 4) (f x c)" using Cons.prems(1,2) by (intro Cons.prems(3)) auto
  then have "fine strict (B + 4 + 4 * int (length xs)) (fold f xs (f x c))"
    by (rule Cons.IH) (use Cons.prems(2) in \<open>auto intro: Cons.prems(3)\<close>)
  then show ?case by (simp add: algebra_simps)
qed simp

definition safe :: "bool \<Rightarrow> int \<Rightarrow> exidx_result \<Rightarrow> bool" where
  "safe strict B r \<longleftrightarrow>
     (case r of Inl f \<Rightarrow> \<not> strict \<and> (f = BadShift \<or> f = SignedOverflow)
      | Inr (_, s) \<Rightarrow> fine strict (B + 2 ^ 24) (ex_context s))"

named_theorems safety \<open>opcode handlers pass their checks\<close>

lemma flush_regs_safe: "aligned_ctx c \<Longrightarrow> \<exists>out'. flush_regs native c ps out = Inr out'"
  by (induction native c ps out rule: flush_regs.induct) (auto simp: aligned_ctx_def aligned_and_3)

lemma FlushInstructions_safe:
  assumes "aligned_ctx (ex_context self)"
  shows "\<exists>s. FlushInstructions self = Inr s \<and> ex_context s = ctx_reset"
proof -
  let ?c = "ex_context self"
  let ?out = "ex_instructions self @ (if ctx_vsp ?c \<noteq> 0 then [flush_word VSP_OFFSET (ctx_vsp ?c)] else [])"
  obtain out' where out': "flush_regs (ex_native_only self) ?c (sorted_regs ?c) ?out = Inr out'"
    using flush_regs_safe [OF assms] by blast
  have "ctx_vsp ?c AND 3 = 0" using assms by (simp add: aligned_ctx_def aligned_and_3)
  then show ?thesis using out' by (simp add: FlushInstructions_def Let_def)
qed

lemma SaveInstructions_safe:
  assumes "aligned_ctx (ex_context self)"
  shows "\<exists>s. SaveInstructions i self = Inr s \<and> ex_context s = ctx_reset"
proof -
  obtain s where "FlushInstructions self = Inr s" "ex_context s = ctx_reset"
    using FlushInstructions_safe [OF assms] by blast
  then show ?thesis by (simp add: SaveInstructions_def)
qed

text \<open>Room for one more opcode.\<close>

definition ready :: "bool \<Rightarrow> int \<Rightarrow> exidx \<Rightarrow> bool" where
  "ready strict B s \<longleftrightarrow> fine strict B (ex_context s) \<and> (strict \<longrightarrow> B + 2 ^ 24 < 2 ^ 31)"

lemma ready_updates [simp]:
  "ready strict B (s\<lparr>ex_data := d\<rparr>) = ready strict B s" "ready strict B (s\<lparr>ex_status := st\<rparr>) = ready strict B s"
  by (simp_all add: ready_def)

lemma ready_aligned: "ready strict B s \<Longrightarrow> aligned_ctx (ex_context s)"
  by (simp add: ready_def fine_def)

lemma ready_nonneg: "ready strict B s \<Longrightarrow> strict \<Longrightarrow> 0 \<le> B"
  by (auto simp: ready_def fine_def dest: small_0_le)

lemma safe_Inr [safety]: "ready strict B s \<Longrightarrow> safe strict B (Inr (b, s))"
  by (auto simp: safe_def ready_def intro: fine_mono)

lemma safe_stop_with [safety]: "ready strict B s \<Longrightarrow> safe strict B (stop_with st s)"
  by (simp add: stop_with_def safe_Inr)

lemma safe_with_context:
  assumes "fine strict B' c" "B' \<le> B + 2 ^ 24" "safe strict B (k (s\<lparr>ex_context := c\<rparr>))"
  shows "safe strict B (with_context c s k)"
  using assms by (auto simp: with_context_def safe_def fine_def small_def)

lemma safe_decoded: "fine strict B' c \<Longrightarrow> B' \<le> B + 2 ^ 24 \<Longrightarrow> safe strict B (decoded (s\<lparr>ex_context := c\<rparr>))"
  by (auto simp: decoded_def safe_def intro: fine_mono)

lemma safe_add_vsp [safety]:
  assumes "ready strict B s" "aligned imm" "strict \<Longrightarrow> \<bar>sint imm\<bar> \<le> 2 ^ 24"
  shows "safe strict B (add_vsp imm s)"
proof -
  have "fine strict (B + 2 ^ 24) (AddUpVSP imm (ex_context s))"
    using assms by (intro fine_AddUpVSP) (simp_all add: ready_def)
  then show ?thesis unfolding add_vsp_def by (intro safe_with_context safe_decoded) auto
qed

lemma safe_saved [safety]:
  assumes "aligned_ctx (ex_context self)" "strict \<Longrightarrow> 0 \<le> B"
  shows "safe strict B (case SaveInstructions i self of Inl f \<Rightarrow> Inl f | Inr s \<Rightarrow> Inr (True, s))"
proof -
  obtain s where "SaveInstructions i self = Inr s" "ex_context s = ctx_reset"
    using SaveInstructions_safe [OF assms(1)] by blast
  then show ?thesis using assms(2) by (auto simp: safe_def intro!: fine_reset)
qed

lemma safe_with_byte [safety]:
  assumes "ready strict B self" "\<And>b rest. safe strict B (k b (self\<lparr>ex_data := rest\<rparr>))"
  shows "safe strict B (with_byte self k)"
  using assms by (auto simp: with_byte_def GetByte_def intro: safety split: list.split)

text \<open>How far the opcodes move \<open>vsp\<close>.\<close>

lemma sint_le_unat:
  assumes "unat (w :: u32) \<le> 2 ^ 24"
  shows "\<bar>sint w\<bar> \<le> 2 ^ 24" "\<bar>sint (- w)\<bar> \<le> 2 ^ 24"
proof -
  have le: "int (unat w) \<le> 2 ^ 24" using zle_int [THEN iffD2, OF assms] by simp
  have room: "- (2 ^ 31) \<le> int (unat w)" "int (unat w) < 2 ^ 31" "- (2 ^ 31) \<le> - int (unat w)" "- int (unat w) < 2 ^ 31"
    using le order_trans [of "- (2 ^ 31)" 0 "int (unat w)"] le_less_trans [OF le, of "2 ^ 31"]
      neg_le_0_iff_le [of "int (unat w)"] le_less_trans [of "- int (unat w)" 0 "2 ^ 31"] by simp_all
  have "sint w = signed_take_bit 31 (int (unat w))" by (simp add: sint_uint)
  also have "\<dots> = int (unat w)" using room(1,2) by (rule signed_take_bit_int_eq_self)
  finally have w: "sint w = int (unat w)" .
  then show "\<bar>sint w\<bar> \<le> 2 ^ 24" using le by linarith
  have "sint (- w) = signed_take_bit 31 (- sint w)" by (simp add: sint_word_ariths)
  also have "\<dots> = - sint w" unfolding w using room(3,4) by (rule signed_take_bit_int_eq_self)
  finally show "\<bar>sint (- w)\<bar> \<le> 2 ^ 24" using le w by linarith
qed

lemma unat_sum_le: "unat (a + b :: u32) \<le> unat a + unat b" "unat (a * b :: u32) \<le> unat a * unat b"
    "unat (push_bit n a :: u32) \<le> unat a * 2 ^ n"
proof -
  show "unat (push_bit n a) \<le> unat a * 2 ^ n"
    by (simp only: unsigned_push_bit_eq take_bit_nat_less_eq_self push_bit_eq_mult [of n "unat a", symmetric])
qed (simp_all add: unat_word_ariths)

lemma unat_ucast_u8: "unat (ucast (b :: u8) :: u32) < 256"
  using unat_u8_less [of b] by (simp add: unsigned_ucast_eq take_bit_nat_eq_self)

lemma move_bounds:
  shows "unat (push_bit 2 (ucast (b :: u8)) + 4 :: u32) \<le> 2 ^ 24"
    and "unat k \<le> 12 \<Longrightarrow> unat (ucast (b :: u8) * 8 + k :: u32) \<le> 2 ^ 24"
    and "unat (of_nat (length (filter P [0..<8])) * 4 :: u32) \<le> 2 ^ 24"
    and "unat v < 2 ^ 21 \<Longrightarrow> unat (0x204 + push_bit 2 v :: u32) \<le> 2 ^ 24"
proof -
  show "unat (push_bit 2 (ucast (b :: u8)) + 4 :: u32) \<le> 2 ^ 24"
    using unat_sum_le(1) [of "push_bit 2 (ucast b)" 4] unat_sum_le(3) [of 2 "ucast b"] unat_ucast_u8 [of b] by simp
  show "unat (ucast (b :: u8) * 8 + k :: u32) \<le> 2 ^ 24" if "unat k \<le> 12"
    using unat_sum_le(1) [of "ucast b * 8" k] unat_sum_le(2) [of "ucast b" 8] unat_ucast_u8 [of b] that by simp
  have "length (filter P [0..<8]) \<le> length [0..<8 :: nat]" by (rule length_filter_le)
  moreover have "unat (of_nat n :: u32) \<le> n" for n by (simp only: unat_of_nat mod_less_eq_dividend)
  ultimately have "unat (of_nat (length (filter P [0..<8])) :: u32) \<le> 8"
    by (metis length_upt diff_zero order_trans)
  then show "unat (of_nat (length (filter P [0..<8])) * 4 :: u32) \<le> 2 ^ 24"
    using unat_sum_le(2) [of "of_nat (length (filter P [0..<8]))" 4] by (simp del: upt_rec_numeral)
  show "unat (0x204 + push_bit 2 v :: u32) \<le> 2 ^ 24" if "unat v < 2 ^ 21"
    using unat_sum_le(1) [of "0x204" "push_bit 2 v"] unat_sum_le(3) [of 2 v] that by simp
qed

lemmas moves = sint_le_unat [OF move_bounds(1)] sint_le_unat(1) [OF move_bounds(2)] sint_le_unat(1) [OF move_bounds(3)]
  sint_le_unat(1) [OF move_bounds(4)]

text \<open>The dispatch makes the checks on the prefixes true.\<close>

lemma drop_bit_u8: "drop_bit n b = k \<longleftrightarrow> unat (b::u8) div 2 ^ n = unat k"
  unfolding word_unat_eq_iff unat_drop_bit_eq by (simp add: drop_bit_eq_div)

lemma and_3_u8: "(w::u8) AND 3 = take_bit 2 w" and and_7_u8: "(w::u8) AND 7 = take_bit 3 w"
  and and_f_u8: "(w::u8) AND 0xf = take_bit 4 w"
  by (simp_all add: take_bit_eq_mask mask_eq_exp_minus_1)

lemma take_drop_u8: "take_bit m (drop_bit n (b::u8)) = k \<longleftrightarrow> unat b div 2 ^ n mod 2 ^ m = unat k"
  unfolding word_unat_eq_iff unsigned_take_bit_eq unat_drop_bit_eq
  by (simp add: drop_bit_eq_div take_bit_eq_mod)

lemma and_not_7_u8: "(b::u8) AND NOT 7 = k \<longleftrightarrow> unat b div 8 * 8 = unat k"
proof -
  have "b AND NOT 7 = push_bit 3 (drop_bit 3 b)"
  proof (rule bit_eqI)
    fix n assume n: "possible_bit TYPE(8 word) n"
    have "(7::u8) = mask 3" by (simp add: mask_eq_exp_minus_1)
    then show "bit (b AND NOT 7) n = bit (push_bit 3 (drop_bit 3 b)) n"
      using n by (simp only: bit_and_iff bit_not_iff bit_mask_iff) (auto simp: bit_push_bit_iff bit_drop_bit_eq)
  qed
  moreover have "unat b < 2 ^ LENGTH(8)" by (rule unsigned_less)
  then have "unat b div 8 * 8 < 256" by simp
  then have "unat (push_bit 3 (drop_bit 3 b)) = unat b div 8 * 8"
    by (simp only: unsigned_push_bit_eq unat_drop_bit_eq)
      (simp add: drop_bit_eq_div push_bit_eq_mult take_bit_nat_eq_self)
  ultimately show ?thesis by (simp only: word_unat_eq_iff)
qed

lemma div_mod_nat: "(x::nat) div k = q \<Longrightarrow> x mod k = r \<Longrightarrow> x = k * q + r"
  using mult_div_mod_eq [of k x] by simp

lemma prefix_checks:
  fixes b :: u8
  assumes "drop_bit 6 b = 2"
  shows "drop_bit 4 b AND 3 = 1 \<Longrightarrow> drop_bit 4 b = 9"
    and "drop_bit 4 b AND 3 = 2 \<Longrightarrow> drop_bit 4 b = 10"
    and "drop_bit 4 b AND 3 \<notin> {0, 1, 2} \<Longrightarrow> b AND 8 \<noteq> 0 \<Longrightarrow> b AND NOT 7 = 0xb8"
proof -
  let ?n = "unat b"
  have n: "?n div 16 div 4 = 2" using assms by (simp add: drop_bit_u8 flip: div_mult2_eq)
  show "drop_bit 4 b AND 3 = 1 \<Longrightarrow> drop_bit 4 b = 9"
    using div_mod_nat [OF n] unfolding and_3_u8 take_drop_u8 drop_bit_u8 by simp
  show "drop_bit 4 b AND 3 = 2 \<Longrightarrow> drop_bit 4 b = 10"
    using div_mod_nat [OF n] unfolding and_3_u8 take_drop_u8 drop_bit_u8 by simp
  assume "drop_bit 4 b AND 3 \<notin> {0, 1, 2}" "b AND 8 \<noteq> 0"
  then have "?n div 16 mod 4 \<notin> {0, 1, 2}" "bit b 3"
    using bit_test [of 3 b] unfolding and_3_u8 by (auto simp: take_drop_u8)
  then have "?n div 16 mod 4 = 3" by auto
  with div_mod_nat [OF n] have "?n div 16 = 11" by simp
  moreover have "?n div 16 = ?n div 8 div 2" by (simp flip: div_mult2_eq)
  moreover from \<open>bit b 3\<close> have "odd (?n div 8)"
    using bit_unsigned_iff [of b 3, where 'a = nat] by (simp add: bit_iff_odd)
  ultimately have "?n div 8 = 2 * 11 + 1" by (intro div_mod_nat) (auto simp: odd_iff_mod_2_eq_one)
  then show "b AND NOT 7 = 0xb8" unfolding and_not_7_u8 by simp
qed

lemma prefix_checks_11:
  fixes b :: u8
  assumes "drop_bit 6 b \<notin> {0, 1, 2}"
  shows "drop_bit 3 b AND 7 = 0 \<Longrightarrow> b AND NOT 7 = 0xc0"
    and "drop_bit 3 b AND 7 = 1 \<Longrightarrow> b AND NOT 7 = 0xc8"
    and "drop_bit 3 b AND 7 = 2 \<Longrightarrow> b AND NOT 7 = 0xd0"
proof -
  let ?n = "unat b"
  have "?n div 64 \<notin> {0, 1, 2}" using assms by (auto simp: drop_bit_u8)
  then have "?n div 64 = 3" using unat_u8_less [of b] by auto
  then have n: "?n div 8 div 8 = 3" by (simp flip: div_mult2_eq)
  show "drop_bit 3 b AND 7 = 0 \<Longrightarrow> b AND NOT 7 = 0xc0"
    and "drop_bit 3 b AND 7 = 1 \<Longrightarrow> b AND NOT 7 = 0xc8"
    and "drop_bit 3 b AND 7 = 2 \<Longrightarrow> b AND NOT 7 = 0xd0"
    using div_mod_nat [OF n] unfolding and_7_u8 take_drop_u8 and_not_7_u8 by simp_all
qed

text \<open>
  The operand of \<open>0xb2\<close> is short when it ends within three bytes (or the data does): it is below \<open>2 ^ 21\<close> then.
\<close>

fun short_operands :: "u8 list \<Rightarrow> bool" where
  "short_operands [] \<longleftrightarrow> True"
| "short_operands (b # bs) \<longleftrightarrow>
     (b = 0xb2 \<longrightarrow> length bs \<le> 3 \<or> list_ex (\<lambda>x. x AND 0x80 = 0) (take 3 bs)) \<and> short_operands bs"

lemma short_operands_suffix: "suffix bs cs \<Longrightarrow> short_operands cs \<Longrightarrow> short_operands bs"
proof (induction cs)
  case (Cons c cs)
  then show ?case by (auto simp: suffix_Cons)
qed simp

lemma uleb_bits:
  fixes v :: u32
  assumes "\<And>n. bit v n \<Longrightarrow> n < 21"
  shows "unat v < 2 ^ 21"
proof -
  have "take_bit 21 v = v" using assms by (intro bit_eqI) (auto simp: bit_take_bit_iff)
  then have "take_bit 21 (unat v) = unat v" by (metis unsigned_take_bit_eq)
  then show ?thesis by (metis take_bit_nat_less_exp)
qed

lemma uleb_ok: "n < 3 \<Longrightarrow> uleb_bad (7 * n) b = None"
proof -
  assume n: "n < 3"
  have "unat (b AND 0x7f) < 2 ^ 7"
    using unat_mono [OF le_less_trans [OF word_and_le1 [of b "0x7f"], of "0x80"]] by simp
  moreover have "(2::nat) ^ (7 * n) \<le> 2 ^ 14" using n by (intro power_increasing) simp_all
  ultimately have "unat (b AND 0x7f) * 2 ^ (7 * n) < 2 ^ 7 * 2 ^ 14"
    by (intro mult_less_le_imp_less) simp_all
  then show ?thesis using n by (simp add: uleb_bad_def)
qed

lemma short_uleb:
  assumes "length bs \<le> 3 \<or> list_ex (\<lambda>x. x AND 0x80 = 0) (take 3 bs)"
  shows "case leb_list uleb_bad (0::u32) 0 bs of
    None \<Rightarrow> True | Some (Inl f) \<Rightarrow> False | Some (Inr (v, _)) \<Rightarrow> unat v < 2 ^ 21"
proof -
  have ok: "uleb_bad 0 b = None" "uleb_bad 7 b = None" "uleb_bad 14 b = None" for b
    using uleb_ok [of 0 b] uleb_ok [of 1 b] uleb_ok [of 2 b] by simp_all
  have seven: "bit (b AND 0x7f :: u8) n \<Longrightarrow> n < 7" for b n
  proof -
    have "(0x7f :: u8) = mask 7" by (simp add: mask_eq_exp_minus_1)
    then show "bit (b AND 0x7f :: u8) n \<Longrightarrow> n < 7" by (simp only: bit_and_iff bit_mask_iff)
  qed
  have part: "bit (push_bit k (ucast (b AND 0x7f :: u8)) :: u32) n \<Longrightarrow> n < k + 7" for k b n
    by (auto simp: bit_push_bit_iff bit_unsigned_iff dest!: seven)
  have bound: "unat (push_bit 0 (ucast (a AND 0x7f)) :: u32) < 2 ^ 21"
    "unat (push_bit 0 (ucast (a AND 0x7f)) OR push_bit 7 (ucast (b AND 0x7f)) :: u32) < 2 ^ 21"
    "unat (push_bit 0 (ucast (a AND 0x7f)) OR push_bit 7 (ucast (b AND 0x7f)) OR push_bit 14 (ucast (c AND 0x7f)) :: u32) < 2 ^ 21"
    for a b c :: u8
    by (rule uleb_bits; auto simp: bit_or_iff simp del: push_bit_0_id dest!: part)+
  show ?thesis
  proof (cases bs)
    case (Cons a as)
    show ?thesis
    proof (cases as)
      case Nil
      then show ?thesis using bound(1) [of a] Cons by (simp add: ok Let_def)
    next
      case as: (Cons b bs')
      show ?thesis
      proof (cases bs')
        case Nil
        then show ?thesis using bound(1) [of a] bound(2) [of a b] Cons as by (simp add: ok Let_def)
      next
        case bs': (Cons c cs)
        then show ?thesis
          using assms bound(1) [of a] bound(2) [of a b] bound(3) [of a b c] Cons as
          by (cases cs) (auto simp: ok Let_def numeral_3_eq_3 or.assoc)
      qed
    qed
  qed simp
qed

lemma safe_10_00 [safety]:
  assumes "ready strict B s"
  shows "safe strict B (DecodePrefix_10_00 byte s)"
proof -
  have masked: "fine strict (B' + 4) (pop_masked m reg c)"
    if "fine strict B' c" "strict \<Longrightarrow> B' + 4 < 2 ^ 31" for B' m reg c
  proof -
    have "fine strict (B' + 4) (AddUpVSP 4 (arm_transform reg c))" using that by (intro fine_pop fine_arm) auto
    moreover have "fine strict (B' + 4) c" using that(1) by (rule fine_mono) simp
    ultimately show ?thesis by (simp add: pop_masked_def del: push_bit_of_1)
  qed
  have special: "fine strict (B' + 4) (pop_special m reg i c)"
    if "fine strict B' c" "strict \<Longrightarrow> B' + 4 < 2 ^ 31" for B' m reg i c
  proof -
    have "fine strict (B' + 4) (AddUpVSP 4 (Transform (qut_code i) c))" using that by (intro fine_pop fine_Transform) auto
    moreover have "fine strict (B' + 4) c" using that(1) by (rule fine_mono) simp
    ultimately show ?thesis by (simp add: pop_special_def del: push_bit_of_1)
  qed
  have all: "fine strict (B + 36 + 4 + 4 + 4) (pop_special m 15 PC_OFFSET (pop_special m 14 LR_OFFSET (pop_special m 13 SP_OFFSET
       (fold (pop_masked m) [4..<13] (ex_context s)))))" for m
  proof -
    have "fine strict (B + 4 * int (length [4..<13::nat])) (fold (pop_masked m) [4..<13] (ex_context s))"
      using assms masked by (intro fine_fold) (auto simp: ready_def simp del: upt_rec_numeral)
    then have "fine strict (B + 36) (fold (pop_masked m) [4..<13] (ex_context s))" by (simp del: upt_rec_numeral)
    then show ?thesis using assms by (intro special) (auto simp: ready_def)
  qed
  have saved: "safe strict B (case SaveInstructions NOP (s'\<lparr>ex_context := c\<rparr>) of Inl f \<Rightarrow> Inl f | Inr s \<Rightarrow> Inr (True, s))"
    if "fine strict B' c" for s' c B'
    using that ready_nonneg [OF assms] by (intro safe_saved) (auto simp: fine_def)
  show ?thesis
    unfolding DecodePrefix_10_00_def Let_def
  proof (rule safe_with_byte [OF assms])
    fix b rest
    let ?s = "s\<lparr>ex_data := rest\<rparr>"
    let ?r = "push_bit 8 (ucast (byte AND 0xf)) OR ucast b :: u16"
    let ?c = "pop_special (push_bit 4 ?r) 15 PC_OFFSET (pop_special (push_bit 4 ?r) 14 LR_OFFSET
       (pop_special (push_bit 4 ?r) 13 SP_OFFSET (fold (pop_masked (push_bit 4 ?r)) [4..<13] (ex_context ?s))))"
    have c: "fine strict (B + 36 + 4 + 4 + 4) ?c" using all by simp
    have "safe strict B (Inr (False, ?s))" using assms by (intro safe_Inr) simp
    moreover have "safe strict B (with_context ?c ?s (\<lambda>self2.
        if push_bit 4 ?r AND push_bit 13 1 \<noteq> 0
        then (case SaveInstructions NOP self2 of Inl f \<Rightarrow> Inl f | Inr s \<Rightarrow> Inr (True, s)) else decoded self2))"
      using c saved [OF c, of ?s] by (intro safe_with_context [OF c]) (auto intro: safe_decoded)
    ultimately show "safe strict B (if ?r = 0 then Inr (False, ?s) else with_context ?c ?s (\<lambda>self2.
        if push_bit 4 ?r AND push_bit 13 1 \<noteq> 0
        then (case SaveInstructions NOP self2 of Inl f \<Rightarrow> Inl f | Inr s \<Rightarrow> Inr (True, s)) else decoded self2))"
      by (simp only: if_splits split: if_splits) blast
  qed
qed

lemma safe_10_01 [safety]:
  assumes "ready strict B s" "drop_bit 4 byte = 9"
  shows "safe strict B (DecodePrefix_10_01 byte s)"
proof -
  have "aligned_ctx (ex_context (drop_untransformed s))"
    using ready_aligned [OF assms(1)] by (simp add: drop_untransformed_def)
  then show ?thesis
    using assms ready_nonneg [OF assms(1)] unfolding DecodePrefix_10_01_def Let_def by (auto intro!: safety)
qed

lemma safe_10_10 [safety]:
  assumes "ready strict B s" "drop_bit 4 byte = 10"
  shows "safe strict B (DecodePrefix_10_10 byte s)"
proof -
  let ?n = "5 + unat (byte AND 0x7)"
  let ?c = "fold (\<lambda>i c. AddUpVSP 4 (arm_transform i c)) [4..<?n] (ex_context s)"
  have "unat (byte AND 0x7) \<le> unat (0x7 :: u8)"
    by (rule word_le_nat_alt [THEN iffD1]) (rule word_and_le1)
  then have "length [4..<?n] \<le> 8" by simp
  then have n: "int (length [4..<?n]) \<le> 8" by linarith
  have "fine strict (B + 4 * int (length [4..<?n])) ?c"
    using assms(1) n by (intro fine_fold fine_pop fine_arm) (auto simp: ready_def simp del: length_upt)
  then have c: "fine strict (B + 32) ?c" by (rule fine_mono) (use n in linarith)
  have "fine strict (B + 32 + 4) (AddUpVSP 4 (Transform (qut_code LR_OFFSET) ?c))"
    using assms(1) by (intro fine_pop fine_Transform c) (simp add: ready_def)
  moreover have "fine strict (B + 32 + 4) ?c" using c by (rule fine_mono) simp
  ultimately have "fine strict (B + 32 + 4) (if byte AND 0x8 \<noteq> 0 then AddUpVSP 4 (Transform (qut_code LR_OFFSET) ?c) else ?c)"
    by simp
  then show ?thesis
    using assms(2) unfolding DecodePrefix_10_10_def Let_def by (auto intro!: safe_with_context safe_decoded)
qed

lemma safe_10_11_0001 [safety]:
  assumes "ready strict B s"
  shows "safe strict B (DecodePrefix_10_11_0001 s)"
proof -
  have low: "fine strict (B + 16) (fold (\<lambda>reg c. if P reg then AddUpVSP 4 c else c) [0..<4] (ex_context s))" for P
  proof -
    have "fine strict (B + 4 * int (length [0..<4::nat])) (fold (\<lambda>reg c. if P reg then AddUpVSP 4 c else c) [0..<4] (ex_context s))"
    proof (rule fine_fold)
      fix reg c B' assume "fine strict B' c" "strict \<Longrightarrow> B' + 4 < 2 ^ 31"
      then show "fine strict (B' + 4) (if P reg then AddUpVSP 4 c else c)"
        using fine_pop [of strict B' c] fine_mono [of strict B' c "B' + 4"] by simp
    qed (use assms in \<open>auto simp: ready_def\<close>)
    then show ?thesis by (simp del: upt_rec_numeral)
  qed
  show ?thesis
    unfolding DecodePrefix_10_11_0001_def
  proof (rule safe_with_byte [OF assms])
    fix b rest
    let ?s = "s\<lparr>ex_data := rest\<rparr>"
    let ?c = "fold (\<lambda>reg c. if b AND push_bit reg 1 \<noteq> 0 then AddUpVSP 4 c else c) [0..<4] (ex_context ?s)"
    have c: "fine strict (B + 16) ?c" using low by simp
    then have "safe strict B (with_context ?c ?s decoded)" by (intro safe_with_context [OF c] safe_decoded [OF c]) auto
    then show "safe strict B
      (if b = 0 then stop_with ARM_STATUS_SPARE ?s
       else if drop_bit 4 b \<noteq> 0 then stop_with ARM_STATUS_SPARE ?s
       else with_context ?c ?s decoded)"
      using assms by (simp add: safety del: upt_rec_numeral fold_simps push_bit_of_1)
  qed
qed

lemma safe_10_11_0010:
  assumes "ready strict B s" "strict \<Longrightarrow> length (ex_data s) \<le> 3 \<or> list_ex (\<lambda>x. x AND 0x80 = 0) (take 3 (ex_data s))"
  shows "safe strict B (DecodePrefix_10_11_0010 s)"
proof (cases "leb_list uleb_bad (0::u32) 0 (ex_data s)")
  case None
  then have "leb128_loop GetByte uleb_bad (0::u32) 0 (ex_data s) = None"
    using data_source.loop_NoneI(1) [of uleb_bad 0 0 "ex_data s"] by simp
  then show ?thesis using assms(1) by (simp add: DecodePrefix_10_11_0010_def safety)
next
  case (Some r)
  show ?thesis
  proof (cases r)
    case (Inl f)
    then have loop: "leb128_loop GetByte uleb_bad (0::u32) 0 (ex_data s) = Some (Inl f)"
      using data_source.loop_NoneI(2) [of uleb_bad 0 0 "ex_data s" f] Some by simp
    have f: "leb_list uleb_bad acc sh bs = Some (Inl f) \<Longrightarrow> f = BadShift \<or> f = SignedOverflow" for acc :: u32 and sh bs
      by (induction bs arbitrary: acc sh) (auto simp: uleb_bad_def Let_def split: if_splits)
    have "\<not> strict" using short_uleb [of "ex_data s"] assms(2) Some Inl by auto
    then show ?thesis using f Some Inl loop by (auto simp: DecodePrefix_10_11_0010_def safe_def)
  next
    case (Inr p)
    obtain v sh b rest where p: "p = (v, sh, b, rest)" by (cases p)
    from data_source.loop_SomeI [of uleb_bad "0::u32" 0 "ex_data s"] Some Inr p
    have loop: "leb128_loop GetByte uleb_bad (0::u32) 0 (ex_data s) = Some (Inr (v, sh, b, rest))" by auto
    have "unat v < 2 ^ 21" if strict using short_uleb [of "ex_data s"] assms(2) [OF that] Some Inr p by auto
    then have "safe strict B (add_vsp (0x204 + push_bit 2 v) (s\<lparr>ex_data := rest\<rparr>))"
      using assms(1) by (intro safe_add_vsp moves(5)) (auto intro!: aligned_intros)
    then show ?thesis using loop by (simp add: DecodePrefix_10_11_0010_def)
  qed
qed

lemma safe_10_11 [safety]:
  assumes "ready strict B s"
  shows "safe strict B (DecodePrefix_10_11_0000 s)" "safe strict B (DecodePrefix_10_11_0011 s)"
    "safe strict B (DecodePrefix_10_11_01nn s)"
    "byte AND NOT 7 = 0xb8 \<Longrightarrow> safe strict B (DecodePrefix_10_11_1nnn byte s)"
  using assms
  unfolding DecodePrefix_10_11_0000_def DecodePrefix_10_11_0011_def DecodePrefix_10_11_01nn_def DecodePrefix_10_11_1nnn_def
  by (auto intro!: safety aligned_intros moves)

lemma safe_11 [safety]:
  assumes "ready strict B s" "drop_bit 6 byte \<notin> {0, 1, 2 :: u8}"
  shows "safe strict B (DecodePrefix_11 byte s)"
  using assms(1) prefix_checks_11 [OF assms(2)]
  unfolding DecodePrefix_11_def DecodePrefix_11_000_def DecodePrefix_11_001_def DecodePrefix_11_010_def Let_def
  by (auto intro!: safety aligned_intros moves simp del: upt_rec_numeral)

text \<open>\<open>0xb2\<close> is the only byte that leads to the ULEB128 operand.\<close>

lemma uleb_opcode: "drop_bit 6 b = (2::u8) \<Longrightarrow> drop_bit 4 b AND 3 \<notin> {0, 1, 2} \<Longrightarrow> b AND 0xf = 2 \<Longrightarrow> b = 0xb2"
proof -
  assume *: "drop_bit 6 b = (2::u8)" "drop_bit 4 b AND 3 \<notin> {0, 1, 2}" "b AND 0xf = 2"
  have n: "unat b div 16 div 4 = 2" using *(1) by (simp add: drop_bit_u8 flip: div_mult2_eq)
  have "unat b div 16 mod 4 \<notin> {0, 1, 2}" using *(2) unfolding and_3_u8 by (auto simp: take_drop_u8)
  then have "unat b div 16 mod 4 = 3" by auto
  with div_mod_nat [OF n] have "unat b div 16 = 11" by simp
  moreover have "unat b mod 16 = 2" using *(3) take_drop_u8 [of 4 0 b 2] unfolding and_f_u8 by simp
  ultimately have "unat b = unat (0xb2 :: u8)" using div_mod_nat [of "unat b" 16] by simp
  then show "b = 0xb2" by (simp only: word_unat_eq_iff)
qed

lemma safe_10:
  assumes "ready strict B s" "drop_bit 6 byte = (2 :: u8)" "strict \<Longrightarrow> short_operands (byte # ex_data s)"
  shows "safe strict B (DecodePrefix_10 byte s)"
proof -
  have "safe strict B (DecodePrefix_10_11_0010 s)" if "drop_bit 4 byte AND 3 \<notin> {0, 1, 2}" "byte AND 0xf = 2"
    using uleb_opcode [OF assms(2) that] assms(1,3) by (intro safe_10_11_0010) auto
  then show ?thesis
    using assms(1) prefix_checks [OF assms(2)] unfolding DecodePrefix_10_def Let_def
    by (auto intro!: safety)
qed

lemma safe_Decode:
  assumes "ready strict B s" "strict \<Longrightarrow> short_operands (ex_data s)"
  shows "safe strict B (Decode_exidx s)"
proof (cases "ex_data s")
  case Nil
  then show ?thesis using assms(1) by (simp add: Decode_exidx_nil safety)
next
  case (Cons b rest)
  let ?s = "s\<lparr>ex_data := rest\<rparr>"
  have s: "ready strict B ?s" using assms(1) by simp
  have "safe strict B (DecodePrefix_10 b ?s)" if "drop_bit 6 b = 2"
    using s that assms(2) Cons by (intro safe_10) auto
  moreover have "\<bar>sint (- push_bit 2 (ucast (b AND 0x3f)) - 4 :: u32)\<bar> \<le> 2 ^ 24" using moves(2) [of "b AND 0x3f"] by simp
  ultimately show ?thesis
    using s unfolding Decode_exidx_def with_byte_def by (auto simp: Cons GetByte_def intro!: safety aligned_intros moves)
qed

lemma safe_Eval_loop:
  assumes "aligned_ctx (ex_context s)"
    and "strict \<Longrightarrow> short_operands (ex_data s) \<and> small B (ex_context s) \<and> B + 2 ^ 24 * int (length (ex_data s)) < 2 ^ 31"
  shows "case Eval_loop s of Inl f \<Rightarrow> \<not> strict \<and> (f = BadShift \<or> f = SignedOverflow)
    | Inr s' \<Rightarrow> aligned_ctx (ex_context s')"
  using assms
proof (induction s arbitrary: B rule: Eval_loop.induct)
  case (1 s)
  show ?case
  proof (cases "ex_data s")
    case Nil
    then show ?thesis using "1.prems"(1) by (subst Eval_loop.simps) (simp add: Decode_exidx_nil)
  next
    case (Cons b rest)
    have "ready strict B s"
      using "1.prems" Cons by (auto simp: ready_def fine_def)
    then have safe: "safe strict B (Decode_exidx s)" using "1.prems"(2) by (intro safe_Decode) auto
    show ?thesis
    proof (cases "Decode_exidx s")
      case (Inl f)
      then show ?thesis using safe by (subst Eval_loop.simps) (simp add: safe_def)
    next
      case (Inr p)
      then obtain go_on s1 where p: "Decode_exidx s = Inr (go_on, s1)" by (cases p) auto
      have fine: "fine strict (B + 2 ^ 24) (ex_context s1)" using safe p by (simp add: safe_def)
      have sub: "suffix (ex_data s1) rest" using Decode_exidx_takes [OF Cons] p by (auto simp: takes_def)
      show ?thesis
      proof (cases go_on)
        case True
        have "case Eval_loop s1 of Inl f \<Rightarrow> \<not> strict \<and> (f = BadShift \<or> f = SignedOverflow)
            | Inr s' \<Rightarrow> aligned_ctx (ex_context s')"
        proof (rule "1.IH" [OF p refl True])
          show "aligned_ctx (ex_context s1)" using fine by (simp add: fine_def)
          assume strict
          then show "short_operands (ex_data s1) \<and> small (B + 2 ^ 24) (ex_context s1)
              \<and> B + 2 ^ 24 + 2 ^ 24 * int (length (ex_data s1)) < 2 ^ 31"
            using "1.prems"(2) fine short_operands_suffix [OF sub] suffix_length_le [OF sub] Cons
            by (auto simp: fine_def)
        qed
        then show ?thesis using p True by (subst Eval_loop.simps) simp
      next
        case False
        then show ?thesis using p fine by (subst Eval_loop.simps) (simp add: fine_def)
      qed
    qed
  qed
qed

text \<open>
  C33. Decoding never hits one of its aborting checks, whatever the bytes: every opcode moves \<open>vsp\<close> by a
  multiple of four, and the dispatch guarantees the prefix that each handler asserts.  What can go wrong is
  arithmetic: a shift that is undefined, or an overflow of an \<open>int32_t\<close>.  Neither does when no ULEB128 operand is
  longer than three bytes and the data is shorter than 128 bytes (an entry has 24 at most): then the evaluation returns.
\<close>

theorem Eval_exidx_never_aborts:
  "(case Eval_exidx \<lparr>ex_data = bytes, ex_context = ctx_reset, ex_instructions = out,
                     ex_status = st, ex_native_only = native, ex_status_address = addr\<rparr> of
      Inl f \<Rightarrow> f = BadShift \<or> f = SignedOverflow
    | Inr _ \<Rightarrow> True)
   \<and> (short_operands bytes \<and> length bytes < 128 \<longrightarrow>
        (\<exists>success s. Eval_exidx \<lparr>ex_data = bytes, ex_context = ctx_reset, ex_instructions = out,
                                ex_status = st, ex_native_only = native, ex_status_address = addr\<rparr>
           = Inr (success, s)))"
proof -
  let ?s = "\<lparr>ex_data = bytes, ex_context = ctx_reset, ex_instructions = out,
             ex_status = st, ex_native_only = native, ex_status_address = addr\<rparr>"
  have result: "case Eval_exidx ?s of Inl f \<Rightarrow> \<not> strict \<and> (f = BadShift \<or> f = SignedOverflow) | Inr _ \<Rightarrow> True"
    if "strict \<Longrightarrow> short_operands bytes \<and> length bytes < 128" for strict
  proof -
    have "case Eval_loop ?s of Inl f \<Rightarrow> \<not> strict \<and> (f = BadShift \<or> f = SignedOverflow)
      | Inr s' \<Rightarrow> aligned_ctx (ex_context s')"
      using that by (intro safe_Eval_loop [where B = 0]) (auto simp: small_reset)
    then show ?thesis
      using SaveInstructions_safe [of _ NOP] by (fastforce simp: Eval_exidx_def split: sum.splits)
  qed
  show ?thesis
    using result [of False] result [of True] by (auto split: sum.splits)
qed

theorem Eval_exidx_never_aborts_witness:
  "\<exists>success s. Eval_exidx \<lparr>ex_data = [0xb2, 0x81, 0x02, 0xb0], ex_context = ctx_reset, ex_instructions = [],
                          ex_status = ARM_STATUS_NONE, ex_native_only = False, ex_status_address = 0\<rparr>
     = Inr (success, s)"
  by (rule Eval_exidx_never_aborts [THEN conjunct2, rule_format]) simp

text \<open>An operand of six bytes is shifted by 35: undefined, although its value is zero.\<close>

lemma over_long_uleb_undefined:
  "Eval_exidx \<lparr>ex_data = [0xb2, 0x80, 0x80, 0x80, 0x80, 0x80, 0x00, 0xb0], ex_context = ctx_reset, ex_instructions = out,
     ex_status = st, ex_native_only = native, ex_status_address = addr\<rparr> = Inl BadShift"
proof -
  have "leb_list uleb_bad (0::u32) 0 [0x80, 0x80, 0x80, 0x80, 0x80, 0x00, 0xb0] = Some (Inl BadShift)"
    by (simp add: uleb_bad_def Let_def)
  then have "leb128_loop GetByte uleb_bad (0::u32) 0 [0x80, 0x80, 0x80, 0x80, 0x80, 0x00, 0xb0] = Some (Inl BadShift)"
    using data_source.loop_NoneI(2) [of uleb_bad 0 0 "[0x80, 0x80, 0x80, 0x80, 0x80, 0x00, 0xb0]" BadShift] by simp
  then show ?thesis
    by (simp add: Eval_exidx_def Eval_loop.simps Decode_exidx_def with_byte_def GetByte_def DecodePrefix_10_def
        DecodePrefix_10_11_0010_def Let_def)
qed

end
