(* ===== verification/Dwarf_Memory.thy ===== *)
theory Dwarf_Memory
  imports Sleb128
begin

text \<open>
  Reading DWARF data: \<^verbatim>\<open>external/libunwindstack/DwarfMemory.cpp\<close> over the
  \<open>Memory\<close> objects of \<^verbatim>\<open>external/libunwindstack/Memory.cpp\<close>.  A memory object is
  its \<open>Read\<close>: the bytes that it copies, possibly fewer than asked for.
\<close>

section \<open>Memory objects\<close>

type_synonym memory_read = "u64 \<Rightarrow> nat \<Rightarrow> u8 list"

definition ReadFully :: "memory_read \<Rightarrow> u64 \<Rightarrow> nat \<Rightarrow> u8 list option" where
  "ReadFully mem addr n = (let bs = mem addr n in if length bs = n then Some bs else None)"

definition MemoryBuffer_Read :: "u8 list \<Rightarrow> memory_read" where
  "MemoryBuffer_Read raw addr n =
     (if unat addr \<ge> length raw then []
      else (let bytes_left = length raw - unat addr
            in take (min bytes_left n) (drop (unat addr) raw)))"

definition MemoryRange_Read :: "memory_read \<Rightarrow> u64 \<Rightarrow> u64 \<Rightarrow> u64 \<Rightarrow> memory_read" where
  "MemoryRange_Read mem range_begin range_length range_offset addr n =
     (if addr < range_offset then []
      else (let read_offset = addr - range_offset
            in if read_offset \<ge> range_length then []
               else if unat read_offset + unat range_begin \<ge> 2 ^ 64 then []
               else mem (read_offset + range_begin) (min n (unat (range_length - read_offset)))))"

lemma ReadFully_length: "ReadFully mem addr n = Some bs \<Longrightarrow> length bs = n"
  by (auto simp: ReadFully_def Let_def split: if_splits)

lemma ReadFully_MemoryBuffer:
  "0 < n \<Longrightarrow> ReadFully (MemoryBuffer_Read raw) addr n
     = (if unat addr + n \<le> length raw then Some (take n (drop (unat addr) raw)) else None)"
  by (auto simp: ReadFully_def MemoryBuffer_Read_def Let_def)

section \<open>Encodings\<close>

abbreviation (input) DW_EH_PE_omit :: u8 where "DW_EH_PE_omit \<equiv> 0xff"
abbreviation (input) DW_EH_PE_absptr :: u8 where "DW_EH_PE_absptr \<equiv> 0x00"
abbreviation (input) DW_EH_PE_uleb128 :: u8 where "DW_EH_PE_uleb128 \<equiv> 0x01"
abbreviation (input) DW_EH_PE_udata2 :: u8 where "DW_EH_PE_udata2 \<equiv> 0x02"
abbreviation (input) DW_EH_PE_udata4 :: u8 where "DW_EH_PE_udata4 \<equiv> 0x03"
abbreviation (input) DW_EH_PE_udata8 :: u8 where "DW_EH_PE_udata8 \<equiv> 0x04"
abbreviation (input) DW_EH_PE_sleb128 :: u8 where "DW_EH_PE_sleb128 \<equiv> 0x09"
abbreviation (input) DW_EH_PE_sdata2 :: u8 where "DW_EH_PE_sdata2 \<equiv> 0x0a"
abbreviation (input) DW_EH_PE_sdata4 :: u8 where "DW_EH_PE_sdata4 \<equiv> 0x0b"
abbreviation (input) DW_EH_PE_sdata8 :: u8 where "DW_EH_PE_sdata8 \<equiv> 0x0c"
abbreviation (input) DW_EH_PE_udata1 :: u8 where "DW_EH_PE_udata1 \<equiv> 0x0d"
abbreviation (input) DW_EH_PE_sdata1 :: u8 where "DW_EH_PE_sdata1 \<equiv> 0x0e"
abbreviation (input) DW_EH_PE_block :: u8 where "DW_EH_PE_block \<equiv> 0x0f"
abbreviation (input) DW_EH_PE_pcrel :: u8 where "DW_EH_PE_pcrel \<equiv> 0x10"
abbreviation (input) DW_EH_PE_textrel :: u8 where "DW_EH_PE_textrel \<equiv> 0x20"
abbreviation (input) DW_EH_PE_datarel :: u8 where "DW_EH_PE_datarel \<equiv> 0x30"
abbreviation (input) DW_EH_PE_funcrel :: u8 where "DW_EH_PE_funcrel \<equiv> 0x40"
abbreviation (input) DW_EH_PE_aligned :: u8 where "DW_EH_PE_aligned \<equiv> 0x50"

section \<open>The reader\<close>

record dwarf_memory =
  dm_memory :: memory_read
  cur_offset :: u64
  pc_offset :: u64
  data_offset :: u64
  func_offset :: u64
  text_offset :: u64

text \<open>A reader as its constructor leaves it: the four bases are unset.\<close>

definition new_dwarf_memory :: "memory_read \<Rightarrow> dwarf_memory" where
  "new_dwarf_memory mem =
     \<lparr>dm_memory = mem, cur_offset = 0, pc_offset = 0x7fffffffffffffff,
      data_offset = - 1, func_offset = - 1, text_offset = - 1\<rparr>"

definition ReadBytes :: "nat \<Rightarrow> dwarf_memory \<Rightarrow> u8 list option \<times> dwarf_memory" where
  "ReadBytes num_bytes m =
     (case ReadFully (dm_memory m) (cur_offset m) num_bytes of
        None \<Rightarrow> (None, m)
      | Some bs \<Rightarrow> (Some bs, m\<lparr>cur_offset := cur_offset m + of_nat num_bytes\<rparr>))"

definition ReadUnsigned :: "nat \<Rightarrow> dwarf_memory \<Rightarrow> u64 option \<times> dwarf_memory" where
  "ReadUnsigned num_bytes m =
     (case ReadBytes num_bytes m of (r, m') \<Rightarrow> (map_option le_word r, m'))"

definition ReadSigned :: "'s::len itself \<Rightarrow> dwarf_memory \<Rightarrow> u64 option \<times> dwarf_memory" where
  "ReadSigned t m =
     (case ReadBytes (LENGTH('s) div 8) m of
        (r, m') \<Rightarrow> (map_option (\<lambda>bs. scast (le_word bs :: 's word)) r, m'))"

text \<open>
  The \<open>do\<close> loop of both LEB128 readers: the value, the final shift and the last byte.  Shifting
  by 64 or more, which an eleventh byte does, is undefined.
\<close>

function ReadLEB128_loop ::
  "u64 \<Rightarrow> nat \<Rightarrow> dwarf_memory \<Rightarrow> fault + ((u64 \<times> nat \<times> u8) option \<times> dwarf_memory)" where
  "ReadLEB128_loop cur_value shift m =
     (case ReadBytes 1 m of
        (None, m') \<Rightarrow> Inr (None, m')
      | (Some bs, m') \<Rightarrow>
          if shift \<ge> 64 then Inl BadShift
          else (let byte = hd bs;
                    cur_value' = cur_value + push_bit shift (ucast (byte AND 0x7f))
                in if byte AND 0x80 \<noteq> 0 then ReadLEB128_loop cur_value' (shift + 7) m'
                   else Inr (Some (cur_value', shift + 7, byte), m')))"
  by pat_completeness auto
termination by (relation "measure (\<lambda>(v, shift, m). 64 - shift)") auto

declare ReadLEB128_loop.simps [simp del]

definition ReadULEB128 :: "dwarf_memory \<Rightarrow> fault + (u64 option \<times> dwarf_memory)" where
  "ReadULEB128 m =
     (case ReadLEB128_loop 0 0 m of
        Inl f \<Rightarrow> Inl f
      | Inr (r, m') \<Rightarrow> Inr (map_option fst r, m'))"

definition ReadSLEB128 :: "dwarf_memory \<Rightarrow> fault + (u64 option \<times> dwarf_memory)" where
  "ReadSLEB128 m =
     (case ReadLEB128_loop 0 0 m of
        Inl f \<Rightarrow> Inl f
      | Inr (None, m') \<Rightarrow> Inr (None, m')
      | Inr (Some (cur_value, shift, byte), m') \<Rightarrow>
          if byte AND 0x40 \<noteq> 0
          then (if shift \<ge> 64 then Inl BadShift
                else Inr (Some (cur_value OR push_bit shift (- 1)), m'))
          else Inr (Some cur_value, m'))"

definition GetEncodedSize :: "nat \<Rightarrow> u8 \<Rightarrow> nat" where
  "GetEncodedSize address_size encoding =
     (let e = encoding AND 0x0f
      in if e = DW_EH_PE_absptr then address_size
         else if e = DW_EH_PE_udata1 \<or> e = DW_EH_PE_sdata1 then 1
         else if e = DW_EH_PE_udata2 \<or> e = DW_EH_PE_sdata2 then 2
         else if e = DW_EH_PE_udata4 \<or> e = DW_EH_PE_sdata4 then 4
         else if e = DW_EH_PE_udata8 \<or> e = DW_EH_PE_sdata8 then 8
         else 0)"

definition AdjustEncodedValue :: "u8 \<Rightarrow> dwarf_memory \<Rightarrow> u64 \<Rightarrow> fault + u64 option" where
  "AdjustEncodedValue encoding m v =
     (if encoding AND 0x0f \<noteq> 0 then Inl CheckFailed
      else Inr (
        if encoding = DW_EH_PE_absptr then Some v
        else if encoding = DW_EH_PE_pcrel
        then (if pc_offset m = 0x7fffffffffffffff then None else Some (v + pc_offset m))
        else if encoding = DW_EH_PE_textrel
        then (if text_offset m = - 1 then None else Some (v + text_offset m))
        else if encoding = DW_EH_PE_datarel
        then (if data_offset m = - 1 then None else Some (v + data_offset m))
        else if encoding = DW_EH_PE_funcrel
        then (if func_offset m = - 1 then None else Some (v + func_offset m))
        else None))"

text \<open>
  \<open>ReadEncodedValue<AddressType>\<close>.  The mask \<open>-sizeof(AddressType)\<close> is a \<open>size_t\<close>, which has
  the width of an address in the builds of this program: on 32 bits it also clears the high half.
\<close>

definition ReadEncodedValue ::
  "'a::len itself \<Rightarrow> u8 \<Rightarrow> dwarf_memory \<Rightarrow> fault + (u64 option \<times> dwarf_memory)" where
  "ReadEncodedValue t encoding m =
     (let size = LENGTH('a) div 8; e = encoding AND 0x0f in
      if encoding = DW_EH_PE_omit then Inr (Some 0, m)
      else if encoding = DW_EH_PE_aligned
      then (let moved = cur_offset m + of_nat (size - 1)
            in if unat (cur_offset m) + (size - 1) \<ge> 2 ^ 64
               then Inr (None, m\<lparr>cur_offset := moved\<rparr>)
               else Inr (ReadUnsigned size
                           (m\<lparr>cur_offset := moved AND ucast (- of_nat size :: 'a word)\<rparr>)))
      else (case (if e = DW_EH_PE_absptr then Inr (ReadUnsigned size m)
                  else if e = DW_EH_PE_uleb128 then ReadULEB128 m
                  else if e = DW_EH_PE_sleb128 then ReadSLEB128 m
                  else if e = DW_EH_PE_udata1 then Inr (ReadUnsigned 1 m)
                  else if e = DW_EH_PE_sdata1 then Inr (ReadSigned TYPE(8) m)
                  else if e = DW_EH_PE_udata2 then Inr (ReadUnsigned 2 m)
                  else if e = DW_EH_PE_sdata2 then Inr (ReadSigned TYPE(16) m)
                  else if e = DW_EH_PE_udata4 then Inr (ReadUnsigned 4 m)
                  else if e = DW_EH_PE_sdata4 then Inr (ReadSigned TYPE(32) m)
                  else if e = DW_EH_PE_udata8 then Inr (ReadUnsigned 8 m)
                  else if e = DW_EH_PE_sdata8 then Inr (ReadSigned TYPE(64) m)
                  else Inr (None, m)) of
              Inl f \<Rightarrow> Inl f
            | Inr (None, m') \<Rightarrow> Inr (None, m')
            | Inr (Some v, m') \<Rightarrow>
                (case AdjustEncodedValue (encoding AND 0x70) m' v of
                   Inl f \<Rightarrow> Inl f
                 | Inr r \<Rightarrow> Inr (r, m'))))"

section \<open>Readers over a buffer\<close>

definition unread :: "u8 list \<Rightarrow> dwarf_memory \<Rightarrow> u8 list \<Rightarrow> bool" where
  "unread raw m bs \<longleftrightarrow>
     dm_memory m = MemoryBuffer_Read raw \<and> length raw < 2 ^ 64
     \<and> unat (cur_offset m) + length bs = length raw \<and> drop (unat (cur_offset m)) raw = bs"

lemma ReadBytes_unread:
  assumes "unread raw m (xs @ ys)" "xs \<noteq> []"
  shows "ReadBytes (length xs) m = (Some xs, m\<lparr>cur_offset := cur_offset m + of_nat (length xs)\<rparr>)"
    and "unread raw (m\<lparr>cur_offset := cur_offset m + of_nat (length xs)\<rparr>) ys"
    and "unat (cur_offset m + of_nat (length xs)) = unat (cur_offset m) + length xs"
proof -
  note u = assms(1) [unfolded unread_def]
  have sum: "unat (cur_offset m) + length xs < 2 ^ 64" using u by simp
  then show off: "unat (cur_offset m + of_nat (length xs)) = unat (cur_offset m) + length xs"
    by (simp add: unat_word_ariths unat_of_nat)
  show "ReadBytes (length xs) m = (Some xs, m\<lparr>cur_offset := cur_offset m + of_nat (length xs)\<rparr>)"
    using u assms(2) by (simp add: ReadBytes_def ReadFully_MemoryBuffer)
  have "drop (unat (cur_offset m) + length xs) raw = ys"
    using u by (metis append_eq_conv_conj add.commute drop_drop)
  then show "unread raw (m\<lparr>cur_offset := cur_offset m + of_nat (length xs)\<rparr>) ys"
    using u by (simp add: unread_def off)
qed

lemma ReadBytes_unread_1:
  assumes "unread raw m (b # bs)"
  shows "ReadBytes (Suc 0) m = (Some [b], m\<lparr>cur_offset := cur_offset m + 1\<rparr>)"
    and "unread raw (m\<lparr>cur_offset := cur_offset m + 1\<rparr>) bs"
    and "unat (cur_offset m + 1) = Suc (unat (cur_offset m))"
  using ReadBytes_unread [of raw m "[b]" bs] assms by simp_all

end
