(* ===== verification/Dwarf_Op.thy ===== *)
theory Dwarf_Op
  imports Dwarf_Memory "HOL-Library.Signed_Division"
begin

text \<open>
  \<open>DwarfOp\<close> of \<^verbatim>\<open>DwarfOp.cpp\<close>: the stack machine for DWARF expressions.
  The table of the operations, the handlers, \<open>Decode\<close> for one operation and \<open>Eval\<close> for
  an expression, over the readers of \<open>Dwarf_Memory\<close>.
\<close>

section \<open>The table of operations\<close>

datatype DwarfOpHandleFunc =
    OP_ILLEGAL | OP_DEREF | OP_DEREF_SIZE | OP_PUSH | OP_DUP | OP_DROP | OP_OVER | OP_PICK | OP_SWAP
  | OP_ROT | OP_ABS | OP_AND | OP_DIV | OP_MINUS | OP_MOD | OP_MUL | OP_NEG | OP_NOT | OP_OR
  | OP_PLUS | OP_PLUS_UCONST | OP_SHL | OP_SHR | OP_SHRA | OP_XOR | OP_BRA | OP_EQ | OP_GE | OP_GT
  | OP_LE | OP_LT | OP_NE | OP_SKIP | OP_LIT | OP_REG | OP_REGX | OP_BREG | OP_BREGX | OP_NOP
  | OP_NOT_IMPLEMENTED

text \<open>
  A row without its name, which only log lines use.  \<open>op_operands\<close> holds the initialisers of the
  array of two; what is missing there is zero.
\<close>

record OpCallback =
  handle_func :: DwarfOpHandleFunc
  num_required_stack_values :: nat
  num_operands :: nat
  op_operands :: "u8 list"

abbreviation (input) op_row :: "DwarfOpHandleFunc \<Rightarrow> nat \<Rightarrow> nat \<Rightarrow> u8 list \<Rightarrow> OpCallback" where
  "op_row h s n encs \<equiv> \<lparr>handle_func = h, num_required_stack_values = s, num_operands = n, op_operands = encs\<rparr>"

definition kCallbackTable_00 :: "OpCallback list" where
  "kCallbackTable_00 =
     [op_row OP_ILLEGAL 0 0 [],
      op_row OP_ILLEGAL 0 0 [],
      op_row OP_ILLEGAL 0 0 [],
      op_row OP_PUSH 0 1 [DW_EH_PE_absptr],
      op_row OP_ILLEGAL 0 0 [],
      op_row OP_ILLEGAL 0 0 [],
      op_row OP_DEREF 1 0 [],
      op_row OP_ILLEGAL 0 0 [],
      op_row OP_PUSH 0 1 [DW_EH_PE_udata1],
      op_row OP_PUSH 0 1 [DW_EH_PE_sdata1],
      op_row OP_PUSH 0 1 [DW_EH_PE_udata2],
      op_row OP_PUSH 0 1 [DW_EH_PE_sdata2],
      op_row OP_PUSH 0 1 [DW_EH_PE_udata4],
      op_row OP_PUSH 0 1 [DW_EH_PE_sdata4],
      op_row OP_PUSH 0 1 [DW_EH_PE_udata8],
      op_row OP_PUSH 0 1 [DW_EH_PE_sdata8]]"

definition kCallbackTable_10 :: "OpCallback list" where
  "kCallbackTable_10 =
     [op_row OP_PUSH 0 1 [DW_EH_PE_uleb128],
      op_row OP_PUSH 0 1 [DW_EH_PE_sleb128],
      op_row OP_DUP 1 0 [],
      op_row OP_DROP 1 0 [],
      op_row OP_OVER 2 0 [],
      op_row OP_PICK 0 1 [DW_EH_PE_udata1],
      op_row OP_SWAP 2 0 [],
      op_row OP_ROT 3 0 [],
      op_row OP_NOT_IMPLEMENTED 2 0 [],
      op_row OP_ABS 1 0 [],
      op_row OP_AND 2 0 [],
      op_row OP_DIV 2 0 [],
      op_row OP_MINUS 2 0 [],
      op_row OP_MOD 2 0 [],
      op_row OP_MUL 2 0 [],
      op_row OP_NEG 1 0 []]"

definition kCallbackTable_20 :: "OpCallback list" where
  "kCallbackTable_20 =
     [op_row OP_NOT 1 0 [],
      op_row OP_OR 2 0 [],
      op_row OP_PLUS 2 0 [],
      op_row OP_PLUS_UCONST 1 1 [DW_EH_PE_uleb128],
      op_row OP_SHL 2 0 [],
      op_row OP_SHR 2 0 [],
      op_row OP_SHRA 2 0 [],
      op_row OP_XOR 2 0 [],
      op_row OP_BRA 1 1 [DW_EH_PE_sdata2],
      op_row OP_EQ 2 0 [],
      op_row OP_GE 2 0 [],
      op_row OP_GT 2 0 [],
      op_row OP_LE 2 0 [],
      op_row OP_LT 2 0 [],
      op_row OP_NE 2 0 [],
      op_row OP_SKIP 0 1 [DW_EH_PE_sdata2]]"

definition kCallbackTable_30 :: "OpCallback list" where
  "kCallbackTable_30 =
     [op_row OP_LIT 0 0 [],
      op_row OP_LIT 0 0 [],
      op_row OP_LIT 0 0 [],
      op_row OP_LIT 0 0 [],
      op_row OP_LIT 0 0 [],
      op_row OP_LIT 0 0 [],
      op_row OP_LIT 0 0 [],
      op_row OP_LIT 0 0 [],
      op_row OP_LIT 0 0 [],
      op_row OP_LIT 0 0 [],
      op_row OP_LIT 0 0 [],
      op_row OP_LIT 0 0 [],
      op_row OP_LIT 0 0 [],
      op_row OP_LIT 0 0 [],
      op_row OP_LIT 0 0 [],
      op_row OP_LIT 0 0 []]"

definition kCallbackTable_40 :: "OpCallback list" where
  "kCallbackTable_40 =
     [op_row OP_LIT 0 0 [],
      op_row OP_LIT 0 0 [],
      op_row OP_LIT 0 0 [],
      op_row OP_LIT 0 0 [],
      op_row OP_LIT 0 0 [],
      op_row OP_LIT 0 0 [],
      op_row OP_LIT 0 0 [],
      op_row OP_LIT 0 0 [],
      op_row OP_LIT 0 0 [],
      op_row OP_LIT 0 0 [],
      op_row OP_LIT 0 0 [],
      op_row OP_LIT 0 0 [],
      op_row OP_LIT 0 0 [],
      op_row OP_LIT 0 0 [],
      op_row OP_LIT 0 0 [],
      op_row OP_LIT 0 0 []]"

definition kCallbackTable_50 :: "OpCallback list" where
  "kCallbackTable_50 =
     [op_row OP_REG 0 0 [],
      op_row OP_REG 0 0 [],
      op_row OP_REG 0 0 [],
      op_row OP_REG 0 0 [],
      op_row OP_REG 0 0 [],
      op_row OP_REG 0 0 [],
      op_row OP_REG 0 0 [],
      op_row OP_REG 0 0 [],
      op_row OP_REG 0 0 [],
      op_row OP_REG 0 0 [],
      op_row OP_REG 0 0 [],
      op_row OP_REG 0 0 [],
      op_row OP_REG 0 0 [],
      op_row OP_REG 0 0 [],
      op_row OP_REG 0 0 [],
      op_row OP_REG 0 0 []]"

definition kCallbackTable_60 :: "OpCallback list" where
  "kCallbackTable_60 =
     [op_row OP_REG 0 0 [],
      op_row OP_REG 0 0 [],
      op_row OP_REG 0 0 [],
      op_row OP_REG 0 0 [],
      op_row OP_REG 0 0 [],
      op_row OP_REG 0 0 [],
      op_row OP_REG 0 0 [],
      op_row OP_REG 0 0 [],
      op_row OP_REG 0 0 [],
      op_row OP_REG 0 0 [],
      op_row OP_REG 0 0 [],
      op_row OP_REG 0 0 [],
      op_row OP_REG 0 0 [],
      op_row OP_REG 0 0 [],
      op_row OP_REG 0 0 [],
      op_row OP_REG 0 0 []]"

definition kCallbackTable_70 :: "OpCallback list" where
  "kCallbackTable_70 =
     [op_row OP_BREG 0 1 [DW_EH_PE_sleb128],
      op_row OP_BREG 0 1 [DW_EH_PE_sleb128],
      op_row OP_BREG 0 1 [DW_EH_PE_sleb128],
      op_row OP_BREG 0 1 [DW_EH_PE_sleb128],
      op_row OP_BREG 0 1 [DW_EH_PE_sleb128],
      op_row OP_BREG 0 1 [DW_EH_PE_sleb128],
      op_row OP_BREG 0 1 [DW_EH_PE_sleb128],
      op_row OP_BREG 0 1 [DW_EH_PE_sleb128],
      op_row OP_BREG 0 1 [DW_EH_PE_sleb128],
      op_row OP_BREG 0 1 [DW_EH_PE_sleb128],
      op_row OP_BREG 0 1 [DW_EH_PE_sleb128],
      op_row OP_BREG 0 1 [DW_EH_PE_sleb128],
      op_row OP_BREG 0 1 [DW_EH_PE_sleb128],
      op_row OP_BREG 0 1 [DW_EH_PE_sleb128],
      op_row OP_BREG 0 1 [DW_EH_PE_sleb128],
      op_row OP_BREG 0 1 [DW_EH_PE_sleb128]]"

definition kCallbackTable_80 :: "OpCallback list" where
  "kCallbackTable_80 =
     [op_row OP_BREG 0 1 [DW_EH_PE_sleb128],
      op_row OP_BREG 0 1 [DW_EH_PE_sleb128],
      op_row OP_BREG 0 1 [DW_EH_PE_sleb128],
      op_row OP_BREG 0 1 [DW_EH_PE_sleb128],
      op_row OP_BREG 0 1 [DW_EH_PE_sleb128],
      op_row OP_BREG 0 1 [DW_EH_PE_sleb128],
      op_row OP_BREG 0 1 [DW_EH_PE_sleb128],
      op_row OP_BREG 0 1 [DW_EH_PE_sleb128],
      op_row OP_BREG 0 1 [DW_EH_PE_sleb128],
      op_row OP_BREG 0 1 [DW_EH_PE_sleb128],
      op_row OP_BREG 0 1 [DW_EH_PE_sleb128],
      op_row OP_BREG 0 1 [DW_EH_PE_sleb128],
      op_row OP_BREG 0 1 [DW_EH_PE_sleb128],
      op_row OP_BREG 0 1 [DW_EH_PE_sleb128],
      op_row OP_BREG 0 1 [DW_EH_PE_sleb128],
      op_row OP_BREG 0 1 [DW_EH_PE_sleb128]]"

definition kCallbackTable_90 :: "OpCallback list" where
  "kCallbackTable_90 =
     [op_row OP_REGX 0 1 [DW_EH_PE_uleb128],
      op_row OP_NOT_IMPLEMENTED 0 1 [DW_EH_PE_sleb128],
      op_row OP_BREGX 0 2 [DW_EH_PE_uleb128, DW_EH_PE_sleb128],
      op_row OP_NOT_IMPLEMENTED 0 1 [DW_EH_PE_uleb128],
      op_row OP_DEREF_SIZE 1 1 [DW_EH_PE_udata1],
      op_row OP_NOT_IMPLEMENTED 0 1 [DW_EH_PE_udata1],
      op_row OP_NOP 0 0 [],
      op_row OP_NOT_IMPLEMENTED 0 0 [],
      op_row OP_NOT_IMPLEMENTED 0 1 [DW_EH_PE_udata2],
      op_row OP_NOT_IMPLEMENTED 0 1 [DW_EH_PE_udata4],
      op_row OP_NOT_IMPLEMENTED 0 0 [],
      op_row OP_NOT_IMPLEMENTED 0 0 [],
      op_row OP_NOT_IMPLEMENTED 0 0 [],
      op_row OP_NOT_IMPLEMENTED 0 2 [DW_EH_PE_uleb128, DW_EH_PE_uleb128],
      op_row OP_NOT_IMPLEMENTED 0 1 [DW_EH_PE_uleb128],
      op_row OP_NOT_IMPLEMENTED 1 0 []]"

definition kCallbackTable_a0 :: "OpCallback list" where
  "kCallbackTable_a0 =
     [op_row OP_ILLEGAL 0 0 [],
      op_row OP_ILLEGAL 0 0 [],
      op_row OP_ILLEGAL 0 0 [],
      op_row OP_ILLEGAL 0 0 [],
      op_row OP_ILLEGAL 0 0 [],
      op_row OP_ILLEGAL 0 0 [],
      op_row OP_ILLEGAL 0 0 [],
      op_row OP_ILLEGAL 0 0 [],
      op_row OP_ILLEGAL 0 0 [],
      op_row OP_ILLEGAL 0 0 [],
      op_row OP_ILLEGAL 0 0 [],
      op_row OP_ILLEGAL 0 0 [],
      op_row OP_ILLEGAL 0 0 [],
      op_row OP_ILLEGAL 0 0 [],
      op_row OP_ILLEGAL 0 0 [],
      op_row OP_ILLEGAL 0 0 []]"

definition kCallbackTable_b0 :: "OpCallback list" where
  "kCallbackTable_b0 =
     [op_row OP_ILLEGAL 0 0 [],
      op_row OP_ILLEGAL 0 0 [],
      op_row OP_ILLEGAL 0 0 [],
      op_row OP_ILLEGAL 0 0 [],
      op_row OP_ILLEGAL 0 0 [],
      op_row OP_ILLEGAL 0 0 [],
      op_row OP_ILLEGAL 0 0 [],
      op_row OP_ILLEGAL 0 0 [],
      op_row OP_ILLEGAL 0 0 [],
      op_row OP_ILLEGAL 0 0 [],
      op_row OP_ILLEGAL 0 0 [],
      op_row OP_ILLEGAL 0 0 [],
      op_row OP_ILLEGAL 0 0 [],
      op_row OP_ILLEGAL 0 0 [],
      op_row OP_ILLEGAL 0 0 [],
      op_row OP_ILLEGAL 0 0 []]"

definition kCallbackTable_c0 :: "OpCallback list" where
  "kCallbackTable_c0 =
     [op_row OP_ILLEGAL 0 0 [],
      op_row OP_ILLEGAL 0 0 [],
      op_row OP_ILLEGAL 0 0 [],
      op_row OP_ILLEGAL 0 0 [],
      op_row OP_ILLEGAL 0 0 [],
      op_row OP_ILLEGAL 0 0 [],
      op_row OP_ILLEGAL 0 0 [],
      op_row OP_ILLEGAL 0 0 [],
      op_row OP_ILLEGAL 0 0 [],
      op_row OP_ILLEGAL 0 0 [],
      op_row OP_ILLEGAL 0 0 [],
      op_row OP_ILLEGAL 0 0 [],
      op_row OP_ILLEGAL 0 0 [],
      op_row OP_ILLEGAL 0 0 [],
      op_row OP_ILLEGAL 0 0 [],
      op_row OP_ILLEGAL 0 0 []]"

definition kCallbackTable_d0 :: "OpCallback list" where
  "kCallbackTable_d0 =
     [op_row OP_ILLEGAL 0 0 [],
      op_row OP_ILLEGAL 0 0 [],
      op_row OP_ILLEGAL 0 0 [],
      op_row OP_ILLEGAL 0 0 [],
      op_row OP_ILLEGAL 0 0 [],
      op_row OP_ILLEGAL 0 0 [],
      op_row OP_ILLEGAL 0 0 [],
      op_row OP_ILLEGAL 0 0 [],
      op_row OP_ILLEGAL 0 0 [],
      op_row OP_ILLEGAL 0 0 [],
      op_row OP_ILLEGAL 0 0 [],
      op_row OP_ILLEGAL 0 0 [],
      op_row OP_ILLEGAL 0 0 [],
      op_row OP_ILLEGAL 0 0 [],
      op_row OP_ILLEGAL 0 0 [],
      op_row OP_ILLEGAL 0 0 []]"

definition kCallbackTable_e0 :: "OpCallback list" where
  "kCallbackTable_e0 =
     [op_row OP_ILLEGAL 0 0 [],
      op_row OP_ILLEGAL 0 0 [],
      op_row OP_ILLEGAL 0 0 [],
      op_row OP_ILLEGAL 0 0 [],
      op_row OP_ILLEGAL 0 0 [],
      op_row OP_ILLEGAL 0 0 [],
      op_row OP_ILLEGAL 0 0 [],
      op_row OP_ILLEGAL 0 0 [],
      op_row OP_ILLEGAL 0 0 [],
      op_row OP_ILLEGAL 0 0 [],
      op_row OP_ILLEGAL 0 0 [],
      op_row OP_ILLEGAL 0 0 [],
      op_row OP_ILLEGAL 0 0 [],
      op_row OP_ILLEGAL 0 0 [],
      op_row OP_ILLEGAL 0 0 [],
      op_row OP_ILLEGAL 0 0 []]"

definition kCallbackTable_f0 :: "OpCallback list" where
  "kCallbackTable_f0 =
     [op_row OP_ILLEGAL 0 0 [],
      op_row OP_ILLEGAL 0 0 [],
      op_row OP_ILLEGAL 0 0 [],
      op_row OP_ILLEGAL 0 0 [],
      op_row OP_ILLEGAL 0 0 [],
      op_row OP_ILLEGAL 0 0 [],
      op_row OP_ILLEGAL 0 0 [],
      op_row OP_ILLEGAL 0 0 [],
      op_row OP_ILLEGAL 0 0 [],
      op_row OP_ILLEGAL 0 0 [],
      op_row OP_ILLEGAL 0 0 [],
      op_row OP_ILLEGAL 0 0 [],
      op_row OP_ILLEGAL 0 0 [],
      op_row OP_ILLEGAL 0 0 [],
      op_row OP_ILLEGAL 0 0 [],
      op_row OP_ILLEGAL 0 0 []]"

definition kCallbackTable :: "OpCallback list" where
  "kCallbackTable =
     kCallbackTable_00 @ kCallbackTable_10 @ kCallbackTable_20 @ kCallbackTable_30
      @ kCallbackTable_40 @ kCallbackTable_50 @ kCallbackTable_60 @ kCallbackTable_70
      @ kCallbackTable_80 @ kCallbackTable_90 @ kCallbackTable_a0 @ kCallbackTable_b0
      @ kCallbackTable_c0 @ kCallbackTable_d0 @ kCallbackTable_e0 @ kCallbackTable_f0"

section \<open>The machine\<close>

datatype DwarfErrorCode =
    DWARF_ERROR_NONE | DWARF_ERROR_MEMORY_INVALID | DWARF_ERROR_ILLEGAL_VALUE
  | DWARF_ERROR_ILLEGAL_STATE | DWARF_ERROR_STACK_INDEX_NOT_VALID | DWARF_ERROR_NOT_IMPLEMENTED
  | DWARF_ERROR_TOO_MANY_ITERATIONS | DWARF_ERROR_CFA_NOT_DEFINED | DWARF_ERROR_UNSUPPORTED_VERSION
  | DWARF_ERROR_NO_FDES | DWARF_ERROR_EXPRESSION_NOT_SUPPORT
  | DWARF_ERROR_EXPRESSION_NOT_SUPPORT_BREG | DWARF_ERROR_EXPRESSION_NOT_SUPPORT_BREGX
  | DWARF_ERROR_EXPRESSION_REACH_BREG | DWARF_ERROR_EXPRESSION_REACH_BREGX
  | DWARF_ERROR_NOT_SUPPORT

record DwarfErrorData =
  err_code :: DwarfErrorCode
  err_address :: u64

record 'a dwarf_op =
  op_memory :: dwarf_memory
  regular_memory :: memory_read
  regs_total :: u16
  reg_expression :: u16
  dex_pc_set :: bool
  is_register :: bool
  last_error :: DwarfErrorData
  cur_op :: u8
  operands :: "'a list"
  stack :: "'a list"

text \<open>What a handler returns, and the machine afterwards; or undefined behaviour.\<close>

type_synonym 'a op_result = "fault + (bool \<times> 'a dwarf_op)"

definition op_done :: "'a dwarf_op \<Rightarrow> 'a op_result" where
  "op_done s = Inr (True, s)"

definition op_fail :: "DwarfErrorCode \<Rightarrow> 'a dwarf_op \<Rightarrow> 'a op_result" where
  "op_fail e s = Inr (False, s\<lparr>last_error := (last_error s)\<lparr>err_code := e\<rparr>\<rparr>)"

definition op_fail_at :: "u64 \<Rightarrow> 'a dwarf_op \<Rightarrow> 'a op_result" where
  "op_fail_at addr s =
     Inr (False, s\<lparr>last_error := \<lparr>err_code = DWARF_ERROR_MEMORY_INVALID, err_address = addr\<rparr>\<rparr>)"

text \<open>\<open>StackPop\<close>, \<open>StackAt\<close>, \<open>OperandAt\<close> and assignments to \<open>stack_[0]\<close>; past the end they are undefined.\<close>

definition StackPop :: "'a dwarf_op \<Rightarrow> ('a \<Rightarrow> 'a dwarf_op \<Rightarrow> 'a op_result) \<Rightarrow> 'a op_result" where
  "StackPop s k =
     (case stack s of [] \<Rightarrow> Inl ReadPastEnd | v # rest \<Rightarrow> k v (s\<lparr>stack := rest\<rparr>))"

definition StackAt :: "nat \<Rightarrow> 'a dwarf_op \<Rightarrow> ('a \<Rightarrow> 'a op_result) \<Rightarrow> 'a op_result" where
  "StackAt i s k = (if i < length (stack s) then k (stack s ! i) else Inl ReadPastEnd)"

definition OperandAt :: "nat \<Rightarrow> 'a dwarf_op \<Rightarrow> ('a \<Rightarrow> 'a op_result) \<Rightarrow> 'a op_result" where
  "OperandAt i s k = (if i < length (operands s) then k (operands s ! i) else Inl ReadPastEnd)"

definition push :: "'a \<Rightarrow> 'a dwarf_op \<Rightarrow> 'a dwarf_op" where
  "push v s = s\<lparr>stack := v # stack s\<rparr>"

definition set_top :: "('a \<Rightarrow> fault + 'a) \<Rightarrow> 'a dwarf_op \<Rightarrow> 'a op_result" where
  "set_top f s =
     (case stack s of
        [] \<Rightarrow> Inl ReadPastEnd
      | v # rest \<Rightarrow> (case f v of Inl e \<Rightarrow> Inl e | Inr v' \<Rightarrow> op_done (s\<lparr>stack := v' # rest\<rparr>)))"

text \<open>\<open>AddressType top = StackPop(); stack_[0] = stack_[0] op top;\<close>\<close>

definition binary :: "('a \<Rightarrow> 'a \<Rightarrow> fault + 'a) \<Rightarrow> 'a dwarf_op \<Rightarrow> 'a op_result" where
  "binary f s = StackPop s (\<lambda>top. set_top (\<lambda>v. f v top))"

definition bool_to_dwarf_bool :: "bool \<Rightarrow> 'a::zero_neq_one" where
  "bool_to_dwarf_bool b = (if b then 1 else 0)"

section \<open>Handlers\<close>

definition op_deref :: "'a::len word dwarf_op \<Rightarrow> 'a word op_result" where
  "op_deref s =
     StackPop s (\<lambda>addr s.
       case ReadFully (regular_memory s) (ucast addr) (LENGTH('a) div 8) of
         None \<Rightarrow> op_fail_at (ucast addr) s
       | Some bs \<Rightarrow> op_done (push (le_word bs) s))"

definition op_deref_size :: "'a::len word dwarf_op \<Rightarrow> 'a word op_result" where
  "op_deref_size s =
     OperandAt 0 s (\<lambda>bytes_to_read.
       if unat bytes_to_read > LENGTH('a) div 8 \<or> bytes_to_read = 0
       then op_fail DWARF_ERROR_ILLEGAL_VALUE s
       else StackPop s (\<lambda>addr s.
              case ReadFully (regular_memory s) (ucast addr) (unat bytes_to_read) of
                None \<Rightarrow> op_fail_at (ucast addr) s
              | Some bs \<Rightarrow> op_done (push (le_word bs) s)))"

definition op_push :: "'a dwarf_op \<Rightarrow> 'a op_result" where
  "op_push s = op_done (fold push (operands s) s)"

definition op_dup :: "'a dwarf_op \<Rightarrow> 'a op_result" where
  "op_dup s = StackAt 0 s (\<lambda>v. op_done (push v s))"

definition op_drop :: "'a dwarf_op \<Rightarrow> 'a op_result" where
  "op_drop s = StackPop s (\<lambda>_. op_done)"

definition op_over :: "'a dwarf_op \<Rightarrow> 'a op_result" where
  "op_over s = StackAt 1 s (\<lambda>v. op_done (push v s))"

definition op_pick :: "'a::len word dwarf_op \<Rightarrow> 'a word op_result" where
  "op_pick s =
     OperandAt 0 s (\<lambda>index.
       if unat index > length (stack s) then op_fail DWARF_ERROR_STACK_INDEX_NOT_VALID s
       else StackAt (unat index) s (\<lambda>v. op_done (push v s)))"

definition op_swap :: "'a dwarf_op \<Rightarrow> 'a op_result" where
  "op_swap s =
     (case stack s of
        a # b # rest \<Rightarrow> op_done (s\<lparr>stack := b # a # rest\<rparr>)
      | _ \<Rightarrow> Inl ReadPastEnd)"

definition op_rot :: "'a dwarf_op \<Rightarrow> 'a op_result" where
  "op_rot s =
     (case stack s of
        a # b # c # rest \<Rightarrow> op_done (s\<lparr>stack := b # c # a # rest\<rparr>)
      | _ \<Rightarrow> Inl ReadPastEnd)"

text \<open>Signed arithmetic is undefined where it overflows: the negation of the least value.\<close>

definition negated :: "'a::len word \<Rightarrow> fault + 'a word" where
  "negated v = (if sint v = - (2 ^ (LENGTH('a) - 1)) then Inl SignedOverflow else Inr (- v))"

definition op_abs :: "'a::len word dwarf_op \<Rightarrow> 'a word op_result" where
  "op_abs s = set_top (\<lambda>v. if sint v < 0 then negated v else Inr v) s"

definition op_and :: "'a::len word dwarf_op \<Rightarrow> 'a word op_result" where
  "op_and s = binary (\<lambda>v top. Inr (v AND top)) s"

definition op_div :: "'a::len word dwarf_op \<Rightarrow> 'a word op_result" where
  "op_div s =
     StackPop s (\<lambda>top s.
       if top = 0 then op_fail DWARF_ERROR_ILLEGAL_VALUE s
       else set_top (\<lambda>v. if sint v = - (2 ^ (LENGTH('a) - 1)) \<and> sint top = - 1
                         then Inl SignedOverflow
                         else Inr (word_of_int (sint v sdiv sint top))) s)"

definition op_minus :: "'a::len word dwarf_op \<Rightarrow> 'a word op_result" where
  "op_minus s = binary (\<lambda>v top. Inr (v - top)) s"

definition op_mod :: "'a::len word dwarf_op \<Rightarrow> 'a word op_result" where
  "op_mod s =
     StackPop s (\<lambda>top s.
       if top = 0 then op_fail DWARF_ERROR_ILLEGAL_VALUE s else set_top (\<lambda>v. Inr (v mod top)) s)"

definition op_mul :: "'a::len word dwarf_op \<Rightarrow> 'a word op_result" where
  "op_mul s = binary (\<lambda>v top. Inr (v * top)) s"

definition op_neg :: "'a::len word dwarf_op \<Rightarrow> 'a word op_result" where
  "op_neg s = set_top negated s"

definition op_not :: "'a::len word dwarf_op \<Rightarrow> 'a word op_result" where
  "op_not s = set_top (\<lambda>v. Inr (NOT v)) s"

definition op_or :: "'a::len word dwarf_op \<Rightarrow> 'a word op_result" where
  "op_or s = binary (\<lambda>v top. Inr (v OR top)) s"

definition op_plus :: "'a::len word dwarf_op \<Rightarrow> 'a word op_result" where
  "op_plus s = binary (\<lambda>v top. Inr (v + top)) s"

definition op_plus_uconst :: "'a::len word dwarf_op \<Rightarrow> 'a word op_result" where
  "op_plus_uconst s = OperandAt 0 s (\<lambda>n. set_top (\<lambda>v. Inr (v + n)) s)"

text \<open>Shifts by the width of the operand or more are undefined.\<close>

definition shifted :: "(nat \<Rightarrow> 'a::len word \<Rightarrow> 'a word) \<Rightarrow> 'a word \<Rightarrow> 'a word \<Rightarrow> fault + 'a word" where
  "shifted f v n = (if unat n \<ge> LENGTH('a) then Inl BadShift else Inr (f (unat n) v))"

definition op_shl :: "'a::len word dwarf_op \<Rightarrow> 'a word op_result" where
  "op_shl s = binary (shifted push_bit) s"

definition op_shr :: "'a::len word dwarf_op \<Rightarrow> 'a word op_result" where
  "op_shr s = binary (shifted drop_bit) s"

definition op_shra :: "'a::len word dwarf_op \<Rightarrow> 'a word op_result" where
  "op_shra s = binary (shifted signed_drop_bit) s"

definition op_xor :: "'a::len word dwarf_op \<Rightarrow> 'a word op_result" where
  "op_xor s = binary (\<lambda>v top. Inr (v XOR top)) s"

definition jump :: "u64 \<Rightarrow> 'a dwarf_op \<Rightarrow> 'a dwarf_op" where
  "jump offset s = s\<lparr>op_memory := (op_memory s)\<lparr>cur_offset := offset\<rparr>\<rparr>"

text \<open>\<open>int16_t offset = static_cast<int16_t>(OperandAt(0));\<close> its sign is extended in the sum.\<close>

definition int16_offset :: "'a::len word \<Rightarrow> u64" where
  "int16_offset v = scast (ucast v :: u16)"

definition op_bra :: "'a::len word dwarf_op \<Rightarrow> 'a word op_result" where
  "op_bra s =
     StackPop s (\<lambda>top s.
       OperandAt 0 s (\<lambda>n.
         op_done (jump (if top \<noteq> 0 then cur_offset (op_memory s) + int16_offset n
                        else cur_offset (op_memory s) - int16_offset n) s)))"

definition op_eq :: "'a::len word dwarf_op \<Rightarrow> 'a word op_result" where
  "op_eq s = binary (\<lambda>v top. Inr (bool_to_dwarf_bool (v = top))) s"

definition op_ge :: "'a::len word dwarf_op \<Rightarrow> 'a word op_result" where
  "op_ge s = binary (\<lambda>v top. Inr (bool_to_dwarf_bool (v \<ge> top))) s"

definition op_gt :: "'a::len word dwarf_op \<Rightarrow> 'a word op_result" where
  "op_gt s = binary (\<lambda>v top. Inr (bool_to_dwarf_bool (v > top))) s"

definition op_le :: "'a::len word dwarf_op \<Rightarrow> 'a word op_result" where
  "op_le s = binary (\<lambda>v top. Inr (bool_to_dwarf_bool (v \<le> top))) s"

definition op_lt :: "'a::len word dwarf_op \<Rightarrow> 'a word op_result" where
  "op_lt s = binary (\<lambda>v top. Inr (bool_to_dwarf_bool (v < top))) s"

definition op_ne :: "'a::len word dwarf_op \<Rightarrow> 'a word op_result" where
  "op_ne s = binary (\<lambda>v top. Inr (bool_to_dwarf_bool (v \<noteq> top))) s"

definition op_skip :: "'a::len word dwarf_op \<Rightarrow> 'a word op_result" where
  "op_skip s = OperandAt 0 s (\<lambda>n. op_done (jump (cur_offset (op_memory s) + int16_offset n) s))"

definition op_lit :: "'a::len word dwarf_op \<Rightarrow> 'a word op_result" where
  "op_lit s = op_done (push (word_of_int (uint (cur_op s) - 0x30)) s)"

definition op_reg :: "'a::len word dwarf_op \<Rightarrow> 'a word op_result" where
  "op_reg s = op_done (push (word_of_int (uint (cur_op s) - 0x50)) (s\<lparr>is_register := True\<rparr>))"

definition op_regx :: "'a::len word dwarf_op \<Rightarrow> 'a word op_result" where
  "op_regx s = OperandAt 0 s (\<lambda>n. op_done (push n (s\<lparr>is_register := True\<rparr>)))"

text \<open>
  The registers that the unwinder keeps, by their DWARF numbers: r4, r7, r10, r11, sp, lr, pc on 32
  bits, x20, x28, x29, sp, lr, pc on 64.  \<open>arm\<close> says whether \<open>__arm__\<close> is defined.
\<close>

definition support_reg :: "bool \<Rightarrow> u16 \<Rightarrow> bool" where
  "support_reg arm reg =
     (if arm then reg = 4 \<or> reg = 7 \<or> reg = 10 \<or> reg = 11 \<or> reg = 13 \<or> reg = 14 \<or> reg = 15
      else reg = 20 \<or> reg = 28 \<or> reg = 29 \<or> reg = 31 \<or> reg = 30 \<or> reg = 32)"

definition op_breg :: "bool \<Rightarrow> 'a::len word dwarf_op \<Rightarrow> 'a word op_result" where
  "op_breg arm s =
     (let reg = (word_of_int (uint (cur_op s) - 0x70) :: u16)
      in if reg \<ge> regs_total s then op_fail DWARF_ERROR_ILLEGAL_VALUE s
         else if \<not> support_reg arm reg then op_fail DWARF_ERROR_EXPRESSION_NOT_SUPPORT s
         else OperandAt 0 s (\<lambda>n.
                op_fail DWARF_ERROR_EXPRESSION_NOT_SUPPORT_BREG ((push n s)\<lparr>reg_expression := reg\<rparr>)))"

definition op_bregx :: "bool \<Rightarrow> 'a::len word dwarf_op \<Rightarrow> 'a word op_result" where
  "op_bregx arm s =
     OperandAt 0 s (\<lambda>reg.
       if unat reg \<ge> unat (regs_total s) then op_fail DWARF_ERROR_ILLEGAL_VALUE s
       else if \<not> support_reg arm (ucast reg) then op_fail DWARF_ERROR_EXPRESSION_NOT_SUPPORT_BREGX s
       else OperandAt 1 s (\<lambda>n.
              op_fail DWARF_ERROR_EXPRESSION_REACH_BREGX ((push n s)\<lparr>reg_expression := ucast reg\<rparr>)))"

definition op_nop :: "'a dwarf_op \<Rightarrow> 'a op_result" where
  "op_nop s = op_done s"

definition op_not_implemented :: "'a dwarf_op \<Rightarrow> 'a op_result" where
  "op_not_implemented s = op_fail DWARF_ERROR_NOT_IMPLEMENTED s"

text \<open>\<open>kOpHandleFuncList\<close>; \<open>OP_ILLEGAL\<close> has the null pointer there, which \<open>Decode\<close> never calls.\<close>

definition kOpHandleFuncList :: "bool \<Rightarrow> DwarfOpHandleFunc \<Rightarrow> ('a::len word dwarf_op \<Rightarrow> 'a word op_result) option" where
  "kOpHandleFuncList arm h =
     (case h of
        OP_ILLEGAL \<Rightarrow> None
      | OP_DEREF \<Rightarrow> Some op_deref
      | OP_DEREF_SIZE \<Rightarrow> Some op_deref_size
      | OP_PUSH \<Rightarrow> Some op_push
      | OP_DUP \<Rightarrow> Some op_dup
      | OP_DROP \<Rightarrow> Some op_drop
      | OP_OVER \<Rightarrow> Some op_over
      | OP_PICK \<Rightarrow> Some op_pick
      | OP_SWAP \<Rightarrow> Some op_swap
      | OP_ROT \<Rightarrow> Some op_rot
      | OP_ABS \<Rightarrow> Some op_abs
      | OP_AND \<Rightarrow> Some op_and
      | OP_DIV \<Rightarrow> Some op_div
      | OP_MINUS \<Rightarrow> Some op_minus
      | OP_MOD \<Rightarrow> Some op_mod
      | OP_MUL \<Rightarrow> Some op_mul
      | OP_NEG \<Rightarrow> Some op_neg
      | OP_NOT \<Rightarrow> Some op_not
      | OP_OR \<Rightarrow> Some op_or
      | OP_PLUS \<Rightarrow> Some op_plus
      | OP_PLUS_UCONST \<Rightarrow> Some op_plus_uconst
      | OP_SHL \<Rightarrow> Some op_shl
      | OP_SHR \<Rightarrow> Some op_shr
      | OP_SHRA \<Rightarrow> Some op_shra
      | OP_XOR \<Rightarrow> Some op_xor
      | OP_BRA \<Rightarrow> Some op_bra
      | OP_EQ \<Rightarrow> Some op_eq
      | OP_GE \<Rightarrow> Some op_ge
      | OP_GT \<Rightarrow> Some op_gt
      | OP_LE \<Rightarrow> Some op_le
      | OP_LT \<Rightarrow> Some op_lt
      | OP_NE \<Rightarrow> Some op_ne
      | OP_SKIP \<Rightarrow> Some op_skip
      | OP_LIT \<Rightarrow> Some op_lit
      | OP_REG \<Rightarrow> Some op_reg
      | OP_REGX \<Rightarrow> Some op_regx
      | OP_BREG \<Rightarrow> Some (op_breg arm)
      | OP_BREGX \<Rightarrow> Some (op_bregx arm)
      | OP_NOP \<Rightarrow> Some op_nop
      | OP_NOT_IMPLEMENTED \<Rightarrow> Some op_not_implemented)"

section \<open>Decode and Eval\<close>

text \<open>The loop over the operands; a failed read leaves the operands read so far.\<close>

fun read_operands :: "u8 list \<Rightarrow> 'a::len word dwarf_op \<Rightarrow> 'a word op_result" where
  "read_operands [] s = op_done s"
| "read_operands (enc # encs) s =
     (case ReadEncodedValue TYPE('a) enc (op_memory s) of
        Inl f \<Rightarrow> Inl f
      | Inr (None, m) \<Rightarrow> op_fail_at (cur_offset m) (s\<lparr>op_memory := m\<rparr>)
      | Inr (Some v, m) \<Rightarrow> read_operands encs (s\<lparr>op_memory := m, operands := operands s @ [ucast v]\<rparr>))"

definition op_encodings :: "OpCallback \<Rightarrow> u8 list" where
  "op_encodings op = take (num_operands op) (op_operands op @ [0, 0])"

definition Decode :: "bool \<Rightarrow> 'a::len word dwarf_op \<Rightarrow> 'a word op_result" where
  "Decode arm self =
     (let s = self\<lparr>last_error := (last_error self)\<lparr>err_code := DWARF_ERROR_NONE\<rparr>\<rparr>
      in case ReadBytes 1 (op_memory s) of
           (None, m) \<Rightarrow> op_fail_at (cur_offset m) s
         | (Some bs, m) \<Rightarrow>
             let s = s\<lparr>op_memory := m, cur_op := hd bs\<rparr>;
                 op = kCallbackTable ! unat (cur_op s)
             in if handle_func op = OP_ILLEGAL then op_fail DWARF_ERROR_ILLEGAL_VALUE s
                else if length (stack s) < num_required_stack_values op
                then op_fail DWARF_ERROR_STACK_INDEX_NOT_VALID s
                else (case read_operands (op_encodings op) (s\<lparr>operands := []\<rparr>) of
                        Inl f \<Rightarrow> Inl f
                      | Inr (False, s) \<Rightarrow> Inr (False, s)
                      | Inr (True, s) \<Rightarrow>
                          (case kOpHandleFuncList arm (handle_func op) of
                             None \<Rightarrow> Inl ReadPastEnd
                           | Some handler \<Rightarrow> handler s)))"

text \<open>
  The loop of \<open>Eval\<close>; \<open>left\<close> is \<open>1000 - iterations\<close>, so that the test
  \<open>iterations++ == 1000\<close> succeeds when nothing is left.
\<close>

fun Eval_rest :: "bool \<Rightarrow> nat \<Rightarrow> u64 \<Rightarrow> 'a::len word dwarf_op \<Rightarrow> 'a word op_result" where
  "Eval_rest arm left stop s =
     (if cur_offset (op_memory s) < stop
      then (case Decode arm s of
              Inl f \<Rightarrow> Inl f
            | Inr (False, s) \<Rightarrow> Inr (False, s)
            | Inr (True, s) \<Rightarrow>
                (case left of
                   0 \<Rightarrow> op_fail DWARF_ERROR_TOO_MANY_ITERATIONS s
                 | Suc left' \<Rightarrow> Eval_rest arm left' stop s))
      else op_done s)"

declare Eval_rest.simps [simp del]

definition Eval_op :: "bool \<Rightarrow> u64 \<Rightarrow> u64 \<Rightarrow> 'a::len word dwarf_op \<Rightarrow> 'a word op_result" where
  "Eval_op arm start stop self =
     (let s = jump start (self\<lparr>is_register := False, stack := [], dex_pc_set := False\<rparr>)
      in if \<not> cur_offset (op_memory s) < stop then op_done s
         else (case Decode arm s of
                 Inl f \<Rightarrow> Inl f
               | Inr (False, s) \<Rightarrow> Inr (False, s)
               | Inr (True, s) \<Rightarrow>
                   let check_for_drop = (cur_op s = 0x0c \<and> last (operands s) = 0x31584544)
                   in if \<not> cur_offset (op_memory s) < stop then op_done s
                      else (case Decode arm s of
                              Inl f \<Rightarrow> Inl f
                            | Inr (False, s) \<Rightarrow> Inr (False, s)
                            | Inr (True, s) \<Rightarrow>
                                Eval_rest arm (1000 - 2) stop
                                  (if check_for_drop \<and> cur_op s = 0x13 then s\<lparr>dex_pc_set := True\<rparr> else s))))"

section \<open>The table matches the handlers\<close>

lemmas table_defs =
  kCallbackTable_00_def kCallbackTable_10_def kCallbackTable_20_def kCallbackTable_30_def
  kCallbackTable_40_def kCallbackTable_50_def kCallbackTable_60_def kCallbackTable_70_def
  kCallbackTable_80_def kCallbackTable_90_def kCallbackTable_a0_def kCallbackTable_b0_def
  kCallbackTable_c0_def kCallbackTable_d0_def kCallbackTable_e0_def kCallbackTable_f0_def

lemmas handler_defs =
  op_deref_def op_deref_size_def op_push_def op_dup_def op_drop_def op_over_def op_pick_def op_swap_def
  op_rot_def op_abs_def op_and_def op_div_def op_minus_def op_mod_def op_mul_def op_neg_def op_not_def
  op_or_def op_plus_def op_plus_uconst_def op_shl_def op_shr_def op_shra_def op_xor_def op_bra_def
  op_eq_def op_ge_def op_gt_def op_le_def op_lt_def op_ne_def op_skip_def op_lit_def op_reg_def
  op_regx_def op_breg_def op_bregx_def op_nop_def op_not_implemented_def

lemmas machine_defs = StackPop_def StackAt_def OperandAt_def set_top_def binary_def op_done_def op_fail_def op_fail_at_def

lemma length_table [simp]: "length kCallbackTable = 256"
  by (simp add: kCallbackTable_def table_defs)

text \<open>What a handler reads from the stack and from the operands.\<close>

definition stack_use :: "DwarfOpHandleFunc \<Rightarrow> nat" where
  "stack_use h =
     (if h \<in> {OP_DEREF, OP_DEREF_SIZE, OP_DUP, OP_DROP, OP_ABS, OP_NEG, OP_NOT, OP_PLUS_UCONST, OP_BRA} then 1
      else if h \<in> {OP_OVER, OP_SWAP, OP_AND, OP_DIV, OP_MINUS, OP_MOD, OP_MUL, OP_OR, OP_PLUS, OP_SHL,
                   OP_SHR, OP_SHRA, OP_XOR, OP_EQ, OP_GE, OP_GT, OP_LE, OP_LT, OP_NE} then 2
      else if h = OP_ROT then 3 else 0)"

definition operand_use :: "DwarfOpHandleFunc \<Rightarrow> nat" where
  "operand_use h =
     (if h \<in> {OP_DEREF_SIZE, OP_PICK, OP_PLUS_UCONST, OP_BRA, OP_SKIP, OP_REGX, OP_BREG} then 1
      else if h = OP_BREGX then 2 else 0)"

definition row_ok :: "OpCallback \<Rightarrow> bool" where
  "row_ok op \<longleftrightarrow>
     stack_use (handle_func op) \<le> num_required_stack_values op
     \<and> operand_use (handle_func op) \<le> num_operands op \<and> num_operands op \<le> 2
     \<and> set (op_encodings op) \<subseteq> {DW_EH_PE_absptr, DW_EH_PE_uleb128, DW_EH_PE_sleb128, DW_EH_PE_udata1,
         DW_EH_PE_sdata1, DW_EH_PE_udata2, DW_EH_PE_sdata2, DW_EH_PE_udata4, DW_EH_PE_sdata4,
         DW_EH_PE_udata8, DW_EH_PE_sdata8}"

lemma table_rows_ok: "list_all row_ok kCallbackTable"
  unfolding kCallbackTable_def list_all_append
  by (intro conjI; simp add: table_defs row_ok_def stack_use_def operand_use_def op_encodings_def)

lemma table_row_ok: "row_ok (kCallbackTable ! unat (b::u8))"
proof -
  have "unat b < 256" by (rule unat_u8_less)
  then show ?thesis using table_rows_ok by (simp add: list_all_length)
qed

lemma only_pick:
  "i < 256 \<Longrightarrow> handle_func (kCallbackTable ! i) = OP_PICK \<longleftrightarrow> i = 0x15"
proof -
  have "map (\<lambda>op. handle_func op = OP_PICK) kCallbackTable = (replicate 256 False)[0x15 := True]"
    by (simp add: kCallbackTable_def table_defs numeral_nat)
  then have eq: "map (\<lambda>op. handle_func op = OP_PICK) kCallbackTable ! i = (replicate 256 False)[0x15 := True] ! i"
    by (rule arg_cong)
  assume i: "i < 256"
  then have "map (\<lambda>op. handle_func op = OP_PICK) kCallbackTable ! i = (handle_func (kCallbackTable ! i) = OP_PICK)"
    by (simp only: nth_map length_table)
  moreover have "(replicate 256 False)[0x15 := True] ! i \<longleftrightarrow> i = 0x15"
    using i by (cases "i = 0x15") (simp_all only: nth_list_update_eq nth_list_update_neq length_replicate
        nth_replicate not_sym simp_thms)
  ultimately show "handle_func (kCallbackTable ! i) = OP_PICK \<longleftrightarrow> i = 0x15" using eq by simp
qed

text \<open>A handler that finds what it uses never reads past the end, \<open>DW_OP_pick\<close> apart.\<close>

lemma handler_inside:
  assumes "kOpHandleFuncList arm h = Some f" "stack_use h \<le> length (stack s)"
    and "operand_use h \<le> length (operands s)" "h \<noteq> OP_PICK"
  shows "f s \<noteq> Inl ReadPastEnd \<and> f s \<noteq> Inl CheckFailed \<and> f s \<noteq> Inl Uninitialised"
  using assms
  by (cases h) (auto simp: kOpHandleFuncList_def handler_defs machine_defs stack_use_def operand_use_def
      negated_def shifted_def Suc_le_length_iff numeral_2_eq_2 numeral_3_eq_3 Let_def split: option.splits sum.splits if_splits)

lemma unat_numeral_u8: "unat (b::u8) = numeral n \<Longrightarrow> b = numeral n"
  by (drule arg_cong [where f = "of_nat :: nat \<Rightarrow> u8"]) simp

section \<open>Reading operands\<close>

lemma ReadLEB128_loop_fault: "ReadLEB128_loop v shift m = Inl f \<Longrightarrow> f = BadShift"
  by (induction v shift m rule: ReadLEB128_loop.induct)
    (subst (asm) ReadLEB128_loop.simps, auto simp: Let_def split: prod.splits option.splits if_splits)

lemma ReadEncodedValue_fault: "ReadEncodedValue t enc m = Inl f \<Longrightarrow> f = BadShift"
proof -
  have "(enc AND 0x70) AND 0x0f = 0" by (simp add: and.assoc)
  then have adjust: "AdjustEncodedValue (enc AND 0x70) m' v \<noteq> Inl f" for m' v
    by (simp add: AdjustEncodedValue_def)
  have leb: "ReadULEB128 m = Inl f \<Longrightarrow> f = BadShift" "ReadSLEB128 m = Inl f \<Longrightarrow> f = BadShift"
    by (auto simp: ReadULEB128_def ReadSLEB128_def dest: ReadLEB128_loop_fault split: sum.splits option.splits if_splits)
  show "ReadEncodedValue t enc m = Inl f \<Longrightarrow> ?thesis"
    by (auto simp: ReadEncodedValue_def Let_def adjust dest: leb split: sum.splits option.splits if_splits)
qed

lemma read_operands_fault: "read_operands encs s = Inl f \<Longrightarrow> f = BadShift"
  by (induction encs s rule: read_operands.induct)
    (auto simp: op_done_def op_fail_at_def dest: ReadEncodedValue_fault split: sum.splits prod.splits option.splits)

lemma read_operands_result:
  "read_operands encs s = Inr (True, s') \<Longrightarrow>
     length (operands s') = length (operands s) + length encs \<and> stack s' = stack s
     \<and> cur_op s' = cur_op s \<and> regs_total s' = regs_total s \<and> dex_pc_set s' = dex_pc_set s
     \<and> is_register s' = is_register s \<and> regular_memory s' = regular_memory s"
  by (induction encs s rule: read_operands.induct)
    (auto simp: op_done_def op_fail_at_def split: sum.splits prod.splits option.splits)

lemma length_op_encodings: "row_ok op \<Longrightarrow> length (op_encodings op) = num_operands op"
  by (auto simp: row_ok_def op_encodings_def min_def)

text \<open>\<open>DW_OP_pick\<close> reads one byte.\<close>

lemma table_pick:
  "kCallbackTable ! 0x15 = \<lparr>handle_func = OP_PICK, num_required_stack_values = 0, num_operands = 1, op_operands = [DW_EH_PE_udata1]\<rparr>"
  by (simp add: kCallbackTable_def table_defs)

lemma le_word_byte: "le_word [b] = ucast b"
  by (simp add: le_word_def)

lemma ReadBytes_1: "ReadBytes 1 m = (Some bs, m') \<Longrightarrow> bs = [hd bs]"
  by (auto simp: ReadBytes_def length_Suc_conv dest!: ReadFully_length split: option.splits)

lemma ReadBytes_byte: "ReadBytes (Suc 0) m = (Some bs, m') \<Longrightarrow> \<exists>b. bs = [b]"
  using ReadBytes_1 [of m bs m'] by (metis One_nat_def)

lemma read_udata1:
  "ReadEncodedValue TYPE('a::len) DW_EH_PE_udata1 m
     = Inr (case ReadBytes 1 m of (r, m') \<Rightarrow> (map_option (\<lambda>bs. ucast (hd bs)) r, m'))"
  using ReadBytes_1 [of m]
  by (cases "ReadBytes 1 m", cases "fst (ReadBytes 1 m)")
    (auto simp: ReadEncodedValue_def ReadUnsigned_def AdjustEncodedValue_def,
     metis le_word_byte)

text \<open>A machine as \<open>EvalExpression\<close> sets it up; \<open>cur_op_\<close> is not initialised before \<open>Decode\<close> writes it.\<close>

definition new_dwarf_op :: "dwarf_memory \<Rightarrow> memory_read \<Rightarrow> u16 \<Rightarrow> 'a dwarf_op" where
  "new_dwarf_op m regular num_regs =
     \<lparr>op_memory = m, regular_memory = regular, regs_total = num_regs, reg_expression = 0, dex_pc_set = False,
      is_register = False, last_error = \<lparr>err_code = DWARF_ERROR_NONE, err_address = 0\<rparr>, cur_op = 0,
      operands = [], stack = []\<rparr>"

text \<open>
  The table's column of required stack values protects the handlers.  Decoding an operation reads
  past the end of the stack or of the operands in exactly one case: \<open>DW_OP_pick\<close> with an index
  equal to the size of the stack, which the test \<open>index > StackSize()\<close> lets through.
\<close>

theorem only_pick_reads_past_end:
  fixes s :: "'a::len word dwarf_op"
  assumes "8 \<le> LENGTH('a)"
  shows "Decode arm s = Inl ReadPastEnd \<longleftrightarrow>
     (\<exists>m index m'. ReadBytes 1 (op_memory s) = (Some [0x15], m) \<and> ReadBytes 1 m = (Some [index], m')
        \<and> unat index = length (stack s))"
proof -
  have idx: "unat (ucast (ucast index :: u64) :: 'a word) = unat index" for index :: u8
  proof -
    have "unat index < 2 ^ LENGTH('a)"
      using assms unat_u8_less [of index] power_increasing [of 8 "LENGTH('a)" "2::nat"] by simp
    moreover have "unat (ucast index :: u64) = unat index"
      using unat_u8_less [of index] by (simp add: unsigned_ucast_eq take_bit_nat_eq_self)
    moreover have "unat (ucast (ucast index :: u64) :: 'a word) = take_bit LENGTH('a) (unat (ucast index :: u64))"
      by (rule unsigned_ucast_eq)
    ultimately show ?thesis by (simp only: take_bit_nat_eq_self)
  qed
  show ?thesis
  proof (cases "\<exists>b m. ReadBytes 1 (op_memory s) = (Some [b], m)")
    case False
    then have "fst (ReadBytes 1 (op_memory s)) = None"
      by (cases "ReadBytes 1 (op_memory s)", cases "fst (ReadBytes 1 (op_memory s))") (auto dest: ReadBytes_byte)
    then show ?thesis
      by (cases "ReadBytes 1 (op_memory s)") (simp add: Decode_def Let_def op_fail_at_def)
  next
    case True
    then obtain b m where b: "ReadBytes 1 (op_memory s) = (Some [b], m)" by blast
    show ?thesis
    proof (cases "b = 0x15")
      case True
      then show ?thesis
        using b idx
        by (cases "ReadBytes 1 m", cases "fst (ReadBytes 1 m)")
          (auto simp: Decode_def Let_def table_pick op_encodings_def read_udata1 kOpHandleFuncList_def
            op_pick_def op_done_def op_fail_def op_fail_at_def OperandAt_def StackAt_def dest: ReadBytes_byte)
    next
      case False
      let ?op = "kCallbackTable ! unat b"
      have "unat b \<noteq> 0x15" using False unat_numeral_u8 [of b "num.Bit1 (num.Bit0 (num.Bit1 (num.Bit0 num.One)))"] by auto
      then have no_pick: "handle_func ?op \<noteq> OP_PICK" using only_pick [OF unat_u8_less, of b] by simp
      have "Decode arm s \<noteq> Inl ReadPastEnd"
      proof
        assume "Decode arm s = Inl ReadPastEnd"
        then obtain s' where legal: "handle_func ?op \<noteq> OP_ILLEGAL"
          and enough: "num_required_stack_values ?op \<le> length (stack s)"
          and rd: "read_operands (op_encodings ?op)
                     (s\<lparr>last_error := (last_error s)\<lparr>err_code := DWARF_ERROR_NONE\<rparr>,
                        op_memory := m, cur_op := b, operands := []\<rparr>) = Inr (True, s')"
          and stop: "(case kOpHandleFuncList arm (handle_func ?op) of
                       None \<Rightarrow> Inl ReadPastEnd | Some handler \<Rightarrow> handler s') = Inl ReadPastEnd"
          using b
          by (simp add: Decode_def Let_def op_fail_def not_less split: if_splits sum.splits bool.splits prod.splits)
            (auto dest: read_operands_fault)
        note after = read_operands_result [OF rd]
        obtain f :: "'a word dwarf_op \<Rightarrow> 'a word op_result" where f: "kOpHandleFuncList arm (handle_func ?op) = Some f"
          using legal by (cases "handle_func ?op") (auto simp: kOpHandleFuncList_def)
        have "stack_use (handle_func ?op) \<le> length (stack s')" "operand_use (handle_func ?op) \<le> length (operands s')"
          using table_row_ok [of b] enough after by (simp_all add: row_ok_def length_op_encodings table_row_ok)
        from handler_inside [OF f this no_pick] stop f show False by simp
      qed
      then show ?thesis using b False by auto
    qed
  qed
qed

theorem only_pick_reads_past_end_witness:
  "Decode True (new_dwarf_op (new_dwarf_memory (MemoryBuffer_Read [0x15, 0x00])) (\<lambda>_ _. []) 16 :: u32 dwarf_op)
     = Inl ReadPastEnd"
  by (subst only_pick_reads_past_end)
    (simp_all add: new_dwarf_op_def new_dwarf_memory_def ReadBytes_def ReadFully_MemoryBuffer)

end
