(* ===== verification/Dwarf_Expressions.thy ===== *)
theory Dwarf_Expressions
  imports Dwarf_Op
begin

text \<open>
  What \<open>DwarfOp::Eval\<close> computes: expressions over literals, memory and the arithmetic
  operations have a value, their code is the usual postfix form, and evaluating the code leaves
  exactly that value.  Also the cut of endless expressions, and what the code does after a branch
  that is not taken.
\<close>

section \<open>Expressions and their values\<close>

datatype binop =
    And | Div | Minus | Mod | Mul | Or | Plus | Shl | Shr | Shra | Xor | Eq | Ge | Gt | Le | Lt | Ne

datatype unop = Abs | Neg | Not | Deref

datatype expr = Lit nat | Const8u u64 | Unary unop expr | Binary binop expr expr

fun bin_byte :: "binop \<Rightarrow> u8" where
  "bin_byte And = 0x1a" | "bin_byte Div = 0x1b" | "bin_byte Minus = 0x1c" | "bin_byte Mod = 0x1d"
| "bin_byte Mul = 0x1e" | "bin_byte Or = 0x21" | "bin_byte Plus = 0x22" | "bin_byte Shl = 0x24"
| "bin_byte Shr = 0x25" | "bin_byte Shra = 0x26" | "bin_byte Xor = 0x27" | "bin_byte Eq = 0x29"
| "bin_byte Ge = 0x2a" | "bin_byte Gt = 0x2b" | "bin_byte Le = 0x2c" | "bin_byte Lt = 0x2d"
| "bin_byte Ne = 0x2e"

fun un_byte :: "unop \<Rightarrow> u8" where
  "un_byte Abs = 0x19" | "un_byte Neg = 0x1f" | "un_byte Not = 0x20" | "un_byte Deref = 0x06"

fun code :: "expr \<Rightarrow> u8 list" where
  "code (Lit n) = [0x30 + of_nat n]"
| "code (Const8u v) = 0x0e # le_bytes 8 v"
| "code (Unary f e) = code e @ [un_byte f]"
| "code (Binary f e1 e2) = code e1 @ code e2 @ [bin_byte f]"

fun operations :: "expr \<Rightarrow> nat" where
  "operations (Lit n) = 1"
| "operations (Const8u v) = 1"
| "operations (Unary f e) = operations e + 1"
| "operations (Binary f e1 e2) = operations e1 + operations e2 + 1"

text \<open>Values are words of the address size; \<open>None\<close> where an operation is refused or undefined.\<close>

fun bin_value :: "binop \<Rightarrow> 'a::len word \<Rightarrow> 'a word \<Rightarrow> 'a word option" where
  "bin_value And x y = Some (x AND y)"
| "bin_value Div x y =
     (if y = 0 \<or> sint x = - (2 ^ (LENGTH('a) - 1)) \<and> sint y = - 1 then None
      else Some (word_of_int (sint x sdiv sint y)))"
| "bin_value Minus x y = Some (x - y)"
| "bin_value Mod x y = (if y = 0 then None else Some (x mod y))"
| "bin_value Mul x y = Some (x * y)"
| "bin_value Or x y = Some (x OR y)"
| "bin_value Plus x y = Some (x + y)"
| "bin_value Shl x y = (if unat y < LENGTH('a) then Some (push_bit (unat y) x) else None)"
| "bin_value Shr x y = (if unat y < LENGTH('a) then Some (drop_bit (unat y) x) else None)"
| "bin_value Shra x y = (if unat y < LENGTH('a) then Some (signed_drop_bit (unat y) x) else None)"
| "bin_value Xor x y = Some (x XOR y)"
| "bin_value Eq x y = Some (if x = y then 1 else 0)"
| "bin_value Ge x y = Some (if x \<ge> y then 1 else 0)"
| "bin_value Gt x y = Some (if x > y then 1 else 0)"
| "bin_value Le x y = Some (if x \<le> y then 1 else 0)"
| "bin_value Lt x y = Some (if x < y then 1 else 0)"
| "bin_value Ne x y = Some (if x \<noteq> y then 1 else 0)"

fun un_value :: "memory_read \<Rightarrow> unop \<Rightarrow> 'a::len word \<Rightarrow> 'a word option" where
  "un_value mem Abs x = (if sint x = - (2 ^ (LENGTH('a) - 1)) then None else Some (word_of_int \<bar>sint x\<bar>))"
| "un_value mem Neg x = (if sint x = - (2 ^ (LENGTH('a) - 1)) then None else Some (- x))"
| "un_value mem Not x = Some (NOT x)"
| "un_value mem Deref x = map_option le_word (ReadFully mem (ucast x) (LENGTH('a) div 8))"

fun expr_value :: "memory_read \<Rightarrow> expr \<Rightarrow> 'a::len word option" where
  "expr_value mem (Lit n) = (if n < 32 then Some (of_nat n) else None)"
| "expr_value mem (Const8u v) = Some (ucast v)"
| "expr_value mem (Unary f e) = Option.bind (expr_value mem e) (un_value mem f)"
| "expr_value mem (Binary f e1 e2) =
     Option.bind (expr_value mem e1) (\<lambda>x. Option.bind (expr_value mem e2) (bin_value f x))"

section \<open>One operation\<close>

text \<open>The handler runs on the state behind the opcode byte; rows without operands.\<close>

lemma Decode_plain:
  assumes "unread raw (op_memory s) (b # bs)"
    and "kCallbackTable ! unat b = \<lparr>handle_func = h, num_required_stack_values = k, num_operands = 0, op_operands = []\<rparr>"
    and "kOpHandleFuncList arm h = Some f" "k \<le> length (stack s)"
  shows "Decode arm s =
     f (s\<lparr>last_error := (last_error s)\<lparr>err_code := DWARF_ERROR_NONE\<rparr>,
          op_memory := (op_memory s)\<lparr>cur_offset := cur_offset (op_memory s) + 1\<rparr>, cur_op := b, operands := []\<rparr>)"
  using assms(2-4) ReadBytes_unread_1 [OF assms(1)]
  by (auto simp: Decode_def Let_def op_encodings_def op_done_def kOpHandleFuncList_def)

lemma bin_row:
  "\<exists>h. kCallbackTable ! unat (bin_byte f) =
       \<lparr>handle_func = h, num_required_stack_values = 2, num_operands = 0, op_operands = []\<rparr>
     \<and> (\<exists>g. kOpHandleFuncList arm h = Some g
          \<and> (\<forall>s x y rest v. stack s = y # x # rest \<longrightarrow> bin_value f x y = Some v \<longrightarrow>
               g s = op_done (s\<lparr>stack := v # rest\<rparr>)))"
  by (cases f; simp add: kCallbackTable_def table_defs kOpHandleFuncList_def handler_defs machine_defs
      shifted_def bool_to_dwarf_bool_def)

lemma un_row:
  "\<exists>h. kCallbackTable ! unat (un_byte f) =
       \<lparr>handle_func = h, num_required_stack_values = 1, num_operands = 0, op_operands = []\<rparr>
     \<and> (\<exists>g. kOpHandleFuncList arm h = Some g
          \<and> (\<forall>s x rest v. stack s = x # rest \<longrightarrow> un_value (regular_memory s) f x = Some v \<longrightarrow>
               g s = op_done (s\<lparr>stack := v # rest\<rparr>)))"
  by (cases f; auto simp add: kCallbackTable_def table_defs kOpHandleFuncList_def handler_defs machine_defs
      negated_def push_def wi_hom_neg [symmetric] split: option.splits)

lemma nth_replicate_append: "n < m \<Longrightarrow> length A = k \<Longrightarrow> (A @ replicate m x @ B) ! (k + n) = x"
  by (auto simp: nth_append)

lemma le_bytes_Nil [simp]: "le_bytes n w = [] \<longleftrightarrow> n = 0"
  by (simp add: le_bytes_def)

lemma lit_rows: "n < 32 \<Longrightarrow> kCallbackTable ! (0x30 + n)
    = \<lparr>handle_func = OP_LIT, num_required_stack_values = 0, num_operands = 0, op_operands = []\<rparr>"
proof -
  have "kCallbackTable = (kCallbackTable_00 @ kCallbackTable_10 @ kCallbackTable_20)
      @ (kCallbackTable_30 @ kCallbackTable_40)
      @ (kCallbackTable_50 @ kCallbackTable_60 @ kCallbackTable_70 @ kCallbackTable_80 @ kCallbackTable_90
         @ kCallbackTable_a0 @ kCallbackTable_b0 @ kCallbackTable_c0 @ kCallbackTable_d0 @ kCallbackTable_e0
         @ kCallbackTable_f0)"
    by (simp add: kCallbackTable_def)
  moreover have "length (kCallbackTable_00 @ kCallbackTable_10 @ kCallbackTable_20) = 0x30"
    by (simp add: table_defs)
  moreover have "kCallbackTable_30 @ kCallbackTable_40
      = replicate 32 \<lparr>handle_func = OP_LIT, num_required_stack_values = 0, num_operands = 0, op_operands = []\<rparr>"
    by (simp add: table_defs numeral_nat)
  moreover assume "n < 32"
  ultimately show ?thesis using nth_replicate_append by metis
qed

lemma const8u_row: "kCallbackTable ! 0x0e
    = \<lparr>handle_func = OP_PUSH, num_required_stack_values = 0, num_operands = 1, op_operands = [DW_EH_PE_udata8]\<rparr>"
  by (simp add: kCallbackTable_def table_defs)

lemma read_udata8:
  assumes "unread raw m (le_bytes 8 (v::u64) @ bs)"
  shows "ReadEncodedValue TYPE('a::len) DW_EH_PE_udata8 m = Inr (Some v, m\<lparr>cur_offset := cur_offset m + 8\<rparr>)"
proof -
  have "ReadUnsigned 8 m = (Some v, m\<lparr>cur_offset := cur_offset m + 8\<rparr>)"
    using ReadBytes_unread(1) [OF assms] by (simp add: ReadUnsigned_def le_word_le_bytes take_bit_word_eq_self)
  then show ?thesis by (simp add: ReadEncodedValue_def AdjustEncodedValue_def)
qed

text \<open>
  The state after code that has pushed \<open>v\<close>, with \<open>rest\<close> left to read: nothing else that matters has
  changed.
\<close>

definition pushed_value ::
  "u8 list \<Rightarrow> 'a dwarf_op \<Rightarrow> 'a \<Rightarrow> nat \<Rightarrow> u8 list \<Rightarrow> 'a dwarf_op \<Rightarrow> bool" where
  "pushed_value raw s v n rest s' \<longleftrightarrow>
     stack s' = v # stack s \<and> unread raw (op_memory s') rest
     \<and> unat (cur_offset (op_memory s')) = unat (cur_offset (op_memory s)) + n
     \<and> regular_memory s' = regular_memory s \<and> is_register s' = is_register s
     \<and> dex_pc_set s' = dex_pc_set s"

lemma Decode_lit:
  fixes s :: "'a::len word dwarf_op"
  assumes "unread raw (op_memory s) ((0x30 + of_nat n) # bs)" "n < 32"
  shows "\<exists>s'. Decode arm s = op_done s' \<and> pushed_value raw s (of_nat n) 1 bs s'"
proof -
  have b: "unat (0x30 + of_nat n :: u8) = 0x30 + n"
    using assms(2) by (simp add: unat_word_ariths unat_of_nat)
  have "uint (0x30 + of_nat n :: u8) = 0x30 + int n"
    using b by (metis of_nat_add of_nat_numeral uint_nat)
  then show ?thesis
    using Decode_plain [OF assms(1) lit_rows [OF assms(2), folded b], of arm op_lit]
      ReadBytes_unread_1 [OF assms(1)]
    by (simp add: kOpHandleFuncList_def op_lit_def pushed_value_def push_def op_done_def)
qed

lemma Decode_const8u:
  fixes s :: "'a::len word dwarf_op"
  assumes "unread raw (op_memory s) (0x0e # le_bytes 8 (v::u64) @ bs)"
  shows "\<exists>s'. Decode arm s = op_done s' \<and> pushed_value raw s (ucast v) 9 bs s'"
proof -
  note one = ReadBytes_unread_1 [OF assms]
  note eight = read_udata8 [OF one(2), where 'a = 'a] ReadBytes_unread [OF one(2)]
  show ?thesis
    using eight one
    by (simp add: Decode_def Let_def const8u_row op_encodings_def kOpHandleFuncList_def op_push_def
        op_done_def pushed_value_def push_def)
qed

lemma Decode_bin:
  fixes s :: "'a::len word dwarf_op"
  assumes "unread raw (op_memory s) (bin_byte f # bs)" "stack s = y # x # rest" "bin_value f x y = Some v"
  shows "\<exists>s'. Decode arm s = op_done s' \<and> pushed_value raw (s\<lparr>stack := rest\<rparr>) v 1 bs s'"
proof -
  from bin_row [of f arm] obtain h and g :: "'a word dwarf_op \<Rightarrow> 'a word op_result" where
    row: "kCallbackTable ! unat (bin_byte f) =
       \<lparr>handle_func = h, num_required_stack_values = 2, num_operands = 0, op_operands = []\<rparr>"
    and g: "kOpHandleFuncList arm h = Some g"
      "\<And>s x y rest v. stack s = y # x # rest \<Longrightarrow> bin_value f x y = Some v \<Longrightarrow>
               g s = op_done (s\<lparr>stack := v # rest\<rparr>)" by blast
  show ?thesis
    using Decode_plain [OF assms(1) row g(1)] assms(2,3) ReadBytes_unread_1 [OF assms(1)]
    by (simp add: g(2) pushed_value_def op_done_def)
qed

lemma Decode_un:
  fixes s :: "'a::len word dwarf_op"
  assumes "unread raw (op_memory s) (un_byte f # bs)" "stack s = x # rest"
    and "un_value (regular_memory s) f x = Some v"
  shows "\<exists>s'. Decode arm s = op_done s' \<and> pushed_value raw (s\<lparr>stack := rest\<rparr>) v 1 bs s'"
proof -
  from un_row [of f arm] obtain h and g :: "'a word dwarf_op \<Rightarrow> 'a word op_result" where
    row: "kCallbackTable ! unat (un_byte f) =
       \<lparr>handle_func = h, num_required_stack_values = 1, num_operands = 0, op_operands = []\<rparr>"
    and g: "kOpHandleFuncList arm h = Some g"
      "\<And>s x rest v. stack s = x # rest \<Longrightarrow> un_value (regular_memory s) f x = Some v \<Longrightarrow>
               g s = op_done (s\<lparr>stack := v # rest\<rparr>)" by blast
  show ?thesis
    using Decode_plain [OF assms(1) row g(1)] assms(2,3) ReadBytes_unread_1 [OF assms(1)]
    by (simp add: g(2) pushed_value_def op_done_def)
qed

section \<open>Evaluation\<close>

lemma Eval_rest_Suc:
  "Eval_rest arm (Suc left) stop s =
     (if cur_offset (op_memory s) < stop
      then (case Decode arm s of
              Inl f \<Rightarrow> Inl f
            | Inr (go_on, s') \<Rightarrow> if go_on then Eval_rest arm left stop s' else Inr (False, s'))
      else op_done s)"
  by (subst Eval_rest.simps) (auto split: sum.splits)

lemma Eval_rest_step:
  assumes "Decode arm s = op_done s'" "cur_offset (op_memory s) < stop"
  shows "Eval_rest arm (Suc left) stop s = Eval_rest arm left stop s'"
  using assms by (subst Eval_rest.simps) (simp add: op_done_def)

lemma pushed_value_trans:
  assumes "pushed_value raw s v n bs s1" "pushed_value raw (s1\<lparr>stack := t\<rparr>) w k cs s2"
  shows "pushed_value raw (s\<lparr>stack := t\<rparr>) w (n + k) cs s2"
  using assms by (auto simp: pushed_value_def)

lemma pushed_value_offset:
  assumes "pushed_value raw s v n (b # bs) s'" "unat (cur_offset (op_memory s)) + n < unat stop"
  shows "cur_offset (op_memory s') < stop"
  using assms by (simp add: pushed_value_def word_less_nat_alt)

lemma length_code: "0 < length (code e)"
  by (induction e) simp_all

lemma Eval_rest_code:
  fixes s :: "'a::len word dwarf_op"
  assumes "unread raw (op_memory s) (code e @ rest)" "expr_value (regular_memory s) e = Some v"
    and "unat (cur_offset (op_memory s)) + length (code e) \<le> unat stop"
  shows "\<exists>s'. Eval_rest arm (operations e + left) stop s = Eval_rest arm left stop s'
           \<and> pushed_value raw s v (length (code e)) rest s'"
  using assms
proof (induction e arbitrary: s v rest left)
  case (Lit n)
  then have "n < 32" "v = of_nat n" by (auto split: if_splits)
  with Lit Decode_lit [of raw s n rest arm] show ?case
    by (auto simp: word_less_nat_alt Eval_rest_step)
next
  case (Const8u c)
  from Decode_const8u [of raw s c rest arm] Const8u show ?case
    by (auto simp: word_less_nat_alt Eval_rest_step)
next
  case (Unary f e)
  obtain x where x: "expr_value (regular_memory s) e = Some x" "un_value (regular_memory s) f x = Some v"
    using Unary.prems(2) by (auto simp: bind_eq_Some_conv)
  obtain s1 where s1: "Eval_rest arm (operations e + Suc left) stop s = Eval_rest arm (Suc left) stop s1"
    "pushed_value raw s x (length (code e)) (un_byte f # rest) s1"
    using Unary.IH [of s "un_byte f # rest" x "Suc left"] Unary.prems x by auto
  have r: "regular_memory s1 = regular_memory s" "stack s1 = x # stack s" "unread raw (op_memory s1) (un_byte f # rest)"
    using s1(2) by (simp_all add: pushed_value_def)
  obtain s2 where s2: "Decode arm s1 = op_done s2" "pushed_value raw (s1\<lparr>stack := stack s\<rparr>) v 1 rest s2"
    using Decode_un [OF r(3,2), of v arm] x(2) r(1) by auto
  have "cur_offset (op_memory s1) < stop"
    using pushed_value_offset [OF s1(2)] Unary.prems(3) by simp
  then show ?case
    using Eval_rest_step [OF s2(1), of stop left] s1(1) pushed_value_trans [OF s1(2) s2(2)] by auto
next
  case (Binary f e1 e2)
  obtain x y where xy: "expr_value (regular_memory s) e1 = Some x" "expr_value (regular_memory s) e2 = Some y"
    "bin_value f x y = Some v"
    using Binary.prems(2) by (auto simp: bind_eq_Some_conv)
  obtain s1 where s1: "Eval_rest arm (operations e1 + (operations e2 + Suc left)) stop s
      = Eval_rest arm (operations e2 + Suc left) stop s1"
    "pushed_value raw s x (length (code e1)) (code e2 @ bin_byte f # rest) s1"
    using Binary.IH(1) [of s "code e2 @ bin_byte f # rest" x "operations e2 + Suc left"] Binary.prems xy by auto
  have r1: "regular_memory s1 = regular_memory s" "stack s1 = x # stack s"
    "unread raw (op_memory s1) (code e2 @ bin_byte f # rest)"
    "unat (cur_offset (op_memory s1)) = unat (cur_offset (op_memory s)) + length (code e1)"
    using s1(2) by (simp_all add: pushed_value_def)
  obtain s2 where s2: "Eval_rest arm (operations e2 + Suc left) stop s1 = Eval_rest arm (Suc left) stop s2"
    "pushed_value raw s1 y (length (code e2)) (bin_byte f # rest) s2"
    using Binary.IH(2) [of s1 "bin_byte f # rest" y "Suc left"] Binary.prems(3) xy r1 by auto
  have r2: "stack s2 = y # x # stack s" "unread raw (op_memory s2) (bin_byte f # rest)"
    using s2(2) r1(2) by (simp_all add: pushed_value_def)
  obtain s3 where s3: "Decode arm s2 = op_done s3" "pushed_value raw (s2\<lparr>stack := stack s\<rparr>) v 1 rest s3"
    using Decode_bin [OF r2(2,1) xy(3)] by blast
  have "cur_offset (op_memory s2) < stop"
    using pushed_value_offset [OF s2(2)] r1(4) Binary.prems(3) by simp
  moreover have "pushed_value raw s v (length (code e1) + (length (code e2) + 1)) rest s3"
    using pushed_value_trans [OF s2(2) s3(2)] s1(2) by (auto simp: pushed_value_def)
  ultimately show ?case
    using Eval_rest_step [OF s3(1), of stop left] s1(1) s2(1) by (auto simp: add.assoc)
qed

text \<open>
  \<open>Eval\<close> is its loop with the full count, but for the flag: the two unrolled calls of \<open>Decode\<close> only
  look at what they have decoded.
\<close>

definition dex_prefix :: "bool \<Rightarrow> u64 \<Rightarrow> 'a::len word dwarf_op \<Rightarrow> bool" where
  "dex_prefix arm stop s \<longleftrightarrow>
     (\<exists>s1. Decode arm s = Inr (True, s1) \<and> cur_op s1 = 0x0c \<and> last (operands s1) = 0x31584544)"

definition op_start :: "u64 \<Rightarrow> 'a dwarf_op \<Rightarrow> 'a dwarf_op" where
  "op_start start self = jump start (self\<lparr>is_register := False, stack := [], dex_pc_set := False\<rparr>)"

lemma Eval_op_Eval_rest:
  assumes "\<not> dex_prefix arm stop (op_start start self)"
  shows "Eval_op arm start stop self = Eval_rest arm 1000 stop (op_start start self)"
proof -
  obtain k :: nat where n: "1000 = Suc (Suc k)" "1000 - 2 = k"
    by (rule that [of 998]) simp_all
  show ?thesis
    using assms
    unfolding Eval_op_def Let_def op_start_def [symmetric] n(2) unfolding n(1) Eval_rest_Suc
    by (auto simp: dex_prefix_def split: sum.splits bool.splits)
qed

lemma handler_cur_op:
  assumes "kOpHandleFuncList arm h = Some f" "f s = Inr (r, s')"
  shows "cur_op s' = cur_op s"
proof -
  have fold: "cur_op (fold push vs s) = cur_op s" for vs and s :: "'a word dwarf_op"
    by (induction vs arbitrary: s) (simp_all add: push_def)
  show ?thesis
    using assms
    by (cases h) (auto simp: kOpHandleFuncList_def handler_defs machine_defs push_def jump_def Let_def fold
        split: option.splits sum.splits if_splits list.splits)
qed

lemma Decode_cur_op:
  assumes "Decode arm s = Inr (True, s')"
  shows "\<exists>m. ReadBytes 1 (op_memory s) = (Some [cur_op s'], m)"
  using assms
  by (auto simp: Decode_def Let_def op_fail_def op_fail_at_def dest!: handler_cur_op read_operands_result
      dest: ReadBytes_byte split: prod.splits option.splits sum.splits if_splits bool.splits)

lemma code_first: "expr_value mem e = Some v \<Longrightarrow> hd (code e) \<noteq> 0x0c"
proof (induction e arbitrary: v)
  case (Lit n)
  then have "unat (0x30 + of_nat n :: u8) = 0x30 + n"
    by (simp add: unat_word_ariths unat_of_nat split: if_splits)
  then have "unat (0x30 + of_nat n :: u8) \<noteq> unat (0x0c :: u8)" by simp
  then have "(0x30 + of_nat n :: u8) \<noteq> 0x0c" by metis
  then show ?case by simp
next
  case (Unary f e)
  then show ?case using length_code [of e] by (auto simp: bind_eq_Some_conv)
next
  case (Binary f e1 e2)
  then show ?case using length_code [of e1] by (auto simp: bind_eq_Some_conv)
qed simp

text \<open>
  C18. \<open>Eval\<close> computes expressions.  Over a buffer that holds the code of an expression of at most 1000
  operations, evaluating the range of that code succeeds, leaves the value of the expression as the
  only element of the stack, and reports neither a register nor a dex program counter.
\<close>

theorem Eval_computes_expression:
  fixes self :: "'a::len word dwarf_op"
  assumes "dm_memory (op_memory self) = MemoryBuffer_Read (before @ code e @ behind)"
    and "length (before @ code e @ behind) < 2 ^ 64"
    and "expr_value (regular_memory self) e = Some v" "operations e \<le> 1000"
  shows "\<exists>s'. Eval_op arm (of_nat (length before)) (of_nat (length before + length (code e))) self
              = Inr (True, s')
           \<and> stack s' = [v] \<and> \<not> is_register s' \<and> \<not> dex_pc_set s'"
proof -
  let ?start = "of_nat (length before) :: u64" and ?stop = "of_nat (length before + length (code e)) :: u64"
  let ?s = "op_start ?start self"
  have off: "unat ?start = length before" "unat ?stop = length before + length (code e)"
    using assms(2) by (simp_all add: unat_of_nat del: of_nat_add)
  have u: "unread (before @ code e @ behind) (op_memory ?s) (code e @ behind)"
    using assms(1,2) off by (simp add: unread_def op_start_def jump_def)
  have "\<not> dex_prefix arm ?stop ?s"
  proof
    assume "dex_prefix arm ?stop ?s"
    then obtain m where "ReadBytes 1 (op_memory ?s) = (Some [0x0c], m)"
      by (auto simp: dex_prefix_def dest: Decode_cur_op)
    moreover obtain b bs where "code e = b # bs" using length_code [of e] by (cases "code e") auto
    ultimately show False
      using ReadBytes_unread_1 [of _ _ b "bs @ behind"] u code_first [OF assms(3)] by auto
  qed
  then have "Eval_op arm ?start ?stop self = Eval_rest arm (operations e + (1000 - operations e)) ?stop ?s"
    using assms(4) by (simp add: Eval_op_Eval_rest)
  moreover obtain s' where "Eval_rest arm (operations e + (1000 - operations e)) ?stop ?s
      = Eval_rest arm (1000 - operations e) ?stop s'" and s': "pushed_value (before @ code e @ behind) ?s v (length (code e)) behind s'"
    using Eval_rest_code [OF u, of v ?stop arm "1000 - operations e"] assms(3) off
    by (auto simp: op_start_def jump_def)
  moreover have "\<not> cur_offset (op_memory s') < ?stop"
    using s' off by (simp add: pushed_value_def word_less_nat_alt op_start_def jump_def)
  ultimately show ?thesis
    using s' by (subst (asm) (3) Eval_rest.simps) (simp add: op_done_def pushed_value_def op_start_def jump_def)
qed

text \<open>Twice 21, minus the word at address 8.\<close>

theorem Eval_computes_expression_witness:
  "\<exists>s'. Eval_op True 0 6
          (new_dwarf_op (new_dwarf_memory (MemoryBuffer_Read [0x32, 0x45, 0x1e, 0x38, 0x06, 0x1c]))
             (MemoryBuffer_Read [1, 1, 1, 1, 1, 1, 1, 1, 0x2a, 0, 0, 0]) 16 :: u32 dwarf_op) = Inr (True, s')
     \<and> stack s' = [0]"
proof -
  let ?e = "Binary Minus (Binary Mul (Lit 2) (Lit 21)) (Unary Deref (Lit 8))"
  have "code ?e = [0x32, 0x45, 0x1e, 0x38, 0x06, 0x1c]" by simp
  moreover have "expr_value (MemoryBuffer_Read [1, 1, 1, 1, 1, 1, 1, 1, 0x2a, 0, 0, 0]) ?e = Some (0 :: u32)"
    by (simp add: ReadFully_MemoryBuffer le_word_def)
  ultimately show ?thesis
    using Eval_computes_expression [where before = "[]" and behind = "[]" and e = ?e and arm = True and v = "0 :: u32"
        and self = "new_dwarf_op (new_dwarf_memory (MemoryBuffer_Read [0x32, 0x45, 0x1e, 0x38, 0x06, 0x1c]))
             (MemoryBuffer_Read [1, 1, 1, 1, 1, 1, 1, 1, 0x2a, 0, 0, 0]) 16 :: u32 dwarf_op"]
    by (auto simp: new_dwarf_op_def new_dwarf_memory_def)
qed

section \<open>Endless expressions\<close>

lemma Eval_rest_endless:
  assumes "\<And>s. P s \<Longrightarrow> cur_offset (op_memory s) < stop \<and> (\<exists>s'. Decode arm s = Inr (True, s') \<and> P s')" "P s"
  shows "\<exists>s'. Eval_rest arm left stop s = Inr (False, s')
           \<and> err_code (last_error s') = DWARF_ERROR_TOO_MANY_ITERATIONS"
  using assms(2)
proof (induction left arbitrary: s)
  case 0
  with assms(1) [of s] show ?case by (auto simp: Eval_rest.simps [of arm 0] op_fail_def)
next
  case (Suc left)
  with assms(1) [of s] show ?case by (auto simp: Eval_rest_Suc)
qed

lemma Eval_op_endless:
  assumes "\<And>s. P s \<Longrightarrow> cur_offset (op_memory s) < stop \<and> (\<exists>s'. Decode arm s = Inr (True, s') \<and> P s')"
    and "\<And>s. P s \<Longrightarrow> P (s\<lparr>dex_pc_set := True\<rparr>)" "P (op_start start self)"
  shows "\<exists>s'. Eval_op arm start stop self = Inr (False, s')
           \<and> err_code (last_error s') = DWARF_ERROR_TOO_MANY_ITERATIONS"
proof -
  obtain s1 where s1: "cur_offset (op_memory (op_start start self)) < stop"
    "Decode arm (op_start start self) = Inr (True, s1)" "P s1" using assms(1) [OF assms(3)] by blast
  obtain s2 where s2: "cur_offset (op_memory s1) < stop" "Decode arm s1 = Inr (True, s2)" "P s2"
    using assms(1) [OF s1(3)] by blast
  note Eval_rest_endless [of P, OF assms(1)]
  from this [OF _ s2(3)] this [OF _ assms(2) [OF s2(3)]] show ?thesis
    using s1(1,2) s2(1,2) unfolding Eval_op_def Let_def op_start_def [symmetric] by simp
qed

text \<open>
  Endless expressions are cut.  If every state of a set of states can decode one more operation and
  stays below the end and in the set, then evaluation from that set stops with the error
  \<open>DWARF_ERROR_TOO_MANY_ITERATIONS\<close>.
\<close>

theorem endless_expression_is_cut:
  assumes "\<And>s. P s \<Longrightarrow> cur_offset (op_memory s) < stop \<and> (\<exists>s'. Decode arm s = Inr (True, s') \<and> P s')"
    and "\<And>s. P s \<Longrightarrow> P (s\<lparr>dex_pc_set := True\<rparr>)" "P (op_start start self)"
  shows "\<exists>s'. Eval_op arm start stop self = Inr (False, s')
           \<and> err_code (last_error s') = DWARF_ERROR_TOO_MANY_ITERATIONS"
  using assms by (rule Eval_op_endless)

lemma table_2f_28_30:
  "kCallbackTable ! 0x2f = \<lparr>handle_func = OP_SKIP, num_required_stack_values = 0, num_operands = 1, op_operands = [DW_EH_PE_sdata2]\<rparr>"
  "kCallbackTable ! 0x28 = \<lparr>handle_func = OP_BRA, num_required_stack_values = 1, num_operands = 1, op_operands = [DW_EH_PE_sdata2]\<rparr>"
  "kCallbackTable ! 0x30 = \<lparr>handle_func = OP_LIT, num_required_stack_values = 0, num_operands = 0, op_operands = []\<rparr>"
  by (simp_all add: kCallbackTable_def table_defs)

lemma ucast_through_address:
  "16 \<le> LENGTH('a) \<Longrightarrow> ucast (ucast (x :: u64) :: 'a::len word) = (ucast x :: u16)"
  by (rule bit_word_eqI) (auto simp: bit_ucast_iff)

lemma read_sdata2:
  assumes "ReadFully (dm_memory m) (cur_offset m) 2 = Some bs"
  shows "ReadEncodedValue TYPE('a::len) DW_EH_PE_sdata2 m
     = Inr (Some (scast (le_word bs :: u16)), m\<lparr>cur_offset := cur_offset m + 2\<rparr>)"
  using assms by (simp add: ReadEncodedValue_def ReadSigned_def ReadBytes_def AdjustEncodedValue_def)

text \<open>\<open>DW_OP_skip -3\<close> jumps onto itself.\<close>

theorem endless_expression_is_cut_witness:
  "\<exists>s'. Eval_op True 0 3
          (new_dwarf_op (new_dwarf_memory (MemoryBuffer_Read [0x2f, 0xfd, 0xff])) (\<lambda>_ _. []) 16 :: u32 dwarf_op)
        = Inr (False, s')
     \<and> err_code (last_error s') = DWARF_ERROR_TOO_MANY_ITERATIONS"
proof (rule endless_expression_is_cut
    [where P = "\<lambda>s. dm_memory (op_memory s) = MemoryBuffer_Read [0x2f, 0xfd, 0xff] \<and> cur_offset (op_memory s) = 0"])
  fix s :: "u32 dwarf_op"
  assume s: "dm_memory (op_memory s) = MemoryBuffer_Read [0x2f, 0xfd, 0xff] \<and> cur_offset (op_memory s) = 0"
  have "le_word [0xfd, 0xff] = (- 3 :: u16)" by (simp add: le_word_def)
  with s show "cur_offset (op_memory s) < 3 \<and> (\<exists>s'. Decode True s = Inr (True, s')
      \<and> dm_memory (op_memory s') = MemoryBuffer_Read [0x2f, 0xfd, 0xff] \<and> cur_offset (op_memory s') = 0)"
    by (simp add: Decode_def Let_def ReadBytes_def ReadFully_MemoryBuffer table_2f_28_30 op_encodings_def read_sdata2
        kOpHandleFuncList_def op_skip_def OperandAt_def op_done_def jump_def int16_offset_def)
qed (simp_all add: op_start_def jump_def new_dwarf_op_def new_dwarf_memory_def)

text \<open>
  \<open>DW_OP_bra\<close> branches in both cases.  The standard lets a branch with a zero on top fall through;
  the code subtracts the offset instead.  An expression that starts with \<open>DW_OP_lit0\<close> and a branch
  over the next byte, whatever follows, goes round for ever and is cut.
\<close>

theorem untaken_branch_loops:
  assumes "length rest < 2 ^ 62" "4 \<le> stop" "16 \<le> LENGTH('a)"
  shows "\<exists>s'. Eval_op arm 0 stop
          (new_dwarf_op (new_dwarf_memory (MemoryBuffer_Read (0x30 # 0x28 # 4 # 0 # rest))) regular n
             :: 'a::len word dwarf_op) = Inr (False, s')
     \<and> err_code (last_error s') = DWARF_ERROR_TOO_MANY_ITERATIONS"
proof (rule Eval_op_endless [where P = "\<lambda>s. dm_memory (op_memory s) = MemoryBuffer_Read (0x30 # 0x28 # 4 # 0 # rest)
    \<and> (cur_offset (op_memory s) = 0 \<or> cur_offset (op_memory s) = 1 \<and> (\<exists>t. stack s = 0 # t))"])
  fix s :: "'a word dwarf_op"
  assume s: "dm_memory (op_memory s) = MemoryBuffer_Read (0x30 # 0x28 # 4 # 0 # rest)
    \<and> (cur_offset (op_memory s) = 0 \<or> cur_offset (op_memory s) = 1 \<and> (\<exists>t. stack s = 0 # t))"
  have four: "le_word [4, 0] = (4 :: u16)" by (simp add: le_word_def)
  have cast: "ucast (ucast (4 :: u64) :: 'a word) = (4 :: u16)"
    using ucast_through_address [of "4 :: u64"] assms(3) by simp
  have below: "0 < stop" "1 < stop"
    using assms(2) by (simp_all add: word_less_nat_alt word_le_nat_alt)
  show "cur_offset (op_memory s) < stop \<and> (\<exists>s'. Decode arm s = Inr (True, s')
      \<and> dm_memory (op_memory s') = MemoryBuffer_Read (0x30 # 0x28 # 4 # 0 # rest)
      \<and> (cur_offset (op_memory s') = 0 \<or> cur_offset (op_memory s') = 1 \<and> (\<exists>t. stack s' = 0 # t)))"
    using s below four cast
    by (auto simp add: Decode_def Let_def ReadBytes_def ReadFully_MemoryBuffer table_2f_28_30 op_encodings_def read_sdata2
        kOpHandleFuncList_def op_bra_def op_lit_def push_def StackPop_def OperandAt_def op_done_def jump_def int16_offset_def)
qed (simp_all add: op_start_def jump_def new_dwarf_op_def new_dwarf_memory_def)

theorem untaken_branch_loops_witness:
  "\<exists>s'. Eval_op False 0 5
          (new_dwarf_op (new_dwarf_memory (MemoryBuffer_Read [0x30, 0x28, 4, 0, 0x31])) (\<lambda>_ _. []) 16 :: u64 dwarf_op)
        = Inr (False, s')
     \<and> err_code (last_error s') = DWARF_ERROR_TOO_MANY_ITERATIONS"
  by (rule untaken_branch_loops) simp_all

end
