(* ===== verification/Dwarf_Cfa.thy ===== *)
theory Dwarf_Cfa
  imports Dwarf_Op
begin

text \<open>
  \<open>DwarfCfa\<close> of \<^verbatim>\<open>DwarfCfa.cpp\<close> and \<^verbatim>\<open>DwarfCfa.h\<close>: the call
  frame instructions of an FDE.  The state of the interpreter, one handler per instruction, the
  instruction step that its two loops share, \<open>GetLocationInfo\<close> for one program counter and
  \<open>IterateLocationInfo\<close> with a callback for every row.
\<close>

section \<open>Entries and rows\<close>

record dwarf_cie =
  cie_version :: u8
  fde_address_encoding :: u8
  lsda_encoding :: u8
  segment_size :: u8
  augmentation_string :: "u8 list"
  personality_handler :: u64
  cie_instructions_offset :: u64
  cie_instructions_end :: u64
  code_alignment_factor :: u64
  data_alignment_factor :: u64
  return_address_register :: u64

record dwarf_fde =
  cie_offset :: u64
  fde_instructions_offset :: u64
  fde_instructions_end :: u64
  pc_start :: u64
  pc_end :: u64
  lsda_address :: u64
  fde_cie :: "dwarf_cie option"

definition CFA_REG :: u32 where
  "CFA_REG = 0xffff"

datatype DwarfLocationEnum =
    DWARF_LOCATION_INVALID | DWARF_LOCATION_UNDEFINED | DWARF_LOCATION_OFFSET
  | DWARF_LOCATION_VAL_OFFSET | DWARF_LOCATION_REGISTER | DWARF_LOCATION_EXPRESSION
  | DWARF_LOCATION_VAL_EXPRESSION

record DwarfLocation =
  loc_type :: DwarfLocationEnum
  value0 :: u64
  value1 :: u64

text \<open>
  \<open>dwarf_loc_regs_t\<close>: a map from register numbers, with the range of the row.  Its pointer to the
  CIE is set by the callback only and is an argument there.
\<close>

record locations =
  rules :: "u32 \<Rightarrow> DwarfLocation option"
  row_start :: u64
  row_end :: u64

definition no_locations :: locations where
  "no_locations = \<lparr>rules = (\<lambda>_. None), row_start = 0, row_end = 0\<rparr>"

section \<open>The interpreter\<close>

text \<open>
  \<open>loc_regs\<close> is what the pointer argument of every handler points to; \<open>cfa_cie\<close> is what
  \<open>fde_->cie\<close> points to.
\<close>

record 'a cfa =
  cfa_memory :: dwarf_memory
  cfa_fde :: dwarf_fde
  cfa_cie :: dwarf_cie
  cur_pc :: 'a
  cie_loc_regs :: "locations option"
  cfa_operands :: "'a list"
  loc_reg_state :: "locations list"
  cfa_error :: DwarfErrorData
  loc_regs :: locations

type_synonym 'a cfa_result = "fault + (bool \<times> 'a cfa)"

definition cfa_done :: "'a cfa \<Rightarrow> 'a cfa_result" where
  "cfa_done s = Inr (True, s)"

definition cfa_fail :: "DwarfErrorCode \<Rightarrow> 'a cfa \<Rightarrow> 'a cfa_result" where
  "cfa_fail e s = Inr (False, s\<lparr>cfa_error := (cfa_error s)\<lparr>err_code := e\<rparr>\<rparr>)"

definition cfa_fail_at :: "u64 \<Rightarrow> 'a cfa \<Rightarrow> 'a cfa_result" where
  "cfa_fail_at addr s =
     Inr (False, s\<lparr>cfa_error := \<lparr>err_code = DWARF_ERROR_MEMORY_INVALID, err_address = addr\<rparr>\<rparr>)"

definition operand :: "nat \<Rightarrow> 'a cfa \<Rightarrow> ('a \<Rightarrow> 'a cfa_result) \<Rightarrow> 'a cfa_result" where
  "operand i s k = (if i < length (cfa_operands s) then k (cfa_operands s ! i) else Inl ReadPastEnd)"

definition set_rule :: "u32 \<Rightarrow> DwarfLocation option \<Rightarrow> 'a cfa \<Rightarrow> 'a cfa" where
  "set_rule reg l s = s\<lparr>loc_regs := (loc_regs s)\<lparr>rules := (rules (loc_regs s))(reg := l)\<rparr>\<rparr>"

definition loc :: "DwarfLocationEnum \<Rightarrow> u64 \<Rightarrow> u64 \<Rightarrow> DwarfLocation option" where
  "loc t v0 v1 = Some \<lparr>loc_type = t, value0 = v0, value1 = v1\<rparr>"

text \<open>
  \<open>static_cast<SignedType>(v) * data_alignment_factor\<close>, computed as \<open>int64_t\<close> and cut to the width of
  an address, then stored as \<open>uint64_t\<close>.
\<close>

definition factored :: "dwarf_cie \<Rightarrow> 'a::len word \<Rightarrow> fault + u64" where
  "factored cie v =
     (let p = sint v * sint (data_alignment_factor cie)
      in if - (2 ^ 63) \<le> p \<and> p < 2 ^ 63 then Inr (scast (word_of_int p :: 'a word))
         else Inl SignedOverflow)"

definition with_factored ::
  "'a::len word \<Rightarrow> 'a word cfa \<Rightarrow> (u64 \<Rightarrow> 'a word cfa_result) \<Rightarrow> 'a word cfa_result" where
  "with_factored v s k = (case factored (cfa_cie s) v of Inl f \<Rightarrow> Inl f | Inr w \<Rightarrow> k w)"

section \<open>Handlers\<close>

definition cfa_nop :: "'a::len word cfa \<Rightarrow> 'a word cfa_result" where
  "cfa_nop s = cfa_done s"

definition cfa_set_loc :: "'a::len word cfa \<Rightarrow> 'a word cfa_result" where
  "cfa_set_loc s = operand 0 s (\<lambda>new_pc. cfa_done (s\<lparr>cur_pc := new_pc\<rparr>))"

definition cfa_advance_loc :: "'a::len word cfa \<Rightarrow> 'a word cfa_result" where
  "cfa_advance_loc s =
     operand 0 s (\<lambda>delta.
       cfa_done (s\<lparr>cur_pc := ucast (ucast (cur_pc s) + ucast delta * code_alignment_factor (cfa_cie s) :: u64)\<rparr>))"

definition cfa_offset :: "'a::len word cfa \<Rightarrow> 'a word cfa_result" where
  "cfa_offset s =
     operand 0 s (\<lambda>reg. operand 1 s (\<lambda>offset.
       cfa_done (set_rule (ucast reg) (loc DWARF_LOCATION_OFFSET (ucast offset) 0) s)))"

text \<open>Restoring, for the extended and the short form.\<close>

definition restore :: "u32 \<Rightarrow> 'a cfa \<Rightarrow> 'a cfa_result" where
  "restore reg s =
     (case cie_loc_regs s of
        None \<Rightarrow> cfa_fail DWARF_ERROR_ILLEGAL_STATE s
      | Some cie_regs \<Rightarrow> cfa_done (set_rule reg (rules cie_regs reg) s))"

definition cfa_restore :: "'a::len word cfa \<Rightarrow> 'a word cfa_result" where
  "cfa_restore s = operand 0 s (\<lambda>reg. restore (ucast reg) s)"

definition cfa_undefined :: "'a::len word cfa \<Rightarrow> 'a word cfa_result" where
  "cfa_undefined s =
     operand 0 s (\<lambda>reg. cfa_done (set_rule (ucast reg) (loc DWARF_LOCATION_UNDEFINED 0 0) s))"

definition cfa_same_value :: "'a::len word cfa \<Rightarrow> 'a word cfa_result" where
  "cfa_same_value s = operand 0 s (\<lambda>reg. cfa_done (set_rule (ucast reg) None s))"

definition cfa_register :: "'a::len word cfa \<Rightarrow> 'a word cfa_result" where
  "cfa_register s =
     operand 0 s (\<lambda>reg. operand 1 s (\<lambda>reg_dst.
       cfa_done (set_rule (ucast reg) (loc DWARF_LOCATION_REGISTER (ucast reg_dst) 0) s)))"

definition cfa_remember_state :: "'a::len word cfa \<Rightarrow> 'a word cfa_result" where
  "cfa_remember_state s = cfa_done (s\<lparr>loc_reg_state := loc_regs s # loc_reg_state s\<rparr>)"

definition cfa_restore_state :: "'a::len word cfa \<Rightarrow> 'a word cfa_result" where
  "cfa_restore_state s =
     (case loc_reg_state s of
        [] \<Rightarrow> cfa_done s
      | l # ls \<Rightarrow> cfa_done (s\<lparr>loc_regs := l, loc_reg_state := ls\<rparr>))"

definition cfa_def_cfa :: "'a::len word cfa \<Rightarrow> 'a word cfa_result" where
  "cfa_def_cfa s =
     operand 0 s (\<lambda>reg. operand 1 s (\<lambda>offset.
       cfa_done (set_rule CFA_REG (loc DWARF_LOCATION_REGISTER (ucast reg) (ucast offset)) s)))"

text \<open>\<open>find(CFA_REG)\<close> and the test that the rule found is a register.\<close>

definition cfa_is_register :: "'a cfa \<Rightarrow> DwarfLocation option" where
  "cfa_is_register s =
     (case rules (loc_regs s) CFA_REG of
        None \<Rightarrow> None
      | Some l \<Rightarrow> if loc_type l = DWARF_LOCATION_REGISTER then Some l else None)"

definition cfa_def_cfa_register :: "'a::len word cfa \<Rightarrow> 'a word cfa_result" where
  "cfa_def_cfa_register s =
     (case cfa_is_register s of
        None \<Rightarrow> cfa_fail DWARF_ERROR_ILLEGAL_STATE s
      | Some l \<Rightarrow> operand 0 s (\<lambda>reg. cfa_done (set_rule CFA_REG (Some (l\<lparr>value0 := ucast reg\<rparr>)) s)))"

definition cfa_def_cfa_offset :: "'a::len word cfa \<Rightarrow> 'a word cfa_result" where
  "cfa_def_cfa_offset s =
     (case cfa_is_register s of
        None \<Rightarrow> cfa_fail DWARF_ERROR_ILLEGAL_STATE s
      | Some l \<Rightarrow> operand 0 s (\<lambda>offset. cfa_done (set_rule CFA_REG (Some (l\<lparr>value1 := ucast offset\<rparr>)) s)))"

definition cfa_def_cfa_expression :: "'a::len word cfa \<Rightarrow> 'a word cfa_result" where
  "cfa_def_cfa_expression s =
     operand 0 s (\<lambda>len.
       cfa_done (set_rule CFA_REG (loc DWARF_LOCATION_VAL_EXPRESSION (ucast len) (cur_offset (cfa_memory s))) s))"

definition cfa_expression :: "'a::len word cfa \<Rightarrow> 'a word cfa_result" where
  "cfa_expression s =
     operand 0 s (\<lambda>reg. operand 1 s (\<lambda>len.
       cfa_done (set_rule (ucast reg) (loc DWARF_LOCATION_EXPRESSION (ucast len) (cur_offset (cfa_memory s))) s)))"

definition cfa_offset_extended_sf :: "'a::len word cfa \<Rightarrow> 'a word cfa_result" where
  "cfa_offset_extended_sf s =
     operand 0 s (\<lambda>reg. operand 1 s (\<lambda>offset.
       with_factored offset s (\<lambda>v. cfa_done (set_rule (ucast reg) (loc DWARF_LOCATION_OFFSET v 0) s))))"

definition cfa_def_cfa_sf :: "'a::len word cfa \<Rightarrow> 'a word cfa_result" where
  "cfa_def_cfa_sf s =
     operand 0 s (\<lambda>reg. operand 1 s (\<lambda>offset.
       with_factored offset s (\<lambda>v.
         cfa_done (set_rule CFA_REG (loc DWARF_LOCATION_REGISTER (ucast reg) v) s))))"

definition cfa_def_cfa_offset_sf :: "'a::len word cfa \<Rightarrow> 'a word cfa_result" where
  "cfa_def_cfa_offset_sf s =
     (case cfa_is_register s of
        None \<Rightarrow> cfa_fail DWARF_ERROR_ILLEGAL_STATE s
      | Some l \<Rightarrow>
          operand 0 s (\<lambda>offset.
            with_factored offset s (\<lambda>v. cfa_done (set_rule CFA_REG (Some (l\<lparr>value1 := v\<rparr>)) s))))"

definition cfa_val_offset :: "'a::len word cfa \<Rightarrow> 'a word cfa_result" where
  "cfa_val_offset s =
     operand 0 s (\<lambda>reg. operand 1 s (\<lambda>offset.
       with_factored offset s (\<lambda>v. cfa_done (set_rule (ucast reg) (loc DWARF_LOCATION_VAL_OFFSET v 0) s))))"

definition cfa_val_offset_sf :: "'a::len word cfa \<Rightarrow> 'a word cfa_result" where
  "cfa_val_offset_sf s =
     operand 0 s (\<lambda>reg. operand 1 s (\<lambda>offset.
       with_factored offset s (\<lambda>v. cfa_done (set_rule (ucast reg) (loc DWARF_LOCATION_VAL_OFFSET v 0) s))))"

definition cfa_val_expression :: "'a::len word cfa \<Rightarrow> 'a word cfa_result" where
  "cfa_val_expression s =
     operand 0 s (\<lambda>reg. operand 1 s (\<lambda>len.
       cfa_done (set_rule (ucast reg)
         (loc DWARF_LOCATION_VAL_EXPRESSION (ucast len) (cur_offset (cfa_memory s))) s)))"

definition cfa_gnu_negative_offset_extended :: "'a::len word cfa \<Rightarrow> 'a word cfa_result" where
  "cfa_gnu_negative_offset_extended s =
     operand 0 s (\<lambda>reg. operand 1 s (\<lambda>offset.
       case negated offset of
         Inl f \<Rightarrow> Inl f
       | Inr v \<Rightarrow> cfa_done (set_rule (ucast reg) (loc DWARF_LOCATION_OFFSET (scast v) 0) s)))"

section \<open>Tables\<close>

text \<open>
  \<open>DwarfCfaInfo::kTable\<close> without names and display hints, which only logs use; the list in the code
  has 63 rows, the last one of the array of 64 is zero.
\<close>

record CfaInfo =
  supported_version :: nat
  cfa_num_operands :: nat
  cfa_info_operands :: "u8 list"

abbreviation (input) cfa_row :: "nat \<Rightarrow> nat \<Rightarrow> u8 list \<Rightarrow> CfaInfo" where
  "cfa_row v n encs \<equiv> \<lparr>supported_version = v, cfa_num_operands = n, cfa_info_operands = encs\<rparr>"

definition kTable_low :: "CfaInfo list" where
  "kTable_low =
     [cfa_row 2 0 [], cfa_row 2 1 [DW_EH_PE_absptr], cfa_row 2 1 [DW_EH_PE_udata1],
      cfa_row 2 1 [DW_EH_PE_udata2], cfa_row 2 1 [DW_EH_PE_udata4],
      cfa_row 2 2 [DW_EH_PE_uleb128, DW_EH_PE_uleb128], cfa_row 2 1 [DW_EH_PE_uleb128],
      cfa_row 2 1 [DW_EH_PE_uleb128], cfa_row 2 1 [DW_EH_PE_uleb128],
      cfa_row 2 2 [DW_EH_PE_uleb128, DW_EH_PE_uleb128], cfa_row 2 0 [], cfa_row 2 0 [],
      cfa_row 2 2 [DW_EH_PE_uleb128, DW_EH_PE_uleb128], cfa_row 2 1 [DW_EH_PE_uleb128],
      cfa_row 2 1 [DW_EH_PE_uleb128], cfa_row 2 1 [DW_EH_PE_block],
      cfa_row 2 2 [DW_EH_PE_uleb128, DW_EH_PE_block],
      cfa_row 2 2 [DW_EH_PE_uleb128, DW_EH_PE_sleb128],
      cfa_row 2 2 [DW_EH_PE_uleb128, DW_EH_PE_sleb128], cfa_row 2 1 [DW_EH_PE_sleb128],
      cfa_row 2 2 [DW_EH_PE_uleb128, DW_EH_PE_uleb128],
      cfa_row 2 2 [DW_EH_PE_uleb128, DW_EH_PE_sleb128],
      cfa_row 2 2 [DW_EH_PE_uleb128, DW_EH_PE_block]]"

definition kTable_high :: "CfaInfo list" where
  "kTable_high =
     replicate 23 (cfa_row 0 0 [])
     @ [cfa_row 2 1 [DW_EH_PE_uleb128], cfa_row 2 2 [DW_EH_PE_uleb128, DW_EH_PE_uleb128]]
     @ replicate 16 (cfa_row 0 0 [])"

definition kTable :: "CfaInfo list" where
  "kTable = kTable_low @ kTable_high"

text \<open>\<open>DwarfCfa::kCallbackTable\<close>.\<close>

definition cfa_handlers_low :: "('a::len word cfa \<Rightarrow> 'a word cfa_result) option list" where
  "cfa_handlers_low =
     [Some cfa_nop, Some cfa_set_loc, Some cfa_advance_loc, Some cfa_advance_loc,
      Some cfa_advance_loc, Some cfa_offset, Some cfa_restore, Some cfa_undefined,
      Some cfa_same_value, Some cfa_register, Some cfa_remember_state, Some cfa_restore_state,
      Some cfa_def_cfa, Some cfa_def_cfa_register, Some cfa_def_cfa_offset, Some cfa_def_cfa_expression,
      Some cfa_expression, Some cfa_offset_extended_sf, Some cfa_def_cfa_sf, Some cfa_def_cfa_offset_sf,
      Some cfa_val_offset, Some cfa_val_offset_sf, Some cfa_val_expression]"

definition cfa_handlers :: "('a::len word cfa \<Rightarrow> 'a word cfa_result) option list" where
  "cfa_handlers =
     cfa_handlers_low @ replicate 23 None
     @ [Some cfa_nop, Some cfa_gnu_negative_offset_extended] @ replicate 16 None"

section \<open>One instruction\<close>

text \<open>The loop over the operands; the length of a block is an operand, and the block is skipped.\<close>

fun read_cfa_operands :: "u8 list \<Rightarrow> 'a::len word cfa \<Rightarrow> 'a word cfa_result" where
  "read_cfa_operands [] s = cfa_done s"
| "read_cfa_operands (enc # encs) s =
     (if enc = DW_EH_PE_block
      then (case ReadULEB128 (cfa_memory s) of
              Inl f \<Rightarrow> Inl f
            | Inr (None, m) \<Rightarrow> cfa_fail_at (cur_offset m) (s\<lparr>cfa_memory := m\<rparr>)
            | Inr (Some block_length, m) \<Rightarrow>
                read_cfa_operands encs
                  (s\<lparr>cfa_operands := cfa_operands s @ [ucast block_length],
                     cfa_memory := m\<lparr>cur_offset := cur_offset m + block_length\<rparr>\<rparr>))
      else (case ReadEncodedValue TYPE('a) enc (cfa_memory s) of
              Inl f \<Rightarrow> Inl f
            | Inr (None, m) \<Rightarrow> cfa_fail_at (cur_offset m) (s\<lparr>cfa_memory := m\<rparr>)
            | Inr (Some v, m) \<Rightarrow>
                read_cfa_operands encs (s\<lparr>cfa_operands := cfa_operands s @ [ucast v], cfa_memory := m\<rparr>)))"

definition cfa_encodings :: "CfaInfo \<Rightarrow> u8 list" where
  "cfa_encodings info = take (cfa_num_operands info) (cfa_info_operands info @ [0, 0])"

text \<open>
  What both loops do after their tests for the end: read the opcode and perform it.  The two high
  bits select the short forms.
\<close>

definition cfa_instruction :: "'a::len word cfa \<Rightarrow> 'a word cfa_result" where
  "cfa_instruction self =
     (let s = self\<lparr>loc_regs := (loc_regs self)\<lparr>row_start := ucast (cur_pc self)\<rparr>, cfa_operands := []\<rparr>
      in case ReadBytes 1 (cfa_memory s) of
           (None, m) \<Rightarrow> cfa_fail_at (cur_offset m) s
         | (Some bs, m) \<Rightarrow>
             let s = s\<lparr>cfa_memory := m\<rparr>; cfa_value = hd bs; cfa_low = cfa_value AND 0x3f;
                 high = drop_bit 6 cfa_value
             in if high = 1
                then cfa_done (s\<lparr>cur_pc :=
                       ucast (ucast (cur_pc s) + ucast cfa_low * code_alignment_factor (cfa_cie s) :: u64)\<rparr>)
                else if high = 2
                then (case ReadULEB128 m of
                        Inl f \<Rightarrow> Inl f
                      | Inr (None, m) \<Rightarrow> cfa_fail_at (cur_offset m) (s\<lparr>cfa_memory := m\<rparr>)
                      | Inr (Some offset, m) \<Rightarrow>
                          (let s = s\<lparr>cfa_memory := m\<rparr>
                           in with_factored (ucast offset) s (\<lambda>v.
                                cfa_done (set_rule (ucast cfa_low) (loc DWARF_LOCATION_OFFSET v 0) s))))
                else if high = 3 then restore (ucast cfa_low) s
                else (case cfa_handlers ! unat cfa_low of
                        None \<Rightarrow> cfa_fail DWARF_ERROR_ILLEGAL_VALUE s
                      | Some handler \<Rightarrow>
                          (case read_cfa_operands (cfa_encodings (kTable ! unat cfa_low)) s of
                             Inl f \<Rightarrow> Inl f
                           | Inr (False, s) \<Rightarrow> Inr (False, s)
                           | Inr (True, s) \<Rightarrow> handler s)))"

section \<open>The two loops\<close>

definition end_row :: "u64 \<Rightarrow> 'a cfa \<Rightarrow> 'a cfa" where
  "end_row e s = s\<lparr>loc_regs := (loc_regs s)\<lparr>row_end := e\<rparr>\<rparr>"

partial_function (option) GetLocationInfo_loop ::
  "u64 \<Rightarrow> u64 \<Rightarrow> 'a::len word cfa \<Rightarrow> 'a word cfa_result option" where
  "GetLocationInfo_loop pc end_offset s =
     (if ucast (cur_pc s) > pc then Some (cfa_done (end_row (ucast (cur_pc s)) s))
      else if cur_offset (cfa_memory s) \<ge> end_offset then Some (cfa_done (end_row (pc_end (cfa_fde s)) s))
      else (case cfa_instruction s of
              Inl f \<Rightarrow> Some (Inl f)
            | Inr (ok, s') \<Rightarrow> if ok then GetLocationInfo_loop pc end_offset s' else Some (Inr (False, s'))))"

text \<open>What both loops set up: the rules of the CIE, the offset and the program counter.\<close>

definition cfa_start :: "u64 \<Rightarrow> u64 \<Rightarrow> locations \<Rightarrow> 'a::len word cfa \<Rightarrow> 'a word cfa" where
  "cfa_start start_offset start_pc regs self =
     self\<lparr>loc_regs :=
            regs\<lparr>rules := (case cie_loc_regs self of None \<Rightarrow> rules regs | Some c \<Rightarrow> rules regs ++ rules c),
                 row_start := ucast (ucast start_pc :: 'a word)\<rparr>,
          cfa_error := \<lparr>err_code = DWARF_ERROR_NONE, err_address = 0\<rparr>,
          cfa_memory := (cfa_memory self)\<lparr>cur_offset := start_offset\<rparr>,
          cur_pc := ucast start_pc\<rparr>"

definition GetLocationInfo ::
  "u64 \<Rightarrow> u64 \<Rightarrow> u64 \<Rightarrow> u64 \<Rightarrow> locations \<Rightarrow> 'a::len word cfa \<Rightarrow> 'a word cfa_result option" where
  "GetLocationInfo pc start_offset end_offset start_pc regs self =
     GetLocationInfo_loop pc end_offset (cfa_start start_offset start_pc regs self)"

text \<open>
  The callback gets the row.  It may move the offset of the reader, which the section shares with it,
  and has a state \<open>'c\<close> of its own.
\<close>

type_synonym 'c cfa_callback = "locations \<Rightarrow> dwarf_memory \<Rightarrow> 'c \<Rightarrow> fault + (bool \<times> dwarf_memory \<times> 'c)"

type_synonym ('a, 'c) iterate_result = "fault + (bool \<times> 'a cfa \<times> 'c)"

definition call_back :: "'c cfa_callback \<Rightarrow> 'a cfa \<Rightarrow> 'c \<Rightarrow> ('a, 'c) iterate_result" where
  "call_back callback s c =
     (case callback (loc_regs s) (cfa_memory s) c of
        Inl f \<Rightarrow> Inl f
      | Inr (go_on, m, c') \<Rightarrow> Inr (go_on, s\<lparr>cfa_memory := m\<rparr>, c'))"

partial_function (option) IterateLocationInfo_loop ::
  "'c cfa_callback \<Rightarrow> u64 \<Rightarrow> u64 \<Rightarrow> bool \<Rightarrow> 'a::len word \<Rightarrow> 'a word cfa \<Rightarrow> 'c
     \<Rightarrow> ('a word, 'c) iterate_result option" where
  "IterateLocationInfo_loop callback pc end_offset iterate_loc last_cur_pc s c =
     (case (if iterate_loc \<and> cur_pc s \<noteq> last_cur_pc then call_back callback s c else Inr (True, s, c)) of
        Inl f \<Rightarrow> Some (Inl f)
      | Inr (go_on, s, c) \<Rightarrow>
          if \<not> go_on then Some (Inr (False, s, c))
          else if ucast (cur_pc s) \<ge> pc then Some (call_back callback (end_row (ucast (cur_pc s)) s) c)
          else if cur_offset (cfa_memory s) \<ge> end_offset
          then Some (call_back callback (end_row (pc_end (cfa_fde s)) s) c)
          else (case cfa_instruction s of
                  Inl f \<Rightarrow> Some (Inl f)
                | Inr (ok, s') \<Rightarrow>
                    if ok
                    then IterateLocationInfo_loop callback pc end_offset iterate_loc
                           (if iterate_loc then cur_pc s else last_cur_pc) s' c
                    else Some (Inr (False, s', c))))"

definition IterateLocationInfo ::
  "u64 \<Rightarrow> u64 \<Rightarrow> u64 \<Rightarrow> u64 \<Rightarrow> bool \<Rightarrow> 'c cfa_callback \<Rightarrow> 'a::len word cfa \<Rightarrow> 'c
     \<Rightarrow> ('a word, 'c) iterate_result option" where
  "IterateLocationInfo start_pc pc start_offset end_offset iterate_loc callback self c =
     (let s = cfa_start start_offset start_pc no_locations self
      in IterateLocationInfo_loop callback pc end_offset iterate_loc (cur_pc s) s c)"

declare GetLocationInfo_loop.simps [code] IterateLocationInfo_loop.simps [code]

lemma and_u8_less: "unat ((b::u8) AND 0x3f) < 64"
proof -
  have "b AND 0x3f = take_bit 6 b" by (simp add: take_bit_eq_mask mask_eq_exp_minus_1)
  then show ?thesis using take_bit_nat_less_exp [of 6 "unat b"] by (simp only: unsigned_take_bit_eq) simp
qed

section \<open>Handlers find their operands\<close>

lemmas cfa_machine_defs = cfa_done_def cfa_fail_def cfa_fail_at_def operand_def with_factored_def factored_def
  restore_def cfa_is_register_def

lemmas cfa_handler_defs =
  cfa_nop_def cfa_set_loc_def cfa_advance_loc_def cfa_offset_def cfa_restore_def cfa_undefined_def
  cfa_same_value_def cfa_register_def cfa_remember_state_def cfa_restore_state_def cfa_def_cfa_def
  cfa_def_cfa_register_def cfa_def_cfa_offset_def cfa_def_cfa_expression_def cfa_expression_def
  cfa_offset_extended_sf_def cfa_def_cfa_sf_def cfa_def_cfa_offset_sf_def cfa_val_offset_def
  cfa_val_offset_sf_def cfa_val_expression_def cfa_gnu_negative_offset_extended_def

text \<open>Undefined behaviour that is left: overflow of signed products and over-long LEB128 numbers.\<close>

definition arithmetic :: "fault + 'r \<Rightarrow> bool" where
  "arithmetic r \<longleftrightarrow> (\<forall>f. r = Inl f \<longrightarrow> f = BadShift \<or> f = SignedOverflow)"

definition operands_suffice :: "('a::len word cfa \<Rightarrow> 'a word cfa_result) option \<Rightarrow> CfaInfo \<Rightarrow> bool" where
  "operands_suffice handler info \<longleftrightarrow>
     (case handler of None \<Rightarrow> True
      | Some h \<Rightarrow> \<forall>s. length (cfa_operands s) = length (cfa_encodings info) \<longrightarrow> arithmetic (h s))"

lemma arithmetic_intros [intro, simp]:
  "arithmetic (Inr r)" "arithmetic (Inl BadShift)" "arithmetic (Inl SignedOverflow)"
  by (simp_all add: arithmetic_def)

lemma cfa_tables_low: "list_all2 operands_suffice cfa_handlers_low kTable_low"
  unfolding cfa_handlers_low_def kTable_low_def list.rel_inject
  by (intro conjI list.rel_intros; simp add: operands_suffice_def cfa_encodings_def)
    (auto simp: cfa_handler_defs cfa_machine_defs negated_def Let_def split: option.splits sum.splits list.splits)

lemma cfa_tables: "list_all2 operands_suffice cfa_handlers kTable"
  unfolding cfa_handlers_def kTable_def kTable_high_def
  by (intro list_all2_appendI cfa_tables_low)
    (auto simp: list_all2_conv_all_nth operands_suffice_def cfa_encodings_def less_Suc_eq
       cfa_handler_defs cfa_machine_defs negated_def)

lemma read_cfa_operands_result:
  "read_cfa_operands encs s = Inr (True, s') \<Longrightarrow> length (cfa_operands s') = length (cfa_operands s) + length encs"
  "arithmetic (read_cfa_operands encs s)"
proof (induction encs s rule: read_cfa_operands.induct)
  case (2 enc encs s)
  {
    case 1
    with "2.IH" show ?case
      by (auto simp: cfa_fail_at_def split: if_splits sum.splits option.splits)
  next
    case 2
    with "2.IH" show ?case
      by (auto simp: cfa_fail_at_def arithmetic_def ReadULEB128_def dest: ReadLEB128_loop_fault ReadEncodedValue_fault
          split: if_splits sum.splits option.splits)
  }
qed (simp_all add: cfa_done_def)

text \<open>
  C35. A call frame instruction never reads past the end of its operands, never meets a failing \<open>CHECK\<close> and
  never uses an uninitialised variable: the table of operand encodings has for every opcode the number
  of operands that its handler uses.  What is left undefined is arithmetic: an over-long LEB128 number
  or the overflow of a signed product.
\<close>

theorem cfa_instruction_reads_inside:
  fixes s :: "'a::len word cfa"
  shows "cfa_instruction s \<noteq> Inl ReadPastEnd \<and> cfa_instruction s \<noteq> Inl CheckFailed
    \<and> cfa_instruction s \<noteq> Inl Uninitialised"
proof -
  have handler: "arithmetic (h s2)"
    if "(cfa_handlers :: ('a word cfa \<Rightarrow> 'a word cfa_result) option list) ! unat low = Some h" "low = b AND 0x3f"
      "read_cfa_operands (cfa_encodings (kTable ! unat low)) s1 = Inr (True, s2)" "cfa_operands s1 = []"
    for low b :: u8 and h :: "'a word cfa \<Rightarrow> 'a word cfa_result" and s1 s2
  proof -
    have "unat low < length kTable"
      using that(2) and_u8_less [of b] by (simp add: kTable_def kTable_low_def kTable_high_def)
    then have "operands_suffice ((cfa_handlers :: ('a word cfa \<Rightarrow> 'a word cfa_result) option list) ! unat low)
        (kTable ! unat low)"
      using cfa_tables list_all2_nthD2 by blast
    then show ?thesis
      using that(1,4) read_cfa_operands_result(1) [OF that(3)] by (simp add: operands_suffice_def)
  qed
  have "arithmetic (cfa_instruction s)"
    unfolding cfa_instruction_def Let_def
    by (auto simp: cfa_fail_def cfa_fail_at_def cfa_done_def restore_def with_factored_def factored_def Let_def
        ReadULEB128_def arithmetic_def
        dest: ReadLEB128_loop_fault read_cfa_operands_result(2) [unfolded arithmetic_def, rule_format]
          handler [unfolded arithmetic_def, rule_format]
        split: prod.splits option.splits sum.splits bool.splits if_splits)
  then show ?thesis by (auto simp: arithmetic_def)
qed

section \<open>The rows of a program counter\<close>

text \<open>The callback that only records the rows, and the states that a loop can reach.\<close>

definition record_row :: "locations list cfa_callback" where
  "record_row l m c = Inr (True, m, c @ [l])"

inductive cfa_reaches :: "'a::len word cfa \<Rightarrow> 'a word cfa \<Rightarrow> bool" where
  here: "cfa_reaches s s"
| further: "cfa_instruction s = Inr (True, s1) \<Longrightarrow> cfa_reaches s1 s2 \<Longrightarrow> cfa_reaches s s2"

inductive_cases cfa_reachesE: "cfa_reaches s s2"

text \<open>
  Instructions that move the program counter forwards (no backward \<open>DW_CFA_set_loc\<close>, no wrap-around)
  and keep the start of the row that is being described (no \<open>DW_CFA_restore_state\<close>).
\<close>

definition forward_from :: "'a::len word cfa \<Rightarrow> bool" where
  "forward_from s \<longleftrightarrow>
     (\<forall>s1 s2. cfa_reaches s s1 \<longrightarrow> cfa_instruction s1 = Inr (True, s2) \<longrightarrow>
        (ucast (cur_pc s1) :: u64) \<le> ucast (cur_pc s2) \<and> row_start (loc_regs s2) = ucast (cur_pc s1))"

lemma forward_from_step:
  assumes "forward_from s" "cfa_instruction s = Inr (True, s')"
  shows "forward_from s'" "(ucast (cur_pc s) :: u64) \<le> ucast (cur_pc s')"
    "row_start (loc_regs s') = ucast (cur_pc s)"
  using assms by (auto simp: forward_from_def intro: cfa_reaches.intros)

definition same_row :: "locations \<Rightarrow> locations \<Rightarrow> bool" where
  "same_row l l' \<longleftrightarrow> rules l = rules l' \<and> row_start l = row_start l'"

lemma call_back_record [simp]:
  "call_back record_row s c = Inr (True, s, c @ [loc_regs s])"
  by (simp add: call_back_def record_row_def)

lemma end_row_simps [simp]:
  "cur_pc (end_row e s) = cur_pc s" "cfa_memory (end_row e s) = cfa_memory s"
  "rules (loc_regs (end_row e s)) = rules (loc_regs s)" "row_start (loc_regs (end_row e s)) = row_start (loc_regs s)"
  by (simp_all add: end_row_def)

text \<open>Induction over a run of the iteration that records the rows and returns.\<close>

lemma iterate_induct [consumes 1, case_names last_row step]:
  fixes s :: "'a::len word cfa"
  assumes "IterateLocationInfo_loop record_row stop end_offset True last_pc s c = Some (Inr (True, s', rows))"
    and "\<And>last_pc s c e. rows = (if cur_pc s = last_pc then c else c @ [loc_regs s]) @ [loc_regs (end_row e s)]
           \<Longrightarrow> stop \<le> ucast (cur_pc s) \<and> e = ucast (cur_pc s)
              \<or> ucast (cur_pc s) < stop \<and> end_offset \<le> cur_offset (cfa_memory s) \<and> e = pc_end (cfa_fde s)
           \<Longrightarrow> s' = end_row e s \<Longrightarrow> Q last_pc s c"
    and "\<And>last_pc s c s1. cfa_instruction s = Inr (True, s1) \<Longrightarrow> ucast (cur_pc s) < stop
           \<Longrightarrow> \<not> end_offset \<le> cur_offset (cfa_memory s)
           \<Longrightarrow> Q (cur_pc s) s1 (if cur_pc s = last_pc then c else c @ [loc_regs s]) \<Longrightarrow> Q last_pc s c"
  shows "Q last_pc s c"
proof -
  let ?P = "\<lambda>cb st eo it last_pc s c (r :: ('a word, locations list) iterate_result). cb = record_row \<longrightarrow> st = stop \<longrightarrow> eo = end_offset \<longrightarrow> it \<longrightarrow>
      r = Inr (True, s', rows) \<longrightarrow> Q last_pc s c"
  have "?P record_row stop end_offset True last_pc s c (Inr (True, s', rows))"
  proof (rule IterateLocationInfo_loop.raw_induct [where P = ?P, OF _ assms(1)])
    fix loop cb st eo it and last_pc :: "'a word" and s :: "'a word cfa" and c r
    assume ih: "\<And>cb st eo it last_pc s c r. loop cb st eo it last_pc s c = Some r \<Longrightarrow> ?P cb st eo it last_pc s c r"
      and eq: "(case if it \<and> cur_pc s \<noteq> last_pc then call_back cb s c else Inr (True, s, c) of
         Inl f \<Rightarrow> Some (Inl f)
       | Inr (go_on, s, c) \<Rightarrow>
          if \<not> go_on then Some (Inr (False, s, c))
          else if st \<le> ucast (cur_pc s) then Some (call_back cb (end_row (ucast (cur_pc s)) s) c)
          else if eo \<le> cur_offset (cfa_memory s) then Some (call_back cb (end_row (pc_end (cfa_fde s)) s) c)
          else case cfa_instruction s of Inl f \<Rightarrow> Some (Inl f)
               | Inr (ok, s') \<Rightarrow>
                   if ok then loop cb st eo it (if it then cur_pc s else last_pc) s' c
                   else Some (Inr (False, s', c))) = Some r"
    show "?P cb st eo it last_pc s c r"
    proof (intro impI)
      assume a: "cb = record_row" "st = stop" "eo = end_offset" it "r = Inr (True, s', rows)"
      define c' where "c' = (if cur_pc s = last_pc then c else c @ [loc_regs s])"
      have first: "(if it \<and> cur_pc s \<noteq> last_pc then Inr (True, s, c @ [loc_regs s]) else Inr (True, s, c)) = (Inr (True, s, c') :: ('a word, locations list) iterate_result)"
        using a(4) by (simp add: c'_def)
      have eq': "(if stop \<le> ucast (cur_pc s) then Some (Inr (True, end_row (ucast (cur_pc s)) s, c' @ [loc_regs (end_row (ucast (cur_pc s)) s)]))
          else if end_offset \<le> cur_offset (cfa_memory s)
          then Some (Inr (True, end_row (pc_end (cfa_fde s)) s, c' @ [loc_regs (end_row (pc_end (cfa_fde s)) s)]))
          else case cfa_instruction s of Inl f \<Rightarrow> Some (Inl f)
               | Inr (ok, s') \<Rightarrow> if ok then loop cb st eo it (if it then cur_pc s else last_pc) s' c' else Some (Inr (False, s', c')))
          = Some (Inr (True, s', rows))"
        using eq unfolding a(1-3,5) call_back_record first by (simp split del: if_split)
      consider "stop \<le> ucast (cur_pc s)"
        | "\<not> stop \<le> ucast (cur_pc s)" "end_offset \<le> cur_offset (cfa_memory s)"
        | "\<not> stop \<le> ucast (cur_pc s)" "\<not> end_offset \<le> cur_offset (cfa_memory s)"
        by blast
      then show "Q last_pc s c"
      proof cases
        case 1
        then have "s' = end_row (ucast (cur_pc s)) s" "rows = c' @ [loc_regs (end_row (ucast (cur_pc s)) s)]"
          using eq' by auto
        with 1 show ?thesis by (intro assms(2) [of s last_pc c "ucast (cur_pc s)", folded c'_def]) simp_all
      next
        case 2
        then have "s' = end_row (pc_end (cfa_fde s)) s" "rows = c' @ [loc_regs (end_row (pc_end (cfa_fde s)) s)]"
          using eq' by auto
        with 2 show ?thesis by (intro assms(2) [of s last_pc c "pc_end (cfa_fde s)", folded c'_def]) (simp_all add: not_le)
      next
        case 3
        then obtain s1 where s1: "cfa_instruction s = Inr (True, s1)"
          "loop cb st eo it (cur_pc s) s1 c' = Some (Inr (True, s', rows))"
          using eq' a(4) by (auto split: sum.splits if_splits)
        from ih [OF s1(2)] a(1-4) have "Q (cur_pc s) s1 c'" by simp
        with assms(3) [OF s1(1) _ 3(2), of last_pc c, folded c'_def] 3(1) show ?thesis by (simp add: not_le)
      qed
    qed
  qed
  then show ?thesis by simp
qed

text \<open>
  A callback that leaves the reader where it is gets exactly these rows, one after the other, until it
  asks to stop.
\<close>

fun fold_rows :: "(locations \<Rightarrow> 'c \<Rightarrow> bool \<times> 'c) \<Rightarrow> locations list \<Rightarrow> 'c \<Rightarrow> bool \<times> 'c" where
  "fold_rows f [] c = (True, c)"
| "fold_rows f (l # ls) c = (case f l c of (go_on, c') \<Rightarrow> if go_on then fold_rows f ls c' else (False, c'))"

lemma fold_rows_append:
  "fold_rows f (xs @ ys) c = (case fold_rows f xs c of (go_on, c') \<Rightarrow> if go_on then fold_rows f ys c' else (False, c'))"
  by (induction xs arbitrary: c) (auto split: prod.split)

lemma call_back_still:
  assumes "callback (loc_regs s) (cfa_memory s) c = Inr (fst (f (loc_regs s) c), cfa_memory s, snd (f (loc_regs s) c))"
  shows "call_back callback s c = Inr (fst (f (loc_regs s) c), s, snd (f (loc_regs s) c))"
  by (simp add: call_back_def assms)

lemma iterate_folds:
  assumes "IterateLocationInfo_loop record_row stop end_offset True last_pc s c0 = Some (Inr (True, s', rows))"
    and "\<And>l m c. l \<in> set rows \<Longrightarrow> callback l m c = Inr (fst (f l c), m, snd (f l c))"
  shows "\<exists>zs. rows = c0 @ zs \<and> (\<forall>c. \<exists>s''.
     IterateLocationInfo_loop callback stop end_offset True last_pc s c
       = Some (Inr (fst (fold_rows f zs c), s'', snd (fold_rows f zs c))))"
  using assms
proof (induction rule: iterate_induct)
  case (last_row last_pc s c0 e)
  let ?xs = "if cur_pc s = last_pc then [] else [loc_regs s]"
  have rows: "rows = c0 @ ?xs @ [loc_regs (end_row e s)]" using last_row.hyps(1) by simp
  have last: "call_back callback (end_row e s) c
      = Inr (fst (f (loc_regs (end_row e s)) c), end_row e s, snd (f (loc_regs (end_row e s)) c))" for c
    using last_row.prems rows by (intro call_back_still) simp
  have first: "call_back callback s c = Inr (fst (f (loc_regs s) c), s, snd (f (loc_regs s) c))" if "cur_pc s \<noteq> last_pc" for c
    using last_row.prems rows that by (intro call_back_still) simp
  have "\<exists>s''. IterateLocationInfo_loop callback stop end_offset True last_pc s c
       = Some (Inr (fst (fold_rows f (?xs @ [loc_regs (end_row e s)]) c), s'', snd (fold_rows f (?xs @ [loc_regs (end_row e s)]) c)))" for c
  proof -
    obtain c1 go where c1: "(if True \<and> cur_pc s \<noteq> last_pc then call_back callback s c else Inr (True, s, c)) = Inr (go, s, c1)"
      "fold_rows f (?xs @ [loc_regs (end_row e s)]) c
         = (if go then fold_rows f [loc_regs (end_row e s)] c1 else (False, c1))"
      using first [of c] by (cases "cur_pc s = last_pc") (auto simp: case_prod_unfold)
    have fin: "fold_rows f [loc_regs (end_row e s)] c1 = (fst (f (loc_regs (end_row e s)) c1), snd (f (loc_regs (end_row e s)) c1))"
      by (cases "f (loc_regs (end_row e s)) c1") auto
    have "IterateLocationInfo_loop callback stop end_offset True last_pc s c
        = (if go then Some (call_back callback (end_row e s) c1) else Some (Inr (False, s, c1)))"
      using last_row.hyps(2) by (subst IterateLocationInfo_loop.simps, subst c1(1)) (auto simp: not_le)
    then show ?thesis unfolding c1(2) fin last by (cases go) auto
  qed
  then show ?case using rows by blast
next
  case (step last_pc s c0 s1)
  let ?xs = "if cur_pc s = last_pc then [] else [loc_regs s]"
  from step.IH [OF step.prems] obtain zs where zs: "rows = (if cur_pc s = last_pc then c0 else c0 @ [loc_regs s]) @ zs"
    and loop: "\<And>c. \<exists>s''. IterateLocationInfo_loop callback stop end_offset True (cur_pc s) s1 c
       = Some (Inr (fst (fold_rows f zs c), s'', snd (fold_rows f zs c)))" by blast
  have rows: "rows = c0 @ ?xs @ zs" using zs by simp
  have first: "call_back callback s c = Inr (fst (f (loc_regs s) c), s, snd (f (loc_regs s) c))" if "cur_pc s \<noteq> last_pc" for c
    using step.prems rows that by (intro call_back_still) simp
  have "\<exists>s''. IterateLocationInfo_loop callback stop end_offset True last_pc s c
       = Some (Inr (fst (fold_rows f (?xs @ zs) c), s'', snd (fold_rows f (?xs @ zs) c)))" for c
  proof -
    obtain c1 go where c1: "(if True \<and> cur_pc s \<noteq> last_pc then call_back callback s c else Inr (True, s, c)) = Inr (go, s, c1)"
      "fold_rows f (?xs @ zs) c = (if go then fold_rows f zs c1 else (False, c1))"
      using first [of c] by (cases "cur_pc s = last_pc") (auto simp: case_prod_unfold)
    have "IterateLocationInfo_loop callback stop end_offset True last_pc s c
        = (if go then IterateLocationInfo_loop callback stop end_offset True (cur_pc s) s1 c1 else Some (Inr (False, s, c1)))"
      using step.hyps by (subst IterateLocationInfo_loop.simps, subst c1(1)) (simp add: not_le [symmetric])
    then show ?thesis unfolding c1(2) using loop [of c1] by (cases go) auto
  qed
  then show ?case using rows by blast
qed

lemma iterate_agrees:
  assumes "IterateLocationInfo_loop record_row stop end_offset True last_pc s c = Some (Inr (True, s', rows))"
    and "forward_from s" "row_start (loc_regs s) = ucast last_pc" "(ucast last_pc :: u64) \<le> ucast (cur_pc s)"
    and "pc < stop"
  shows "(\<exists>zs. rows = c @ zs \<and> (\<forall>r \<in> set zs. ucast last_pc \<le> row_start r))
    \<and> (ucast last_pc \<le> pc \<longrightarrow> (\<exists>s'' xs row ys. GetLocationInfo_loop pc end_offset s = Some (Inr (True, s''))
    \<and> rows = c @ xs @ row # ys \<and> same_row row (loc_regs s'') \<and> row_start row \<le> pc
    \<and> (\<forall>r \<in> set ys. pc < row_start r)))"
  using assms
proof (induction rule: iterate_induct)
  case (last_row last_pc s c e)
  let ?xs = "if cur_pc s = last_pc then [] else [loc_regs s]"
  have rows: "rows = c @ ?xs @ loc_regs (end_row e s) # []" using last_row.hyps(1) by simp
  have "\<exists>e'. GetLocationInfo_loop pc end_offset s = Some (Inr (True, end_row e' s))"
    using last_row.hyps(2) last_row.prems(4)
    by (subst GetLocationInfo_loop.simps) (auto simp: cfa_done_def)
  then obtain e' where "GetLocationInfo_loop pc end_offset s = Some (Inr (True, end_row e' s))" by blast
  moreover have "same_row (loc_regs (end_row e s)) (loc_regs (end_row e' s))" by (simp add: same_row_def)
  moreover have "row_start (loc_regs (end_row e s)) = ucast last_pc" using last_row.prems(2) by simp
  ultimately show ?case
    using rows last_row.prems(2)
    by (intro conjI impI exI [of _ "?xs @ [loc_regs (end_row e s)]"] exI [of _ "end_row e' s"] exI [of _ ?xs]
        exI [of _ "loc_regs (end_row e s)"] exI [of _ "[]"]) auto
next
  case (step last_pc s c s1)
  let ?c = "if cur_pc s = last_pc then c else c @ [loc_regs s]"
  note f = forward_from_step [OF step.prems(1) step.hyps(1)]
  from step.IH [OF f(1,3,2) step.prems(4)] obtain zs where
    zs: "rows = ?c @ zs" "\<forall>r \<in> set zs. ucast (cur_pc s) \<le> row_start r"
    and agree: "ucast (cur_pc s) \<le> pc \<Longrightarrow> \<exists>s'' xs row ys. GetLocationInfo_loop pc end_offset s1 = Some (Inr (True, s''))
      \<and> rows = ?c @ xs @ row # ys \<and> same_row row (loc_regs s'') \<and> row_start row \<le> pc
      \<and> (\<forall>r \<in> set ys. pc < row_start r)" by blast
  let ?xs = "if cur_pc s = last_pc then [] else [loc_regs s]"
  have suffix: "rows = c @ ?xs @ zs" "\<forall>r \<in> set (?xs @ zs). ucast last_pc \<le> row_start r"
    using zs step.prems(2,3) by (auto intro: order_trans)
  show ?case
  proof (intro conjI impI)
    show "\<exists>zs. rows = c @ zs \<and> (\<forall>r \<in> set zs. ucast last_pc \<le> row_start r)" using suffix by blast
  next
    assume le: "ucast last_pc \<le> pc"
    show "\<exists>s'' xs row ys. GetLocationInfo_loop pc end_offset s = Some (Inr (True, s''))
      \<and> rows = c @ xs @ row # ys \<and> same_row row (loc_regs s'') \<and> row_start row \<le> pc
      \<and> (\<forall>r \<in> set ys. pc < row_start r)"
    proof (cases "ucast (cur_pc s) > pc")
      case True
      then have moved: "cur_pc s \<noteq> last_pc" using le by auto
      have "GetLocationInfo_loop pc end_offset s = Some (Inr (True, end_row (ucast (cur_pc s)) s))"
        using True by (subst GetLocationInfo_loop.simps) (simp add: cfa_done_def)
      then show ?thesis
        using True moved zs step.prems(2) le
        by (intro exI [of _ "end_row (ucast (cur_pc s)) s"] exI [of _ "[]"] exI [of _ "loc_regs s"] exI [of _ zs])
          (auto simp: same_row_def intro: less_le_trans)
    next
      case False
      then obtain s'' xs row ys where
        r: "GetLocationInfo_loop pc end_offset s1 = Some (Inr (True, s''))" "rows = ?c @ xs @ row # ys"
          "same_row row (loc_regs s'')" "row_start row \<le> pc" "\<forall>r \<in> set ys. pc < row_start r"
        using agree by (auto simp: not_less)
      have "GetLocationInfo_loop pc end_offset s = GetLocationInfo_loop pc end_offset s1"
        using False step.hyps by (subst GetLocationInfo_loop.simps) simp
      then show ?thesis
        using r by (intro exI [of _ s''] exI [of _ "?xs @ xs"] exI [of _ row] exI [of _ ys]) simp
    qed
  qed
qed

lemma forward_fromI:
  assumes "\<And>s'. cfa_instruction s = Inr (True, s') \<Longrightarrow>
     (ucast (cur_pc s) :: u64) \<le> ucast (cur_pc s') \<and> row_start (loc_regs s') = ucast (cur_pc s) \<and> forward_from s'"
  shows "forward_from s"
  unfolding forward_from_def
proof (intro allI impI)
  fix s1 s2
  assume "cfa_reaches s s1" "cfa_instruction s1 = Inr (True, s2)"
  then show "(ucast (cur_pc s1) :: u64) \<le> ucast (cur_pc s2) \<and> row_start (loc_regs s2) = ucast (cur_pc s1)"
    using assms by (cases rule: cfa_reachesE) (auto simp: forward_from_def)
qed

text \<open>Such programs report their rows in the order of their starts.\<close>

lemma iterate_sorted:
  assumes "IterateLocationInfo_loop record_row stop end_offset True last_pc s c = Some (Inr (True, s', rows))"
    and "forward_from s" "row_start (loc_regs s) = ucast last_pc" "(ucast last_pc :: u64) \<le> ucast (cur_pc s)"
  shows "\<exists>zs. rows = c @ zs \<and> sorted_wrt (\<le>) (ucast last_pc # map row_start zs)"
  using assms
proof (induction rule: iterate_induct)
  case (last_row last_pc s c e)
  then show ?case
    by (intro exI [of _ "(if cur_pc s = last_pc then [] else [loc_regs s]) @ [loc_regs (end_row e s)]"]) auto
next
  case (step last_pc s c s1)
  note f = forward_from_step [OF step.prems(1) step.hyps(1)]
  from step.IH [OF f(1,3,2)] obtain zs where
    zs: "rows = (if cur_pc s = last_pc then c else c @ [loc_regs s]) @ zs" "sorted_wrt (\<le>) (ucast (cur_pc s) # map row_start zs)"
    by blast
  then show ?case
    using step.prems(2,3)
    by (intro exI [of _ "(if cur_pc s = last_pc then [] else [loc_regs s]) @ zs"]) (auto intro: order_trans)
qed

lemma rows_agree:
  fixes self :: "'a::len word cfa"
  assumes "IterateLocationInfo start_pc stop start_offset end_offset True record_row self []
             = Some (Inr (True, s', rows))"
    and "forward_from (cfa_start start_offset start_pc no_locations self)"
    and "ucast (ucast start_pc :: 'a word) \<le> pc" "pc < stop"
  shows "\<exists>s'' xs row ys. GetLocationInfo pc start_offset end_offset start_pc no_locations self = Some (Inr (True, s''))
    \<and> rows = xs @ row # ys \<and> same_row row (loc_regs s'') \<and> row_start row \<le> pc
    \<and> (\<forall>r \<in> set ys. pc < row_start r)"
  using iterate_agrees [of stop end_offset "ucast start_pc" "cfa_start start_offset start_pc no_locations self"
      "[]" s' rows pc] assms
  by (simp add: IterateLocationInfo_def GetLocationInfo_def cfa_start_def Let_def)

text \<open>
  C19. The two readings of a call frame program agree.  When iterating over the rows of an entry returns,
  then looking up any program counter of the entry returns too, in a row that the iteration has
  reported, with the same rules and the same start; the start is not above the program counter, and all
  rows reported later start above it.  This is for programs whose location advances, and without
  \<open>DW_CFA_restore_state\<close>, which brings back an old start.
\<close>

theorem rows_agree_with_lookup:
  fixes self :: "'a::len word cfa"
  assumes "IterateLocationInfo start_pc stop start_offset end_offset True record_row self []
             = Some (Inr (True, s', rows))"
    and "forward_from (cfa_start start_offset start_pc no_locations self)"
    and "ucast (ucast start_pc :: 'a word) \<le> pc" "pc < stop"
  shows "\<exists>s'' xs row ys. GetLocationInfo pc start_offset end_offset start_pc no_locations self = Some (Inr (True, s''))
    \<and> rows = xs @ row # ys \<and> same_row row (loc_regs s'') \<and> row_start row \<le> pc
    \<and> (\<forall>r \<in> set ys. pc < row_start r)"
  using assms by (rule rows_agree)

text \<open>\<open>def_cfa sp, 0; advance_loc 4; def_cfa_offset 16\<close>, from 0x1000 to 0x1010.\<close>

definition sample_cie :: dwarf_cie where
  "sample_cie =
     \<lparr>cie_version = 1, fde_address_encoding = 0, lsda_encoding = 0xff, segment_size = 0, augmentation_string = [0],
      personality_handler = 0, cie_instructions_offset = 0, cie_instructions_end = 0, code_alignment_factor = 4,
      data_alignment_factor = - 8, return_address_register = 30\<rparr>"

definition new_cfa :: "dwarf_memory \<Rightarrow> dwarf_fde \<Rightarrow> dwarf_cie \<Rightarrow> locations option \<Rightarrow> 'a::len word cfa" where
  "new_cfa m fde cie cie_regs =
     \<lparr>cfa_memory = m, cfa_fde = fde, cfa_cie = cie, cur_pc = 0, cie_loc_regs = cie_regs, cfa_operands = [],
      loc_reg_state = [], cfa_error = \<lparr>err_code = DWARF_ERROR_NONE, err_address = 0\<rparr>, loc_regs = no_locations\<rparr>"

definition sample_fde :: dwarf_fde where
  "sample_fde =
     \<lparr>cie_offset = 0, fde_instructions_offset = 0, fde_instructions_end = 6, pc_start = 0x1000, pc_end = 0x1010,
      lsda_address = 0, fde_cie = Some sample_cie\<rparr>"

definition sample_raw :: "u8 list" where
  "sample_raw = [0x0c, 31, 0, 0x41, 0x0e, 16]"

definition sample_run :: "u64 cfa" where
  "sample_run = new_cfa (new_dwarf_memory (MemoryBuffer_Read sample_raw)) sample_fde sample_cie (Some no_locations)"

definition sample_state :: "u64 \<Rightarrow> u64 \<Rightarrow> u64 list \<Rightarrow> (u32 \<Rightarrow> DwarfLocation option) \<Rightarrow> u64 \<Rightarrow> u64 cfa" where
  "sample_state offset pc ops rs start =
     sample_run\<lparr>cfa_memory := (cfa_memory sample_run)\<lparr>cur_offset := offset\<rparr>, cur_pc := pc, cfa_operands := ops,
                loc_regs := \<lparr>rules = rs, row_start = start, row_end = 0\<rparr>\<rparr>"

lemmas run_defs = cfa_instruction_def cfa_handlers_def cfa_handlers_low_def kTable_def kTable_low_def
  cfa_encodings_def ReadBytes_def ReadFully_MemoryBuffer ReadEncodedValue_def ReadULEB128_def ReadLEB128_loop.simps
  AdjustEncodedValue_def cfa_handler_defs cfa_machine_defs set_rule_def loc_def Let_def

abbreviation sample_rules :: "u64 \<Rightarrow> u32 \<Rightarrow> DwarfLocation option" where
  "sample_rules n \<equiv> [CFA_REG \<mapsto> \<lparr>loc_type = DWARF_LOCATION_REGISTER, value0 = 31, value1 = n\<rparr>]"

lemma sample_steps:
  "cfa_start 0 0x1000 no_locations sample_run = sample_state 0 0x1000 [] Map.empty 0x1000"
  "cfa_instruction (sample_state 0 0x1000 [] Map.empty 0x1000)
     = Inr (True, sample_state 3 0x1000 [31, 0] (sample_rules 0) 0x1000)"
  "cfa_instruction (sample_state 3 0x1000 [31, 0] (sample_rules 0) 0x1000)
     = Inr (True, sample_state 4 0x1004 [] (sample_rules 0) 0x1000)"
  "cfa_instruction (sample_state 4 0x1004 [] (sample_rules 0) 0x1000)
     = Inr (True, sample_state 6 0x1004 [16] (sample_rules 16) 0x1004)"
  "cfa_instruction (sample_state 6 0x1004 [16] (sample_rules 16) 0x1004) \<noteq> Inr (True, s')"
  by (simp_all add: run_defs cfa_start_def sample_state_def sample_run_def new_cfa_def new_dwarf_memory_def
      sample_fde_def sample_cie_def no_locations_def sample_raw_def)

lemma sample_state_simps [simp]:
  "cur_pc (sample_state offset pc ops rs start) = pc" "row_start (loc_regs (sample_state offset pc ops rs start)) = start"
  "cur_offset (cfa_memory (sample_state offset pc ops rs start)) = offset"
  "pc_end (cfa_fde (sample_state offset pc ops rs start)) = 0x1010"
  "rules (loc_regs (sample_state offset pc ops rs start)) = rs"
  by (simp_all add: sample_state_def sample_run_def new_cfa_def sample_fde_def)

lemma sample_forward: "forward_from (sample_state 0 0x1000 [] Map.empty 0x1000)"
  by (rule forward_fromI, simp add: sample_steps, rule forward_fromI, simp add: sample_steps,
      rule forward_fromI, simp add: sample_steps, rule forward_fromI, simp add: sample_steps)

lemma sample_iterates:
  "IterateLocationInfo 0x1000 0x1010 0 6 True record_row sample_run []
     = Some (Inr (True, end_row 0x1010 (sample_state 6 0x1004 [16] (sample_rules 16) 0x1004),
         [loc_regs (sample_state 4 0x1004 [] (sample_rules 0) 0x1000),
          loc_regs (end_row 0x1010 (sample_state 6 0x1004 [16] (sample_rules 16) 0x1004))]))"
  by (simp add: IterateLocationInfo_def sample_steps IterateLocationInfo_loop.simps)

theorem rows_agree_with_lookup_witness:
  "\<exists>s''. GetLocationInfo 0x1008 0 6 0x1000 no_locations sample_run = Some (Inr (True, s''))
     \<and> rules (loc_regs s'') CFA_REG = Some \<lparr>loc_type = DWARF_LOCATION_REGISTER, value0 = 31, value1 = 16\<rparr>"
proof -
  let ?s3 = "sample_state 6 0x1004 [16] (sample_rules 16) 0x1004"
  let ?r1 = "loc_regs (sample_state 4 0x1004 [] (sample_rules 0) 0x1000)"
  obtain s'' xs row ys where s'': "GetLocationInfo 0x1008 0 6 0x1000 no_locations sample_run = Some (Inr (True, s''))"
    "[?r1, loc_regs (end_row 0x1010 ?s3)] = xs @ row # ys" "same_row row (loc_regs s'')" "row_start row \<le> 0x1008"
    "\<forall>r \<in> set ys. 0x1008 < row_start r"
    using rows_agree_with_lookup [OF sample_iterates, where pc = "0x1008"] sample_forward by (auto simp: sample_steps)
  then have "row = loc_regs (end_row 0x1010 ?s3)"
    by (cases xs) (auto simp: Cons_eq_append_conv append_eq_Cons_conv)
  then have "rules (loc_regs s'') = sample_rules 16" using s''(3) by (simp add: same_row_def)
  then show ?thesis using s''(1) by simp
qed

section \<open>A block that leads back\<close>

text \<open>
  \<open>DW_CFA_def_cfa_expression\<close> with the block length \<open>2 ^ 64 - 11\<close>: skipping the block moves the reader
  back to the instruction itself.
\<close>

definition backward_raw :: "u8 list" where
  "backward_raw = [0x0f, 0xf5, 0xff, 0xff, 0xff, 0xff, 0xff, 0xff, 0xff, 0xff, 0x01]"

definition before_backward :: "u64 \<Rightarrow> u64 cfa \<Rightarrow> bool" where
  "before_backward pc s \<longleftrightarrow> dm_memory (cfa_memory s) = MemoryBuffer_Read backward_raw \<and> cur_offset (cfa_memory s) = 0 \<and> cur_pc s \<le> pc"

lemma backward_step:
  assumes "before_backward pc s"
  shows "\<exists>s'. cfa_instruction s = Inr (True, s') \<and> before_backward pc s'"
proof -
  obtain pco d f tx where "cfa_memory s = \<lparr>dm_memory = MemoryBuffer_Read backward_raw, cur_offset = 0, pc_offset = pco,
      data_offset = d, func_offset = f, text_offset = tx\<rparr>"
    using assms by (cases "cfa_memory s") (simp add: before_backward_def)
  then show ?thesis
    using assms by (simp add: before_backward_def run_defs backward_raw_def)
qed

text \<open>
  Looking up a program counter may not return: a block whose length wraps the offset of the reader leads
  back to the instruction it belongs to, and neither the offset nor the location moves.
\<close>

theorem GetLocationInfo_may_spin:
  assumes "start_pc \<le> pc" "0 < end_offset"
  shows "GetLocationInfo pc 0 end_offset start_pc regs
     (new_cfa (new_dwarf_memory (MemoryBuffer_Read backward_raw)) fde cie cie_regs :: u64 cfa) = None"
proof -
  let ?P = "\<lambda>pc' stop (s :: u64 cfa) (r :: u64 cfa_result). pc' = pc \<longrightarrow> stop = end_offset \<longrightarrow> \<not> before_backward pc s"
  have "?P pc end_offset s r" if "GetLocationInfo_loop pc end_offset s = Some r" for s :: "u64 cfa" and r
  proof (rule GetLocationInfo_loop.raw_induct [where P = ?P, OF _ that])
    fix loop pc' stop and s :: "u64 cfa" and r :: "u64 cfa_result"
    assume ih: "\<And>pc' stop s r. loop pc' stop s = Some r \<Longrightarrow> ?P pc' stop s r"
      and eq: "(if ucast (cur_pc s) > pc' then Some (cfa_done (end_row (ucast (cur_pc s)) s))
        else if cur_offset (cfa_memory s) \<ge> stop then Some (cfa_done (end_row (pc_end (cfa_fde s)) s))
        else (case cfa_instruction s of Inl f \<Rightarrow> Some (Inl f)
                | Inr (ok, s') \<Rightarrow> if ok then loop pc' stop s' else Some (Inr (False, s')))) = Some r"
    show "?P pc' stop s r"
    proof (intro impI notI)
      assume a: "pc' = pc" "stop = end_offset" "before_backward pc s"
      obtain s' where "cfa_instruction s = Inr (True, s')" "before_backward pc s'"
        using backward_step [OF a(3)] by blast
      then show False
        using eq a assms(2) ih [of pc' stop s' r] by (simp add: before_backward_def not_le [symmetric])
    qed
  qed
  moreover have "before_backward pc (cfa_start 0 start_pc regs
      (new_cfa (new_dwarf_memory (MemoryBuffer_Read backward_raw)) fde cie cie_regs))"
    using assms(1) by (simp add: before_backward_def cfa_start_def new_cfa_def new_dwarf_memory_def)
  ultimately show ?thesis
    by (cases "GetLocationInfo_loop pc end_offset (cfa_start 0 start_pc regs
      (new_cfa (new_dwarf_memory (MemoryBuffer_Read backward_raw)) fde cie cie_regs) :: u64 cfa)")
      (auto simp: GetLocationInfo_def)
qed

theorem GetLocationInfo_may_spin_witness:
  "GetLocationInfo 0x1008 0 11 0x1000 no_locations
     (new_cfa (new_dwarf_memory (MemoryBuffer_Read backward_raw)) sample_fde sample_cie None :: u64 cfa) = None"
  by (rule GetLocationInfo_may_spin) simp_all

end
