(* ===== verification/Dwarf_Section.thy ===== *)
theory Dwarf_Section
  imports Dwarf_Cfa
begin

text \<open>
  \<open>DwarfSectionDecoder\<close> of \<^verbatim>\<open>DwarfSectionDecoder.cpp\<close>: reading the entries
  (CIE and FDE) of a frame section, the caches, and the map from program counters to FDEs.  The two
  kinds of section (\<^verbatim>\<open>DwarfEhFrameDecoder.h\<close>,
  \<^verbatim>\<open>DwarfDebugFrameDecoder.h\<close>) differ in three virtual functions.
\<close>

section \<open>The state of a section\<close>

datatype section_kind = EhFrame | DebugFrame

text \<open>
  The entries are never changed once they are filled in, so that a pointer to an entry is modelled by
  its value.  \<open>fdes\<close> is the \<open>std::map\<close> from end to start and FDE, as a list in the order of its keys.
\<close>

record frame_section =
  sec_kind :: section_kind
  sec_memory :: dwarf_memory
  cie32_value :: u32
  cie64_value :: u64
  fde_entries :: "u64 \<Rightarrow> dwarf_fde option"
  cie_entries :: "u64 \<Rightarrow> dwarf_cie option"
  sec_cie_loc_regs :: "u64 \<Rightarrow> locations option"
  section_bias :: u64
  entries_offset :: u64
  entries_end :: u64
  next_entries_offset :: u64
  sec_pc_offset :: u64
  fdes :: "(u64 \<times> u64 \<times> dwarf_fde) list"
  sec_error :: DwarfErrorData

definition new_section :: "section_kind \<Rightarrow> memory_read \<Rightarrow> frame_section" where
  "new_section kind mem =
     \<lparr>sec_kind = kind, sec_memory = new_dwarf_memory mem,
      cie32_value = (case kind of EhFrame \<Rightarrow> 0 | DebugFrame \<Rightarrow> - 1),
      cie64_value = (case kind of EhFrame \<Rightarrow> 0 | DebugFrame \<Rightarrow> - 1),
      fde_entries = (\<lambda>_. None), cie_entries = (\<lambda>_. None), sec_cie_loc_regs = (\<lambda>_. None),
      section_bias = 0, entries_offset = 0,
      entries_end = 0, next_entries_offset = 0, sec_pc_offset = 0, fdes = [],
      sec_error = \<lparr>err_code = DWARF_ERROR_NONE, err_address = 0\<rparr>\<rparr>"

definition on_memory :: "(dwarf_memory \<Rightarrow> dwarf_memory) \<Rightarrow> frame_section \<Rightarrow> frame_section" where
  "on_memory f s = s\<lparr>sec_memory := f (sec_memory s)\<rparr>"

abbreviation sec_offset :: "frame_section \<Rightarrow> u64" where
  "sec_offset s \<equiv> cur_offset (sec_memory s)"

definition set_offset :: "u64 \<Rightarrow> frame_section \<Rightarrow> frame_section" where
  "set_offset offset = on_memory (\<lambda>m. m\<lparr>cur_offset := offset\<rparr>)"

definition set_pc_base :: "u64 \<Rightarrow> frame_section \<Rightarrow> frame_section" where
  "set_pc_base offset = on_memory (\<lambda>m. m\<lparr>pc_offset := offset\<rparr>)"

definition set_data_base :: "u64 \<Rightarrow> frame_section \<Rightarrow> frame_section" where
  "set_data_base offset = on_memory (\<lambda>m. m\<lparr>data_offset := offset\<rparr>)"

definition Init :: "u64 \<Rightarrow> u64 \<Rightarrow> u64 \<Rightarrow> frame_section \<Rightarrow> frame_section" where
  "Init offset len bias s =
     on_memory (\<lambda>m. m\<lparr>func_offset := - 1, text_offset := - 1, cur_offset := offset\<rparr>)
       (s\<lparr>section_bias := bias, entries_offset := offset, next_entries_offset := offset,
          entries_end := offset + len, sec_pc_offset := offset\<rparr>)"

definition GetCieOffsetFromFde32 :: "u32 \<Rightarrow> frame_section \<Rightarrow> u64" where
  "GetCieOffsetFromFde32 pointer s =
     (case sec_kind s of
        EhFrame \<Rightarrow> sec_offset s - ucast pointer - 4
      | DebugFrame \<Rightarrow> entries_offset s + ucast pointer)"

definition GetCieOffsetFromFde64 :: "u64 \<Rightarrow> frame_section \<Rightarrow> u64" where
  "GetCieOffsetFromFde64 pointer s =
     (case sec_kind s of
        EhFrame \<Rightarrow> sec_offset s - pointer - 8
      | DebugFrame \<Rightarrow> entries_offset s + pointer)"

definition AdjustPcFromFde :: "u64 \<Rightarrow> frame_section \<Rightarrow> u64" where
  "AdjustPcFromFde pc s = (case sec_kind s of EhFrame \<Rightarrow> pc + sec_offset s - 4 | DebugFrame \<Rightarrow> pc)"

section \<open>Reading with early returns\<close>

text \<open>
  A member function: the outer option is \<open>None\<close> when it does not return, a fault is undefined behaviour,
  the inner option is \<open>None\<close> when it returns \<open>false\<close> (or a null pointer).
\<close>

type_synonym 'v sec_prog = "frame_section \<Rightarrow> (fault + ('v option \<times> frame_section)) option"

definition return :: "'v \<Rightarrow> 'v sec_prog" where
  "return v s = Some (Inr (Some v, s))"

definition give_up_with :: "DwarfErrorCode \<Rightarrow> 'v sec_prog" where
  "give_up_with e s = Some (Inr (None, s\<lparr>sec_error := (sec_error s)\<lparr>err_code := e\<rparr>\<rparr>))"

definition seq :: "'v sec_prog \<Rightarrow> ('v \<Rightarrow> 'w sec_prog) \<Rightarrow> 'w sec_prog" where
  "seq m k s =
     (case m s of
        None \<Rightarrow> None
      | Some (Inl f) \<Rightarrow> Some (Inl f)
      | Some (Inr (None, s')) \<Rightarrow> Some (Inr (None, s'))
      | Some (Inr (Some v, s')) \<Rightarrow> k v s')"

text \<open>
  A read; when it fails, \<open>last_error_\<close> is set to \<open>DWARF_ERROR_MEMORY_INVALID\<close> at the offset reached.
\<close>

definition reading :: "(dwarf_memory \<Rightarrow> fault + ('v option \<times> dwarf_memory)) \<Rightarrow> 'v sec_prog" where
  "reading rd s =
     (case rd (sec_memory s) of
        Inl f \<Rightarrow> Some (Inl f)
      | Inr (None, m) \<Rightarrow>
          Some (Inr (None, s\<lparr>sec_memory := m,
            sec_error := \<lparr>err_code = DWARF_ERROR_MEMORY_INVALID, err_address = cur_offset m\<rparr>\<rparr>))
      | Inr (Some v, m) \<Rightarrow> Some (Inr (Some v, s\<lparr>sec_memory := m\<rparr>)))"

definition read_word :: "nat \<Rightarrow> 'w::len word sec_prog" where
  "read_word n = reading (\<lambda>m. case ReadBytes n m of (r, m') \<Rightarrow> Inr (map_option le_word r, m'))"

definition read_uleb :: "u64 sec_prog" where
  "read_uleb = reading ReadULEB128"

definition read_sleb :: "u64 sec_prog" where
  "read_sleb = reading ReadSLEB128"

definition read_encoded :: "'a::len itself \<Rightarrow> u8 \<Rightarrow> u64 sec_prog" where
  "read_encoded t enc = reading (ReadEncodedValue t enc)"

definition modify :: "(frame_section \<Rightarrow> frame_section) \<Rightarrow> unit sec_prog" where
  "modify f s = return () (f s)"

definition here :: "u64 sec_prog" where
  "here s = return (sec_offset s) s"

section \<open>Common information entries\<close>

text \<open>The augmentation string with its terminating zero; it may go on for ever.\<close>

partial_function (option) read_augmentation ::
  "u8 list \<Rightarrow> frame_section \<Rightarrow> (fault + (u8 list option \<times> frame_section)) option" where
  "read_augmentation acc s =
     (case read_word 1 s of
        None \<Rightarrow> None
      | Some (Inl f) \<Rightarrow> Some (Inl f)
      | Some (Inr (None, s')) \<Rightarrow> Some (Inr (None, s'))
      | Some (Inr (Some c, s')) \<Rightarrow>
          if c \<noteq> 0 then read_augmentation (acc @ [c]) s' else Some (Inr (Some (acc @ [c]), s')))"

text \<open>The loop over the augmentation letters: 'L', 'P' and 'R' read something, others nothing.\<close>

fun read_augmentation_data :: "'a::len itself \<Rightarrow> u8 list \<Rightarrow> dwarf_cie \<Rightarrow> dwarf_cie sec_prog" where
  "read_augmentation_data t [] cie = return cie"
| "read_augmentation_data t (c # cs) cie =
     (if c = 0x4c
      then seq (read_word 1) (\<lambda>e. read_augmentation_data t cs (cie\<lparr>lsda_encoding := e\<rparr>))
      else if c = 0x50
      then seq (read_word 1) (\<lambda>e.
             \<lambda>s. seq (read_encoded t e)
               (\<lambda>p. read_augmentation_data t cs (cie\<lparr>personality_handler := p\<rparr>)) (set_pc_base (sec_pc_offset s) s))
      else if c = 0x52
      then seq (read_word 1) (\<lambda>e. read_augmentation_data t cs (cie\<lparr>fde_address_encoding := e\<rparr>))
      else read_augmentation_data t cs cie)"

definition FillInCie :: "'a::len itself \<Rightarrow> dwarf_cie \<Rightarrow> dwarf_cie sec_prog" where
  "FillInCie t cie0 =
     seq (read_word 1) (\<lambda>version.
     if version \<noteq> 1 \<and> version \<noteq> 3 \<and> version \<noteq> 4 \<and> version \<noteq> 5
     then give_up_with DWARF_ERROR_UNSUPPORTED_VERSION
     else
     seq (read_augmentation []) (\<lambda>aug.
     seq (if version = 4 \<or> version = 5
          then seq (modify (\<lambda>s. set_offset (sec_offset s + 1) s)) (\<lambda>_. read_word 1)
          else return (segment_size cie0)) (\<lambda>seg.
     seq read_uleb (\<lambda>code_factor.
     seq read_sleb (\<lambda>data_factor.
     seq (if version = 1 then seq (read_word 1) (\<lambda>b. return (ucast (b :: u8))) else read_uleb) (\<lambda>ra.
     let cie = cie0\<lparr>cie_version := version, augmentation_string := augmentation_string cie0 @ aug,
                    segment_size := seg, code_alignment_factor := code_factor,
                    data_alignment_factor := data_factor, return_address_register := ra\<rparr>
     in if hd (augmentation_string cie) \<noteq> 0x7a
        then seq here (\<lambda>o'. return (cie\<lparr>cie_instructions_offset := o'\<rparr>))
        else
        seq read_uleb (\<lambda>aug_length.
        seq here (\<lambda>o'.
          read_augmentation_data t (tl (augmentation_string cie))
            (cie\<lparr>cie_instructions_offset := o' + aug_length\<rparr>)))))))))"

definition empty_cie :: dwarf_cie where
  "empty_cie =
     \<lparr>cie_version = 0, fde_address_encoding = 0, lsda_encoding = 0, segment_size = 0, augmentation_string = [],
      personality_handler = 0, cie_instructions_offset = 0, cie_instructions_end = 0, code_alignment_factor = 0,
      data_alignment_factor = 0, return_address_register = 0\<rparr>"

definition FillInCieHeader :: "dwarf_cie \<Rightarrow> dwarf_cie sec_prog" where
  "FillInCieHeader cie0 =
     (let cie = cie0\<lparr>lsda_encoding := DW_EH_PE_omit\<rparr> in
      seq (read_word 4) (\<lambda>length32 :: u32.
      if length32 = - 1
      then seq (read_word 8) (\<lambda>length64.
           seq here (\<lambda>o'.
           seq (read_word 8) (\<lambda>cie_id. \<lambda>s.
             if cie_id \<noteq> cie64_value s then give_up_with DWARF_ERROR_ILLEGAL_VALUE s
             else return (cie\<lparr>cie_instructions_end := o' + length64, fde_address_encoding := DW_EH_PE_sdata8\<rparr>) s)))
      else seq here (\<lambda>o'.
           seq (read_word 4) (\<lambda>cie_id. \<lambda>s.
             if cie_id \<noteq> cie32_value s then give_up_with DWARF_ERROR_ILLEGAL_VALUE s
             else return (cie\<lparr>cie_instructions_end := o' + ucast length32,
                               fde_address_encoding := DW_EH_PE_sdata4\<rparr>) s))))"

definition GetCieFromOffset :: "'a::len itself \<Rightarrow> u64 \<Rightarrow> dwarf_cie sec_prog" where
  "GetCieFromOffset t offset s =
     (case cie_entries s offset of
        Some cie \<Rightarrow> return cie s
      | None \<Rightarrow>
          seq (seq (FillInCieHeader empty_cie) (FillInCie t))
            (\<lambda>cie. seq (modify (\<lambda>s. s\<lparr>cie_entries := (cie_entries s)(offset \<mapsto> cie)\<rparr>)) (\<lambda>_. return cie))
            (set_offset offset (set_data_base (entries_offset s) s)))"

section \<open>Frame description entries\<close>

definition empty_fde :: dwarf_fde where
  "empty_fde =
     \<lparr>cie_offset = 0, fde_instructions_offset = 0, fde_instructions_end = 0, pc_start = 0, pc_end = 0,
      lsda_address = 0, fde_cie = None\<rparr>"

text \<open>
  The start of the range is adjusted and the base of the reader reset whether or not the first read
  succeeded; the error is set after that.
\<close>

definition read_start :: "'a::len itself \<Rightarrow> u8 \<Rightarrow> u64 sec_prog" where
  "read_start t enc s =
     (case ReadEncodedValue t enc (sec_memory (set_pc_base (section_bias s) s)) of
        Inl f \<Rightarrow> Some (Inl f)
      | Inr (r, m) \<Rightarrow>
          let s' = set_pc_base 0 (s\<lparr>sec_memory := m\<rparr>)
          in case r of
               None \<Rightarrow> Some (Inr (None, s'\<lparr>sec_error :=
                   \<lparr>err_code = DWARF_ERROR_MEMORY_INVALID, err_address = sec_offset s'\<rparr>\<rparr>))
             | Some v \<Rightarrow> return (AdjustPcFromFde v s') s')"

definition FillInFde :: "'a::len itself \<Rightarrow> dwarf_fde \<Rightarrow> dwarf_fde sec_prog" where
  "FillInFde t fde0 =
     seq here (\<lambda>start_offset.
     seq (GetCieFromOffset t (cie_offset fde0)) (\<lambda>cie.
     seq (modify (set_offset (if segment_size cie \<noteq> 0 then start_offset + ucast (segment_size cie) else start_offset)))
       (\<lambda>_.
     seq (read_start t (fde_address_encoding cie)) (\<lambda>start.
     seq (read_encoded t (fde_address_encoding cie)) (\<lambda>len.
     let fde = fde0\<lparr>fde_cie := Some cie, pc_start := start, pc_end := len + start\<rparr> in
     seq (if augmentation_string cie \<noteq> [] \<and> hd (augmentation_string cie) = 0x7a
          then seq read_uleb (\<lambda>aug_length.
               seq here (\<lambda>o'.
               seq (\<lambda>s. read_encoded t (lsda_encoding cie) (set_pc_base (sec_pc_offset s) s)) (\<lambda>lsda.
               seq (modify (set_offset (o' + aug_length))) (\<lambda>_.
                 return (fde\<lparr>lsda_address := lsda\<rparr>)))))
          else return fde) (\<lambda>fde.
     seq here (\<lambda>o'. return (fde\<lparr>fde_instructions_offset := o'\<rparr>))))))))"

definition FillInFdeHeader :: "dwarf_fde \<Rightarrow> dwarf_fde sec_prog" where
  "FillInFdeHeader fde =
     seq (read_word 4) (\<lambda>length32 :: u32.
     if length32 = - 1
     then seq (read_word 8) (\<lambda>length64.
          seq here (\<lambda>o'.
          seq (read_word 8) (\<lambda>value64. \<lambda>s.
            if value64 = cie64_value s then give_up_with DWARF_ERROR_ILLEGAL_VALUE s
            else return (fde\<lparr>fde_instructions_end := o' + length64,
                              cie_offset := GetCieOffsetFromFde64 value64 s\<rparr>) s)))
     else seq here (\<lambda>o'.
          seq (read_word 4) (\<lambda>value32. \<lambda>s.
            if value32 = cie32_value s then give_up_with DWARF_ERROR_ILLEGAL_VALUE s
            else return (fde\<lparr>fde_instructions_end := o' + ucast length32,
                              cie_offset := GetCieOffsetFromFde32 value32 s\<rparr>) s)))"

definition remember_fde :: "u64 \<Rightarrow> dwarf_fde \<Rightarrow> dwarf_fde sec_prog" where
  "remember_fde offset fde =
     seq (modify (\<lambda>s. s\<lparr>fde_entries := (fde_entries s)(offset \<mapsto> fde)\<rparr>)) (\<lambda>_. return fde)"

definition GetFdeFromOffset :: "'a::len itself \<Rightarrow> u64 \<Rightarrow> dwarf_fde sec_prog" where
  "GetFdeFromOffset t offset s =
     (case fde_entries s offset of
        Some fde \<Rightarrow> return fde s
      | None \<Rightarrow>
          seq (seq (FillInFdeHeader empty_fde) (FillInFde t)) (remember_fde offset)
            (set_offset offset (set_data_base (entries_offset s) s)))"

section \<open>The next entry of the section\<close>

text \<open>
  The header: whether the entry is a CIE, the encoding of its addresses, or the offset of the CIE of an
  FDE.  It moves \<open>next_entries_offset_\<close> behind the entry.
\<close>

definition entry_header :: "(u8 + u64) sec_prog" where
  "entry_header =
     seq (read_word 4) (\<lambda>value32 :: u32.
     if value32 = - 1
     then seq (read_word 8) (\<lambda>value64.
          seq (modify (\<lambda>s. s\<lparr>next_entries_offset := sec_offset s + value64\<rparr>)) (\<lambda>_.
          seq (read_word 8) (\<lambda>value64. \<lambda>s.
            if value64 = cie64_value s then return (Inl DW_EH_PE_sdata8) s
            else return (Inr (GetCieOffsetFromFde64 value64 s)) s)))
     else seq (modify (\<lambda>s. s\<lparr>next_entries_offset := sec_offset s + ucast value32\<rparr>)) (\<lambda>_.
          seq (read_word 4) (\<lambda>value32. \<lambda>s.
            if value32 = cie32_value s then return (Inl DW_EH_PE_sdata4) s
            else return (Inr (GetCieOffsetFromFde32 value32 s)) s)))"

text \<open>The result is the FDE, or no FDE when the entry was a CIE.\<close>

definition GetNextCieOrFde :: "'a::len itself \<Rightarrow> dwarf_fde option sec_prog" where
  "GetNextCieOrFde t self =
     (let start_offset = next_entries_offset self in
      seq entry_header (\<lambda>h. \<lambda>s.
        case h of
          Inl enc \<Rightarrow>
            (case cie_entries s start_offset of
               Some cie \<Rightarrow> return None s
             | None \<Rightarrow>
                 seq (FillInCie t (empty_cie\<lparr>lsda_encoding := DW_EH_PE_omit,
                        cie_instructions_end := next_entries_offset s, fde_address_encoding := enc\<rparr>)) (\<lambda>cie.
                 seq (modify (\<lambda>s. s\<lparr>cie_entries := (cie_entries s)(start_offset \<mapsto> cie)\<rparr>)) (\<lambda>_.
                   return None)) s)
        | Inr offset \<Rightarrow>
            (case fde_entries s start_offset of
               Some fde \<Rightarrow> return (Some fde) s
             | None \<Rightarrow>
                 seq (FillInFde t (empty_fde\<lparr>fde_instructions_end := next_entries_offset s, cie_offset := offset\<rparr>))
                   (\<lambda>fde. seq (remember_fde start_offset fde) (\<lambda>fde. return (Some fde))) s))
        (set_offset start_offset (set_data_base (entries_offset self) self)))"

section \<open>Rows of the entry of a program counter\<close>

text \<open>
  \<open>GetCfaLocationInfo\<close>: the rules of the CIE are run once per CIE and cached, whatever the program
  counter.  Both runs use the same \<open>DwarfCfa\<close> object; its \<open>fde_->cie\<close> is not null.
\<close>

definition run_cie ::
  "'a::len itself \<Rightarrow> u64 \<Rightarrow> dwarf_fde \<Rightarrow> dwarf_cie \<Rightarrow> locations \<Rightarrow> frame_section
     \<Rightarrow> (fault + (('a word cfa \<times> locations) option \<times> frame_section)) option" where
  "run_cie t pc fde cie regs s =
     (let cfa0 = new_cfa (sec_memory s) fde cie None :: 'a word cfa in
      case sec_cie_loc_regs s (cie_offset fde) of
        Some r \<Rightarrow> Some (Inr (Some (cfa0\<lparr>cie_loc_regs := Some r\<rparr>, regs), s))
      | None \<Rightarrow>
          (case GetLocationInfo pc (cie_instructions_offset cie) (cie_instructions_end cie) (pc_start fde) regs cfa0 of
             None \<Rightarrow> None
           | Some (Inl f) \<Rightarrow> Some (Inl f)
           | Some (Inr (False, c)) \<Rightarrow> Some (Inr (None, s\<lparr>sec_memory := cfa_memory c, sec_error := cfa_error c\<rparr>))
           | Some (Inr (True, c)) \<Rightarrow>
               Some (Inr (Some (c\<lparr>cie_loc_regs := Some (loc_regs c)\<rparr>, loc_regs c),
                 s\<lparr>sec_memory := cfa_memory c,
                   sec_cie_loc_regs := (sec_cie_loc_regs s)(cie_offset fde \<mapsto> loc_regs c)\<rparr>))))"

definition GetCfaLocationInfo ::
  "'a::len itself \<Rightarrow> u64 \<Rightarrow> dwarf_fde \<Rightarrow> dwarf_cie \<Rightarrow> locations \<Rightarrow> locations sec_prog" where
  "GetCfaLocationInfo t pc fde cie regs s =
     (case run_cie t pc fde cie regs s of
        None \<Rightarrow> None
      | Some (Inl f) \<Rightarrow> Some (Inl f)
      | Some (Inr (None, s)) \<Rightarrow> Some (Inr (None, s))
      | Some (Inr (Some (c, regs), s)) \<Rightarrow>
          (case GetLocationInfo pc (fde_instructions_offset fde) (fde_instructions_end fde) (pc_start fde) regs c of
             None \<Rightarrow> None
           | Some (Inl f) \<Rightarrow> Some (Inl f)
           | Some (Inr (False, c)) \<Rightarrow> Some (Inr (None, s\<lparr>sec_memory := cfa_memory c, sec_error := cfa_error c\<rparr>))
           | Some (Inr (True, c)) \<Rightarrow> Some (Inr (Some (loc_regs c), s\<lparr>sec_memory := cfa_memory c\<rparr>))))"

section \<open>The map of the program counters\<close>

text \<open>\<open>fdes_[key] = ...\<close> and \<open>upper_bound\<close> on the sorted list.\<close>

fun map_put :: "u64 \<Rightarrow> 'v \<Rightarrow> (u64 \<times> 'v) list \<Rightarrow> (u64 \<times> 'v) list" where
  "map_put k v [] = [(k, v)]"
| "map_put k v ((k', v') # rest) =
     (if k < k' then (k, v) # (k', v') # rest
      else if k = k' then (k, v) # rest else (k', v') # map_put k v rest)"

definition upper_bound :: "u64 \<Rightarrow> (u64 \<times> 'v) list \<Rightarrow> (u64 \<times> 'v) list" where
  "upper_bound k = dropWhile (\<lambda>p. fst p \<le> k)"

text \<open>
  The loop of \<open>InsertFde\<close>; the first list is what the iterator still has to visit.  What the loop
  inserts lies before the iterator.
\<close>

fun insert_fde_loop ::
  "(u64 \<times> u64 \<times> 'f) list \<Rightarrow> 'f \<Rightarrow> u64 \<Rightarrow> u64 \<Rightarrow> (u64 \<times> u64 \<times> 'f) list \<Rightarrow> u64 \<times> (u64 \<times> u64 \<times> 'f) list" where
  "insert_fde_loop [] fde start stop m = (start, m)"
| "insert_fde_loop ((it_end, it_start, it_fde) # it) fde start stop m =
     (if start < stop \<and> it_start < stop
      then insert_fde_loop it fde it_end stop (if start < it_start then map_put it_start (start, fde) m else m)
      else (start, m))"

definition insert_fde :: "u64 \<Rightarrow> u64 \<Rightarrow> 'f \<Rightarrow> (u64 \<times> u64 \<times> 'f) list \<Rightarrow> (u64 \<times> u64 \<times> 'f) list" where
  "insert_fde start stop fde m =
     (case insert_fde_loop (upper_bound start m) fde start stop m of
        (start', m') \<Rightarrow> if start' < stop then map_put stop (start', fde) m' else m')"

definition InsertFde :: "dwarf_fde \<Rightarrow> frame_section \<Rightarrow> frame_section" where
  "InsertFde fde s = s\<lparr>fdes := insert_fde (pc_start fde) (pc_end fde) fde (fdes s)\<rparr>"

definition find_fde :: "u64 \<Rightarrow> (u64 \<times> u64 \<times> 'f) list \<Rightarrow> 'f option" where
  "find_fde pc m =
     (case upper_bound pc m of
        [] \<Rightarrow> None
      | (it_end, it_start, fde) # _ \<Rightarrow> if pc \<ge> it_start then Some fde else None)"

text \<open>The search loop of \<open>GetFdeFromPc\<close>; a null pointer is the inner \<open>None\<close>.\<close>

partial_function (option) search_loop ::
  "'a::len itself \<Rightarrow> u64 \<Rightarrow> frame_section \<Rightarrow> (fault + (dwarf_fde option \<times> frame_section)) option" where
  "search_loop t pc s =
     (if next_entries_offset s < entries_end s
      then (case GetNextCieOrFde t s of
              None \<Rightarrow> None
            | Some (Inl f) \<Rightarrow> Some (Inl f)
            | Some (Inr (None, s)) \<Rightarrow> Some (Inr (None, s))
            | Some (Inr (Some entry, s)) \<Rightarrow>
                let s = (case entry of None \<Rightarrow> s | Some fde \<Rightarrow> InsertFde fde s)
                in if (case entry of None \<Rightarrow> False | Some fde \<Rightarrow> pc \<ge> pc_start fde \<and> pc < pc_end fde)
                   then Some (Inr (entry, s))
                   else if next_entries_offset s < sec_offset s then Some (Inr (None, s))
                   else search_loop t pc s)
      else Some (Inr (None, s)))"

definition GetFdeFromPc :: "'a::len itself \<Rightarrow> u64 \<Rightarrow> dwarf_fde sec_prog" where
  "GetFdeFromPc t pc s =
     (case find_fde pc (fdes s) of
        Some fde \<Rightarrow> return fde s
      | None \<Rightarrow> search_loop t pc s)"

text \<open>\<open>FillFdes\<close> goes on (\<open>continue\<close>) when an entry cannot be read.\<close>

partial_function (option) FillFdes ::
  "'a::len itself \<Rightarrow> frame_section \<Rightarrow> (fault + frame_section) option" where
  "FillFdes t s =
     (if next_entries_offset s < entries_end s
      then (case GetNextCieOrFde t s of
              None \<Rightarrow> None
            | Some (Inl f) \<Rightarrow> Some (Inl f)
            | Some (Inr (None, s)) \<Rightarrow> FillFdes t s
            | Some (Inr (Some entry, s)) \<Rightarrow>
                let s = (case entry of None \<Rightarrow> s | Some fde \<Rightarrow> InsertFde fde s)
                in if next_entries_offset s < sec_offset s then Some (Inr s) else FillFdes t s)
      else Some (Inr s))"

declare FillFdes.simps [code] search_loop.simps [code] read_augmentation.simps [code]

section \<open>What the map finds\<close>

text \<open>
  The ranges lie in the order of their ends, are not empty and do not overlap.
\<close>

definition disjoint_ranges :: "(u64 \<times> u64 \<times> 'f) list \<Rightarrow> bool" where
  "disjoint_ranges m \<longleftrightarrow>
     sorted_wrt (\<lambda>(e, s, f) (e', s', f'). e \<le> s') m \<and> (\<forall>(e, s, f) \<in> set m. s < e)"

text \<open>The first range of a list that contains a program counter, whatever the order.\<close>

definition covering :: "u64 \<Rightarrow> (u64 \<times> u64 \<times> 'f) list \<Rightarrow> 'f option" where
  "covering pc m = map_option (\<lambda>(e, s, f). f) (List.find (\<lambda>(e, s, f). s \<le> pc \<and> pc < e) m)"

definition or_else :: "'f option \<Rightarrow> 'f option \<Rightarrow> 'f option" where
  "or_else a b = (case a of None \<Rightarrow> b | Some f \<Rightarrow> Some f)"

lemma or_else_simps [simp]: "or_else None b = b" "or_else (Some f) b = Some f" "or_else a None = a"
  by (simp_all add: or_else_def split: option.splits)

lemma or_else_assoc: "or_else (or_else a b) c = or_else a (or_else b c)"
  by (simp add: or_else_def split: option.splits)

lemma covering_simps [simp]:
  "covering pc [] = None"
  "covering pc ((e, s, f) # m) = (if s \<le> pc \<and> pc < e then Some f else covering pc m)"
  "covering pc (m @ m') = or_else (covering pc m) (covering pc m')"
  by (induction m) (auto simp: covering_def or_else_def)

lemma disjoint_ranges_Cons [simp]:
  "disjoint_ranges ((e, s, f) # m) \<longleftrightarrow>
     s < e \<and> (\<forall>(e', s', f') \<in> set m. e \<le> s') \<and> disjoint_ranges m"
  by (auto simp: disjoint_ranges_def)

lemma disjoint_ranges_Nil [simp]: "disjoint_ranges []"
  by (simp add: disjoint_ranges_def)

lemma disjoint_ranges_append:
  "disjoint_ranges (m @ m') \<longleftrightarrow>
     disjoint_ranges m \<and> disjoint_ranges m' \<and> (\<forall>(e, s, f) \<in> set m. \<forall>(e', s', f') \<in> set m'. e \<le> s')"
  by (auto simp: disjoint_ranges_def sorted_wrt_append case_prod_unfold)

lemma covering_outside:
  "\<forall>(e, s, f) \<in> set m. e \<le> pc \<or> pc < s \<Longrightarrow> covering pc m = None"
  by (induction m) (auto simp: not_less)

lemma before_ends: "\<forall>(e, s, f) \<in> set m. k \<le> s \<Longrightarrow> disjoint_ranges m \<Longrightarrow> \<forall>(e, s, f) \<in> set m. k < e"
  by (auto simp: disjoint_ranges_def intro: le_less_trans)

lemma find_fde_covering:
  "disjoint_ranges m \<Longrightarrow> find_fde pc m = covering pc m"
proof (induction m)
  case Nil
  then show ?case by (simp add: find_fde_def upper_bound_def)
next
  case (Cons r m)
  obtain e s f where r: "r = (e, s, f)" by (cases r)
  have "covering pc m = None" if "pc < e"
    using Cons.prems that by (intro covering_outside) (auto simp: r intro: less_le_trans)
  then show ?case
    using Cons by (auto simp: r find_fde_def upper_bound_def)
qed

lemma map_put_between:
  assumes "\<forall>(e, s, f) \<in> set m. e < k" "\<forall>(e, s, f) \<in> set m'. k < e"
  shows "map_put k v (m @ m') = m @ (k, v) # m'"
  using assms by (induction m) (cases m'; auto)+

text \<open>The loop with what comes behind it; \<open>m\<close> is what the iterator has passed.\<close>

definition insert_rest :: "(u64 \<times> u64 \<times> 'f) list \<Rightarrow> 'f \<Rightarrow> u64 \<Rightarrow> u64 \<Rightarrow> (u64 \<times> u64 \<times> 'f) list \<Rightarrow> (u64 \<times> u64 \<times> 'f) list" where
  "insert_rest it fde start stop m =
     (case insert_fde_loop it fde start stop m of
        (start', m') \<Rightarrow> if start' < stop then map_put stop (start', fde) m' else m')"

lemma insert_rest_covers:
  assumes "disjoint_ranges (m @ it)" "\<forall>(e, s, f) \<in> set m. e \<le> start" "\<forall>(e, s, f) \<in> set it. start < e"
  shows "disjoint_ranges (insert_rest it fde start stop (m @ it))
    \<and> covering pc (insert_rest it fde start stop (m @ it))
        = or_else (covering pc (m @ it)) (if start \<le> pc \<and> pc < stop then Some fde else None)"
  using assms
proof (induction it arbitrary: m start)
  case Nil
  then have "map_put stop (start, fde) (m @ []) = m @ [(stop, start, fde)]" if "start < stop"
    using that by (intro map_put_between) auto
  then show ?case
    using Nil by (auto simp: insert_rest_def disjoint_ranges_append)
next
  case (Cons r it)
  obtain e s f where r: "r = (e, s, f)" by (cases r)
  note pre = Cons.prems [unfolded r disjoint_ranges_append, simplified]
  have starts: "\<forall>(e', s', f') \<in> set it. s \<le> s'"
    using pre by (fastforce intro: order_trans less_imp_le)
  then have later: "\<forall>(e', s', f') \<in> set it. s < e'"
    using pre by (intro before_ends) auto
  show ?case
  proof (cases "start < stop \<and> s < stop")
    case True
    let ?new = "if start < s then [(s, start, fde)] else []"
    have put: "(if start < s then map_put s (start, fde) (m @ (e, s, f) # it) else m @ (e, s, f) # it)
        = (m @ ?new @ [(e, s, f)]) @ it"
      using pre later by (auto intro!: map_put_between)
    have "disjoint_ranges ((m @ ?new @ [(e, s, f)]) @ it)"
      using pre by (auto simp: disjoint_ranges_append)
    moreover have "\<forall>(e', s', f') \<in> set (m @ ?new @ [(e, s, f)]). e' \<le> e"
      using pre by (auto split: if_splits)
    moreover have "\<forall>(e', s', f') \<in> set it. e < e'"
      using pre before_ends by blast
    ultimately have "disjoint_ranges (insert_rest it fde e stop ((m @ ?new @ [(e, s, f)]) @ it))
      \<and> covering pc (insert_rest it fde e stop ((m @ ?new @ [(e, s, f)]) @ it))
        = or_else (covering pc ((m @ ?new @ [(e, s, f)]) @ it)) (if e \<le> pc \<and> pc < stop then Some fde else None)"
      by (rule Cons.IH)
    moreover have "insert_rest (r # it) fde start stop (m @ r # it) = insert_rest it fde e stop ((m @ ?new @ [(e, s, f)]) @ it)"
      using True put by (simp add: insert_rest_def r)
    moreover have "or_else (covering pc ((m @ ?new @ [(e, s, f)]) @ it)) (if e \<le> pc \<and> pc < stop then Some fde else None)
      = or_else (covering pc (m @ r # it)) (if start \<le> pc \<and> pc < stop then Some fde else None)"
    proof -
      have "covering pc m = None" if "start \<le> pc"
        using pre that by (intro covering_outside) auto
      moreover have "covering pc it = None" if "pc < e"
        using pre that by (intro covering_outside) (auto intro: less_le_trans)
      ultimately show ?thesis
        using True pre by (auto simp: r or_else_assoc)
    qed
    ultimately show ?thesis by simp
  next
    case False
    have "map_put stop (start, fde) (m @ r # it) = m @ (stop, start, fde) # r # it" if "start < stop"
      using that False pre later by (intro map_put_between) (auto simp: r not_less intro: le_less_trans)
    moreover have "covering pc (r # it) = None" if "pc < stop" "start < stop"
      using that False pre starts
      by (intro covering_outside) (auto simp: r not_less intro: less_le_trans order_trans)
    ultimately show ?thesis
      using False pre by (auto simp: insert_rest_def r or_else_assoc disjoint_ranges_append)
  qed
qed

text \<open>
  The contract of a map of ranges: a range that is inserted is found where nothing was found before, and
  nothing else changes.  Inserting many ranges therefore finds the first one in the order of insertion.
\<close>

locale range_map =
  fixes wf :: "'m \<Rightarrow> bool"
    and insert :: "'f \<Rightarrow> 'm \<Rightarrow> 'm"
    and lookup :: "u64 \<Rightarrow> 'm \<Rightarrow> 'f option"
    and covers :: "'f \<Rightarrow> u64 \<Rightarrow> bool"
  assumes keeps_wf: "wf m \<Longrightarrow> wf (insert f m)"
    and finds: "wf m \<Longrightarrow> lookup pc (insert f m) = or_else (lookup pc m) (if covers f pc then Some f else None)"
begin

lemma first_wins:
  "wf m \<Longrightarrow> wf (fold insert fs m)
     \<and> lookup pc (fold insert fs m) = or_else (lookup pc m) (List.find (\<lambda>f. covers f pc) fs)"
  by (induction fs arbitrary: m) (auto simp: keeps_wf finds or_else_def split: option.splits)

lemma still_found: "wf m \<Longrightarrow> lookup pc m = Some f \<Longrightarrow> lookup pc (fold insert fs m) = Some f"
  by (simp add: first_wins)

end

definition fde_covers :: "dwarf_fde \<Rightarrow> u64 \<Rightarrow> bool" where
  "fde_covers fde pc \<longleftrightarrow> pc_start fde \<le> pc \<and> pc < pc_end fde"

definition insert_entry :: "dwarf_fde \<Rightarrow> (u64 \<times> u64 \<times> dwarf_fde) list \<Rightarrow> (u64 \<times> u64 \<times> dwarf_fde) list" where
  "insert_entry fde = insert_fde (pc_start fde) (pc_end fde) fde"

lemma upper_bound_beyond:
  "disjoint_ranges m \<Longrightarrow> \<forall>(e, s, f) \<in> set (dropWhile (\<lambda>p. fst p \<le> k) m). k < e"
proof (induction m)
  case (Cons r m)
  obtain e s f where r: "r = (e, s, f)" by (cases r)
  show ?case
  proof (cases "e \<le> k")
    case False
    have "\<forall>(e', s', f') \<in> set m. e < e'"
      using Cons.prems by (intro before_ends) (auto simp: r)
    then show ?thesis using False by (auto simp: r not_le intro: less_trans)
  qed (use Cons in \<open>simp add: r\<close>)
qed simp

lemma insert_fde_covers:
  assumes "disjoint_ranges m"
  shows "disjoint_ranges (insert_fde start stop fde m)"
    and "covering pc (insert_fde start stop fde m)
           = or_else (covering pc m) (if start \<le> pc \<and> pc < stop then Some fde else None)"
proof -
  let ?pre = "takeWhile (\<lambda>p. fst p \<le> start) m" and ?it = "dropWhile (\<lambda>p. fst p \<le> start) m"
  have "\<forall>p \<in> set ?pre. fst p \<le> start" by (auto dest: set_takeWhileD)
  then have passed: "\<forall>(e, s, f) \<in> set ?pre. e \<le> start" by auto
  have "\<forall>(e, s, f) \<in> set ?it. start < e"
    using assms by (rule upper_bound_beyond)
  with passed have "disjoint_ranges (insert_rest ?it fde start stop (?pre @ ?it))
    \<and> covering pc (insert_rest ?it fde start stop (?pre @ ?it))
        = or_else (covering pc (?pre @ ?it)) (if start \<le> pc \<and> pc < stop then Some fde else None)"
    using assms by (intro insert_rest_covers) simp_all
  then show "disjoint_ranges (insert_fde start stop fde m)"
    and "covering pc (insert_fde start stop fde m)
           = or_else (covering pc m) (if start \<le> pc \<and> pc < stop then Some fde else None)"
    by (simp_all add: insert_fde_def insert_rest_def upper_bound_def)
qed

interpretation fde_map: range_map disjoint_ranges insert_entry find_fde fde_covers
  by unfold_locales
    (simp_all add: insert_entry_def insert_fde_covers find_fde_covering fde_covers_def)

lemma InsertFde_entry: "InsertFde fde s = s\<lparr>fdes := insert_entry fde (fdes s)\<rparr>"
  by (simp add: InsertFde_def insert_entry_def)

section \<open>What reading leaves alone\<close>

text \<open>A part of the state that reading, the caches and the errors do not touch.\<close>

locale untouched =
  fixes part :: "frame_section \<Rightarrow> 'p"
  assumes part_simps [simp]: "part (s\<lparr>sec_memory := m\<rparr>) = part s" "part (s\<lparr>sec_error := e\<rparr>) = part s"
    "part (s\<lparr>fde_entries := fs\<rparr>) = part s" "part (s\<lparr>cie_entries := cs\<rparr>) = part s"
    "part (s\<lparr>next_entries_offset := n\<rparr>) = part s"
begin

definition keeps :: "'v sec_prog \<Rightarrow> bool" where
  "keeps m \<longleftrightarrow> (\<forall>s r s'. m s = Some (Inr (r, s')) \<longrightarrow> part s' = part s)"

lemma keepsD: "keeps m \<Longrightarrow> m s = Some (Inr (r, s')) \<Longrightarrow> part s' = part s"
  by (simp add: keeps_def)

lemma keeps_basic:
  "keeps (return v)" "keeps (give_up_with e)" "keeps here" "keeps (reading rd)"
  "(\<And>s. part (f s) = part s) \<Longrightarrow> keeps (modify f)"
  by (auto simp: keeps_def return_def give_up_with_def here_def reading_def modify_def
      split: sum.splits option.splits prod.splits)

lemma keeps_seq: "keeps m \<Longrightarrow> (\<And>v. keeps (k v)) \<Longrightarrow> keeps (seq m k)"
  by (fastforce simp: keeps_def seq_def split: option.splits sum.splits prod.splits)

lemma keeps_at: "(\<And>s. part (f s) = part s) \<Longrightarrow> keeps m \<Longrightarrow> keeps (\<lambda>s. m (f s))"
  by (fastforce simp: keeps_def)

lemma keeps_state: "(\<And>s0. keeps (m s0)) \<Longrightarrow> keeps (\<lambda>s. m s s)"
  by (fastforce simp: keeps_def)

lemma part_moved [simp]:
  "part (set_offset o' s) = part s" "part (set_pc_base o' s) = part s" "part (set_data_base o' s) = part s"
  by (simp_all add: set_offset_def set_pc_base_def set_data_base_def on_memory_def)

end

context untouched begin

lemma keeps_check:
  "keeps (\<lambda>s. if c s then give_up_with e s else return (v s) s)"
  "keeps (\<lambda>s. if c s then return u s else return (v s) s)"
  by (auto simp: keeps_def return_def give_up_with_def)

lemma keeps_if: "(c \<Longrightarrow> keeps a) \<Longrightarrow> (\<not> c \<Longrightarrow> keeps b) \<Longrightarrow> keeps (if c then a else b)"
  by simp

lemma keeps_reads:
  "keeps (read_word n)" "keeps read_uleb" "keeps read_sleb" "keeps (read_encoded t enc)"
  by (simp_all add: read_word_def read_uleb_def read_sleb_def read_encoded_def keeps_basic)

lemma keeps_augmentation: "keeps (read_augmentation acc)"
proof -
  have "part s' = part s" if "read_augmentation acc s = Some (Inr (r, s'))" for acc s r s'
  proof -
    let ?P = "\<lambda>acc s (r :: fault + (u8 list option \<times> frame_section)). case r of Inl f \<Rightarrow> True | Inr (r, s') \<Rightarrow> part s' = part s"
    have "?P acc s (Inr (r, s'))"
    proof (rule read_augmentation.raw_induct [where P = ?P, OF _ that])
      fix loop :: "u8 list \<Rightarrow> frame_section \<Rightarrow> (fault + (u8 list option \<times> frame_section)) option" and acc s r
      assume ih: "\<And>acc s r. loop acc s = Some r \<Longrightarrow> ?P acc s r"
        and eq: "(case read_word 1 s of None \<Rightarrow> None | Some (Inl f) \<Rightarrow> Some (Inl f)
          | Some (Inr (None, s')) \<Rightarrow> Some (Inr (None, s'))
          | Some (Inr (Some c, s')) \<Rightarrow> if c \<noteq> 0 then loop (acc @ [c]) s' else Some (Inr (Some (acc @ [c]), s'))) = Some r"
      have step: "part s1 = part s" if "read_word 1 s = Some (Inr (x, s1))" for x :: "u8 option" and s1
        using keepsD [OF keeps_reads(1) that] .
      show "?P acc s r"
      proof (cases "read_word 1 s :: (fault + (u8 option \<times> frame_section)) option")
        case (Some a)
        then show ?thesis
          using eq step by (cases a) (auto split: option.splits if_splits sum.splits dest!: ih)
      qed (use eq in simp)
    qed
    then show ?thesis by simp
  qed
  then show ?thesis by (simp add: keeps_def)
qed

lemma keeps_augmentation_data: "keeps (read_augmentation_data t cs cie)"
proof (induction t cs cie rule: read_augmentation_data.induct)
  case (1 t cie)
  then show ?case by (simp add: keeps_basic)
next
  case (2 t c cs cie)
  have "keeps (\<lambda>s. seq (read_encoded t e) (\<lambda>p. read_augmentation_data t cs (cie\<lparr>personality_handler := p\<rparr>))
      (set_pc_base (sec_pc_offset s) s))" if "c = 0x50" for e
    by (rule keeps_at, simp, rule keeps_seq, rule keeps_reads, rule 2(2)) (use that in simp_all)
  then show ?case
    unfolding read_augmentation_data.simps
    using 2 by (intro keeps_if keeps_seq keeps_reads) simp_all
qed

lemma keeps_FillInCie: "keeps (FillInCie t cie)"
  unfolding FillInCie_def Let_def
  by (intro keeps_seq keeps_reads keeps_augmentation keeps_augmentation_data keeps_basic
      keeps_if) simp_all

lemma keeps_headers: "keeps (FillInCieHeader cie)" "keeps (FillInFdeHeader fde)" "keeps entry_header"
  unfolding FillInCieHeader_def FillInFdeHeader_def entry_header_def Let_def
  by (intro keeps_seq keeps_reads keeps_basic keeps_check keeps_if; simp)+

lemma keeps_GetCieFromOffset: "keeps (GetCieFromOffset t offset)"
proof -
  have fill: "keeps (\<lambda>s. seq (seq (FillInCieHeader empty_cie) (FillInCie t))
      (\<lambda>cie. seq (modify (\<lambda>s. s\<lparr>cie_entries := (cie_entries s)(offset \<mapsto> cie)\<rparr>)) (\<lambda>_. return cie))
      (set_offset offset (set_data_base (entries_offset s) s)))"
    by (rule keeps_at, simp, intro keeps_seq keeps_headers keeps_FillInCie keeps_basic) simp
  show ?thesis
    unfolding keeps_def GetCieFromOffset_def
    using keepsD [OF fill] keepsD [OF keeps_basic(1)] by (auto split: option.splits)
qed

lemma keeps_FillInFde: "keeps (FillInFde t fde)"
proof -
  have start: "keeps (read_start t enc)" for enc
    by (auto simp: keeps_def read_start_def return_def Let_def split: sum.splits option.splits prod.splits)
  have lsda: "keeps (\<lambda>s. read_encoded t enc (set_pc_base (sec_pc_offset s) s))" for enc
    by (rule keeps_at, simp, rule keeps_reads)
  show ?thesis
    unfolding FillInFde_def Let_def
    by (intro keeps_seq keeps_reads keeps_GetCieFromOffset keeps_basic start lsda keeps_if; simp)
qed

lemma keeps_GetNextCieOrFde: "keeps (GetNextCieOrFde t)"
proof -
  have entry: "keeps (\<lambda>s. (case h of
          Inl enc \<Rightarrow>
            (case cie_entries s start_offset of
               Some cie \<Rightarrow> return None s
             | None \<Rightarrow>
                 seq (FillInCie t (empty_cie\<lparr>lsda_encoding := DW_EH_PE_omit,
                        cie_instructions_end := next_entries_offset s, fde_address_encoding := enc\<rparr>)) (\<lambda>cie.
                 seq (modify (\<lambda>s. s\<lparr>cie_entries := (cie_entries s)(start_offset \<mapsto> cie)\<rparr>)) (\<lambda>_.
                   return None)) s)
        | Inr offset \<Rightarrow>
            (case fde_entries s start_offset of
               Some fde \<Rightarrow> return (Some fde) s
             | None \<Rightarrow>
                 seq (FillInFde t (empty_fde\<lparr>fde_instructions_end := next_entries_offset s, cie_offset := offset\<rparr>))
                   (\<lambda>fde. seq (remember_fde start_offset fde) (\<lambda>fde. return (Some fde))) s)))" for h start_offset
  proof -
    have "keeps (seq (FillInCie t cie0) (\<lambda>cie.
        seq (modify (\<lambda>s. s\<lparr>cie_entries := (cie_entries s)(start_offset \<mapsto> cie)\<rparr>)) (\<lambda>_. return (None :: dwarf_fde option))))" for cie0
      by (intro keeps_seq keeps_FillInCie keeps_basic) simp
    moreover have "keeps (seq (FillInFde t fde0) (\<lambda>fde. seq (remember_fde start_offset fde) (\<lambda>fde. return (Some fde))))" for fde0
      unfolding remember_fde_def by (intro keeps_seq keeps_FillInFde keeps_basic) simp
    ultimately show ?thesis
      using keepsD keepsD [OF keeps_basic(1)]
      by (cases h) (auto simp: keeps_def split: option.splits)
  qed
  show ?thesis
    unfolding keeps_def GetNextCieOrFde_def Let_def
    using keepsD [OF keeps_seq [OF keeps_headers(3) entry]] by fastforce
qed

end

interpretation fdes_part: untouched fdes
  by unfold_locales simp_all

section \<open>Reading the whole section\<close>

text \<open>
  The entries in the order of the section, with those that cannot be read left out, up to the end, or
  until reading an entry has gone beyond the start of the next.
\<close>

inductive section_walk :: "'a::len itself \<Rightarrow> frame_section \<Rightarrow> dwarf_fde list \<Rightarrow> frame_section \<Rightarrow> bool"
  for t :: "'a itself" where
  walk_end: "\<not> next_entries_offset s < entries_end s \<or> next_entries_offset s < sec_offset s \<Longrightarrow> section_walk t s [] s"
| walk_unreadable: "GetNextCieOrFde t s = Some (Inr (None, s1)) \<Longrightarrow> section_walk t s1 fs s2 \<Longrightarrow> section_walk t s fs s2"
| walk_cie: "GetNextCieOrFde t s = Some (Inr (Some None, s1)) \<Longrightarrow> section_walk t s1 fs s2 \<Longrightarrow> section_walk t s fs s2"
| walk_fde: "GetNextCieOrFde t s = Some (Inr (Some (Some fde), s1)) \<Longrightarrow> section_walk t (InsertFde fde s1) fs s2
    \<Longrightarrow> section_walk t s (fde # fs) s2"

lemma section_walk_fdes: "section_walk t s fs s' \<Longrightarrow> fdes s' = fold insert_entry fs (fdes s)"
  by (induction rule: section_walk.induct)
    (auto simp: InsertFde_entry dest: fdes_part.keepsD [OF fdes_part.keeps_GetNextCieOrFde])

lemma FillFdes_walks:
  fixes t :: "'a::len itself"
  assumes "FillFdes t s = Some (Inr s')"
  shows "\<exists>fs. section_walk t s fs s'"
proof -
  let ?P = "\<lambda>t' s (r :: fault + frame_section). t' = t \<longrightarrow> (\<forall>s'. r = Inr s' \<longrightarrow> (\<exists>fs. section_walk t s fs s'))"
  have "?P t s (Inr s')"
  proof (rule FillFdes.raw_induct [where P = ?P, OF _ assms])
    fix loop and t' :: "'a itself" and s r
    assume ih: "\<And>t s r. loop t s = Some r \<Longrightarrow> ?P t s r"
      and eq: "(if next_entries_offset s < entries_end s
        then (case GetNextCieOrFde t' s of None \<Rightarrow> None | Some (Inl f) \<Rightarrow> Some (Inl f)
          | Some (Inr (None, s)) \<Rightarrow> loop t' s
          | Some (Inr (Some entry, s)) \<Rightarrow>
              let s = (case entry of None \<Rightarrow> s | Some fde \<Rightarrow> InsertFde fde s)
              in if next_entries_offset s < sec_offset s then Some (Inr s) else loop t' s)
        else Some (Inr s)) = Some r"
    show "?P t' s r"
    proof (intro allI impI)
      fix s2 assume a: "t' = t" "r = Inr s2"
      show "\<exists>fs. section_walk t s fs s2"
      proof (cases "next_entries_offset s < entries_end s")
        case False
        then show ?thesis using eq a by (auto intro: section_walk.intros)
      next
        case True
        then obtain e s1 where next1: "GetNextCieOrFde t s = Some (Inr (e, s1))"
          using eq a by (auto split: option.splits sum.splits)
        have go: "\<exists>fs. section_walk t s1 fs s2" if "loop t s1 = Some r" for s1
          using ih [OF that] a by blast
        note walk = section_walk.intros
        show ?thesis
        proof (cases e)
          case None
          then show ?thesis using eq a True next1 go [of s1] by (auto intro: walk(2))
        next
          case (Some entry)
          let ?s = "case entry of None \<Rightarrow> s1 | Some fde \<Rightarrow> InsertFde fde s1"
          have "\<exists>fs. section_walk t ?s fs s2"
            using eq a True next1 Some go [of ?s] walk(1) [of ?s]
            by (auto simp: Let_def split: if_splits)
          then show ?thesis
            using next1 Some by (cases entry) (auto intro: walk(3,4))
        qed
      qed
    qed
  qed
  then show ?thesis by simp
qed

text \<open>
  C11. Which entry a program counter belongs to.  After reading a section the map finds for every program
  counter the first entry of the section whose range contains it, however the ranges overlap, unless
  the map had an entry for it before; its ranges stay disjoint.
\<close>

theorem FillFdes_finds_first:
  assumes "FillFdes t s = Some (Inr s')" "disjoint_ranges (fdes s)"
  shows "\<exists>fs. section_walk t s fs s' \<and> disjoint_ranges (fdes s')
    \<and> (\<forall>pc. find_fde pc (fdes s') = or_else (find_fde pc (fdes s)) (List.find (\<lambda>f. fde_covers f pc) fs))"
  using FillFdes_walks [OF assms(1)] section_walk_fdes fde_map.first_wins [OF assms(2)] by metis

lemma search_loop_agrees:
  fixes t :: "'a::len itself"
  assumes "search_loop t pc s = Some (Inr (r, s'))" "disjoint_ranges (fdes s)" "find_fde pc (fdes s) = None"
  shows "disjoint_ranges (fdes s') \<and> find_fde pc (fdes s') = r"
proof -
  let ?P = "\<lambda>t' pc' s (x :: fault + (dwarf_fde option \<times> frame_section)). pc' = pc \<longrightarrow> x = Inr (r, s') \<longrightarrow>
     disjoint_ranges (fdes s) \<longrightarrow> find_fde pc (fdes s) = None \<longrightarrow> disjoint_ranges (fdes s') \<and> find_fde pc (fdes s') = r"
  have "?P t pc s (Inr (r, s'))"
  proof (rule search_loop.raw_induct [where P = ?P, OF _ assms(1)])
    fix loop and t' :: "'a itself" and pc' s x
    assume ih: "\<And>t pc s x. loop t pc s = Some x \<Longrightarrow> ?P t pc s x"
      and eq: "(if next_entries_offset s < entries_end s
        then (case GetNextCieOrFde t' s of None \<Rightarrow> None | Some (Inl f) \<Rightarrow> Some (Inl f)
          | Some (Inr (None, s)) \<Rightarrow> Some (Inr (None, s))
          | Some (Inr (Some entry, s)) \<Rightarrow>
              let s = (case entry of None \<Rightarrow> s | Some fde \<Rightarrow> InsertFde fde s)
              in if (case entry of None \<Rightarrow> False | Some fde \<Rightarrow> pc' \<ge> pc_start fde \<and> pc' < pc_end fde)
                 then Some (Inr (entry, s))
                 else if next_entries_offset s < sec_offset s then Some (Inr (None, s))
                 else loop t' pc' s)
        else Some (Inr (None, s))) = Some x"
    show "?P t' pc' s x"
    proof (intro impI)
      assume a: "pc' = pc" "x = Inr (r, s')" "disjoint_ranges (fdes s)" "find_fde pc (fdes s) = None"
      show "disjoint_ranges (fdes s') \<and> find_fde pc (fdes s') = r"
      proof (cases "next_entries_offset s < entries_end s")
        case True
        then obtain e s1 where next1: "GetNextCieOrFde t' s = Some (Inr (e, s1))"
          using eq a(2) by (auto split: option.splits sum.splits)
        have s1: "fdes s1 = fdes s"
          using fdes_part.keepsD [OF fdes_part.keeps_GetNextCieOrFde next1] .
        have ins: "disjoint_ranges (fdes (InsertFde fde s1))
          \<and> find_fde pc (fdes (InsertFde fde s1)) = (if fde_covers fde pc then Some fde else None)" for fde
          using fde_map.keeps_wf fde_map.finds a(3,4) by (simp add: InsertFde_entry s1)
        show ?thesis
        proof (cases e)
          case None
          then show ?thesis using eq a True next1 s1 by simp
        next
          case (Some entry)
          then show ?thesis
            using eq a True next1 s1 ins ih
            by (cases entry) (auto simp: Let_def fde_covers_def split: if_splits)
        qed
      qed (use eq a in simp)
    qed
  qed
  then show ?thesis using assms by simp
qed

text \<open>
  C20. Looking up a program counter and the cache agree: what \<open>GetFdeFromPc\<close> returns, also when it is
  nothing, is what the map gives from then on without reading.
\<close>

theorem GetFdeFromPc_agrees_with_cache:
  assumes "GetFdeFromPc t pc s = Some (Inr (r, s'))" "disjoint_ranges (fdes s)"
  shows "disjoint_ranges (fdes s') \<and> find_fde pc (fdes s') = r"
  using assms search_loop_agrees [of t pc s r s']
  by (auto simp: GetFdeFromPc_def return_def split: option.splits)

section \<open>A sample section\<close>

text \<open>
  \<open>.eh_frame\<close> with a CIE and two FDEs whose ranges overlap: 0x100 up to 0x120, and 0x110 up to 0x140.
\<close>

definition sample_eh_frame :: "u8 list" where
  "sample_eh_frame =
     [12, 0, 0, 0,  0, 0, 0, 0,  1, 0, 4, 0x78,  30, 0x0c, 31, 0,
      12, 0, 0, 0,  20, 0, 0, 0,  0xe8, 0, 0, 0,  0x20, 0, 0, 0,
      12, 0, 0, 0,  36, 0, 0, 0,  0xe8, 0, 0, 0,  0x30, 0, 0, 0]"

definition sample_section :: frame_section where
  "sample_section = Init 0 48 0 (new_section EhFrame (MemoryBuffer_Read sample_eh_frame))"


definition section_ranges :: "(fault + frame_section) option \<Rightarrow> (u64 \<times> u64 \<times> u64) list option" where
  "section_ranges r =
     (case r of Some (Inr s) \<Rightarrow> Some (map (\<lambda>(e, s, f). (e, s, pc_start f)) (fdes s)) | _ \<Rightarrow> None)"

lemma sample_ranges:
  "section_ranges (FillFdes TYPE(64) sample_section) = Some [(0x120, 0x100, 0x100), (0x140, 0x120, 0x110)]"
  by code_simp

theorem FillFdes_finds_first_witness:
  "\<exists>s' fs. FillFdes TYPE(64) sample_section = Some (Inr s')
     \<and> map (\<lambda>(e, s, f). (e, s, pc_start f)) (fdes s') = [(0x120, 0x100, 0x100), (0x140, 0x120, 0x110)]
     \<and> section_walk TYPE(64) sample_section fs s'
     \<and> find_fde 0x118 (fdes s') = List.find (\<lambda>f. fde_covers f 0x118) fs"
proof -
  obtain s' where s': "FillFdes TYPE(64) sample_section = Some (Inr s')"
    "map (\<lambda>(e, s, f). (e, s, pc_start f)) (fdes s') = [(0x120, 0x100, 0x100), (0x140, 0x120, 0x110)]"
    using sample_ranges by (auto simp: section_ranges_def split: option.splits sum.splits)
  have "fdes sample_section = []" by (simp add: sample_section_def new_section_def Init_def on_memory_def)
  with FillFdes_finds_first [OF s'(1)] s' show ?thesis by (auto simp: find_fde_def upper_bound_def)
qed

lemma case_some_inr:
  assumes "case r of None \<Rightarrow> False | Some (Inl f) \<Rightarrow> False | Some (Inr (v, s)) \<Rightarrow> P v s"
  obtains v s where "r = Some (Inr (v, s))" "P v s"
  using assms by (cases r; cases "the r") auto

lemma sample_lookup:
  "case GetFdeFromPc TYPE(64) 0x118 sample_section of Some (Inr (Some fde, s)) \<Rightarrow> pc_start fde = 0x100 | _ \<Rightarrow> False"
  by code_simp

theorem GetFdeFromPc_agrees_with_cache_witness:
  "\<exists>s' fde. GetFdeFromPc TYPE(64) 0x118 sample_section = Some (Inr (Some fde, s')) \<and> pc_start fde = 0x100
     \<and> find_fde 0x118 (fdes s') = Some fde"
proof -
  obtain s' fde where s': "GetFdeFromPc TYPE(64) 0x118 sample_section = Some (Inr (Some fde, s'))" "pc_start fde = 0x100"
    using sample_lookup by (elim case_some_inr) (auto split: option.splits)
  have "fdes sample_section = []" by (simp add: sample_section_def new_section_def Init_def on_memory_def)
  with GetFdeFromPc_agrees_with_cache [OF s'(1)] s' show ?thesis by simp
qed

section \<open>An entry that cannot be read\<close>

text \<open>The next entry lies inside the section, but its first word cannot be read.\<close>

definition truncated :: "frame_section \<Rightarrow> bool" where
  "truncated s \<longleftrightarrow>
     next_entries_offset s < entries_end s
     \<and> ReadFully (dm_memory (sec_memory s)) (next_entries_offset s) 4 = None"

lemma GetNextCieOrFde_truncated:
  "truncated s \<Longrightarrow> \<exists>s'. GetNextCieOrFde t s = Some (Inr (None, s')) \<and> truncated s'"
  by (simp add: truncated_def GetNextCieOrFde_def entry_header_def seq_def read_word_def reading_def ReadBytes_def
      set_offset_def set_data_base_def on_memory_def Let_def)

text \<open>
  \<open>FillFdes\<close> does not return when the next entry lies inside the section and its first word cannot
  be read: the failed read leaves \<open>next_entries_offset_\<close> where it was, and \<open>continue\<close> tries again.
\<close>

theorem FillFdes_spins:
  assumes "truncated s"
  shows "FillFdes t s = None"
proof -
  let ?P = "\<lambda>t s (r :: fault + frame_section). \<not> truncated s"
  have "?P t s r" if "FillFdes t s = Some r" for r
  proof (rule FillFdes.raw_induct [where P = ?P, OF _ that])
    fix loop and t :: "'a itself" and s and r :: "fault + frame_section"
    assume ih: "\<And>t s r. loop t s = Some r \<Longrightarrow> \<not> truncated s"
      and eq: "(if next_entries_offset s < entries_end s
        then (case GetNextCieOrFde t s of None \<Rightarrow> None | Some (Inl f) \<Rightarrow> Some (Inl f)
          | Some (Inr (None, s)) \<Rightarrow> loop t s
          | Some (Inr (Some entry, s)) \<Rightarrow>
              let s = (case entry of None \<Rightarrow> s | Some fde \<Rightarrow> InsertFde fde s)
              in if next_entries_offset s < sec_offset s then Some (Inr s) else loop t s)
        else Some (Inr s)) = Some r"
    show "\<not> truncated s"
    proof
      assume tr: "truncated s"
      then obtain s' where "GetNextCieOrFde t s = Some (Inr (None, s'))" "truncated s'"
        using GetNextCieOrFde_truncated by blast
      moreover have "next_entries_offset s < entries_end s" using tr by (simp add: truncated_def)
      ultimately show False using eq ih [of t s'] by simp
    qed
  qed
  then show ?thesis using assms by (cases "FillFdes t s") auto
qed

theorem FillFdes_spins_witness:
  "FillFdes TYPE(64) (Init 0 50 0 (new_section EhFrame (MemoryBuffer_Read [1, 2]))) = None"
  by (rule FillFdes_spins)
    (simp add: truncated_def Init_def on_memory_def new_section_def new_dwarf_memory_def ReadFully_MemoryBuffer)

end
