(* ===== verification/Dwarf_Rows.thy ===== *)
theory Dwarf_Rows
  imports Dwarf_Section Table_Packing
begin

text \<open>
  The second half of \<^verbatim>\<open>DwarfSectionDecoder.cpp\<close>: from the rows of an FDE to instructions of the
  unwind table (\<open>EvalExpression\<close>, \<open>EvalRegister\<close>, \<open>Eval\<close>), and the collection of the instructions
  of all rows (\<open>ParseSingleFde\<close>, \<open>IterateAllEntries\<close>).  Register numbers are those of
  \<^verbatim>\<open>MachineArm.h\<close> and \<^verbatim>\<open>MachineArm64.h\<close>.
\<close>

section \<open>Expressions of a row\<close>

text \<open>
  What the functions use of the section: the reader, the error and the instructions collected in
  \<open>temp_instructions_\<close>.
\<close>

record row_eval =
  row_memory :: dwarf_memory
  row_error :: DwarfErrorData
  temp_instructions :: "u64 list"

definition set_row_error :: "DwarfErrorCode \<Rightarrow> row_eval \<Rightarrow> row_eval" where
  "set_row_error e s = s\<lparr>row_error := (row_error s)\<lparr>err_code := e\<rparr>\<rparr>"

definition push_instruction :: "u64 \<Rightarrow> row_eval \<Rightarrow> row_eval" where
  "push_instruction w s = s\<lparr>temp_instructions := temp_instructions s @ [w]\<rparr>"

text \<open>\<open>(op << 32) | (0xffffffff & value)\<close>.\<close>

definition row_word :: "QutInstruction \<Rightarrow> u32 \<Rightarrow> u64" where
  "row_word i v = push_bit 32 (of_nat (qut_code i)) OR ucast v"

text \<open>
  The value of an expression and whether it is the dex program counter.  The register of the value
  expression is never used.  The machine works on the reader of the section, which stays where the
  machine leaves it.
\<close>

definition EvalExpression ::
  "bool \<Rightarrow> memory_read \<Rightarrow> u16 \<Rightarrow> DwarfLocation \<Rightarrow> row_eval \<Rightarrow> fault + (('a::len word \<times> bool) option \<times> row_eval)" where
  "EvalExpression arm regular num_regs l s =
     (let stop = value1 l; start = stop - value0 l
      in case Eval_op arm start stop (new_dwarf_op (row_memory s) regular num_regs :: 'a word dwarf_op) of
           Inl f \<Rightarrow> Inl f
         | Inr (good, op) \<Rightarrow>
             let s = s\<lparr>row_memory := op_memory op\<rparr>
             in if \<not> good \<and> \<not> ((err_code (last_error op) = DWARF_ERROR_EXPRESSION_REACH_BREGX
                              \<or> err_code (last_error op) = DWARF_ERROR_EXPRESSION_REACH_BREG) \<and> dex_pc_set op)
                then Inr (None, s\<lparr>row_error := last_error op\<rparr>)
                else if stack op = [] then Inr (None, set_row_error DWARF_ERROR_ILLEGAL_STATE s)
                else if is_register op then Inr (None, set_row_error DWARF_ERROR_NOT_IMPLEMENTED s)
                else Inr (Some (hd (stack op), dex_pc_set op), s))"

section \<open>Instructions of a row\<close>

definition cfa_offset_op :: "bool \<Rightarrow> bool \<Rightarrow> u64 \<Rightarrow> QutInstruction option" where
  "cfa_offset_op arm native_only reg =
     (if native_only
      then (if arm
            then (if reg = 13 then Some VSP_OFFSET else if reg = 7 then Some VSP_SET_BY_R7 else None)
            else (if reg = 31 then Some VSP_OFFSET else if reg = 29 then Some VSP_SET_BY_X29 else None))
      else (if arm
            then (if reg = 13 then Some VSP_OFFSET else if reg = 10 then Some VSP_SET_BY_JNI_SP
                  else if reg = 7 then Some VSP_SET_BY_R7 else if reg = 11 then Some VSP_SET_BY_R11 else None)
            else (if reg = 31 then Some VSP_OFFSET else if reg = 28 then Some VSP_SET_BY_JNI_SP
                  else if reg = 29 then Some VSP_SET_BY_X29 else None)))"

definition CfaOffsetInstruction :: "bool \<Rightarrow> bool \<Rightarrow> u64 \<Rightarrow> u64 \<Rightarrow> row_eval \<Rightarrow> bool \<times> row_eval" where
  "CfaOffsetInstruction arm native_only reg v s =
     (case cfa_offset_op arm native_only reg of
        None \<Rightarrow> (False, s)
      | Some i \<Rightarrow> (True, push_instruction (row_word i (ucast v)) s))"

definition reg_offset_op :: "bool \<Rightarrow> u64 \<Rightarrow> QutInstruction option" where
  "reg_offset_op arm reg =
     (if arm
      then (if reg = 4 then Some R4_OFFSET else if reg = 7 then Some R7_OFFSET else if reg = 10 then Some R10_OFFSET
            else if reg = 11 then Some R11_OFFSET else if reg = 13 then Some SP_OFFSET
            else if reg = 14 then Some LR_OFFSET else if reg = 15 then Some PC_OFFSET else None)
      else (if reg = 20 then Some X20_OFFSET else if reg = 28 then Some X28_OFFSET else if reg = 29 then Some X29_OFFSET
            else if reg = 31 then Some SP_OFFSET else if reg = 30 then Some LR_OFFSET
            else if reg = 32 then Some PC_OFFSET else None))"

definition RegOffsetInstruction :: "bool \<Rightarrow> u64 \<Rightarrow> u64 \<Rightarrow> row_eval \<Rightarrow> bool \<times> row_eval" where
  "RegOffsetInstruction arm reg v s =
     (case reg_offset_op arm reg of
        None \<Rightarrow> (False, s)
      | Some i \<Rightarrow> (True, push_instruction (row_word i (ucast (- v))) s))"

definition EvalRegister ::
  "'a::len itself \<Rightarrow> bool \<Rightarrow> memory_read \<Rightarrow> u16 \<Rightarrow> dwarf_cie \<Rightarrow> u32 \<Rightarrow> DwarfLocation \<Rightarrow> row_eval
     \<Rightarrow> fault + (bool \<times> row_eval)" where
  "EvalRegister t arm regular num_regs cie reg l s =
     (case loc_type l of
        DWARF_LOCATION_OFFSET \<Rightarrow> Inr (True, snd (RegOffsetInstruction arm (ucast reg) (value0 l) s))
      | DWARF_LOCATION_VAL_OFFSET \<Rightarrow> Inr (False, set_row_error DWARF_ERROR_NOT_SUPPORT s)
      | DWARF_LOCATION_REGISTER \<Rightarrow> Inr (False, set_row_error DWARF_ERROR_NOT_SUPPORT s)
      | DWARF_LOCATION_UNDEFINED \<Rightarrow>
          Inr (True, if ucast reg = return_address_register cie then push_instruction (row_word FIN 0) s else s)
      | DWARF_LOCATION_INVALID \<Rightarrow> Inr (True, s)
      | _ \<Rightarrow>
          (case EvalExpression arm regular num_regs l s :: fault + (('a word \<times> bool) option \<times> row_eval) of
             Inl f \<Rightarrow> Inl f
           | Inr (None, s) \<Rightarrow> Inr (False, s)
           | Inr (Some (v, is_dex_pc), s) \<Rightarrow>
               if loc_type l = DWARF_LOCATION_EXPRESSION \<or> \<not> is_dex_pc
               then Inr (False, set_row_error DWARF_ERROR_NOT_SUPPORT s)
               else Inr (True, s\<lparr>temp_instructions := row_word DEX_PC_SET (ucast v) # temp_instructions s\<rparr>)))"

text \<open>\<open>QuickenGenerationContext\<close>.\<close>

record generation_context =
  gen_regs_total :: u16
  gen_native_only :: bool
  estimate_memory_usage :: u64
  memory_overwhelmed :: bool

definition tracked_reg :: "bool \<Rightarrow> generation_context \<Rightarrow> u32 \<Rightarrow> bool" where
  "tracked_reg arm ctx reg \<longleftrightarrow>
     reg \<noteq> CFA_REG \<and> reg < ucast (gen_regs_total ctx)
     \<and> (if gen_native_only ctx
        then (if arm then reg = 7 \<or> \<not> reg < 13 else \<not> reg < 29)
        else (if arm then reg \<in> {0, 4, 7, 10, 11} \<or> \<not> reg < 13 else reg \<in> {0, 20, 28} \<or> \<not> reg < 29))"

text \<open>
  The loop over the map of rules, in the order of its iterator, which is unspecified: a list of keys.
\<close>

fun eval_registers ::
  "'a::len itself \<Rightarrow> bool \<Rightarrow> memory_read \<Rightarrow> generation_context \<Rightarrow> dwarf_cie \<Rightarrow> (u32 \<Rightarrow> DwarfLocation option)
     \<Rightarrow> u32 list \<Rightarrow> row_eval \<Rightarrow> fault + (bool \<times> row_eval)" where
  "eval_registers t arm regular ctx cie rs [] s = Inr (True, s)"
| "eval_registers t arm regular ctx cie rs (reg # keys) s =
     (case rs reg of
        None \<Rightarrow> eval_registers t arm regular ctx cie rs keys s
      | Some l \<Rightarrow>
          if \<not> tracked_reg arm ctx reg then eval_registers t arm regular ctx cie rs keys s
          else (case EvalRegister t arm regular (gen_regs_total ctx) cie reg l s of
                  Inl f \<Rightarrow> Inl f
                | Inr (False, s) \<Rightarrow> Inr (False, s)
                | Inr (True, s) \<Rightarrow> eval_registers t arm regular ctx cie rs keys s))"

definition eval_cfa ::
  "'a::len itself \<Rightarrow> bool \<Rightarrow> memory_read \<Rightarrow> generation_context \<Rightarrow> DwarfLocation \<Rightarrow> row_eval \<Rightarrow> fault + (bool \<times> row_eval)" where
  "eval_cfa t arm regular ctx l s =
     (case loc_type l of
        DWARF_LOCATION_REGISTER \<Rightarrow>
          (if value0 l \<ge> ucast (gen_regs_total ctx) then Inr (False, set_row_error DWARF_ERROR_ILLEGAL_VALUE s)
           else (case CfaOffsetInstruction arm (gen_native_only ctx) (value0 l) (value1 l) s of
                   (True, s) \<Rightarrow> Inr (True, s)
                 | (False, s) \<Rightarrow> Inr (False, set_row_error DWARF_ERROR_NOT_SUPPORT s)))
      | DWARF_LOCATION_VAL_EXPRESSION \<Rightarrow>
          (if gen_native_only ctx then Inr (True, s)
           else (case EvalExpression arm regular (gen_regs_total ctx) l s :: fault + (('a word \<times> bool) option \<times> row_eval) of
                   Inl f \<Rightarrow> Inl f
                 | Inr (None, s) \<Rightarrow> Inr (False, s)
                 | Inr (Some (v, _), s) \<Rightarrow> Inr (True, push_instruction (row_word VSP_SET_IMM (ucast v)) s)))
      | _ \<Rightarrow> Inr (False, set_row_error DWARF_ERROR_ILLEGAL_VALUE s))"

definition Eval_row ::
  "'a::len itself \<Rightarrow> bool \<Rightarrow> memory_read \<Rightarrow> generation_context \<Rightarrow> dwarf_cie \<Rightarrow> (u32 \<Rightarrow> DwarfLocation option)
     \<Rightarrow> u32 list \<Rightarrow> row_eval \<Rightarrow> fault + (bool \<times> row_eval)" where
  "Eval_row t arm regular ctx cie rs keys s =
     (if return_address_register cie \<ge> ucast (gen_regs_total ctx)
      then Inr (False, set_row_error DWARF_ERROR_ILLEGAL_VALUE s)
      else (case rs CFA_REG of
              None \<Rightarrow> Inr (False, set_row_error DWARF_ERROR_CFA_NOT_DEFINED s)
            | Some l \<Rightarrow>
                (case eval_cfa t arm regular ctx l s of
                   Inl f \<Rightarrow> Inl f
                 | Inr (False, s) \<Rightarrow> Inr (False, s)
                 | Inr (True, s) \<Rightarrow> eval_registers t arm regular ctx cie rs keys s)))"

section \<open>All rows of an FDE\<close>

text \<open>
  What the callback of \<open>ParseSingleFde\<close> captures.  \<open>all_instructions\<close> is the \<open>std::map\<close> from the start
  of a row to its end and its instructions, in the order of the keys.
\<close>

record parse_state =
  parse_context :: generation_context
  all_instructions :: qut_entries
  prev_instructions :: "u64 list option"
  prev_pc :: u64
  parse_error :: DwarfErrorData

definition CHECK_MEMORY_OVERWHELMED :: "u64 \<Rightarrow> bool" where
  "CHECK_MEMORY_OVERWHELMED usage \<longleftrightarrow> usage > 9 * 1000 * 1000"

text \<open>\<open>(*all_instructions)[prev_pc].first = pc_end\<close>; the row at \<open>prev_pc\<close> was stored before.\<close>

definition set_row_end :: "u64 \<Rightarrow> u64 \<Rightarrow> qut_entries \<Rightarrow> qut_entries" where
  "set_row_end pc stop = map (\<lambda>(k, e, is). (k, if k = pc then stop else e, is))"

definition store_row :: "locations \<Rightarrow> u64 list \<Rightarrow> parse_state \<Rightarrow> parse_state" where
  "store_row l is c = c\<lparr>all_instructions := map_put (row_start l) (row_end l, is) (all_instructions c)\<rparr>"

definition count_row :: "u64 list \<Rightarrow> generation_context \<Rightarrow> generation_context" where
  "count_row is ctx =
     (let usage = estimate_memory_usage ctx + of_nat (length is)
      in ctx\<lparr>estimate_memory_usage := usage, memory_overwhelmed := CHECK_MEMORY_OVERWHELMED usage\<rparr>)"

text \<open>
  The callback.  What \<open>Eval\<close> returns is not looked at; \<open>order\<close> gives the order in which the iterator
  visits the keys of a map.
\<close>

definition parse_row ::
  "'a::len itself \<Rightarrow> bool \<Rightarrow> memory_read \<Rightarrow> ((u32 \<Rightarrow> DwarfLocation option) \<Rightarrow> u32 list) \<Rightarrow> dwarf_cie \<Rightarrow> bool
     \<Rightarrow> parse_state cfa_callback" where
  "parse_row t arm regular order cie iterate_loc l m c =
     (case Eval_row t arm regular (parse_context c) cie (rules l) (order (rules l))
             \<lparr>row_memory = m, row_error = parse_error c, temp_instructions = []\<rparr> of
        Inl f \<Rightarrow> Inl f
      | Inr (_, e) \<Rightarrow>
          (let c = c\<lparr>parse_error := row_error e\<rparr>; is = temp_instructions e
           in if iterate_loc \<and> prev_instructions c = Some is
              then Inr (True, row_memory e,
                     c\<lparr>all_instructions := set_row_end (prev_pc c) (row_end l) (all_instructions c)\<rparr>)
              else (let c = (if iterate_loc
                             then c\<lparr>prev_instructions := Some is, prev_pc := row_start l,
                                    parse_context := count_row is (parse_context c)\<rparr>
                             else c)
                    in Inr (\<not> memory_overwhelmed (parse_context c), row_memory e, store_row l is c))))"

type_synonym parse_result = "(fault + (bool \<times> frame_section \<times> generation_context \<times> qut_entries)) option"

definition ParseSingleFde ::
  "'a::len itself \<Rightarrow> bool \<Rightarrow> memory_read \<Rightarrow> ((u32 \<Rightarrow> DwarfLocation option) \<Rightarrow> u32 list) \<Rightarrow> dwarf_fde \<Rightarrow> u64 \<Rightarrow> bool
     \<Rightarrow> frame_section \<Rightarrow> generation_context \<Rightarrow> qut_entries \<Rightarrow> parse_result" where
  "ParseSingleFde t arm regular order fde pc iterate_loc s ctx entries =
     (case fde_cie fde of
        None \<Rightarrow> Some (Inr (False, s, ctx, entries))
      | Some cie \<Rightarrow>
          (case run_cie t (pc_start fde) fde cie no_locations s of
             None \<Rightarrow> None
           | Some (Inl f) \<Rightarrow> Some (Inl f)
           | Some (Inr (None, s)) \<Rightarrow> Some (Inr (False, s, ctx, entries))
           | Some (Inr (Some (dcfa, _), s)) \<Rightarrow>
               (case IterateLocationInfo (pc_start fde) (if iterate_loc then pc_end fde else pc)
                       (fde_instructions_offset fde) (fde_instructions_end fde) iterate_loc
                       (parse_row t arm regular order cie iterate_loc) dcfa
                       \<lparr>parse_context = ctx, all_instructions = entries, prev_instructions = None,
                        prev_pc = - 1, parse_error = sec_error s\<rparr> of
                  None \<Rightarrow> None
                | Some (Inl f) \<Rightarrow> Some (Inl f)
                | Some (Inr (ret, dcfa, c)) \<Rightarrow>
                    Some (Inr (ret, s\<lparr>sec_memory := cfa_memory dcfa, sec_error := parse_error c\<rparr>,
                               parse_context c, all_instructions c)))))"

fun parse_fdes ::
  "'a::len itself \<Rightarrow> bool \<Rightarrow> memory_read \<Rightarrow> ((u32 \<Rightarrow> DwarfLocation option) \<Rightarrow> u32 list) \<Rightarrow> dwarf_fde list
     \<Rightarrow> frame_section \<Rightarrow> generation_context \<Rightarrow> qut_entries \<Rightarrow> parse_result" where
  "parse_fdes t arm regular order [] s ctx entries = Some (Inr (True, s, ctx, entries))"
| "parse_fdes t arm regular order (fde # fs) s ctx entries =
     (case ParseSingleFde t arm regular order fde 0 True s ctx entries of
        None \<Rightarrow> None
      | Some (Inl f) \<Rightarrow> Some (Inl f)
      | Some (Inr (ret, s, ctx, entries)) \<Rightarrow>
          if \<not> ret \<and> memory_overwhelmed ctx then Some (Inr (True, s, ctx, entries))
          else parse_fdes t arm regular order fs s ctx entries)"

definition IterateAllEntries ::
  "'a::len itself \<Rightarrow> bool \<Rightarrow> memory_read \<Rightarrow> ((u32 \<Rightarrow> DwarfLocation option) \<Rightarrow> u32 list)
     \<Rightarrow> frame_section \<Rightarrow> generation_context \<Rightarrow> qut_entries \<Rightarrow> parse_result" where
  "IterateAllEntries t arm regular order s ctx entries =
     (case FillFdes t s of
        None \<Rightarrow> None
      | Some (Inl f) \<Rightarrow> Some (Inl f)
      | Some (Inr s) \<Rightarrow>
          parse_fdes t arm regular order (map (\<lambda>(e, st, fde). fde) (fdes s))
            (s\<lparr>sec_error := (sec_error s)\<lparr>err_code := DWARF_ERROR_NONE\<rparr>\<rparr>) ctx entries)"

section \<open>What the rules of a row mean\<close>

text \<open>
  The DWARF numbers of the registers that an unwinding step keeps, and the meaning of a row whose frame
  address is a register plus an offset: every register with an offset rule is loaded from the stack
  relative to the frame address, all others keep their value.
\<close>

definition dwarf_reg :: "bool \<Rightarrow> nat \<Rightarrow> u32 option" where
  "dwarf_reg arm r =
     (if arm then (if r < 7 then Some ([4, 7, 10, 11, 13, 15, 14] ! r) else None)
      else (if 0 < r \<and> r < 7 then Some ([0, 20, 28, 29, 31, 32, 30] ! r) else None))"

definition minimal_reg :: "bool \<Rightarrow> u32 \<Rightarrow> nat option" where
  "minimal_reg arm n = List.find (\<lambda>r. dwarf_reg arm r = Some n) [0..<7]"

definition frame_address :: "bool \<Rightarrow> 'w::len word qtable \<Rightarrow> DwarfLocation \<Rightarrow> 'w word" where
  "frame_address arm q l =
     (if value0 l = (if arm then 13 else 31) then cfa q
      else (case minimal_reg arm (ucast (value0 l)) of None \<Rightarrow> 0 | Some r \<Rightarrow> regs q r))
     + ucast (value1 l)"

definition offset_rule :: "bool \<Rightarrow> generation_context \<Rightarrow> (u32 \<Rightarrow> DwarfLocation option) \<Rightarrow> nat \<Rightarrow> u64 option" where
  "offset_rule arm ctx rs r =
     (case dwarf_reg arm r of
        None \<Rightarrow> None
      | Some n \<Rightarrow>
          (case rs n of
             None \<Rightarrow> None
           | Some l \<Rightarrow> if tracked_reg arm ctx n \<and> loc_type l = DWARF_LOCATION_OFFSET then Some (value0 l) else None))"

definition restored ::
  "bool \<Rightarrow> generation_context \<Rightarrow> 'w::len word stack_env \<Rightarrow> (u32 \<Rightarrow> DwarfLocation option) \<Rightarrow> 'w word \<Rightarrow> nat \<Rightarrow> 'w word option" where
  "restored arm ctx env rs c r =
     (case offset_rule arm ctx rs r of None \<Rightarrow> None | Some v \<Rightarrow> ReadStack env (c + ucast v))"

definition dwarf_unwind ::
  "bool \<Rightarrow> generation_context \<Rightarrow> 'w::len word stack_env \<Rightarrow> (u32 \<Rightarrow> DwarfLocation option) \<Rightarrow> 'w word \<Rightarrow> 'w word qtable \<Rightarrow> 'w word qtable" where
  "dwarf_unwind arm ctx env rs c q =
     q\<lparr>cfa := c,
       regs := (\<lambda>r. case restored arm ctx env rs c r of None \<Rightarrow> regs q r | Some v \<Rightarrow> v),
       pc_set := (pc_set q \<or> restored arm ctx env rs c PC \<noteq> None)\<rparr>"

text \<open>
  Offsets of 32 bits; loads that succeed; and no zero frame pointer, which ends the chain of frames.
\<close>

definition small_offset :: "u64 \<Rightarrow> bool" where
  "small_offset v \<longleftrightarrow> - (2 ^ 31) < sint v \<and> sint v < 2 ^ 31"

definition plain_rule :: "bool \<Rightarrow> generation_context \<Rightarrow> dwarf_cie \<Rightarrow> u32 \<Rightarrow> DwarfLocation \<Rightarrow> bool" where
  "plain_rule arm ctx cie n l \<longleftrightarrow>
     (tracked_reg arm ctx n \<longrightarrow>
        loc_type l = DWARF_LOCATION_OFFSET \<and> small_offset (value0 l)
        \<or> loc_type l = DWARF_LOCATION_UNDEFINED \<and> ucast n \<noteq> return_address_register cie)"

definition row_loads ::
  "bool \<Rightarrow> generation_context \<Rightarrow> 'w::len word stack_env \<Rightarrow> (u32 \<Rightarrow> DwarfLocation option) \<Rightarrow> 'w word \<Rightarrow> bool" where
  "row_loads arm ctx env rs c \<longleftrightarrow>
     (\<forall>r < 7. offset_rule arm ctx rs r \<noteq> None \<longrightarrow>
        restored arm ctx env rs c r \<noteq> None \<and> (arm \<or> r \<noteq> R29 \<or> restored arm ctx env rs c r \<noteq> Some 0))"

section \<open>The instructions of a row restore the registers\<close>

lemma row_word_mk: "row_word i v = mk_instr i (sint v)"
proof -
  have "word_of_int (sint v) AND 0xFFFFFFFF = (ucast v :: u64)"
    by (intro bit_eqI) (auto simp: bitvals bit_word_scast_iff bit_ucast_iff dest: bit_imp_le_length)
  then show ?thesis by (simp add: row_word_def mk_instr_def)
qed

lemma exec_row_word [simp]: "exec_word arm env (row_word i v) q = exec_instr arm env i (sint v) q"
  using sint_range_size [of v]
  by (simp add: exec_word_def row_word_mk instr_imm_mk word_size)

lemma small_offset_cast:
  assumes "small_offset v"
  shows "sint (ucast v :: u32) = sint v" "sint (ucast (- v) :: u32) = - sint v"
proof -
  have u32: "sint (word_of_int k :: u32) = k" if "- (2 ^ 31) \<le> k" "k < 2 ^ 31" for k
    using that by (simp add: sint_sbintrunc' signed_take_bit_int_eq_self)
  have "word_of_int (sint v) = v" "word_of_int (- sint v) = - v" by simp_all
  note cast = ucast_word_of_int_u64 [of "sint v", unfolded this(1)] ucast_word_of_int_u64 [of "- sint v", unfolded this(2)]
  show "sint (ucast v :: u32) = sint v" "sint (ucast (- v) :: u32) = - sint v"
    unfolding cast using assms by (intro u32; simp add: small_offset_def)+
qed

lemma scast_u64: "LENGTH('w) \<le> 64 \<Longrightarrow> (scast (v::u64) :: 'w::len word) = ucast v"
  by (intro bit_word_eqI) (auto simp: bit_word_scast_iff bit_ucast_iff dest: bit_imp_le_length)

lemma nat7_cases: "r < 7 \<Longrightarrow> r = 0 \<or> r = 1 \<or> r = 2 \<or> r = 3 \<or> r = 4 \<or> r = 5 \<or> r = (6::nat)"
  by auto

lemma dwarf_reg_less: "dwarf_reg arm r = Some n \<Longrightarrow> r < 7"
  by (auto simp: dwarf_reg_def split: if_splits)

lemma dwarf_reg_inject:
  assumes "dwarf_reg arm r = Some n" "dwarf_reg arm r' = Some n"
  shows "r = r'"
  using assms dwarf_reg_less [OF assms(1)] dwarf_reg_less [OF assms(2)]
  by (auto simp: dwarf_reg_def dest!: nat7_cases split: if_splits)

lemma ucast_u32_eq: "(ucast (n :: u32) :: u64) = ucast k \<longleftrightarrow> n = k"
proof -
  have "(ucast (ucast m :: u64) :: u32) = m" for m
    by (intro bit_word_eqI) (simp add: bit_ucast_iff)
  then show ?thesis by metis
qed

lemma ucast_u32_numeral:
  fixes n :: u32
  shows "ucast n = (4::u64) \<longleftrightarrow> n = 4" "ucast n = (7::u64) \<longleftrightarrow> n = 7" "ucast n = (10::u64) \<longleftrightarrow> n = 10"
    "ucast n = (11::u64) \<longleftrightarrow> n = 11" "ucast n = (13::u64) \<longleftrightarrow> n = 13" "ucast n = (14::u64) \<longleftrightarrow> n = 14"
    "ucast n = (15::u64) \<longleftrightarrow> n = 15" "ucast n = (20::u64) \<longleftrightarrow> n = 20" "ucast n = (28::u64) \<longleftrightarrow> n = 28"
    "ucast n = (29::u64) \<longleftrightarrow> n = 29" "ucast n = (30::u64) \<longleftrightarrow> n = 30" "ucast n = (31::u64) \<longleftrightarrow> n = 31"
    "ucast n = (32::u64) \<longleftrightarrow> n = 32"
  using ucast_u32_eq [of n 4] ucast_u32_eq [of n 7] ucast_u32_eq [of n 10] ucast_u32_eq [of n 11] ucast_u32_eq [of n 13] ucast_u32_eq [of n 14] ucast_u32_eq [of n 15] ucast_u32_eq [of n 20] ucast_u32_eq [of n 28] ucast_u32_eq [of n 29] ucast_u32_eq [of n 30] ucast_u32_eq [of n 31] ucast_u32_eq [of n 32] by simp_all

lemma dwarf_reg_op:
  assumes "dwarf_reg arm r = Some n"
  obtains i where "reg_offset_op arm (ucast n) = Some i" "loaded_reg arm i = Some r" "frame_reg arm i = None"
    "i \<notin> {VSP_OFFSET, VSP_SET_IMM, DEX_PC_SET, END_OF_INS, FIN}" "r \<noteq> R29 \<Longrightarrow> i \<noteq> X29_OFFSET"
  using assms dwarf_reg_less [OF assms] that
  by (auto simp: dwarf_reg_def reg_offset_op_def loaded_reg_def frame_reg_def ucast_u32_numeral
      dest!: nat7_cases split: if_splits)

lemma reg_offset_op_known:
  assumes "reg_offset_op arm (ucast n) = Some i"
  shows "\<exists>r. dwarf_reg arm r = Some n"
proof -
  have "dwarf_reg True 0 = Some 4" "dwarf_reg True 1 = Some 7" "dwarf_reg True 2 = Some 10" "dwarf_reg True 3 = Some 11"
    "dwarf_reg True 4 = Some 13" "dwarf_reg True 5 = Some 15" "dwarf_reg True 6 = Some 14"
    "dwarf_reg False 1 = Some 20" "dwarf_reg False 2 = Some 28" "dwarf_reg False 3 = Some 29"
    "dwarf_reg False 4 = Some 31" "dwarf_reg False 5 = Some 32" "dwarf_reg False 6 = Some 30"
    by (simp_all add: dwarf_reg_def)
  then show ?thesis
    using assms by (cases arm) (auto simp: reg_offset_op_def ucast_u32_numeral split: if_splits)
qed

text \<open>The instructions that the loop over the rules appends for plain rules.\<close>

fun restore_words :: "bool \<Rightarrow> generation_context \<Rightarrow> (u32 \<Rightarrow> DwarfLocation option) \<Rightarrow> u32 list \<Rightarrow> u64 list" where
  "restore_words arm ctx rs [] = []"
| "restore_words arm ctx rs (n # keys) =
     (case rs n of
        None \<Rightarrow> []
      | Some l \<Rightarrow>
          if tracked_reg arm ctx n \<and> loc_type l = DWARF_LOCATION_OFFSET
          then (case reg_offset_op arm (ucast n) of
                  None \<Rightarrow> []
                | Some i \<Rightarrow> [row_word i (ucast (- value0 l))])
          else [])
     @ restore_words arm ctx rs keys"

lemma eval_registers_plain:
  assumes "\<forall>n \<in> set keys. \<forall>l. rs n = Some l \<longrightarrow> plain_rule arm ctx cie n l"
  shows "eval_registers t arm regular ctx cie rs keys s
     = Inr (True, s\<lparr>temp_instructions := temp_instructions s @ restore_words arm ctx rs keys\<rparr>)"
  using assms
proof (induction keys arbitrary: s)
  case (Cons n keys)
  show ?case
  proof (cases "rs n")
    case (Some l)
    then have "plain_rule arm ctx cie n l" using Cons.prems by simp
    then show ?thesis
      using Cons Some
      by (cases "loc_type l")
        (auto simp: plain_rule_def EvalRegister_def RegOffsetInstruction_def push_instruction_def
          split: option.splits)
  qed (use Cons in simp)
qed simp

lemma exec_restore_word:
  fixes q :: "'w::len word qtable"
  assumes "dwarf_reg arm r = Some n" "reg_offset_op arm (ucast n) = Some i" "small_offset v" "LENGTH('w) \<le> 64"
    and "ReadStack env (cfa q + ucast v) = Some x" "arm \<or> r \<noteq> R29 \<or> x \<noteq> 0"
  shows "exec_word arm env (row_word i (ucast (- v))) q
     = Go (q\<lparr>regs := (regs q)(r := x), pc_set := (pc_set q \<or> r = PC)\<rparr>)"
proof -
  obtain "loaded_reg arm i = Some r" "frame_reg arm i = None"
    "i \<notin> {VSP_OFFSET, VSP_SET_IMM, DEX_PC_SET, END_OF_INS, FIN}" "r \<noteq> R29 \<Longrightarrow> i \<noteq> X29_OFFSET"
    using dwarf_reg_op [OF assms(1)] assms(2) by (metis option.inject)
  then show ?thesis
    using assms(5,6)
    by (cases i) (auto simp: small_offset_cast [OF assms(3)] scast_u64 [OF assms(4)] exec_instr_def load_effect_def
        stop_at_zero_def ends_chain_def)
qed


text \<open>Loading the registers whose numbers are in a list.\<close>

definition restore_from ::
  "bool \<Rightarrow> generation_context \<Rightarrow> 'w::len word stack_env \<Rightarrow> (u32 \<Rightarrow> DwarfLocation option) \<Rightarrow> u32 list \<Rightarrow> 'w word qtable \<Rightarrow> 'w word qtable" where
  "restore_from arm ctx env rs keys q =
     q\<lparr>regs := (\<lambda>r. if dwarf_reg arm r \<in> Some ` set keys
                   then (case restored arm ctx env rs (cfa q) r of None \<Rightarrow> regs q r | Some v \<Rightarrow> v) else regs q r),
       pc_set := (pc_set q \<or> dwarf_reg arm PC \<in> Some ` set keys \<and> restored arm ctx env rs (cfa q) PC \<noteq> None)\<rparr>"

lemma restore_from_skip:
  assumes "\<And>r. dwarf_reg arm r = Some n \<Longrightarrow> restored arm ctx env rs (cfa q) r = None"
  shows "restore_from arm ctx env rs (n # keys) q = restore_from arm ctx env rs keys q"
  using assms by (auto simp: restore_from_def fun_eq_iff intro!: qtable.equality)

lemma restore_from_load:
  assumes "dwarf_reg arm r = Some n" "restored arm ctx env rs (cfa q) r = Some x"
  shows "restore_from arm ctx env rs (n # keys) q
     = restore_from arm ctx env rs keys (q\<lparr>regs := (regs q)(r := x), pc_set := (pc_set q \<or> r = PC)\<rparr>)"
proof -
  let ?q = "q\<lparr>regs := (regs q)(r := x), pc_set := (pc_set q \<or> r = PC)\<rparr>"
  have only: "dwarf_reg arm r' = Some n \<longleftrightarrow> r' = r" for r'
    using assms(1) dwarf_reg_inject by blast
  have "regs (restore_from arm ctx env rs (n # keys) q) r' = regs (restore_from arm ctx env rs keys ?q) r'" for r'
    using assms(2) by (cases "r' = r") (simp_all add: restore_from_def only split: option.split)
  then have "regs (restore_from arm ctx env rs (n # keys) q) = regs (restore_from arm ctx env rs keys ?q)" ..
  moreover have "pc_set (restore_from arm ctx env rs (n # keys) q) = pc_set (restore_from arm ctx env rs keys ?q)"
    using assms(2) only [of PC] by (cases "r = PC") (simp_all add: restore_from_def)
  ultimately show ?thesis by (intro qtable.equality) (simp_all add: restore_from_def)
qed

lemma exec_restore_words:
  fixes q :: "'w::len word qtable"
  assumes "\<forall>n \<in> set keys. \<forall>l. rs n = Some l \<longrightarrow> plain_rule arm ctx cie n l" "LENGTH('w) \<le> 64"
    and "row_loads arm ctx env rs (cfa q)"
  shows "exec_words arm env (restore_words arm ctx rs keys) q = Go (restore_from arm ctx env rs keys q)"
  using assms
proof (induction keys arbitrary: q)
  case Nil
  then show ?case by (simp add: restore_from_def)
next
  case (Cons n keys)
  let ?c = "cfa q"
  consider (skip) "restore_words arm ctx rs (n # keys) = restore_words arm ctx rs keys"
      "\<And>r. dwarf_reg arm r = Some n \<Longrightarrow> offset_rule arm ctx rs r = None"
    | (load) l i r where "rs n = Some l" "tracked_reg arm ctx n" "loc_type l = DWARF_LOCATION_OFFSET"
      "reg_offset_op arm (ucast n) = Some i" "dwarf_reg arm r = Some n"
  proof (cases "\<exists>l i. rs n = Some l \<and> tracked_reg arm ctx n \<and> loc_type l = DWARF_LOCATION_OFFSET
      \<and> reg_offset_op arm (ucast n) = Some i")
    case True
    then show ?thesis using reg_offset_op_known load by blast
  next
    case False
    then have "restore_words arm ctx rs (n # keys) = restore_words arm ctx rs keys"
      by (auto split: option.splits)
    moreover have "offset_rule arm ctx rs r = None" if dr: "dwarf_reg arm r = Some n" for r
    proof -
      obtain i where "reg_offset_op arm (ucast n) = Some i" using dwarf_reg_op [OF dr] by blast
      with False show ?thesis by (auto simp: offset_rule_def dr split: option.splits)
    qed
    ultimately show ?thesis by (rule skip)
  qed
  then show ?case
  proof cases
    case skip
    then have "restore_from arm ctx env rs (n # keys) q = restore_from arm ctx env rs keys q"
      by (intro restore_from_skip) (simp add: restored_def)
    then show ?thesis using Cons skip(1) by simp
  next
    case load
    then have rule: "offset_rule arm ctx rs r = Some (value0 l)" by (simp add: offset_rule_def)
    have small: "small_offset (value0 l)" using Cons.prems(1) load by (simp add: plain_rule_def)
    from rule dwarf_reg_less [OF load(5)] Cons.prems(3) obtain x where
      x: "restored arm ctx env rs ?c r = Some x" "arm \<or> r \<noteq> R29 \<or> x \<noteq> 0"
      by (auto simp: row_loads_def)
    then have "ReadStack env (?c + ucast (value0 l)) = Some x" by (simp add: restored_def rule)
    with exec_restore_word [OF load(5,4) small Cons.prems(2)] x(2)
    have "exec_word arm env (row_word i (ucast (- value0 l))) q
        = Go (q\<lparr>regs := (regs q)(r := x), pc_set := (pc_set q \<or> r = PC)\<rparr>)" by simp
    then show ?thesis
      using load Cons.prems by (simp add: Cons.IH restore_from_load [OF load(5) x(1)])
  qed
qed

lemma exec_cfa_word:
  fixes q :: "'w::len word qtable"
  assumes "cfa_offset_op arm native_only (value0 l) = Some i" "small_offset (value1 l)" "LENGTH('w) \<le> 64"
  shows "exec_word arm env (row_word i (ucast (value1 l))) q = Go (q\<lparr>cfa := frame_address arm q l\<rparr>)"
proof -
  have min: "minimal_reg True 7 = Some 1" "minimal_reg True 10 = Some 2" "minimal_reg True 11 = Some 3"
    "minimal_reg False 28 = Some 2" "minimal_reg False 29 = Some 3"
    by (simp_all add: minimal_reg_def dwarf_reg_def upt_rec)
  show ?thesis
    using assms(1) min
    by (cases arm)
      (auto simp: cfa_offset_op_def exec_instr_def frame_reg_def frame_address_def small_offset_cast [OF assms(2)]
        scast_u64 [OF assms(3)] split: if_splits)
qed

lemma restore_from_all:
  assumes "dom rs \<subseteq> set keys"
  shows "restore_from arm ctx env rs keys (q\<lparr>cfa := c\<rparr>) = dwarf_unwind arm ctx env rs c q"
proof -
  have "dwarf_reg arm r \<in> Some ` set keys" if "restored arm ctx env rs c r \<noteq> None" for r
    using that assms by (auto simp: restored_def offset_rule_def split: option.splits if_splits)
  then have covered: "dwarf_reg arm r \<in> Some ` set keys \<or> restored arm ctx env rs c r = None" for r by blast
  have "regs (restore_from arm ctx env rs keys (q\<lparr>cfa := c\<rparr>)) r = regs (dwarf_unwind arm ctx env rs c q) r" for r
    using covered [of r] by (auto simp: restore_from_def dwarf_unwind_def split: option.split)
  then have "regs (restore_from arm ctx env rs keys (q\<lparr>cfa := c\<rparr>)) = regs (dwarf_unwind arm ctx env rs c q)" ..
  then show ?thesis
    using covered [of PC] by (intro qtable.equality) (auto simp: restore_from_def dwarf_unwind_def)
qed
lemma row_unwinds:
  fixes q :: "'w::len word qtable"
  assumes "rs CFA_REG = Some l" "loc_type l = DWARF_LOCATION_REGISTER" "small_offset (value1 l)"
    and "value0 l < ucast (gen_regs_total ctx)" "return_address_register cie < ucast (gen_regs_total ctx)"
    and "cfa_offset_op arm (gen_native_only ctx) (value0 l) \<noteq> None"
    and "\<forall>n l. rs n = Some l \<longrightarrow> plain_rule arm ctx cie n l" "dom rs \<subseteq> set keys" "LENGTH('w) \<le> 64"
    and "row_loads arm ctx env rs (frame_address arm q l)"
  shows "\<exists>words. Eval_row t arm regular ctx cie rs keys \<lparr>row_memory = m, row_error = e, temp_instructions = []\<rparr>
       = Inr (True, \<lparr>row_memory = m, row_error = e, temp_instructions = words\<rparr>)
     \<and> exec_words arm env words q = Go (dwarf_unwind arm ctx env rs (frame_address arm q l) q)"
proof -
  let ?c = "frame_address arm q l"
  obtain i where i: "cfa_offset_op arm (gen_native_only ctx) (value0 l) = Some i" using assms(6) by blast
  have plain: "\<forall>n \<in> set keys. \<forall>l. rs n = Some l \<longrightarrow> plain_rule arm ctx cie n l" using assms(7) by blast
  let ?words = "row_word i (ucast (value1 l)) # restore_words arm ctx rs keys"
  have "Eval_row t arm regular ctx cie rs keys \<lparr>row_memory = m, row_error = e, temp_instructions = []\<rparr>
       = Inr (True, \<lparr>row_memory = m, row_error = e, temp_instructions = ?words\<rparr>)"
    using assms(1,2,4,5) i
    by (simp add: Eval_row_def eval_cfa_def CfaOffsetInstruction_def push_instruction_def not_le
        eval_registers_plain [OF plain])
  moreover have "exec_words arm env ?words q = Go (dwarf_unwind arm ctx env rs ?c q)"
    using exec_cfa_word [OF i assms(3,9)] exec_restore_words [OF plain assms(9), of env "q\<lparr>cfa := ?c\<rparr>"]
      restore_from_all [OF assms(8)] assms(10) by simp
  ultimately show ?thesis by blast
qed

text \<open>
  C8. A row of call frame information becomes instructions that do what the row means: the frame address
  is the register plus the offset, every register with an offset rule is loaded relative to it, and
  nothing else changes.  This is for rows whose frame address is a register and whose other rules are
  offsets, in whatever order the map of rules is visited; the offsets fit 32 bits, the stack can be
  read there, and on 64 bits the saved frame pointer is not zero, which would end the chain of frames.
\<close>

theorem row_instructions_unwind:
  fixes q :: "'w::len word qtable"
  assumes "rs CFA_REG = Some l" "loc_type l = DWARF_LOCATION_REGISTER" "small_offset (value1 l)"
    and "value0 l < ucast (gen_regs_total ctx)" "return_address_register cie < ucast (gen_regs_total ctx)"
    and "cfa_offset_op arm (gen_native_only ctx) (value0 l) \<noteq> None"
    and "\<forall>n l. rs n = Some l \<longrightarrow> plain_rule arm ctx cie n l" "dom rs \<subseteq> set keys" "LENGTH('w) \<le> 64"
    and "row_loads arm ctx env rs (frame_address arm q l)"
  shows "\<exists>words. Eval_row t arm regular ctx cie rs keys \<lparr>row_memory = m, row_error = e, temp_instructions = []\<rparr>
       = Inr (True, \<lparr>row_memory = m, row_error = e, temp_instructions = words\<rparr>)
     \<and> exec_words arm env words q = Go (dwarf_unwind arm ctx env rs (frame_address arm q l) q)"
  using assms by (rule row_unwinds)

text \<open>The row after \<open>stp x29, x30, [sp, #-16]!\<close> on 64 bits, where the section is for native code.\<close>

definition native_context :: generation_context where
  "native_context = \<lparr>gen_regs_total = 36, gen_native_only = True, estimate_memory_usage = 0, memory_overwhelmed = False\<rparr>"

definition pushed_row :: "u32 \<Rightarrow> DwarfLocation option" where
  "pushed_row =
     [CFA_REG \<mapsto> \<lparr>loc_type = DWARF_LOCATION_REGISTER, value0 = 31, value1 = 16\<rparr>,
      30 \<mapsto> \<lparr>loc_type = DWARF_LOCATION_OFFSET, value0 = - 8, value1 = 0\<rparr>,
      29 \<mapsto> \<lparr>loc_type = DWARF_LOCATION_OFFSET, value0 = - 16, value1 = 0\<rparr>]"

definition sample_stack :: "64 word stack_env" where
  "sample_stack = \<lparr>stack_bottom = 0x1000, stack_top = 0x1ff8, memory = holding_words (\<lambda>a. a + 1)\<rparr>"

abbreviation sample_table :: "u64 qtable" where
  "sample_table \<equiv> \<lparr>cfa = 0x1800, dexpc = 0, pc_set = False, regs = \<lambda>r. 0x1800\<rparr>"

lemma pushed_row_rules:
  "offset_rule False native_context pushed_row r = (if r = R29 then Some (- 16) else if r = LR then Some (- 8) else None)"
  by (cases "r < 7")
    (auto simp: offset_rule_def dwarf_reg_def pushed_row_def tracked_reg_def native_context_def CFA_REG_def
      dest!: nat7_cases)

lemma pushed_row_restored:
  "restored False native_context sample_stack pushed_row 0x1810 r
     = (if r = R29 then Some 0x1801 else if r = LR then Some 0x1809 else None)"
  by (simp add: restored_def pushed_row_rules ReadStack_def sample_stack_def)

lemma pushed_row_unwinds:
  "dwarf_unwind False native_context sample_stack pushed_row 0x1810 sample_table
     = \<lparr>cfa = 0x1810, dexpc = 0, pc_set = False, regs = (\<lambda>r. 0x1800)(LR := 0x1809, R29 := 0x1801)\<rparr>"
  by (auto simp: dwarf_unwind_def pushed_row_restored fun_eq_iff)

lemma pushed_row_loads: "row_loads False native_context sample_stack pushed_row 0x1810"
  by (simp add: row_loads_def pushed_row_rules pushed_row_restored)

theorem row_instructions_unwind_witness:
  "\<exists>words. Eval_row TYPE(64) False (\<lambda>_ _. []) native_context sample_cie pushed_row [29, 0xffff, 30]
        \<lparr>row_memory = new_dwarf_memory (\<lambda>_ _. []), row_error = \<lparr>err_code = DWARF_ERROR_NONE, err_address = 0\<rparr>,
         temp_instructions = []\<rparr>
       = Inr (True, \<lparr>row_memory = new_dwarf_memory (\<lambda>_ _. []),
           row_error = \<lparr>err_code = DWARF_ERROR_NONE, err_address = 0\<rparr>, temp_instructions = words\<rparr>)
     \<and> exec_words False sample_stack words sample_table
       = Go \<lparr>cfa = 0x1810, dexpc = 0, pc_set = False, regs = (\<lambda>r. 0x1800)(LR := 0x1809, R29 := 0x1801)\<rparr>"
proof -
  have frame: "frame_address False sample_table \<lparr>loc_type = DWARF_LOCATION_REGISTER, value0 = 31, value1 = 16\<rparr> = 0x1810"
    by (simp add: frame_address_def)
  have plain: "\<forall>n l. pushed_row n = Some l \<longrightarrow> plain_rule False native_context sample_cie n l"
    by (auto simp: pushed_row_def plain_rule_def tracked_reg_def native_context_def small_offset_def CFA_REG_def)
  show ?thesis
    by (rule row_instructions_unwind [where rs = pushed_row and arm = False and ctx = native_context and cie = sample_cie
        and q = sample_table and env = sample_stack
        and l = "\<lparr>loc_type = DWARF_LOCATION_REGISTER, value0 = 31, value1 = 16\<rparr>", unfolded frame pushed_row_unwinds])
      (use plain pushed_row_loads in \<open>auto simp: pushed_row_def CFA_REG_def small_offset_def native_context_def
        sample_cie_def cfa_offset_op_def split: if_splits\<close>)
qed

section \<open>Rows without expressions leave the reader alone\<close>

definition no_expressions :: "(u32 \<Rightarrow> DwarfLocation option) \<Rightarrow> bool" where
  "no_expressions rs \<longleftrightarrow>
     (\<forall>n l. rs n = Some l \<longrightarrow> loc_type l \<noteq> DWARF_LOCATION_EXPRESSION \<and> loc_type l \<noteq> DWARF_LOCATION_VAL_EXPRESSION)"

text \<open>What a function of the row does if it neither reads nor fails with undefined behaviour.\<close>

definition still :: "(row_eval \<Rightarrow> fault + (bool \<times> row_eval)) \<Rightarrow> bool" where
  "still f \<longleftrightarrow>
     (\<forall>ws. \<exists>b g ws'. \<forall>m e. f \<lparr>row_memory = m, row_error = e, temp_instructions = ws\<rparr>
        = Inr (b, \<lparr>row_memory = m, row_error = g e, temp_instructions = ws'\<rparr>))"

lemma still_done: "still (\<lambda>s. Inr (b, s))" "still (\<lambda>s. Inr (b, set_row_error c s))"
  "still (\<lambda>s. Inr (b, push_instruction w s))"
  by (auto simp: still_def set_row_error_def push_instruction_def)

lemma still_seq:
  assumes "still f" "still g"
  shows "still (\<lambda>s. case f s of Inl x \<Rightarrow> Inl x | Inr (False, s) \<Rightarrow> Inr (False, s) | Inr (True, s) \<Rightarrow> g s)"
  unfolding still_def
proof (intro allI)
  fix ws
  obtain b h ws1 where f: "\<And>m e. f \<lparr>row_memory = m, row_error = e, temp_instructions = ws\<rparr>
        = Inr (b, \<lparr>row_memory = m, row_error = h e, temp_instructions = ws1\<rparr>)"
    using assms(1) unfolding still_def by meson
  obtain b' h' ws2 where g: "\<And>m e. g \<lparr>row_memory = m, row_error = e, temp_instructions = ws1\<rparr>
        = Inr (b', \<lparr>row_memory = m, row_error = h' e, temp_instructions = ws2\<rparr>)"
    using assms(2) unfolding still_def by meson
  have "(case f \<lparr>row_memory = m, row_error = e, temp_instructions = ws\<rparr> of
        Inl x \<Rightarrow> Inl x | Inr (False, s) \<Rightarrow> Inr (False, s) | Inr (True, s) \<Rightarrow> g s)
      = Inr (b \<and> b', \<lparr>row_memory = m, row_error = (if b then h' (h e) else h e),
             temp_instructions = (if b then ws2 else ws1)\<rparr>)" for m e
    by (cases b) (simp_all add: f g)
  then show "\<exists>b g' ws'. \<forall>m e. (case f \<lparr>row_memory = m, row_error = e, temp_instructions = ws\<rparr> of
        Inl x \<Rightarrow> Inl x | Inr (False, s) \<Rightarrow> Inr (False, s) | Inr (True, s) \<Rightarrow> g s)
      = Inr (b, \<lparr>row_memory = m, row_error = g' e, temp_instructions = ws'\<rparr>)"
    by (intro exI [of _ "b \<and> b'"] exI [of _ "\<lambda>e. if b then h' (h e) else h e"] exI [of _ "if b then ws2 else ws1"]) simp
qed

lemma still_EvalRegister:
  assumes "loc_type l \<noteq> DWARF_LOCATION_EXPRESSION" "loc_type l \<noteq> DWARF_LOCATION_VAL_EXPRESSION"
  shows "still (EvalRegister t arm regular num_regs cie reg l)"
  using assms
  by (cases "loc_type l"; cases "reg_offset_op arm (ucast reg)"; cases "ucast reg = return_address_register cie")
    (simp_all add: EvalRegister_def [abs_def] RegOffsetInstruction_def still_done)

lemma still_eval_registers:
  "no_expressions rs \<Longrightarrow> still (eval_registers t arm regular ctx cie rs keys)"
proof (induction keys)
  case Nil
  have "eval_registers t arm regular ctx cie rs [] = (\<lambda>s. Inr (True, s))" by (simp add: fun_eq_iff)
  then show ?case by (simp add: still_done)
next
  case (Cons n keys)
  note IH = Cons.IH [OF Cons.prems]
  show ?case
  proof (cases "\<exists>l. rs n = Some l \<and> tracked_reg arm ctx n")
    case True
    then obtain l where l: "rs n = Some l" "tracked_reg arm ctx n" by blast
    have "still (EvalRegister t arm regular (gen_regs_total ctx) cie n l)"
      using Cons.prems l(1) by (intro still_EvalRegister) (auto simp: no_expressions_def)
    from still_seq [OF this IH] show ?thesis using l by simp
  next
    case False
    then have "eval_registers t arm regular ctx cie rs (n # keys) = eval_registers t arm regular ctx cie rs keys"
      by (auto simp: fun_eq_iff split: option.splits)
    then show ?thesis using IH by simp
  qed
qed

lemma still_Eval_row:
  assumes "no_expressions rs"
  shows "still (Eval_row t arm regular ctx cie rs keys)"
proof (cases "ucast (gen_regs_total ctx) \<le> return_address_register cie")
  case True
  then show ?thesis by (simp add: Eval_row_def [abs_def] still_done)
next
  case False
  note ra = False
  show ?thesis
  proof (cases "rs CFA_REG")
    case None
    then show ?thesis using ra by (simp add: Eval_row_def [abs_def] still_done)
  next
    case (Some l)
    then have "still (eval_cfa t arm regular ctx l)"
      using assms
      by (cases "loc_type l"; cases "ucast (gen_regs_total ctx) \<le> value0 l";
          cases "cfa_offset_op arm (gen_native_only ctx) (value0 l)")
        (auto simp: eval_cfa_def [abs_def] CfaOffsetInstruction_def no_expressions_def still_done)
    from still_seq [OF this still_eval_registers [OF assms]] show ?thesis
      using ra Some by (simp add: Eval_row_def [abs_def])
  qed
qed

section \<open>The entries of an FDE without expressions\<close>

text \<open>The instructions of a row, and the callback without the reader.\<close>

definition row_instructions ::
  "'a::len itself \<Rightarrow> bool \<Rightarrow> memory_read \<Rightarrow> ((u32 \<Rightarrow> DwarfLocation option) \<Rightarrow> u32 list) \<Rightarrow> dwarf_cie
     \<Rightarrow> generation_context \<Rightarrow> locations \<Rightarrow> u64 list" where
  "row_instructions t arm regular order cie ctx l =
     (case Eval_row t arm regular ctx cie (rules l) (order (rules l))
             \<lparr>row_memory = new_dwarf_memory (\<lambda>_ _. []), row_error = \<lparr>err_code = DWARF_ERROR_NONE, err_address = 0\<rparr>,
              temp_instructions = []\<rparr> of
        Inl f \<Rightarrow> []
      | Inr (_, e) \<Rightarrow> temp_instructions e)"

definition parse_step ::
  "'a::len itself \<Rightarrow> bool \<Rightarrow> memory_read \<Rightarrow> ((u32 \<Rightarrow> DwarfLocation option) \<Rightarrow> u32 list) \<Rightarrow> dwarf_cie
     \<Rightarrow> locations \<Rightarrow> parse_state \<Rightarrow> bool \<times> parse_state" where
  "parse_step t arm regular order cie l c =
     (case parse_row t arm regular order cie True l (new_dwarf_memory (\<lambda>_ _. [])) c of
        Inl f \<Rightarrow> (False, c)
      | Inr (go_on, _, c') \<Rightarrow> (go_on, c'))"

lemma Eval_row_still:
  assumes "no_expressions (rules l)"
  obtains b g where "\<And>m e. Eval_row t arm regular ctx cie (rules l) (order (rules l))
       \<lparr>row_memory = m, row_error = e, temp_instructions = []\<rparr>
     = Inr (b, \<lparr>row_memory = m, row_error = g e, temp_instructions = row_instructions t arm regular order cie ctx l\<rparr>)"
proof -
  let ?f = "Eval_row t arm regular ctx cie (rules l) (order (rules l))"
  obtain b g ws where f: "\<And>m e. ?f \<lparr>row_memory = m, row_error = e, temp_instructions = []\<rparr>
        = Inr (b, \<lparr>row_memory = m, row_error = g e, temp_instructions = ws\<rparr>)"
    using still_Eval_row [OF assms, of t arm regular ctx cie "order (rules l)"] unfolding still_def by meson
  moreover have "ws = row_instructions t arm regular order cie ctx l"
    by (simp add: row_instructions_def f)
  ultimately show ?thesis using that by blast
qed

lemma parse_row_still:
  assumes "no_expressions (rules l)"
  shows "parse_row t arm regular order cie True l m c
     = Inr (fst (parse_step t arm regular order cie l c), m, snd (parse_step t arm regular order cie l c))"
  by (rule Eval_row_still [OF assms, of t arm regular "parse_context c" cie order])
    (simp add: parse_step_def parse_row_def Let_def)

text \<open>
  When no row of an entry has an expression, \<open>ParseSingleFde\<close> handles exactly the rows that the call
  frame instructions describe, one after the other, until too much memory is used.
\<close>

lemma ParseSingleFde_folds_rows:
  assumes "fde_cie fde = Some cie" "run_cie t (pc_start fde) fde cie no_locations s = Some (Inr (Some (dcfa, r), s1))"
    and "IterateLocationInfo (pc_start fde) (pc_end fde) (fde_instructions_offset fde) (fde_instructions_end fde) True
           record_row dcfa [] = Some (Inr (True, dcfa', rows))"
    and "\<forall>l \<in> set rows. no_expressions (rules l)"
    and "(ret, c) = fold_rows (parse_step t arm regular order cie) rows
           \<lparr>parse_context = ctx, all_instructions = entries, prev_instructions = None, prev_pc = - 1,
            parse_error = sec_error s1\<rparr>"
  shows "\<exists>s2. ParseSingleFde t arm regular order fde pc True s ctx entries
     = Some (Inr (ret, s2, parse_context c, all_instructions c))"
proof -
  let ?c0 = "\<lparr>parse_context = ctx, all_instructions = entries, prev_instructions = None, prev_pc = - 1,
            parse_error = sec_error s1\<rparr>"
  let ?f = "parse_step t arm regular order cie"
  have still: "parse_row t arm regular order cie True l m c = Inr (fst (?f l c), m, snd (?f l c))" if "l \<in> set rows" for l m c
    using assms(4) that by (intro parse_row_still) simp
  let ?s = "cfa_start (fde_instructions_offset fde) (pc_start fde) no_locations dcfa"
  have "IterateLocationInfo_loop record_row (pc_end fde) (fde_instructions_end fde) True (cur_pc ?s) ?s []
      = Some (Inr (True, dcfa', rows))"
    using assms(3) by (simp add: IterateLocationInfo_def Let_def)
  from iterate_folds [where callback = "parse_row t arm regular order cie True" and f = ?f, OF this still]
  obtain zs where zs: "rows = [] @ zs"
    and loop: "\<forall>c. \<exists>s''. IterateLocationInfo_loop (parse_row t arm regular order cie True) (pc_end fde)
        (fde_instructions_end fde) True (cur_pc ?s) ?s c
      = Some (Inr (fst (fold_rows ?f zs c), s'', snd (fold_rows ?f zs c)))" by blast
  obtain dcfa'' where "IterateLocationInfo (pc_start fde) (pc_end fde) (fde_instructions_offset fde)
      (fde_instructions_end fde) True (parse_row t arm regular order cie True) dcfa ?c0
    = Some (Inr (fst (fold_rows ?f rows ?c0), dcfa'', snd (fold_rows ?f rows ?c0)))"
    using loop [rule_format, of ?c0] zs by (auto simp: IterateLocationInfo_def Let_def)
  then show ?thesis
    using assms(1,2) by (auto simp: ParseSingleFde_def assms(5) [symmetric])
qed

section \<open>The entry of a program counter\<close>

text \<open>The instructions of the last entry that starts at or below a program counter.\<close>

definition entry_at :: "u64 \<Rightarrow> qut_entries \<Rightarrow> u64 list option" where
  "entry_at pc es =
     (let below = filter (\<lambda>e. fst e \<le> pc) es in if below = [] then None else Some (snd (snd (last below))))"

definition ascending :: "qut_entries \<Rightarrow> bool" where
  "ascending es \<longleftrightarrow> sorted_wrt (<) (map fst es)"

lemma set_row_end_simps [simp]:
  "map fst (set_row_end k stop es) = map fst es"
  "entry_at pc (set_row_end k stop es) = entry_at pc es"
  "ascending (set_row_end k stop es) = ascending es"
  "set_row_end k stop es = [] \<longleftrightarrow> es = []"
  "es \<noteq> [] \<Longrightarrow> snd (snd (last (set_row_end k stop es))) = snd (snd (last es))"
proof -
  show fst: "map fst (set_row_end k stop es) = map fst es" for es
    by (auto simp: set_row_end_def)
  then show "ascending (set_row_end k stop es) = ascending es" by (simp add: ascending_def)
  show empty: "set_row_end k stop es = [] \<longleftrightarrow> es = []" for es by (simp add: set_row_end_def)
  show last: "snd (snd (last (set_row_end k stop es))) = snd (snd (last es))" if "es \<noteq> []" for es
    using that by (simp add: set_row_end_def last_map case_prod_unfold)
  have "filter (\<lambda>e. fst e \<le> pc) (set_row_end k stop es) = set_row_end k stop (filter (\<lambda>e. fst e \<le> pc) es)"
    by (induction es) (auto simp: set_row_end_def)
  then show "entry_at pc (set_row_end k stop es) = entry_at pc es"
    using last [of "filter (\<lambda>e. fst e \<le> pc) es"] empty by (simp add: entry_at_def)
qed

lemma map_put_last:
  assumes "ascending es" "\<forall>e \<in> set es. fst e \<le> k"
  shows "map_put k v es = filter (\<lambda>e. fst e < k) es @ [(k, v)]"
  using assms
proof (induction es)
  case (Cons e es)
  obtain k' v' where e: "e = (k', v')" by (cases e)
  have "es = []" if "k' = k"
    using Cons.prems that by (cases es) (auto simp: ascending_def e)
  then show ?case
    using Cons by (auto simp: e ascending_def)
qed simp

lemma map_put_entries:
  assumes "ascending es" "\<forall>e \<in> set es. fst e \<le> k"
  shows "ascending (map_put k (stop, is) es)" "\<forall>e \<in> set (map_put k (stop, is) es). fst e \<le> k"
    "entry_at pc (map_put k (stop, is) es) = (if k \<le> pc then Some is else entry_at pc es)"
proof -
  note put = map_put_last [OF assms]
  show "ascending (map_put k (stop, is) es)"
    using assms(1) by (auto simp: put ascending_def sorted_wrt_append sorted_wrt_map sorted_wrt_filter)
  show "\<forall>e \<in> set (map_put k (stop, is) es). fst e \<le> k" by (auto simp: put)
  have "filter (\<lambda>e. fst e \<le> pc \<and> fst e < k) es = filter (\<lambda>e. fst e \<le> pc) es" if "\<not> k \<le> pc"
    using that by (intro filter_cong) auto
  then show "entry_at pc (map_put k (stop, is) es) = (if k \<le> pc then Some is else entry_at pc es)"
    by (auto simp: put entry_at_def Let_def conj_commute)
qed

text \<open>What the instructions of a row depend on.\<close>

lemma eval_registers_context:
  "eval_registers t arm regular (ctx\<lparr>estimate_memory_usage := u, memory_overwhelmed := w\<rparr>) cie rs keys s
     = eval_registers t arm regular ctx cie rs keys s"
proof (induction keys arbitrary: s)
  case (Cons n keys)
  have "tracked_reg arm (ctx\<lparr>estimate_memory_usage := u, memory_overwhelmed := w\<rparr>) n = tracked_reg arm ctx n"
    by (simp add: tracked_reg_def)
  then show ?case using Cons by (simp split: option.split sum.split prod.split bool.split)
qed simp

lemma row_instructions_context:
  "row_instructions t arm regular order cie (ctx\<lparr>estimate_memory_usage := u, memory_overwhelmed := w\<rparr>) l
     = row_instructions t arm regular order cie ctx l"
proof -
  have same: "eval_cfa t arm regular (ctx\<lparr>estimate_memory_usage := u, memory_overwhelmed := w\<rparr>) l' s
      = eval_cfa t arm regular ctx l' s" for l' s
    by (simp add: eval_cfa_def split: DwarfLocationEnum.split)
  show ?thesis
    unfolding row_instructions_def Eval_row_def eval_registers_context same by simp
qed

lemma row_instructions_rules:
  "rules l = rules l' \<Longrightarrow> row_instructions t arm regular order cie ctx l = row_instructions t arm regular order cie ctx l'"
  by (simp add: row_instructions_def)

text \<open>The state of the callback between two rows, where no key lies above \<open>bound\<close>.\<close>

definition collected :: "generation_context \<Rightarrow> u64 \<Rightarrow> parse_state \<Rightarrow> bool" where
  "collected ctx bound c \<longleftrightarrow>
     (\<exists>u w. parse_context c = ctx\<lparr>estimate_memory_usage := u, memory_overwhelmed := w\<rparr>)
     \<and> ascending (all_instructions c) \<and> (\<forall>e \<in> set (all_instructions c). fst e \<le> bound)
     \<and> (\<forall>is. prev_instructions c = Some is \<longrightarrow>
          all_instructions c \<noteq> [] \<and> snd (snd (last (all_instructions c))) = is)"

lemma entry_at_above:
  "es \<noteq> [] \<Longrightarrow> \<forall>e \<in> set es. fst e \<le> pc \<Longrightarrow> entry_at pc es = Some (snd (snd (last es)))"
  by (simp add: entry_at_def filter_True)

lemma parse_step_collects:
  assumes "collected ctx bound c" "bound \<le> row_start l" "no_expressions (rules l)"
    and "parse_step t arm regular order cie l c = (go_on, c')"
  shows "collected ctx (row_start l) c'"
    and "entry_at pc (all_instructions c') = (if row_start l \<le> pc then Some (row_instructions t arm regular order cie ctx l)
                                              else entry_at pc (all_instructions c))"
proof -
  let ?is = "row_instructions t arm regular order cie ctx l"
  obtain u w where ctx: "parse_context c = ctx\<lparr>estimate_memory_usage := u, memory_overwhelmed := w\<rparr>"
    using assms(1) by (auto simp: collected_def)
  have asc: "ascending (all_instructions c)" and le: "\<forall>e \<in> set (all_instructions c). fst e \<le> row_start l"
    using assms(1,2) by (auto simp: collected_def intro: order_trans)
  obtain b g where row: "\<And>m e. Eval_row t arm regular (parse_context c) cie (rules l) (order (rules l))
       \<lparr>row_memory = m, row_error = e, temp_instructions = []\<rparr>
     = Inr (b, \<lparr>row_memory = m, row_error = g e, temp_instructions = ?is\<rparr>)"
    using Eval_row_still [OF assms(3), of t arm regular "parse_context c" cie order]
    unfolding ctx row_instructions_context by metis
  note step = assms(4) [unfolded parse_step_def parse_row_def row, simplified]
  have "collected ctx (row_start l) c' \<and> entry_at pc (all_instructions c')
      = (if row_start l \<le> pc then Some ?is else entry_at pc (all_instructions c))"
  proof (cases "prev_instructions c = Some ?is")
    case True
    then have c': "c' = c\<lparr>parse_error := g (parse_error c),
        all_instructions := set_row_end (prev_pc c) (row_end l) (all_instructions c)\<rparr>"
      using step by (auto simp: Let_def)
    have old: "all_instructions c \<noteq> []" "snd (snd (last (all_instructions c))) = ?is"
      using assms(1) True by (auto simp: collected_def)
    have "\<forall>e \<in> set (set_row_end (prev_pc c) (row_end l) (all_instructions c)). fst e \<le> row_start l"
      using le by (auto simp: set_row_end_def)
    then have "collected ctx (row_start l) c'"
      using ctx asc old True by (auto simp: collected_def c')
    moreover have "entry_at pc (all_instructions c) = Some ?is" if "row_start l \<le> pc"
      using old le that by (subst entry_at_above) (auto intro: order_trans)
    ultimately show ?thesis by (simp add: c')
  next
    case False
    then have c': "c' = c\<lparr>parse_error := g (parse_error c), prev_instructions := Some ?is, prev_pc := row_start l,
        parse_context := count_row ?is (parse_context c),
        all_instructions := map_put (row_start l) (row_end l, ?is) (all_instructions c)\<rparr>"
      using step by (auto simp: Let_def store_row_def)
    have "collected ctx (row_start l) c'"
      using map_put_entries [OF asc le] map_put_last [OF asc le] ctx
      by (auto simp: collected_def c' count_row_def Let_def)
    then show ?thesis by (simp add: c' map_put_entries(3) [OF asc le])
  qed
  then show "collected ctx (row_start l) c'"
    and "entry_at pc (all_instructions c') = (if row_start l \<le> pc then Some ?is else entry_at pc (all_instructions c))"
    by auto
qed

lemma fold_parse_steps:
  assumes "fold_rows (parse_step t arm regular order cie) rows c = (True, c')" "collected ctx bound c"
    and "sorted_wrt (\<le>) (bound # map row_start rows)" "\<forall>l \<in> set rows. no_expressions (rules l)"
  shows "ascending (all_instructions c') \<and> entry_at pc (all_instructions c')
     = (let below = filter (\<lambda>l. row_start l \<le> pc) rows
        in if below = [] then entry_at pc (all_instructions c)
           else Some (row_instructions t arm regular order cie ctx (last below)))"
  using assms
proof (induction rows arbitrary: c bound)
  case Nil
  then show ?case by (simp add: collected_def)
next
  case (Cons l rows)
  obtain c1 where c1: "parse_step t arm regular order cie l c = (True, c1)"
    "fold_rows (parse_step t arm regular order cie) rows c1 = (True, c')"
    using Cons.prems(1) by (auto split: prod.splits if_splits)
  have step: "collected ctx (row_start l) c1"
    "entry_at pc (all_instructions c1) = (if row_start l \<le> pc then Some (row_instructions t arm regular order cie ctx l)
                                              else entry_at pc (all_instructions c))"
    using parse_step_collects [OF Cons.prems(2) _ _ c1(1)] Cons.prems(3,4) by auto
  show ?case
    using Cons.IH [OF c1(2) step(1)] Cons.prems(3,4) step(2) by (auto simp: Let_def)
qed

lemma entry_holds_row:
  fixes t :: "'a::len itself"
  assumes "fde_cie fde = Some cie" "run_cie t (pc_start fde) fde cie no_locations s = Some (Inr (Some (dcfa, r), s1))"
    and "IterateLocationInfo (pc_start fde) (pc_end fde) (fde_instructions_offset fde) (fde_instructions_end fde) True
           record_row dcfa [] = Some (Inr (True, dcfa', rows))"
    and "\<forall>l \<in> set rows. no_expressions (rules l)"
    and "forward_from (cfa_start (fde_instructions_offset fde) (pc_start fde) no_locations dcfa)"
    and "ParseSingleFde t arm regular order fde pc0 True s ctx [] = Some (Inr (True, s2, ctx', es))"
    and "ucast (ucast (pc_start fde) :: 'a word) \<le> pc" "pc < pc_end fde"
  shows "ascending es \<and> (\<exists>s''. GetLocationInfo pc (fde_instructions_offset fde) (fde_instructions_end fde) (pc_start fde)
             no_locations dcfa = Some (Inr (True, s''))
     \<and> entry_at pc es = Some (row_instructions t arm regular order cie ctx (loc_regs s'')))"
proof -
  let ?f = "parse_step t arm regular order cie"
  let ?c0 = "\<lparr>parse_context = ctx, all_instructions = [], prev_instructions = None, prev_pc = - 1,
            parse_error = sec_error s1\<rparr>"
  obtain ret c where c: "fold_rows ?f rows ?c0 = (ret, c)" by (cases "fold_rows ?f rows ?c0")
  have "ParseSingleFde t arm regular order fde pc0 True s ctx [] = ParseSingleFde t arm regular order fde pc True s ctx []"
    by (simp add: ParseSingleFde_def)
  with ParseSingleFde_folds_rows [OF assms(1-4) c [symmetric], of pc] assms(6) have "ret" "all_instructions c = es"
    by auto
  have "collected ctx (ucast (ucast (pc_start fde) :: 'a word)) ?c0"
    by (auto simp: collected_def ascending_def
        intro!: exI [of _ "estimate_memory_usage ctx"] exI [of _ "memory_overwhelmed ctx"])
  moreover have "sorted_wrt (\<le>) (ucast (ucast (pc_start fde) :: 'a word) # map row_start rows)"
    using iterate_sorted [of "pc_end fde" "fde_instructions_end fde" "ucast (pc_start fde)" _ "[]" dcfa' rows] assms(3,5)
    by (auto simp: IterateLocationInfo_def cfa_start_def Let_def)
  ultimately have fold: "ascending es" "entry_at pc es = (let below = filter (\<lambda>l. row_start l \<le> pc) rows
        in if below = [] then entry_at pc [] else Some (row_instructions t arm regular order cie ctx (last below)))"
    using fold_parse_steps [OF c [unfolded \<open>ret\<close> [THEN eqTrueI]] _ _ assms(4), of ctx _ pc]
      \<open>all_instructions c = es\<close>
    unfolding parse_state.simps by blast+
  obtain s'' xs row ys where row: "GetLocationInfo pc (fde_instructions_offset fde) (fde_instructions_end fde)
      (pc_start fde) no_locations dcfa = Some (Inr (True, s''))" "rows = xs @ row # ys" "same_row row (loc_regs s'')"
      "row_start row \<le> pc" "\<forall>r \<in> set ys. pc < row_start r"
    using rows_agree [OF assms(3,5,7,8)] by blast
  have "filter (\<lambda>l. row_start l \<le> pc) ys = []" using row(5) by (auto simp: filter_empty_conv)
  then have "entry_at pc es = Some (row_instructions t arm regular order cie ctx row)"
    using row(2,4) fold(2) by simp
  then show ?thesis
    using row(1,3) fold(1) row_instructions_rules [of row "loc_regs s''"] by (auto simp: same_row_def)
qed


text \<open>The sample program of the call frame interpreter, for native code; CFA rules only.\<close>

definition key_order :: "(u32 \<Rightarrow> DwarfLocation option) \<Rightarrow> u32 list" where
  "key_order rs = filter (\<lambda>r. rs r \<noteq> None) (map of_nat [0..<40] @ [CFA_REG])"

definition sample_rows_section :: frame_section where
  "sample_rows_section = (new_section EhFrame (MemoryBuffer_Read sample_raw))\<lparr>sec_cie_loc_regs := [0 \<mapsto> no_locations]\<rparr>"

lemma sample_parse:
  "case ParseSingleFde TYPE(64) False (\<lambda>_ _. []) key_order sample_fde 0 True sample_rows_section native_context [] of
     None \<Rightarrow> False | Some (Inl f) \<Rightarrow> False
   | Some (Inr (ret, r)) \<Rightarrow> ret \<and> snd (snd r) = [(0x1000, 0, [row_word VSP_OFFSET 0]), (0x1004, 0x1010, [row_word VSP_OFFSET 16])]"
  by code_simp

lemma sample_run_cie:
  "run_cie TYPE(64) (pc_start sample_fde) sample_fde sample_cie no_locations sample_rows_section
     = Some (Inr (Some (sample_run, no_locations), sample_rows_section))"
  by (simp add: run_cie_def sample_rows_section_def new_section_def sample_run_def new_cfa_def sample_fde_def)

lemma sample_fde_simps:
  "fde_cie sample_fde = Some sample_cie" "fde_instructions_offset sample_fde = 0"
  "fde_instructions_end sample_fde = 6" "pc_start sample_fde = 0x1000" "pc_end sample_fde = 0x1010"
  by (simp_all add: sample_fde_def)

lemma sample_no_expressions: "no_expressions (sample_rules n)"
  by (simp add: no_expressions_def)


section \<open>An expression disturbs the rows\<close>

text \<open>
  \<open>def_cfa sp, 0; val_expression r0, {const4u 'DEX1'; drop; bregx x20, 0}; advance_loc 4; def_cfa_offset 16;
  advance_loc 4; def_cfa_offset 32\<close>, from 0x1000 to 0x1010.
\<close>

definition dex_raw :: "u8 list" where
  "dex_raw = [0x0c, 31, 0, 0x16, 0, 9, 0x0c, 0x44, 0x45, 0x58, 0x31, 0x13, 0x92, 20, 0,
              0x41, 0x0e, 16, 0x41, 0x0e, 32]"

definition dex_fde :: dwarf_fde where
  "dex_fde = sample_fde\<lparr>fde_instructions_end := 21\<rparr>"

definition dex_section :: frame_section where
  "dex_section = (new_section EhFrame (MemoryBuffer_Read dex_raw))\<lparr>sec_cie_loc_regs := [0 \<mapsto> no_locations]\<rparr>"

definition dex_context :: generation_context where
  "dex_context = native_context\<lparr>gen_native_only := False\<rparr>"

definition dex_cfa :: "u64 cfa" where
  "dex_cfa = new_cfa (sec_memory dex_section) dex_fde sample_cie (Some no_locations)"

text \<open>
  An expression makes the rows after it disappear.  The rules describe three rows, with the frame
  address 0, 16 and 32 bytes above the stack pointer.  \<open>ParseSingleFde\<close> stores one entry for all of them,
  with the instructions of the first: evaluating the expression of a row moves the reader that the call
  frame interpreter shares with it back to the end of the expression, so that the location is advanced
  again and the instructions behind are never reached.
\<close>

theorem expression_hides_later_rows:
  "(case IterateLocationInfo 0x1000 0x1010 0 21 True record_row dex_cfa [] of
      None \<Rightarrow> False | Some (Inl f) \<Rightarrow> False
    | Some (Inr (ret, r)) \<Rightarrow> ret \<and> map (\<lambda>l. (row_start l, map_option value1 (rules l CFA_REG))) (snd r)
        = [(0x1000, Some 0), (0x1004, Some 16), (0x1008, Some 32)])
   \<and> (case ParseSingleFde TYPE(64) False (\<lambda>_ _. []) key_order dex_fde 0 True dex_section dex_context [] of
      None \<Rightarrow> False | Some (Inl f) \<Rightarrow> False
    | Some (Inr (ret, r)) \<Rightarrow> ret \<and> snd (snd r) = [(0x1000, 0x1010, [row_word DEX_PC_SET 0, row_word VSP_OFFSET 0])])"
  by (rule conjI; code_simp)

section \<open>Rows that cannot be expressed\<close>

text \<open>\<open>def_cfa x20, 16\<close>: there is no instruction that takes the frame address from \<open>x20\<close>.\<close>

definition unsupported_raw :: "u8 list" where
  "unsupported_raw = [0x0c, 20, 16]"

definition unsupported_section :: frame_section where
  "unsupported_section = (new_section EhFrame (MemoryBuffer_Read unsupported_raw))\<lparr>sec_cie_loc_regs := [0 \<mapsto> no_locations]\<rparr>"

text \<open>
  A row whose evaluation fails gets an entry all the same, because the callback does not look at what
  \<open>Eval\<close> returns.  Its instructions are those collected before the failure, here none, and performing
  them succeeds and leaves the frame address as it was.
\<close>

theorem failed_row_is_stored:
  "(case ParseSingleFde TYPE(64) False (\<lambda>_ _. []) key_order (sample_fde\<lparr>fde_instructions_end := 3\<rparr>) 0 True
        unsupported_section native_context [] of
      None \<Rightarrow> False | Some (Inl f) \<Rightarrow> False
    | Some (Inr (ret, r)) \<Rightarrow> ret \<and> err_code (sec_error (fst r)) = DWARF_ERROR_NOT_SUPPORT
        \<and> snd (snd r) = [(0x1000, 0x1010, [])])
   \<and> exec_words False env [] q = Go q"
  by (rule conjI, code_simp, simp)

end
