(* ===== verification/Dwarf_Hdr.thy ===== *)
theory Dwarf_Hdr
  imports Dwarf_Section
begin

text \<open>
  \<open>DwarfEhFrameWithHdrDecoder\<close> of \<^verbatim>\<open>DwarfEhFrameWithHdrDecoder.cpp\<close>: an
  \<open>.eh_frame\<close> section whose FDEs are found through the binary search table of \<open>.eh_frame_hdr\<close>.
  The search is shown to return, with the entry that precedes the program counter.
\<close>

section \<open>The state\<close>

text \<open>
  The members of the subclass beside the section it extends.  \<open>fde_info\<close> caches the entries of the
  table that were read; an entry has a start of the width of an address and the offset of its FDE.
\<close>

record 'a hdr_decoder =
  hdr_section :: frame_section
  hdr_version :: u8
  table_encoding :: u8
  table_entry_size :: nat
  hdr_entries_offset :: u64
  hdr_entries_data_offset :: u64
  hdr_section_bias :: u64
  fde_count :: u64
  fde_info :: "u64 \<Rightarrow> ('a \<times> u64) option"

definition new_hdr_decoder :: "memory_read \<Rightarrow> 'a hdr_decoder" where
  "new_hdr_decoder mem =
     \<lparr>hdr_section = new_section EhFrame mem, hdr_version = 0, table_encoding = 0, table_entry_size = 0,
      hdr_entries_offset = 0, hdr_entries_data_offset = 0, hdr_section_bias = 0, fde_count = 0,
      fde_info = (\<lambda>_. None)\<rparr>"

text \<open>Member functions, with the results of \<open>sec_prog\<close>; a function of the base class works on the section.\<close>

type_synonym ('a, 'v) hdr_prog = "'a hdr_decoder \<Rightarrow> (fault + ('v option \<times> 'a hdr_decoder)) option"

definition in_section :: "'v sec_prog \<Rightarrow> ('a, 'v) hdr_prog" where
  "in_section m d =
     (case m (hdr_section d) of
        None \<Rightarrow> None
      | Some (Inl f) \<Rightarrow> Some (Inl f)
      | Some (Inr (r, s)) \<Rightarrow> Some (Inr (r, d\<lparr>hdr_section := s\<rparr>)))"

definition hseq :: "('a, 'v) hdr_prog \<Rightarrow> ('v \<Rightarrow> ('a, 'w) hdr_prog) \<Rightarrow> ('a, 'w) hdr_prog" where
  "hseq m k d =
     (case m d of
        None \<Rightarrow> None
      | Some (Inl f) \<Rightarrow> Some (Inl f)
      | Some (Inr (None, d')) \<Rightarrow> Some (Inr (None, d'))
      | Some (Inr (Some v, d')) \<Rightarrow> k v d')"

definition hreturn :: "'v \<Rightarrow> ('a, 'v) hdr_prog" where
  "hreturn v d = Some (Inr (Some v, d))"

definition IsEncodingRelative :: "u8 \<Rightarrow> bool" where
  "IsEncodingRelative encoding = (let e = drop_bit 4 encoding in e > 0 \<and> e \<le> DW_EH_PE_funcrel)"

definition EhFrameInit :: "u64 \<Rightarrow> u64 \<Rightarrow> u64 \<Rightarrow> 'a hdr_decoder \<Rightarrow> 'a hdr_decoder" where
  "EhFrameInit offset len bias d = d\<lparr>hdr_section := Init offset len bias (hdr_section d)\<rparr>"

text \<open>
  \<open>Init\<close>.  A count that cannot be read is not stored here; the callers drop a decoder whose \<open>Init\<close> fails.
\<close>

definition hdr_Init :: "u64 \<Rightarrow> u64 \<Rightarrow> ('a::len word, unit) hdr_prog" where
  "hdr_Init offset bias d0 =
     (let t = TYPE('a);
          here_pc = (\<lambda>m s. m (set_pc_base (sec_offset s) s))
      in hseq (in_section (modify (on_memory (\<lambda>m. m\<lparr>func_offset := - 1, text_offset := - 1,
                   data_offset := offset, cur_offset := offset\<rparr>))))
           (\<lambda>_. hseq (\<lambda>d. in_section (reading (\<lambda>m. Inr (ReadBytes 4 m))) (d\<lparr>hdr_section_bias := bias\<rparr>))
           (\<lambda>data d. let d = d\<lparr>hdr_version := data ! 0\<rparr> in
              if data ! 0 \<noteq> 1 then in_section (give_up_with DWARF_ERROR_UNSUPPORTED_VERSION) d
              else (let d = d\<lparr>table_encoding := data ! 3,
                              table_entry_size := GetEncodedSize (LENGTH('a) div 8) (data ! 3)\<rparr> in
                if table_entry_size d = 0 then in_section (give_up_with DWARF_ERROR_ILLEGAL_VALUE) d
                else hseq (in_section (here_pc (read_encoded t (data ! 1))))
                  (\<lambda>ptr_offset. hseq (in_section (here_pc (read_encoded t (data ! 2))))
                  (\<lambda>count d. let d = d\<lparr>fde_count := count\<rparr> in
                     if count = 0 then in_section (give_up_with DWARF_ERROR_NO_FDES) d
                     else hreturn () (d\<lparr>hdr_entries_offset := sec_offset (hdr_section d),
                                       hdr_entries_data_offset := offset\<rparr>))) d))) d0)"

section \<open>Entries of the table\<close>

text \<open>
  \<open>size_t\<close> has the width of an address in the builds of this program, so indices are words of that width.
\<close>

definition entry_base :: "'a::len word \<Rightarrow> 'a word hdr_decoder \<Rightarrow> dwarf_memory \<Rightarrow> dwarf_memory" where
  "entry_base index d m =
     m\<lparr>data_offset := hdr_entries_data_offset d,
       cur_offset := hdr_entries_offset d + ucast (2 * index * of_nat (table_entry_size d)),
       pc_offset := 0\<rparr>"

definition read_pair :: "'a::len itself \<Rightarrow> u8 \<Rightarrow> dwarf_memory \<Rightarrow> fault + ((u64 \<times> u64) option \<times> dwarf_memory)" where
  "read_pair t enc m =
     (case ReadEncodedValue t enc m of
        Inl f \<Rightarrow> Inl f
      | Inr (None, m) \<Rightarrow> Inr (None, m)
      | Inr (Some v, m) \<Rightarrow>
          (case ReadEncodedValue t enc m of
             Inl f \<Rightarrow> Inl f
           | Inr (None, m) \<Rightarrow> Inr (None, m)
           | Inr (Some offset, m) \<Rightarrow> Inr (Some (v, offset), m)))"

text \<open>Relative starts get the bias of the section; then the start is cut to an address.\<close>

definition entry_of :: "'a::len word hdr_decoder \<Rightarrow> u64 \<times> u64 \<Rightarrow> 'a word \<times> u64" where
  "entry_of d p =
     (ucast (if IsEncodingRelative (table_encoding d) then fst p + hdr_section_bias d else fst p), snd p)"

definition GetFdeInfoFromIndex :: "'a::len word \<Rightarrow> ('a word, 'a word \<times> u64) hdr_prog" where
  "GetFdeInfoFromIndex index d =
     (case fde_info d (ucast index) of
        Some info \<Rightarrow> hreturn info d
      | None \<Rightarrow>
          hseq (in_section (\<lambda>s. reading (read_pair TYPE('a) (table_encoding d)) (on_memory (entry_base index d) s)))
            (\<lambda>p d. let info = entry_of d p
                   in hreturn info (d\<lparr>fde_info := (fde_info d)(ucast index \<mapsto> info)\<rparr>)) d)"

section \<open>The search\<close>

partial_function (option) hdr_search ::
  "u64 \<Rightarrow> 'a::len word \<Rightarrow> 'a word \<Rightarrow> 'a word hdr_decoder \<Rightarrow> (fault + (u64 option \<times> 'a word hdr_decoder)) option" where
  "hdr_search pc first last' d =
     (if first < last'
      then (let current = (first + last') div 2
            in case GetFdeInfoFromIndex current d of
                 None \<Rightarrow> None
               | Some (Inl f) \<Rightarrow> Some (Inl f)
               | Some (Inr (None, d)) \<Rightarrow> Some (Inr (None, d))
               | Some (Inr (Some (info_pc, offset), d)) \<Rightarrow>
                   if pc = ucast info_pc then Some (Inr (Some offset, d))
                   else if pc < ucast info_pc then hdr_search pc first current d
                   else hdr_search pc (current + 1) last' d)
      else if last' \<noteq> 0 then hseq (GetFdeInfoFromIndex (last' - 1)) (\<lambda>info. hreturn (snd info)) d
      else Some (Inr (None, d)))"

declare hdr_search.simps [code]

definition GetFdeOffsetFromPc :: "u64 \<Rightarrow> ('a::len word, u64) hdr_prog" where
  "GetFdeOffsetFromPc pc d =
     (if fde_count d = 0 then Some (Inr (None, d)) else hdr_search pc 0 (ucast (fde_count d)) d)"

text \<open>
  \<open>GetFdeFromPc\<close>.  An empty FDE is looked for again among all entries of the section.
\<close>

definition hdr_GetFdeFromPc :: "u64 \<Rightarrow> ('a::len word, dwarf_fde) hdr_prog" where
  "hdr_GetFdeFromPc pc =
     hseq (GetFdeOffsetFromPc pc) (\<lambda>fde_offset.
     hseq (in_section (GetFdeFromOffset TYPE('a) fde_offset)) (\<lambda>fde.
     hseq (if pc_start fde = pc_end fde then in_section (GetFdeFromPc TYPE('a) pc) else hreturn fde) (\<lambda>fde.
       if pc < pc_end fde then hreturn fde
       else in_section (give_up_with DWARF_ERROR_ILLEGAL_STATE))))"

section \<open>What the search finds\<close>

text \<open>Reading moves the cursor of the reader and nothing else.\<close>

definition moved :: "dwarf_memory \<Rightarrow> dwarf_memory \<Rightarrow> bool" where
  "moved m m' \<longleftrightarrow> m'\<lparr>cur_offset := 0\<rparr> = m\<lparr>cur_offset := 0\<rparr>"

lemma moved_refl [simp]: "moved m m" "moved m (m\<lparr>cur_offset := k\<rparr>)" "moved (m\<lparr>cur_offset := k\<rparr>) m' = moved m m'"
  by (simp_all add: moved_def)

lemma moved_trans: "moved m m' \<Longrightarrow> moved m' m'' \<Longrightarrow> moved m m''"
  by (simp add: moved_def)

lemma ReadBytes_moves: "ReadBytes n m = (r, m') \<Longrightarrow> moved m m'"
  by (auto simp: ReadBytes_def split: option.splits)

lemma ReadLEB128_loop_moves: "ReadLEB128_loop v sh m = Inr (r, m') \<Longrightarrow> moved m m'"
proof (induction v sh m rule: ReadLEB128_loop.induct)
  case (1 v sh m)
  show ?case
    using "1.prems" ReadBytes_moves [of 1 m] 
    by (subst (asm) ReadLEB128_loop.simps)
      (auto simp: Let_def split: prod.splits option.splits if_splits dest!: "1.IH" [rotated -1] intro: moved_trans)
qed

lemma ReadNumbers_move:
  "ReadUnsigned n m = (r, m') \<Longrightarrow> moved m m'" "ReadSigned t m = (r, m') \<Longrightarrow> moved m m'"
  "ReadULEB128 m = Inr (r, m') \<Longrightarrow> moved m m'" "ReadSLEB128 m = Inr (r, m') \<Longrightarrow> moved m m'"
  by (auto simp: ReadUnsigned_def ReadSigned_def ReadULEB128_def ReadSLEB128_def
      split: prod.splits sum.splits option.splits if_splits dest: ReadBytes_moves ReadLEB128_loop_moves)

lemma ReadEncodedValue_moves: "ReadEncodedValue t enc m = Inr (r, m') \<Longrightarrow> moved m m'"
  using ReadNumbers_move(1) [of _ "m\<lparr>cur_offset := k\<rparr>" r m' for k]
  by (auto simp: ReadEncodedValue_def Let_def split: if_splits sum.splits prod.splits option.splits
      dest: ReadNumbers_move)

lemma read_pair_moves: "read_pair t enc m = Inr (r, m') \<Longrightarrow> moved m m'"
  by (auto simp: read_pair_def split: sum.splits prod.splits option.splits
      dest: ReadEncodedValue_moves intro: moved_trans)

text \<open>
  The entry that the table in memory holds; the cache agrees with the table.
\<close>

definition stored_entry :: "'a::len word hdr_decoder \<Rightarrow> 'a word \<Rightarrow> ('a word \<times> u64) option" where
  "stored_entry d index =
     (case read_pair TYPE('a) (table_encoding d) (entry_base index d (sec_memory (hdr_section d))) of
        Inr (Some p, _) \<Rightarrow> Some (entry_of d p)
      | _ \<Rightarrow> None)"

definition cache_agrees :: "'a::len word hdr_decoder \<Rightarrow> bool" where
  "cache_agrees d \<longleftrightarrow> (\<forall>i info. fde_info d (ucast i) = Some info \<longrightarrow> stored_entry d i = Some info)"

lemma stored_entry_cong:
  assumes "moved (entry_base j d (sec_memory (hdr_section d))) m"
  shows "stored_entry (d\<lparr>hdr_section := (hdr_section d)\<lparr>sec_memory := m\<rparr>, fde_info := c\<rparr>) i = stored_entry d i"
proof -
  have "entry_base i (d\<lparr>hdr_section := (hdr_section d)\<lparr>sec_memory := m\<rparr>, fde_info := c\<rparr>) m
      = entry_base i d (sec_memory (hdr_section d))"
    using assms by (cases m; cases "sec_memory (hdr_section d)") (simp add: moved_def entry_base_def)
  moreover have "entry_of (d\<lparr>hdr_section := (hdr_section d)\<lparr>sec_memory := m\<rparr>, fde_info := c\<rparr>) = entry_of d"
    by (simp add: entry_of_def fun_eq_iff)
  ultimately show ?thesis by (simp add: stored_entry_def split: sum.split option.split prod.split)
qed

lemma GetFdeInfoFromIndex_reads:
  fixes d :: "'a::len word hdr_decoder"
  assumes "stored_entry d i = Some info" "cache_agrees d" "LENGTH('a) \<le> 64"
  obtains d' where "GetFdeInfoFromIndex i d = Some (Inr (Some info, d'))" "stored_entry d' = stored_entry d"
    "cache_agrees d'" "fde_count d' = fde_count d"
proof (cases "fde_info d (ucast i)")
  case (Some info')
  with assms(1,2) have "info' = info" by (simp add: cache_agrees_def) (metis option.inject prod.collapse)
  then show ?thesis
    using that [of d] assms(2) Some by (simp add: GetFdeInfoFromIndex_def hreturn_def)
next
  case None
  from assms(1) obtain p m where
    m: "read_pair TYPE('a) (table_encoding d) (entry_base i d (sec_memory (hdr_section d))) = Inr (Some p, m)"
      "info = entry_of d p"
    by (auto simp: stored_entry_def split: sum.splits prod.splits option.splits)
  let ?d = "d\<lparr>hdr_section := (hdr_section d)\<lparr>sec_memory := m\<rparr>, fde_info := (fde_info d)(ucast i \<mapsto> info)\<rparr>"
  have stored: "stored_entry ?d j = stored_entry d j" for j
    using read_pair_moves [OF m(1)] by (rule stored_entry_cong)
  have inj: "(ucast j :: u64) = ucast i \<longleftrightarrow> j = i" for j :: "'a word"
  proof
    assume eq: "(ucast j :: u64) = ucast i"
    show "j = i"
    proof (rule bit_word_eqI)
      fix n assume "n < LENGTH('a)"
      then show "bit j n = bit i n"
        using arg_cong [OF eq, of "\<lambda>w. bit w n"] assms(3) by (simp add: bit_ucast_iff)
    qed
  qed simp
  show ?thesis
  proof (rule that)
    show "GetFdeInfoFromIndex i d = Some (Inr (Some info, ?d))"
      using None m by (simp add: GetFdeInfoFromIndex_def hseq_def in_section_def reading_def on_memory_def hreturn_def entry_of_def Let_def)
    show "stored_entry ?d = stored_entry d" using stored by blast
    show "cache_agrees ?d"
      using assms(1,2) stored by (auto simp: cache_agrees_def inj)
  qed simp
qed

text \<open>The key of an entry as the search compares it.\<close>

abbreviation entry_key :: "'a::len word hdr_decoder \<Rightarrow> nat \<Rightarrow> u64" where
  "entry_key d i \<equiv> ucast (fst (the (stored_entry d (of_nat i))))"

abbreviation entry_fde :: "'a::len word hdr_decoder \<Rightarrow> nat \<Rightarrow> u64" where
  "entry_fde d i \<equiv> snd (the (stored_entry d (of_nat i)))"

text \<open>A table that can be searched: readable, in the order of its keys, and small enough for an index.\<close>

definition searchable :: "'a::len word hdr_decoder \<Rightarrow> bool" where
  "searchable d \<longleftrightarrow>
     LENGTH('a) \<le> 64 \<and> unat (fde_count d) < 2 ^ (LENGTH('a) - 1)
     \<and> (\<forall>i < unat (fde_count d). stored_entry d (of_nat i) \<noteq> None)
     \<and> sorted (map (entry_key d) [0..<unat (fde_count d)])"

text \<open>The entry that precedes a program counter: the FDE of the greatest key not above it.\<close>

definition precedes :: "'a::len word hdr_decoder \<Rightarrow> u64 \<Rightarrow> u64 option \<Rightarrow> bool" where
  "precedes d pc r \<longleftrightarrow>
     (case r of
        None \<Rightarrow> \<forall>i < unat (fde_count d). pc < entry_key d i
      | Some offset \<Rightarrow> \<exists>i < unat (fde_count d). offset = entry_fde d i \<and> entry_key d i \<le> pc
          \<and> (\<forall>j < unat (fde_count d). entry_key d j \<le> pc \<longrightarrow> entry_key d j \<le> entry_key d i))"

lemma middle_index:
  assumes "a \<le> b" "b \<le> n" "n < 2 ^ (LENGTH('a::len) - 1)"
  shows "((of_nat a :: 'a word) + of_nat b) div 2 = of_nat ((a + b) div 2)"
    and "unat (of_nat a :: 'a word) = a" "unat (of_nat b :: 'a word) = b"
proof -
  have two: "2 * 2 ^ (LENGTH('a) - 1) = (2 ^ LENGTH('a) :: nat)"
    using len_gt_0 [where 'a = 'a] by (cases "LENGTH('a)") simp_all
  then have bounds: "a + b < 2 ^ LENGTH('a)" "a < 2 ^ LENGTH('a)" "b < 2 ^ LENGTH('a)"
    using assms by linarith+
  show "unat (of_nat a :: 'a word) = a" "unat (of_nat b :: 'a word) = b"
    using bounds by (simp_all add: unsigned_of_nat take_bit_nat_eq_self)
  have "unat ((of_nat (a + b) :: 'a word) div 2) = (a + b) div 2"
  proof (cases "LENGTH('a) = 1")
    case True
    then have "a = 0" "b = 0" using assms by simp_all
    then show ?thesis by simp
  next
    case False
    then have "1 < LENGTH('a)" using len_gt_0 [where 'a = 'a] by linarith
    then have "(2::nat) < 2 ^ LENGTH('a)" using power_strict_increasing [of 1 "LENGTH('a)" "2::nat"] by simp
    then have "unat (2 :: 'a word) = 2"
      by (metis unsigned_of_nat take_bit_nat_eq_self of_nat_numeral)
    then show ?thesis
      using bounds(1) by (simp add: unat_div unsigned_of_nat take_bit_nat_eq_self del: of_nat_add)
  qed
  moreover have "unat (of_nat ((a + b) div 2) :: 'a word) = (a + b) div 2"
    using bounds(1) by (simp add: unsigned_of_nat take_bit_nat_eq_self)
  ultimately show "((of_nat a :: 'a word) + of_nat b) div 2 = of_nat ((a + b) div 2)"
    by (metis of_nat_add unsigned_word_eqI)
qed

lemma precedes_cong: "stored_entry d' = stored_entry d \<Longrightarrow> fde_count d' = fde_count d \<Longrightarrow> precedes d' = precedes d"
  by (intro ext) (simp add: precedes_def split: option.split)

lemma hdr_search_precedes:
  fixes d :: "'a::len word hdr_decoder"
  assumes "searchable d" "cache_agrees d" "a \<le> b" "b \<le> unat (fde_count d)"
    and "\<And>i. i < a \<Longrightarrow> entry_key d i \<le> pc" "\<And>i. b \<le> i \<Longrightarrow> i < unat (fde_count d) \<Longrightarrow> pc < entry_key d i"
  shows "\<exists>r d'. hdr_search pc (of_nat a) (of_nat b) d = Some (Inr (r, d')) \<and> precedes d pc r \<and> cache_agrees d'"
  using assms
proof (induction "b - a" arbitrary: a b d rule: less_induct)
  case less
  let ?n = "unat (fde_count d)"
  note prems = less.prems
  have width: "LENGTH('a) \<le> 64" and count: "?n < 2 ^ (LENGTH('a) - 1)"
    and readable: "\<And>i. i < ?n \<Longrightarrow> stored_entry d (of_nat i) \<noteq> None"
    and ordered: "sorted (map (entry_key d) [0..<?n])"
    using prems(1) by (auto simp: searchable_def)
  have mono: "entry_key d i \<le> entry_key d j" if "i \<le> j" "j < ?n" for i j
    using sorted_nth_mono [OF ordered that(1)] that by simp
  note index = middle_index [OF prems(3,4) count]
  have lt: "(of_nat a :: 'a word) < of_nat b \<longleftrightarrow> a < b"
    by (simp add: word_less_nat_alt index)
  note unf = hdr_search.simps [of pc "of_nat a :: 'a word" "of_nat b" d, unfolded lt Let_def]
  have read: "\<exists>d'. GetFdeInfoFromIndex (of_nat i) d = Some (Inr (Some (the (stored_entry d (of_nat i))), d'))
      \<and> stored_entry d' = stored_entry d \<and> cache_agrees d' \<and> fde_count d' = fde_count d" if bound: "i < ?n" for i
  proof -
    obtain info where "stored_entry d (of_nat i) = Some info" using readable [OF bound] by blast
    then show ?thesis
      using GetFdeInfoFromIndex_reads [OF _ prems(2) width] by (metis option.sel)
  qed
  show ?case
  proof (cases "a < b")
    case True
    define m where "m = (a + b) div 2"
    have m: "a \<le> m" "m < b" "m < ?n" using True prems(4) by (auto simp: m_def)
    obtain info_pc offset where e: "the (stored_entry d (of_nat m)) = (info_pc, offset)" by fastforce
    then have key: "entry_key d m = ucast info_pc" "entry_fde d m = offset" by simp_all
    obtain d' where d': "GetFdeInfoFromIndex (of_nat m) d = Some (Inr (Some (info_pc, offset), d'))"
      "stored_entry d' = stored_entry d" "cache_agrees d'" "fde_count d' = fde_count d"
      using read [OF m(3)] e by auto
    have "searchable d'" using prems(1) d'(2,4) by (simp add: searchable_def)
    note ih = less.hyps [OF _ this d'(3), unfolded d'(2,4) precedes_cong [OF d'(2,4)]]
    consider (hit) "pc = ucast info_pc" | (left) "pc < ucast info_pc" | (right) "ucast info_pc < pc"
      by (meson linorder_less_linear)
    then show ?thesis
    proof cases
      case hit
      have "precedes d pc (Some offset)"
        using m(3) key hit by (auto simp: precedes_def intro!: exI [of _ m])
      moreover have "hdr_search pc (of_nat a) (of_nat b) d = Some (Inr (Some offset, d'))"
        using True hit d'(1) by (subst unf) (simp add: index(1) flip: m_def)
      ultimately show ?thesis using d'(3) by blast
    next
      case left
      then have above: "pc < entry_key d m" unfolding key(1) .
      have "\<exists>r d''. hdr_search pc (of_nat a) (of_nat m) d' = Some (Inr (r, d'')) \<and> precedes d pc r \<and> cache_agrees d''"
      proof (rule ih)
        show "pc < entry_key d i" if "m \<le> i" "i < ?n" for i
          using above mono [OF that] by (rule less_le_trans)
      qed (use m prems in auto)
      moreover have "hdr_search pc (of_nat a) (of_nat b) d = hdr_search pc (of_nat a) (of_nat m) d'"
        using True left d'(1) by (auto simp: unf index(1) simp flip: m_def)
      ultimately show ?thesis by simp
    next
      case right
      then have below: "entry_key d m \<le> pc" unfolding key(1) by (rule less_imp_le)
      have "\<exists>r d''. hdr_search pc (of_nat (Suc m)) (of_nat b) d' = Some (Inr (r, d'')) \<and> precedes d pc r \<and> cache_agrees d''"
      proof (rule ih)
        show "entry_key d i \<le> pc" if "i < Suc m" for i
          by (rule order_trans [OF mono below]) (use that m(3) in simp_all)
      qed (use m prems in auto)
      moreover have "hdr_search pc (of_nat a) (of_nat b) d = hdr_search pc (of_nat (Suc m)) (of_nat b) d'"
        using True right d'(1) by (auto simp: unf index(1) add.commute simp flip: m_def)
      ultimately show ?thesis by simp
    qed
  next
    case False
    then have "a = b" using prems(3) by simp
    show ?thesis
    proof (cases b)
      case 0
      then have "precedes d pc None" using prems(6) by (simp add: precedes_def)
      moreover have "hdr_search pc (of_nat a) (of_nat b) d = Some (Inr (None, d))"
        using False by (subst unf) (simp add: 0)
      ultimately show ?thesis using prems(2) by blast
    next
      case (Suc k)
      then have k: "k < ?n" "k < a" using prems(4) \<open>a = b\<close> by simp_all
      obtain d' where d': "GetFdeInfoFromIndex (of_nat k) d = Some (Inr (Some (the (stored_entry d (of_nat k))), d'))"
        "cache_agrees d'"
        using read [OF k(1)] by blast
      have "(of_nat b :: 'a word) \<noteq> 0" using index(3) Suc by (metis nat.distinct(1) unsigned_0)
      with d'(1) have "hdr_search pc (of_nat a) (of_nat b) d = Some (Inr (Some (entry_fde d k), d'))"
        using False by (subst unf) (simp add: Suc hseq_def hreturn_def)
      moreover have "precedes d pc (Some (entry_fde d k))"
      proof -
        have "entry_key d j \<le> entry_key d k" if "j < ?n" "entry_key d j \<le> pc" for j
          using that prems(6) [of j] mono [of j k] k Suc by (cases "j \<le> k") auto
        then show ?thesis using k prems(5) by (auto simp: precedes_def)
      qed
      ultimately show ?thesis using d'(2) by blast
    qed
  qed
qed

lemma search_from_start:
  fixes d :: "'a::len word hdr_decoder"
  assumes "searchable d" "cache_agrees d"
  shows "\<exists>r d'. GetFdeOffsetFromPc pc d = Some (Inr (r, d')) \<and> precedes d pc r \<and> cache_agrees d'"
proof (cases "fde_count d = 0")
  case True
  then show ?thesis using assms(2) by (simp add: GetFdeOffsetFromPc_def precedes_def)
next
  case False
  have "(ucast (fde_count d) :: 'a word) = of_nat (unat (fde_count d))" by simp
  then show ?thesis
    using hdr_search_precedes [OF assms, of 0 "unat (fde_count d)" pc] False
    by (simp add: GetFdeOffsetFromPc_def)
qed

text \<open>
  C21. Finding the FDE of a program counter in \<open>.eh_frame_hdr\<close>.  On a table that can be read, is in the
  order of its starts and has fewer entries than half the range of an index, the binary search returns,
  with the FDE of the greatest start that is not above the program counter, or with nothing when every
  start is above it.  It leaves a cache behind that still agrees with the table, so that later searches
  are right as well.
\<close>

theorem GetFdeOffsetFromPc_finds_predecessor:
  fixes d :: "'a::len word hdr_decoder"
  assumes "searchable d" "cache_agrees d"
  shows "\<exists>r d'. GetFdeOffsetFromPc pc d = Some (Inr (r, d')) \<and> precedes d pc r \<and> cache_agrees d'"
  using assms by (rule search_from_start)

text \<open>A table of three entries, relative to its section, in the most common encoding.\<close>

definition sample_hdr_bytes :: "u8 list" where
  "sample_hdr_bytes =
     [1, 0x03, 0x03, 0x3b, 0x40, 0, 0, 0, 3, 0, 0, 0,
      0x00, 0x10, 0, 0, 0x50, 0, 0, 0,  0x80, 0x10, 0, 0, 0x70, 0, 0, 0,  0x00, 0x12, 0, 0, 0x90, 0, 0, 0]"

definition sample_hdr :: "64 word hdr_decoder" where
  "sample_hdr =
     (case hdr_Init 0 0 (new_hdr_decoder (MemoryBuffer_Read sample_hdr_bytes)) of
        Some (Inr (Some (), d)) \<Rightarrow> d
      | _ \<Rightarrow> new_hdr_decoder (MemoryBuffer_Read []))"

text \<open>\<open>Init\<close> does not touch the cache, which is empty then.\<close>

lemma in_section_cache: "in_section m d = Some (Inr (r, d')) \<Longrightarrow> fde_info d' = fde_info d"
  by (auto simp: in_section_def split: option.splits sum.splits)

lemma hseq_cache:
  assumes "hseq m k d = Some (Inr (r, d'))" "\<And>r d'. m d = Some (Inr (r, d')) \<Longrightarrow> fde_info d' = c"
    and "\<And>v d1 r d'. fde_info d1 = c \<Longrightarrow> k v d1 = Some (Inr (r, d')) \<Longrightarrow> fde_info d' = c"
  shows "fde_info d' = c"
  using assms by (auto simp: hseq_def split: option.splits sum.splits)

lemma hdr_Init_cache:
  assumes "hdr_Init offset bias d = Some (Inr (r, d'))"
  shows "fde_info d' = fde_info d"
  using assms unfolding hdr_Init_def Let_def
  by (elim hseq_cache) (auto split: if_splits simp: hreturn_def dest!: in_section_cache elim!: hseq_cache)

lemma sample_hdr_entries:
  "fde_count sample_hdr = 3 \<and> map (stored_entry sample_hdr) [0, 1, 2] = [Some (0x1000, 0x50), Some (0x1080, 0x70), Some (0x1200, 0x90)]"
  by code_simp

lemma sample_hdr_starts: "hdr_Init 0 0 (new_hdr_decoder (MemoryBuffer_Read sample_hdr_bytes)) = Some (Inr (Some (), sample_hdr))"
proof -
  have "case hdr_Init 0 0 (new_hdr_decoder (MemoryBuffer_Read sample_hdr_bytes) :: 64 word hdr_decoder) of
      Some (Inr (Some (), d)) \<Rightarrow> True | _ \<Rightarrow> False"
    by code_simp
  then show ?thesis
    by (auto simp: sample_hdr_def split: option.splits sum.splits unit.splits)
qed

lemma sample_hdr_good: "searchable sample_hdr" "cache_agrees sample_hdr"
proof -
  have "[0..<unat (fde_count sample_hdr)] = [0, 1, 2]"
    using sample_hdr_entries by (simp add: upt_rec)
  moreover have "i < 3 \<longleftrightarrow> i \<in> {0, 1, 2}" for i :: nat by auto
  ultimately show "searchable sample_hdr"
    using sample_hdr_entries by (simp add: searchable_def)
  show "cache_agrees sample_hdr"
    using hdr_Init_cache [OF sample_hdr_starts] by (simp add: cache_agrees_def new_hdr_decoder_def)
qed

theorem GetFdeOffsetFromPc_finds_predecessor_witness:
  "\<exists>d'. GetFdeOffsetFromPc 0x1100 sample_hdr = Some (Inr (Some 0x70, d'))"
proof -
  obtain r d' where s: "GetFdeOffsetFromPc 0x1100 sample_hdr = Some (Inr (r, d'))" "precedes sample_hdr 0x1100 r"
    using GetFdeOffsetFromPc_finds_predecessor [OF sample_hdr_good] by blast
  have keys: "i < 3 \<longleftrightarrow> i \<in> {0, 1, 2}" for i :: nat by auto
  have "r = Some 0x70"
    using s(2) sample_hdr_entries by (auto simp: precedes_def keys split: option.splits)
  with s(1) show ?thesis by blast
qed

end
