(* ===== verification/Table_Generator.thy ===== *)
theory Table_Generator
  imports Dwarf_Hdr Dwarf_Rows Exidx_Decoder
begin

text \<open>
  \<open>QuickenTableGenerator\<close> of \<^verbatim>\<open>QuickenTableGenerator.cpp\<close>: the entries of all sources
  of unwind information of a library are decoded, merged by address and packed.  Packing itself is in
  \<open>Table_Packing\<close>.
\<close>

section \<open>The entries of a frame section\<close>

record frame_info =
  fi_offset :: u64
  fi_section_bias :: u64
  fi_size :: u64

text \<open>
  What a generator is given: the platform, the memory of the library and of its compressed debug data (a
  null pointer when there is none), the memory of the process, and the order in which the iterator of an
  unordered map visits its keys.
\<close>

record generator =
  gen_arm :: bool
  gen_memory :: "memory_read option"
  gen_gnu_memory :: "memory_read option"
  gen_process_memory :: memory_read
  gen_order :: "(u32 \<Rightarrow> DwarfLocation option) \<Rightarrow> u32 list"

definition chosen_memory :: "bool \<Rightarrow> generator \<Rightarrow> memory_read option" where
  "chosen_memory gnu_debug_data g = (if gnu_debug_data then gen_gnu_memory g else gen_memory g)"

text \<open>\<open>REGS_TOTAL\<close>: \<open>ARM_REG_LAST\<close> or \<open>ARM64_REG_EXT_LAST\<close>.\<close>

definition new_context :: "bool \<Rightarrow> bool \<Rightarrow> generation_context" where
  "new_context arm native_only =
     \<lparr>gen_regs_total = (if arm then 16 else 37), gen_native_only = native_only, estimate_memory_usage = 0,
      memory_overwhelmed = False\<rparr>"

type_synonym entries_result = "(fault + (generation_context \<times> qut_entries)) option"

definition iterate_section ::
  "'a::len itself \<Rightarrow> generator \<Rightarrow> frame_section \<Rightarrow> generation_context \<Rightarrow> qut_entries \<Rightarrow> entries_result" where
  "iterate_section t g s ctx entries =
     (case IterateAllEntries t (gen_arm g) (gen_process_memory g) (gen_order g) s ctx entries of
        None \<Rightarrow> None
      | Some (Inl f) \<Rightarrow> Some (Inl f)
      | Some (Inr (_, _, ctx, entries)) \<Rightarrow> Some (Inr (ctx, entries)))"

definition DecodeDebugFrameEntriesInstr ::
  "'a::len itself \<Rightarrow> generator \<Rightarrow> frame_info \<Rightarrow> bool \<Rightarrow> generation_context \<Rightarrow> qut_entries \<Rightarrow> entries_result" where
  "DecodeDebugFrameEntriesInstr t g info gnu_debug_data ctx entries =
     (case chosen_memory gnu_debug_data g of
        Some mem \<Rightarrow>
          if fi_offset info \<noteq> 0
          then iterate_section t g
                 (Init (fi_offset info) (fi_size info) (fi_section_bias info) (new_section DebugFrame mem)) ctx entries
          else Some (Inr (ctx, entries))
      | None \<Rightarrow> Some (Inr (ctx, entries)))"

text \<open>
  The section with the search table, if it can be used; \<open>Init\<close> of a section always succeeds.  Iterating uses
  the functions of the base class only.
\<close>

definition open_eh_frame ::
  "'a::len itself \<Rightarrow> memory_read \<Rightarrow> frame_info \<Rightarrow> frame_info \<Rightarrow> (fault + frame_section option) option" where
  "open_eh_frame t mem hdr_info info =
     (let plain = (if fi_offset info \<noteq> 0
                   then Some (Init (fi_offset info) (fi_size info) (fi_section_bias info) (new_section EhFrame mem))
                   else None)
      in if fi_offset hdr_info \<noteq> 0
         then (case hdr_Init (fi_offset hdr_info) (fi_section_bias hdr_info)
                      (EhFrameInit (fi_offset info) (fi_size info) (fi_section_bias info)
                        (new_hdr_decoder mem :: 'a word hdr_decoder)) of
                 None \<Rightarrow> None
               | Some (Inl f) \<Rightarrow> Some (Inl f)
               | Some (Inr (None, _)) \<Rightarrow> Some (Inr plain)
               | Some (Inr (Some _, d)) \<Rightarrow> Some (Inr (Some (hdr_section d))))
         else Some (Inr plain))"

definition DecodeEhFrameEntriesInstr ::
  "'a::len itself \<Rightarrow> generator \<Rightarrow> frame_info \<Rightarrow> frame_info \<Rightarrow> bool \<Rightarrow> generation_context \<Rightarrow> qut_entries
     \<Rightarrow> entries_result" where
  "DecodeEhFrameEntriesInstr t g hdr_info info gnu_debug_data ctx entries =
     (case chosen_memory gnu_debug_data g of
        None \<Rightarrow> Some (Inr (ctx, entries))
      | Some mem \<Rightarrow>
          (case open_eh_frame t mem hdr_info info of
             None \<Rightarrow> None
           | Some (Inl f) \<Rightarrow> Some (Inl f)
           | Some (Inr None) \<Rightarrow> Some (Inr (ctx, entries))
           | Some (Inr (Some s)) \<Rightarrow> iterate_section t g s ctx entries))"

section \<open>The entries of the ARM exception index\<close>

definition Read32 :: "memory_read \<Rightarrow> u32 \<Rightarrow> u32 option" where
  "Read32 mem addr = map_option le_word (ReadFully mem (ucast addr) 4)"

definition GetPrel31Addr :: "(u32 \<Rightarrow> u32 option) \<Rightarrow> u32 \<Rightarrow> u32 option" where
  "GetPrel31Addr read32 offset = map_option (\<lambda>data. offset + signed_drop_bit 1 (push_bit 1 data)) (read32 offset)"

definition AccumulateMemoryUsage :: "u64 \<Rightarrow> generation_context \<Rightarrow> bool \<times> generation_context" where
  "AccumulateMemoryUsage increments ctx =
     (let usage = estimate_memory_usage ctx + increments; over = CHECK_MEMORY_OVERWHELMED usage
      in (\<not> over, ctx\<lparr>estimate_memory_usage := usage, memory_overwhelmed := over\<rparr>))"

definition new_exidx :: "bool \<Rightarrow> exidx" where
  "new_exidx native_only =
     \<lparr>ex_data = [], ex_context = ctx_reset, ex_instructions = [], ex_status = ARM_STATUS_NONE,
      ex_native_only = native_only, ex_status_address = 0\<rparr>"

text \<open>\<open>decoder.ExtractEntryData(entry_offset) && decoder.Eval()\<close> and the instructions then.\<close>

definition decode_exidx_entry :: "(u32 \<Rightarrow> u32 option) \<Rightarrow> bool \<Rightarrow> u32 \<Rightarrow> fault + u64 list option" where
  "decode_exidx_entry read32 native_only entry_offset =
     (case ExtractEntryData read32 entry_offset (new_exidx native_only) of
        (False, _) \<Rightarrow> Inr None
      | (True, d) \<Rightarrow>
          (case Eval_exidx d of
             Inl f \<Rightarrow> Inl f
           | Inr (good, d) \<Rightarrow> Inr (if good then Some (ex_instructions d) else None)))"

text \<open>What the loop changes; it may return early.\<close>

record exidx_walk =
  start_addr :: u32
  curr_instructions :: "u64 list option"
  walk_entries :: qut_entries
  walk_context :: generation_context

definition save_entry :: "u32 \<Rightarrow> u64 list \<Rightarrow> exidx_walk \<Rightarrow> bool \<times> exidx_walk" where
  "save_entry addr is w =
     (let (go_on, ctx) = AccumulateMemoryUsage (of_nat (length is)) (walk_context w)
      in (go_on, w\<lparr>walk_entries := map_put (ucast (start_addr w)) (ucast addr, is) (walk_entries w),
                   walk_context := ctx\<rparr>))"

definition exidx_step :: "(u32 \<Rightarrow> u32 option) \<Rightarrow> u32 \<Rightarrow> bool \<Rightarrow> exidx_walk \<Rightarrow> fault + (bool \<times> exidx_walk)" where
  "exidx_step read32 entry_offset is_last w =
     (case GetPrel31Addr read32 entry_offset of
        None \<Rightarrow> Inr (True, w)
      | Some addr \<Rightarrow>
          (case (is_last, curr_instructions w) of
             (True, Some cur) \<Rightarrow> Inr (save_entry addr cur w)
           | _ \<Rightarrow>
               (case decode_exidx_entry read32 (gen_native_only (walk_context w)) entry_offset of
                  Inl f \<Rightarrow> Inl f
                | Inr None \<Rightarrow> Inr (True, w)
                | Inr (Some is) \<Rightarrow>
                    let moved = w\<lparr>start_addr := addr, curr_instructions := Some is\<rparr>
                    in if start_addr w = 0 then Inr (True, moved)
                       else (case curr_instructions w of
                               None \<Rightarrow> Inr (True, moved)
                             | Some cur \<Rightarrow>
                                 if cur = is then Inr (True, w)
                                 else (let (go_on, w) = save_entry addr cur w
                                       in if go_on then Inr (True, w\<lparr>start_addr := addr, curr_instructions := Some is\<rparr>)
                                          else Inr (False, w))))))"

text \<open>The loop, over the indices that are left.\<close>

fun exidx_loop :: "(u32 \<Rightarrow> u32 option) \<Rightarrow> u64 \<Rightarrow> nat \<Rightarrow> nat list \<Rightarrow> exidx_walk \<Rightarrow> fault + exidx_walk" where
  "exidx_loop read32 start_offset total_entries [] w = Inr w"
| "exidx_loop read32 start_offset total_entries (i # is) w =
     (case exidx_step read32 (ucast (start_offset + of_nat i * 8)) (i = total_entries - 1) w of
        Inl f \<Rightarrow> Inl f
      | Inr (go_on, w) \<Rightarrow> if go_on then exidx_loop read32 start_offset total_entries is w else Inr w)"

text \<open>A null memory would be read through a null pointer.\<close>

definition DecodeExidxEntriesInstr ::
  "generator \<Rightarrow> frame_info \<Rightarrow> generation_context \<Rightarrow> qut_entries \<Rightarrow> fault + (generation_context \<times> qut_entries)" where
  "DecodeExidxEntriesInstr g info ctx entries =
     (let total_entries = unat (fi_size info)
      in if total_entries \<le> 1 then Inr (ctx, entries)
         else (case gen_memory g of
                 None \<Rightarrow> Inl ReadPastEnd
               | Some mem \<Rightarrow>
                   (case exidx_loop (Read32 mem) (fi_offset info) total_entries [0..<total_entries]
                           \<lparr>start_addr = 0, curr_instructions = None, walk_entries = entries, walk_context = ctx\<rparr> of
                      Inl f \<Rightarrow> Inl f
                    | Inr w \<Rightarrow> Inr (walk_context w, walk_entries w))))"

section \<open>Merging\<close>

text \<open>
  The loop of \<open>MergeFrameEntries\<close>.  \<open>from_start\<close> and \<open>from_end\<close> are the part of the first entry of
  \<open>from\<close> that is left, when they differ; each round takes an entry from one of the two maps.
\<close>

fun merge_loop :: "qut_entries \<Rightarrow> qut_entries \<Rightarrow> u64 \<Rightarrow> u64 \<Rightarrow> qut_entries \<Rightarrow> qut_entries" where
  "merge_loop [] [] from_start from_end result = result"
| "merge_loop (t # to) [] from_start from_end result =
     merge_loop to [] from_start from_end (map_put (fst t) (snd t) result)"
| "merge_loop to ((first, stop, is) # from) start0 end0 result =
     (let (from_start, from_end) = (if start0 = end0 then (first, stop) else (start0, end0))
      in if from_start = from_end then result
         else (case to of
                 [] \<Rightarrow> merge_loop [] from from_end from_end (map_put from_start (from_end, is) result)
               | (to_start, to_end, to_is) # to' \<Rightarrow>
                   if from_end \<le> to_start
                   then merge_loop to from from_end from_end (map_put from_start (from_end, to_is) result)
                   else if from_start \<ge> to_end
                   then merge_loop to' ((first, stop, is) # from) from_start from_end
                          (map_put to_start (to_end, to_is) result)
                   else (let result = (if from_start < to_start then map_put from_start (to_start, to_is) result
                                       else result)
                         in if from_end \<le> to_end then merge_loop to from from_end from_end result
                            else merge_loop to' (if from_end = to_end then from else (first, stop, is) # from)
                                   to_end from_end (map_put to_start (to_end, to_is) result))))"

text \<open>
  \<open>from_start\<close> and \<open>from_end\<close> are not initialised: \<open>garbage\<close> is what the stack holds there.
\<close>

definition MergeFrameEntries :: "u64 \<times> u64 \<Rightarrow> qut_entries \<Rightarrow> qut_entries \<Rightarrow> qut_entries" where
  "MergeFrameEntries garbage to from =
     (if from = [] then to else if to = [] then from else merge_loop to from (fst garbage) (snd garbage) [])"

section \<open>Generating the sections\<close>

text \<open>
  A generated table, or none when the function returns \<open>false\<close>.  The functions are for the platform of the
  generator; \<open>'w\<close> is \<open>addr_t\<close> and \<open>uptr\<close> at once.
\<close>

type_synonym 'w generated = "(fault + 'w qut_sections option) option"

definition pack_entries :: "generator \<Rightarrow> qut_entries \<Rightarrow> 'w::len word generated" where
  "pack_entries g entries =
     (case PackEntriesToQutSections (gen_arm g) entries of
        Inl f \<Rightarrow> Some (Inl f)
      | Inr sections \<Rightarrow> Some (Inr (Some sections)))"

text \<open>Decoding a source, the check of the memory used, and what follows.\<close>

definition decoding ::
  "entries_result \<Rightarrow> (generation_context \<Rightarrow> qut_entries \<Rightarrow> 'w generated) \<Rightarrow> 'w generated" where
  "decoding source k =
     (case source of
        None \<Rightarrow> None
      | Some (Inl f) \<Rightarrow> Some (Inl f)
      | Some (Inr (ctx, entries)) \<Rightarrow> if memory_overwhelmed ctx then Some (Inr None) else k ctx entries)"

record frame_infos =
  eh_frame_hdr_info :: frame_info
  eh_frame_info :: frame_info
  debug_frame_info :: frame_info
  gnu_eh_frame_hdr_info :: frame_info
  gnu_eh_frame_info :: frame_info
  gnu_debug_frame_info :: frame_info
  arm_exidx_info :: frame_info

text \<open>\<open>garbage i\<close> is what the stack holds when the entries are merged for the \<open>i\<close>-th time.\<close>

definition GenerateUltraQUTSections ::
  "generator \<Rightarrow> bool \<Rightarrow> (nat \<Rightarrow> u64 \<times> u64) \<Rightarrow> frame_infos \<Rightarrow> 'w::len word generated" where
  "GenerateUltraQUTSections g native_only garbage infos =
     (let t = TYPE('w) in
      decoding (DecodeDebugFrameEntriesInstr t g (debug_frame_info infos) False (new_context (gen_arm g) native_only) [])
        (\<lambda>ctx debug_frame_instructions.
      decoding (DecodeEhFrameEntriesInstr t g (eh_frame_hdr_info infos) (eh_frame_info infos) False ctx [])
        (\<lambda>ctx eh_frame_instructions.
      let merged = MergeFrameEntries (garbage 0) debug_frame_instructions eh_frame_instructions in
      decoding (DecodeDebugFrameEntriesInstr t g (gnu_debug_frame_info infos) True ctx [])
        (\<lambda>ctx gnu_debug_frame_instructions.
      let merged = MergeFrameEntries (garbage 1) merged gnu_debug_frame_instructions in
      decoding (DecodeEhFrameEntriesInstr t g (gnu_eh_frame_hdr_info infos) (gnu_eh_frame_info infos) True ctx [])
        (\<lambda>ctx gnu_eh_frame_instructions.
      let merged = MergeFrameEntries (garbage 2) merged gnu_eh_frame_instructions in
      if fi_size (arm_exidx_info infos) \<noteq> 0
      then decoding (Some (DecodeExidxEntriesInstr g (arm_exidx_info infos) ctx []))
             (\<lambda>ctx exidx_instructions. pack_entries g (MergeFrameEntries (garbage 3) merged exidx_instructions))
      else pack_entries g merged)))))"

text \<open>
  A table for one FDE at a program counter: its range and the packed row.  There must be exactly one entry.
\<close>

type_synonym 'w single_generated = "(fault + (u64 \<times> u64 \<times> 'w qut_sections) option) option"

definition pack_single :: "generator \<Rightarrow> qut_entries \<Rightarrow> 'w::len word single_generated" where
  "pack_single g entries =
     (case entries of
        [] \<Rightarrow> Some (Inr None)
      | [(start, stop, _)] \<Rightarrow>
          (case PackEntriesToQutSections (gen_arm g) entries of
             Inl f \<Rightarrow> Some (Inl f)
           | Inr sections \<Rightarrow> Some (Inr (Some (start, stop, sections))))
      | _ \<Rightarrow> Some (Inl CheckFailed))"

definition DecodeDebugFrameSingleEntry ::
  "'a::len itself \<Rightarrow> generator \<Rightarrow> frame_info \<Rightarrow> dwarf_fde \<Rightarrow> u64 \<Rightarrow> bool \<Rightarrow> generation_context \<Rightarrow> qut_entries
     \<Rightarrow> entries_result" where
  "DecodeDebugFrameSingleEntry t g info fde pc gnu_debug_data ctx entries =
     (case chosen_memory gnu_debug_data g of
        Some mem \<Rightarrow>
          if fi_offset info \<noteq> 0
          then (case ParseSingleFde t (gen_arm g) (gen_process_memory g) (gen_order g) fde pc False
                       (Init (fi_offset info) (fi_size info) (fi_section_bias info) (new_section DebugFrame mem))
                       ctx entries of
                  None \<Rightarrow> None
                | Some (Inl f) \<Rightarrow> Some (Inl f)
                | Some (Inr (_, _, ctx, entries)) \<Rightarrow> Some (Inr (ctx, entries)))
          else Some (Inr (ctx, entries))
      | None \<Rightarrow> Some (Inr (ctx, entries)))"

definition GenerateSingleQUTSectionsForJIT ::
  "generator \<Rightarrow> bool \<Rightarrow> frame_info \<Rightarrow> dwarf_fde \<Rightarrow> u64 \<Rightarrow> bool \<Rightarrow> 'w::len word single_generated" where
  "GenerateSingleQUTSectionsForJIT g native_only info fde pc gnu_debug_data =
     (case DecodeDebugFrameSingleEntry TYPE('w) g info fde pc gnu_debug_data (new_context (gen_arm g) native_only) [] of
        None \<Rightarrow> None
      | Some (Inl f) \<Rightarrow> Some (Inl f)
      | Some (Inr (_, entries)) \<Rightarrow> pack_single g entries)"

text \<open>The decoder is one of the caller; it is used up to the state in which the call leaves it.\<close>

definition GenerateSingleQUTSections ::
  "generator \<Rightarrow> bool \<Rightarrow> frame_section \<Rightarrow> dwarf_fde \<Rightarrow> u64 \<Rightarrow> (fault + ((u64 \<times> u64 \<times> 'w::len word qut_sections) option \<times> frame_section)) option" where
  "GenerateSingleQUTSections g native_only decoder fde pc =
     (case ParseSingleFde TYPE('w) (gen_arm g) (gen_process_memory g) (gen_order g) fde pc False decoder
             (new_context (gen_arm g) native_only) [] of
        None \<Rightarrow> None
      | Some (Inl f) \<Rightarrow> Some (Inl f)
      | Some (Inr (ret, decoder, _, entries)) \<Rightarrow>
          if \<not> ret then Some (Inr (None, decoder))
          else (case pack_single g entries of
                  None \<Rightarrow> None
                | Some (Inl f) \<Rightarrow> Some (Inl f)
                | Some (Inr r) \<Rightarrow> Some (Inr (r, decoder))))"

section \<open>What merging keeps\<close>

text \<open>Ranges that are not empty, in order and disjoint; the instructions of the range of a program counter.\<close>

definition separate :: "qut_entries \<Rightarrow> bool" where
  "separate es \<longleftrightarrow> sorted_wrt (\<lambda>e e'. fst (snd e) \<le> fst e') es \<and> (\<forall>e \<in> set es. fst e < fst (snd e))"

fun range_at :: "u64 \<Rightarrow> qut_entries \<Rightarrow> u64 list option" where
  "range_at pc [] = None"
| "range_at pc ((start, stop, is) # es) = (if start \<le> pc \<and> pc < stop then Some is else range_at pc es)"

text \<open>The instructions of the next range above a program counter.\<close>

fun next_above :: "u64 \<Rightarrow> qut_entries \<Rightarrow> u64 list option" where
  "next_above pc [] = None"
| "next_above pc ((start, stop, is) # es) = (if pc < start then Some is else next_above pc es)"

definition merged_at :: "u64 \<Rightarrow> qut_entries \<Rightarrow> qut_entries \<Rightarrow> u64 list option" where
  "merged_at pc to from =
     (case range_at pc to of
        Some is \<Rightarrow> Some is
      | None \<Rightarrow>
          (case range_at pc from of
             None \<Rightarrow> None
           | Some is \<Rightarrow> Some (case next_above pc to of None \<Rightarrow> is | Some is' \<Rightarrow> is')))"

lemma separate_Nil [simp]: "separate []"
  by (simp add: separate_def)

lemma separate_Cons [simp]:
  "separate ((start, stop, is) # es) \<longleftrightarrow> start < stop \<and> (\<forall>e \<in> set es. stop \<le> fst e) \<and> separate es"
  by (auto simp: separate_def)

lemma separate_append1:
  "separate (es @ [(start, stop, is)]) \<longleftrightarrow> separate es \<and> (\<forall>e \<in> set es. fst (snd e) \<le> start) \<and> start < stop"
  by (auto simp: separate_def sorted_wrt_append)

lemma range_at_append: "range_at pc (es @ es') = (case range_at pc es of None \<Rightarrow> range_at pc es' | Some is \<Rightarrow> Some is)"
  by (induction es) auto

lemma range_at_below: "\<forall>e \<in> set es. pc < fst e \<Longrightarrow> range_at pc es = None"
  by (induction es) (auto simp: not_le)

lemma range_at_above: "\<forall>e \<in> set es. fst (snd e) \<le> pc \<Longrightarrow> range_at pc es = None"
  by (induction es) auto

lemma map_put_beyond:
  "separate es \<Longrightarrow> \<forall>e \<in> set es. fst (snd e) \<le> k \<Longrightarrow> map_put k v es = es @ [(k, v)]"
  by (induction es) (auto simp: dual_order.strict_trans1 dest: leD)

lemma merged_at_Nil [simp]: "merged_at pc to [] = range_at pc to" "merged_at pc [] from = range_at pc from"
  by (simp_all add: merged_at_def split: option.split)

text \<open>The specification, by the cases that the loop distinguishes.\<close>

lemma merged_at_before:
  assumes "separate ((ts, te, tis) # to)" "separate ((fs, fe, is) # from)" "fe \<le> ts"
  shows "merged_at pc ((ts, te, tis) # to) ((fs, fe, is) # from)
     = (if fs \<le> pc \<and> pc < fe then Some tis else merged_at pc ((ts, te, tis) # to) from)"
proof (cases "fs \<le> pc \<and> pc < fe")
  case True
  then have "pc < ts" using assms(3) by (auto intro: less_le_trans)
  moreover have "\<forall>e \<in> set to. pc < fst e"
    using assms(1) calculation by (auto intro: less_le_trans less_trans)
  ultimately show ?thesis using True by (auto simp: merged_at_def range_at_below)
qed (auto simp: merged_at_def split: option.split)

lemma merged_at_after:
  assumes "separate ((ts, te, tis) # to)" "\<forall>e \<in> set from. te \<le> fst e"
  shows "merged_at pc ((ts, te, tis) # to) from = (if ts \<le> pc \<and> pc < te then Some tis else merged_at pc to from)"
proof (cases "pc < te")
  case True
  then have "range_at pc from = None" "range_at pc to = None"
    using assms by (auto intro!: range_at_below intro: less_le_trans)
  then show ?thesis using True by (auto simp: merged_at_def)
next
  case False
  then have "\<not> pc < ts" using assms(1) by auto
  then show ?thesis using False by (auto simp: merged_at_def split: option.split)
qed

lemma merged_at_within:
  assumes "separate ((ts, te, tis) # to)" "separate ((fs, fe, is) # from)" "\<not> fe \<le> ts" "fe \<le> te"
  shows "merged_at pc ((ts, te, tis) # to) ((fs, fe, is) # from)
     = (if fs \<le> pc \<and> pc < ts then Some tis else merged_at pc ((ts, te, tis) # to) from)"
proof (cases "fs \<le> pc \<and> pc < ts")
  case True
  then have "range_at pc to = None"
    using assms(1) by (intro range_at_below) (auto intro: less_le_trans less_trans)
  then show ?thesis using True assms(3) by (auto simp: merged_at_def)
next
  case False
  then show ?thesis using assms(3,4) by (auto simp: merged_at_def split: option.split)
qed

lemma merged_at_beyond:
  assumes "separate ((ts, te, tis) # to)" "separate ((fs, fe, is) # from)" "fs < te" "te < fe"
  shows "merged_at pc ((ts, te, tis) # to) ((fs, fe, is) # from)
     = (if fs \<le> pc \<and> pc < ts then Some tis else if ts \<le> pc \<and> pc < te then Some tis
        else merged_at pc to ((te, fe, is) # from))"
proof (cases "pc < te")
  case True
  then have "range_at pc to = None" "range_at pc from = None"
    using assms(1,2,4) by (auto intro!: range_at_below intro: less_le_trans less_trans)
  then show ?thesis using True assms by (auto simp: merged_at_def)
next
  case False
  then have "\<not> pc < ts" using assms(1) by auto
  then show ?thesis using False assms(3) by (auto simp: merged_at_def split: option.split)
qed

text \<open>The part of \<open>from\<close> that is left.\<close>

definition pending :: "u64 \<Rightarrow> u64 \<Rightarrow> qut_entries \<Rightarrow> qut_entries" where
  "pending start0 end0 from =
     (case from of
        [] \<Rightarrow> []
      | (first, stop, is) # rest \<Rightarrow> if start0 = end0 then from else (start0, end0, is) # rest)"

definition merge_fits :: "u64 \<Rightarrow> qut_entries \<Rightarrow> qut_entries \<Rightarrow> qut_entries \<Rightarrow> bool" where
  "merge_fits bound to from result \<longleftrightarrow>
     separate to \<and> separate from \<and> separate result
     \<and> (\<forall>e \<in> set to \<union> set from. bound \<le> fst e) \<and> (\<forall>e \<in> set result. fst (snd e) \<le> bound)"

lemma merge_fits_put:
  assumes "merge_fits bound to from result" "bound \<le> start" "start < stop"
    and "separate to'" "separate from'" "\<forall>e \<in> set to' \<union> set from'. stop \<le> fst e"
  shows "merge_fits stop to' from' (map_put start (stop, is) result)"
    and "range_at pc (map_put start (stop, is) result)
           = (case range_at pc result of None \<Rightarrow> if start \<le> pc \<and> pc < stop then Some is else None | Some i \<Rightarrow> Some i)"
proof -
  have "\<forall>e \<in> set result. fst (snd e) \<le> start"
    using assms(1,2) by (auto simp: merge_fits_def intro: order_trans)
  moreover from this have put: "map_put start (stop, is) result = result @ [(start, stop, is)]"
    using assms(1) by (intro map_put_beyond) (auto simp: merge_fits_def)
  ultimately show "merge_fits stop to' from' (map_put start (stop, is) result)"
    using assms by (fastforce simp: merge_fits_def separate_append1 intro: less_imp_le order_trans)
  show "range_at pc (map_put start (stop, is) result)
           = (case range_at pc result of None \<Rightarrow> if start \<le> pc \<and> pc < stop then Some is else None | Some i \<Rightarrow> Some i)"
    by (simp add: put range_at_append split: option.split)
qed

lemma merge_loop_correct:
  assumes "merge_fits bound to (pending start0 end0 from) result"
  shows "separate (merge_loop to from start0 end0 result)
    \<and> range_at pc (merge_loop to from start0 end0 result)
      = (case range_at pc result of None \<Rightarrow> merged_at pc to (pending start0 end0 from) | Some is \<Rightarrow> Some is)"
  using assms
proof (induction "length to + length from" arbitrary: bound to "from" start0 end0 result rule: less_induct)
  case less
  note ih = less.hyps
  have again: "pending k k from' = from'" for k "from'" by (simp add: pending_def split: list.split)
  show ?case
  proof (cases "from")
    case Nil
    show ?thesis
    proof (cases to)
      case Nil
      then show ?thesis
        using less.prems \<open>from = []\<close> by (auto simp: pending_def merge_fits_def split: option.split)
    next
      case (Cons t to')
      obtain ts te tis where t: "t = (ts, te, tis)" by (cases t)
      have fits: "separate ((ts, te, tis) # to')" "bound \<le> ts"
        using less.prems by (simp_all add: merge_fits_def Cons t)
      then have put: "ts < te" "separate to'" "\<forall>e \<in> set to' \<union> set []. te \<le> fst e" by auto
      note new = merge_fits_put [OF less.prems fits(2) put(1,2) separate_Nil put(3)]
      have "merge_fits te to' (pending start0 end0 []) (map_put ts (te, tis) result)"
        using new(1) by (simp add: pending_def)
      from ih [OF _ this] show ?thesis
        using new(2) [of pc tis] merged_at_after [OF fits(1), of "[]" pc]
        by (simp add: Nil Cons t pending_def split: option.split)
    qed
  next
    case (Cons f rest)
    obtain first stop ws where f: "f = (first, stop, ws)" by (cases f)
    obtain fs fe where fsfe: "(if start0 = end0 then (first, stop) else (start0, end0)) = (fs, fe)" by fastforce
    then have pend: "pending start0 end0 from = (fs, fe, ws) # rest" by (auto simp: pending_def Cons f split: if_splits)
    have from_fits: "separate ((fs, fe, ws) # rest)" "bound \<le> fs" and separate_to: "separate to"
      using less.prems by (simp_all add: merge_fits_def pend)
    then have "fs < fe" "separate rest" "\<forall>e \<in> set rest. fe \<le> fst e" by auto
    then have ne: "fs \<noteq> fe" by simp
    have loop: "merge_loop to from start0 end0 result = (case to of
                 [] \<Rightarrow> merge_loop [] rest fe fe (map_put fs (fe, ws) result)
               | (to_start, to_end, to_is) # to' \<Rightarrow>
                   if fe \<le> to_start
                   then merge_loop to rest fe fe (map_put fs (fe, to_is) result)
                   else if fs \<ge> to_end
                   then merge_loop to' from fs fe (map_put to_start (to_end, to_is) result)
                   else (let result = (if fs < to_start then map_put fs (to_start, to_is) result
                                       else result)
                         in if fe \<le> to_end then merge_loop to rest fe fe result
                            else merge_loop to' (if fe = to_end then rest else from)
                                   to_end fe (map_put to_start (to_end, to_is) result)))"
      using fsfe ne by (simp add: Cons f Let_def split: list.split)
    have shorter: "length rest < length from" by (simp add: Cons)
    have left: "pending fs fe from = (fs, fe, ws) # rest" using ne by (simp add: pending_def Cons f)
    show ?thesis
    proof (cases to)
      case Nil
      have "\<forall>e \<in> set [] \<union> set rest. fe \<le> fst e" using from_fits by auto
      note new = merge_fits_put [OF less.prems from_fits(2) \<open>fs < fe\<close> separate_Nil \<open>separate rest\<close> this]
      have "merge_fits fe [] (pending fe fe rest) (map_put fs (fe, ws) result)" using new(1) by (simp add: again)
      from ih [OF _ this] show ?thesis
        using new(2) [of pc ws] from_fits(1)
        unfolding loop pend by (auto simp: shorter Nil again split: option.split)
    next
      case to: (Cons t to')
      obtain ts te tis where t: "t = (ts, te, tis)" by (cases t)
      have to_fits: "separate ((ts, te, tis) # to')" "bound \<le> ts"
        using less.prems by (simp_all add: merge_fits_def to t)
      then have "ts < te" "separate to'" and to': "\<forall>e \<in> set to'. te \<le> fst e" by auto
      consider (before) "fe \<le> ts" | (after) "\<not> fe \<le> ts" "te \<le> fs"
        | (inside) "\<not> fe \<le> ts" "\<not> te \<le> fs" "fe \<le> te" | (beyond) "\<not> fe \<le> ts" "\<not> te \<le> fs" "\<not> fe \<le> te"
        by blast
      then show ?thesis
      proof cases
        case before
        have "\<forall>e \<in> set to \<union> set rest. fe \<le> fst e"
          using before to' \<open>ts < te\<close> \<open>\<forall>e \<in> set rest. fe \<le> fst e\<close> by (auto simp: to t intro: order_trans less_imp_le)
        note new = merge_fits_put [OF less.prems from_fits(2) \<open>fs < fe\<close> separate_to \<open>separate rest\<close> this]
        have "merge_fits fe to (pending fe fe rest) (map_put fs (fe, tis) result)" using new(1) by (simp add: again)
        from ih [OF _ this] show ?thesis
          using new(2) [of pc tis] merged_at_before [OF to_fits(1) from_fits(1) before, of pc] before
          unfolding loop pend by (auto simp: shorter to t again split: option.split)
      next
        case after
        have rest: "\<forall>e \<in> set ((fs, fe, ws) # rest). te \<le> fst e"
          using after(2) \<open>fs < fe\<close> \<open>\<forall>e \<in> set rest. fe \<le> fst e\<close> by (auto intro: order_trans less_imp_le)
        then have "\<forall>e \<in> set to' \<union> set ((fs, fe, ws) # rest). te \<le> fst e" using to' by auto
        note new = merge_fits_put [OF less.prems to_fits(2) \<open>ts < te\<close> \<open>separate to'\<close> from_fits(1) this]
        have "merge_fits te to' (pending fs fe from) (map_put ts (te, tis) result)" using new(1) by (simp add: left)
        from ih [OF _ this] show ?thesis
          using new(2) [of pc tis] merged_at_after [OF to_fits(1) rest, of pc] after
          unfolding loop pend by (auto simp: shorter left to t split: option.split)
      next
        case inside
        let ?result = "if fs < ts then map_put fs (ts, tis) result else result"
        have "\<forall>e \<in> set to \<union> set rest. ts \<le> fst e"
          using inside(1) to' \<open>ts < te\<close> \<open>\<forall>e \<in> set rest. fe \<le> fst e\<close>
          by (auto simp: to t not_le intro: order_trans less_imp_le)
        note new = merge_fits_put [OF less.prems from_fits(2) _ separate_to \<open>separate rest\<close> this]
        have old: "merge_fits ts to rest result"
          using less.prems \<open>\<forall>e \<in> set to \<union> set rest. ts \<le> fst e\<close> to_fits(2) \<open>separate rest\<close>
          by (auto simp: merge_fits_def intro: order_trans)
        have "merge_fits ts to (pending fe fe rest) ?result" using new(1) old by (simp add: again)
        from ih [OF _ this] show ?thesis
          using new(2) [of pc tis] merged_at_within [OF to_fits(1) from_fits(1) inside(1,3), of pc] inside
          unfolding loop pend by (auto simp: shorter to t again Let_def split: option.split)
      next
        case beyond
        let ?result = "if fs < ts then map_put fs (ts, tis) result else result"
        have tail: "\<forall>e \<in> set to' \<union> set ((te, fe, ws) # rest). te \<le> fst e"
          using beyond(3) to' \<open>\<forall>e \<in> set rest. fe \<le> fst e\<close> by (auto simp: not_le intro: order_trans less_imp_le)
        have "\<forall>e \<in> set to \<union> set ((te, fe, ws) # rest). ts \<le> fst e"
          using tail \<open>ts < te\<close> by (auto simp: to t intro: order_trans less_imp_le)
        have sep: "separate ((te, fe, ws) # rest)"
          using beyond(3) from_fits(1) by auto
        note put1 = merge_fits_put [OF less.prems from_fits(2) _ separate_to sep
            \<open>\<forall>e \<in> set to \<union> set ((te, fe, ws) # rest). ts \<le> fst e\<close>]
        have old: "merge_fits ts to ((te, fe, ws) # rest) result"
          using less.prems \<open>\<forall>e \<in> set to \<union> set ((te, fe, ws) # rest). ts \<le> fst e\<close> to_fits(2) sep
          by (auto simp: merge_fits_def intro: order_trans)
        have mid: "merge_fits ts to ((te, fe, ws) # rest) ?result" using put1(1) old by simp
        note new = merge_fits_put [OF mid order_refl \<open>ts < te\<close> \<open>separate to'\<close> sep tail]
        have "te \<noteq> fe" using beyond(3) by auto
        then have left': "pending te fe from = (te, fe, ws) # rest" by (simp add: pending_def Cons f)
        have "merge_fits te to' (pending te fe from) (map_put ts (te, tis) ?result)" using new(1) by (simp only: left')
        from ih [OF _ this] show ?thesis
          using put1(2) [of pc tis] new(2) [of pc tis] beyond \<open>te \<noteq> fe\<close>
            merged_at_beyond [OF to_fits(1) from_fits(1), of pc]
          unfolding loop pend by (auto simp: shorter left' to t Let_def split: option.split)
      qed
    qed
  qed
qed

text \<open>
  C32. Merging two sources.  Let both have ranges that are disjoint, and let the two variables that the
  function does not initialise happen to be equal.  Then the merged ranges are disjoint, and every
  program counter finds: the instructions of \<open>to\<close> where that has a range, else nothing where
  \<open>from\<close> has none, else the instructions of \<open>from\<close> only if no range of \<open>to\<close> lies above; when one does,
  the instructions of that next range of \<open>to\<close>, which belong to another function.
\<close>

theorem MergeFrameEntries_ranges:
  assumes "separate to" "separate from" "fst garbage = snd garbage"
  shows "separate (MergeFrameEntries garbage to from)
    \<and> range_at pc (MergeFrameEntries garbage to from) = merged_at pc to from"
proof -
  have "pending k k from = from" for k by (simp add: pending_def split: list.split)
  moreover have "merge_fits 0 to from []" using assms(1,2) by (simp add: merge_fits_def)
  ultimately show ?thesis
    using merge_loop_correct [of 0 to "fst garbage" "snd garbage" "from" "[]" pc] assms
    by (simp add: MergeFrameEntries_def)
qed

theorem MergeFrameEntries_ranges_witness:
  "range_at 0x1008 (MergeFrameEntries (0, 0) [(0x2000, 0x2010, [1])] [(0x1000, 0x1010, [2])]) = Some [1]"
  using MergeFrameEntries_ranges [of "[(0x2000, 0x2010, [1])]" "[(0x1000, 0x1010, [2])]" "(0, 0)" "0x1008"]
  by (simp add: merged_at_def)

text \<open>
  The uninitialised variables of the merge decide its result.  With one content of the stack a range of
  \<open>from\<close> is kept (with the instructions of the other source, as above), with another it is lost and an
  arbitrary range takes its place.
\<close>

theorem merge_depends_on_stack:
  "range_at 0x1008 (MergeFrameEntries (0, 0) [(0x2000, 0x2010, a)] [(0x1000, 0x1010, b)]) = Some a
   \<and> range_at 0x1008 (MergeFrameEntries (0x500, 0x600) [(0x2000, 0x2010, a)] [(0x1000, 0x1010, b)]) = None
   \<and> range_at 0x580 (MergeFrameEntries (0x500, 0x600) [(0x2000, 0x2010, a)] [(0x1000, 0x1010, b)]) = Some a"
  by (simp add: MergeFrameEntries_def)

section \<open>The table made from the exception index\<close>

text \<open>
  What the table should hold for a program counter below the start of the last entry: the instructions of the
  last entry at or below it that could be decoded.
\<close>

fun last_decoded :: "u64 \<Rightarrow> (u32 \<times> u64 list option) list \<Rightarrow> u64 list option \<Rightarrow> u64 list option" where
  "last_decoded pc [] acc = acc"
| "last_decoded pc ((addr, d) # es) acc =
     (if pc < ucast addr then acc
      else last_decoded pc es (case d of None \<Rightarrow> acc | Some is \<Rightarrow> Some is))"

text \<open>The index in memory: readable addresses in ascending order, and entries whose decoding does not stop the run.\<close>

definition index_holds ::
  "(u32 \<Rightarrow> u32 option) \<Rightarrow> bool \<Rightarrow> u64 \<Rightarrow> nat \<Rightarrow> (nat \<Rightarrow> u32) \<Rightarrow> (nat \<Rightarrow> u64 list option) \<Rightarrow> bool" where
  "index_holds read32 native_only start_offset n addr d \<longleftrightarrow>
     (\<forall>i < n. GetPrel31Addr read32 (ucast (start_offset + of_nat i * 8)) = Some (addr i))
     \<and> (\<forall>i < n. decode_exidx_entry read32 native_only (ucast (start_offset + of_nat i * 8)) = Inr (d i))
     \<and> (\<forall>i < n. addr i \<noteq> 0) \<and> (\<forall>i j. i < j \<longrightarrow> j < n \<longrightarrow> addr i < addr j)"

lemma unat_ucast_u32: "unat (ucast (a :: u32) :: u64) = unat a"
proof -
  have "unat a < 2 ^ LENGTH(32)" by (rule unsigned_less)
  then show ?thesis by (simp add: unsigned_ucast_eq take_bit_nat_eq_self)
qed

lemma ucast_u32_order [simp]:
  "(ucast (a :: u32) :: u64) < ucast b \<longleftrightarrow> a < b" "(ucast (a :: u32) :: u64) \<le> ucast b \<longleftrightarrow> a \<le> b"
  by (simp_all add: word_less_nat_alt word_le_nat_alt unat_ucast_u32)

definition walk_ok :: "u32 \<Rightarrow> exidx_walk \<Rightarrow> bool" where
  "walk_ok bound w \<longleftrightarrow>
     separate (walk_entries w)
     \<and> (case curr_instructions w of
          None \<Rightarrow> start_addr w = 0 \<and> walk_entries w = []
        | Some is \<Rightarrow> start_addr w \<noteq> 0 \<and> start_addr w < bound
            \<and> (\<forall>e \<in> set (walk_entries w). fst (snd e) \<le> ucast (start_addr w)))"

definition walk_at :: "u64 \<Rightarrow> exidx_walk \<Rightarrow> u32 \<Rightarrow> u64 list option \<Rightarrow> u64 list option" where
  "walk_at pc w stop r =
     (case range_at pc (walk_entries w) of
        Some is \<Rightarrow> Some is
      | None \<Rightarrow> if (curr_instructions w \<noteq> None \<longrightarrow> ucast (start_addr w) \<le> pc) \<and> pc < ucast stop then r else None)"

lemma save_entry_ranges:
  assumes "walk_ok addr w" "curr_instructions w = Some is" "save_entry addr is w = (go_on, w')"
  shows "separate (walk_entries w')" "\<forall>e \<in> set (walk_entries w'). fst (snd e) \<le> ucast addr"
    "range_at pc (walk_entries w') = (case range_at pc (walk_entries w) of
        None \<Rightarrow> if ucast (start_addr w) \<le> pc \<and> pc < ucast addr then Some is else None | Some i \<Rightarrow> Some i)"
    "gen_native_only (walk_context w') = gen_native_only (walk_context w)"
    "start_addr w' = start_addr w" "curr_instructions w' = curr_instructions w"
    "go_on = (\<not> memory_overwhelmed (walk_context w'))"
proof -
  have ok: "separate (walk_entries w)" "start_addr w < addr"
    "\<forall>e \<in> set (walk_entries w). fst (snd e) \<le> ucast (start_addr w)"
    using assms(1,2) by (auto simp: walk_ok_def)
  have put: "walk_entries w' = walk_entries w @ [(ucast (start_addr w), ucast addr, is)]"
    using assms(3) map_put_beyond [OF ok(1,3)] by (auto simp: save_entry_def Let_def split: prod.splits)
  show "separate (walk_entries w')" using ok by (auto simp: put separate_append1)
  have "(ucast (start_addr w) :: u64) \<le> ucast addr" using ok(2) by simp
  then show "\<forall>e \<in> set (walk_entries w'). fst (snd e) \<le> ucast addr"
    using ok(3) by (auto simp: put simp del: ucast_u32_order intro: order_trans)
  show "range_at pc (walk_entries w') = (case range_at pc (walk_entries w) of
        None \<Rightarrow> if ucast (start_addr w) \<le> pc \<and> pc < ucast addr then Some is else None | Some i \<Rightarrow> Some i)"
    by (simp add: put range_at_append split: option.split)
  show "gen_native_only (walk_context w') = gen_native_only (walk_context w)"
    "start_addr w' = start_addr w" "curr_instructions w' = curr_instructions w"
    "go_on = (\<not> memory_overwhelmed (walk_context w'))"
    using assms(3) by (auto simp: save_entry_def AccumulateMemoryUsage_def Let_def)
qed

lemma last_decoded_below: "\<forall>e \<in> set es. pc < ucast (fst e) \<Longrightarrow> last_decoded pc es acc = acc"
  by (cases es) auto

lemma exidx_loop_ranges:
  assumes "index_holds read32 native_only s n addr d" "k < n" "walk_ok (addr k) w"
    and "gen_native_only (walk_context w) = native_only"
    and "exidx_loop read32 s n [k..<n] w = Inr w'" "\<not> memory_overwhelmed (walk_context w')"
  shows "separate (walk_entries w') \<and> range_at pc (walk_entries w')
    = walk_at pc w (addr (n - 1)) (last_decoded pc (map (\<lambda>i. (addr i, d i)) [k..<n - 1]) (curr_instructions w))"
  using assms(2-5)
proof (induction "n - k" arbitrary: k w rule: less_induct)
  case less
  let ?off = "ucast (s + of_nat k * 8) :: u32"
  let ?rest = "map (\<lambda>i. (addr i, d i)) [Suc k..<n - 1]"
  have here: "GetPrel31Addr read32 ?off = Some (addr k)" "decode_exidx_entry read32 native_only ?off = Inr (d k)" "addr k \<noteq> 0"
    and up: "\<And>j. k < j \<Longrightarrow> j < n \<Longrightarrow> addr k < addr j"
    using assms(1) less.prems(1) by (auto simp: index_holds_def)
  have upt: "[k..<n] = k # [Suc k..<n]" using less.prems(1) by (rule upt_conv_Cons)
  note start_lt = less.prems(2) [unfolded walk_ok_def]
  note native = less.prems(3)
  show ?case
  proof (cases "k = n - 1")
    case True
    then have step: "exidx_step read32 ?off True w = Inr r \<Longrightarrow> w' = snd r" for r
      using less.prems(4) upt by (auto split: if_splits prod.splits)
    show ?thesis
    proof (cases "curr_instructions w")
      case None
      then have "walk_entries w' = walk_entries w"
        using step here native by (cases "d k") (auto simp: exidx_step_def Let_def)
      then show ?thesis
        using None less.prems(2) True by (simp add: walk_ok_def walk_at_def)
    next
      case (Some ws)
      obtain go_on w1 where saved: "save_entry (addr k) ws w = (go_on, w1)" by fastforce
      then have "w' = w1" using step here Some by (simp add: exidx_step_def)
      then show ?thesis
        using save_entry_ranges(1,3) [OF less.prems(2) Some saved] True Some
        by (auto simp: walk_at_def split: option.split)
    qed
  next
    case False
    then have k: "Suc k < n" "Suc k \<le> n - 1" using less.prems(1) by auto
    have rest: "map (\<lambda>i. (addr i, d i)) [k..<n - 1] = (addr k, d k) # ?rest"
      using k by (simp add: upt_conv_Cons)
    have stop: "addr k < addr (n - 1)" using up k by simp
    have below: "last_decoded pc ?rest acc = acc" if "pc < ucast (addr k)" for acc
    proof (rule last_decoded_below)
      have "pc < ucast (addr j)" if "Suc k \<le> j" "j < n - 1" for j
        using \<open>pc < ucast (addr k)\<close> up [of j] that by (auto simp del: ucast_u32_order simp flip: ucast_u32_order intro: less_trans)
      then show "\<forall>e \<in> set ?rest. pc < ucast (fst e)" by auto
    qed
    have is_last: "(k = n - 1) = False" using False by simp
    have ih: "separate (walk_entries w') \<and> range_at pc (walk_entries w')
        = walk_at pc w1 (addr (n - 1)) (last_decoded pc ?rest (curr_instructions w1))"
      if "walk_ok (addr (Suc k)) w1" "gen_native_only (walk_context w1) = native_only"
        "exidx_loop read32 s n [Suc k..<n] w1 = Inr w'" for w1
      using that k by (intro less.hyps) auto
    have loop: "(case exidx_step read32 ?off False w of Inl f \<Rightarrow> Inl f
        | Inr (go_on, w) \<Rightarrow> if go_on then exidx_loop read32 s n [Suc k..<n] w else Inr w) = Inr w'"
      using less.prems(4) unfolding upt exidx_loop.simps is_last .
    have up1: "addr k < addr (Suc k)" using up k by simp
    then have ok1: "walk_ok (addr (Suc k)) w"
      using less.prems(2) by (auto simp: walk_ok_def split: option.splits)
    show ?thesis
    proof (cases "d k")
      case None
      then have "exidx_step read32 ?off False w = Inr (True, w)"
        using here native by (simp add: exidx_step_def)
      then have "exidx_loop read32 s n [Suc k..<n] w = Inr w'" using loop by simp
      moreover have "last_decoded pc ((addr k, d k) # ?rest) (curr_instructions w) = last_decoded pc ?rest (curr_instructions w)"
        using below None by simp
      ultimately show ?thesis using ih [OF ok1 native] unfolding rest by simp
    next
      case (Some ws)
      show ?thesis
      proof (cases "curr_instructions w")
        case cur: None
        let ?w = "w\<lparr>start_addr := addr k, curr_instructions := Some ws\<rparr>"
        have "start_addr w = 0" "walk_entries w = []" using start_lt cur by simp_all
        then have "exidx_step read32 ?off False w = Inr (True, ?w)"
          using here native Some cur by (simp add: exidx_step_def Let_def)
        then have "exidx_loop read32 s n [Suc k..<n] ?w = Inr w'" using loop by simp
        moreover have "walk_ok (addr (Suc k)) ?w"
          using here(3) up1 \<open>walk_entries w = []\<close> by (simp add: walk_ok_def)
        ultimately show ?thesis
          using ih [of ?w] native \<open>walk_entries w = []\<close> Some cur unfolding rest by (auto simp: walk_at_def not_le)
      next
        case cur: (Some c)
        have start: "start_addr w \<noteq> 0" "start_addr w < addr k" using start_lt cur by simp_all
        show ?thesis
        proof (cases "c = ws")
          case True
          then have "exidx_step read32 ?off False w = Inr (True, w)"
            using here native Some cur start by (simp add: exidx_step_def Let_def)
          then have "exidx_loop read32 s n [Suc k..<n] w = Inr w'" using loop by simp
          moreover have "last_decoded pc ((addr k, d k) # ?rest) (curr_instructions w) = last_decoded pc ?rest (curr_instructions w)"
            using below Some cur True by simp
          ultimately show ?thesis using ih [OF ok1 native] unfolding rest by simp
        next
          case False
          obtain go_on w1 where saved: "save_entry (addr k) c w = (go_on, w1)" by fastforce
          note w1 = save_entry_ranges [OF less.prems(2) cur saved]
          let ?w = "w1\<lparr>start_addr := addr k, curr_instructions := Some ws\<rparr>"
          have step: "exidx_step read32 ?off False w = Inr (if go_on then (True, ?w) else (False, w1))"
            using here native Some cur start saved False by (simp add: exidx_step_def Let_def)
          have "go_on"
          proof (rule ccontr)
            assume "\<not> go_on"
            then have "w' = w1" using loop step by simp
            then show False using assms(6) w1(7) \<open>\<not> go_on\<close> by simp
          qed
          then have "exidx_loop read32 s n [Suc k..<n] ?w = Inr w'" using loop step by simp
          moreover have "walk_ok (addr (Suc k)) ?w"
            using here(3) up1 w1(1,2) by (simp add: walk_ok_def)
          ultimately have "separate (walk_entries w') \<and> range_at pc (walk_entries w')
              = walk_at pc ?w (addr (n - 1)) (last_decoded pc ?rest (Some ws))"
            using ih [of ?w] native w1(4) by simp
          moreover have "walk_at pc ?w (addr (n - 1)) (last_decoded pc ?rest (Some ws))
              = walk_at pc w (addr (n - 1)) (last_decoded pc ((addr k, d k) # ?rest) (curr_instructions w))"
          proof -
            have le: "(ucast (start_addr w) :: u64) \<le> ucast (addr k)" "(ucast (addr k) :: u64) \<le> ucast (addr (n - 1))"
              using start stop by simp_all
            show ?thesis
              using le w1(3) [of pc] Some cur by (auto simp: walk_at_def simp del: ucast_u32_order split: option.split)
          qed
          ultimately show ?thesis by (simp only: rest)
        qed
      qed
    qed
  qed
qed

text \<open>
  C24. The table of the ARM exception index.  Let the index be readable, its addresses ascending, and the
  memory limit not be reached.  Then the ranges made from it are disjoint, end at the address of the last
  entry, and give every program counter the instructions of the last entry at or below it that could be
  decoded.  Entries that cannot be decoded (a function that must not be unwound, for one) do not end
  the range of the function before them, and equal neighbours are merged.
\<close>

theorem exidx_table_ranges:
  assumes "gen_memory g = Some mem" "n = unat (fi_size info)" "1 < n"
    and "index_holds (Read32 mem) (gen_native_only ctx) (fi_offset info) n addr d"
    and "DecodeExidxEntriesInstr g info ctx [] = Inr (ctx', es)" "\<not> memory_overwhelmed ctx'"
  shows "separate es \<and> range_at pc es
    = (if pc < ucast (addr (n - 1)) then last_decoded pc (map (\<lambda>i. (addr i, d i)) [0..<n - 1]) None else None)"
proof -
  let ?w = "\<lparr>start_addr = 0, curr_instructions = None, walk_entries = [], walk_context = ctx\<rparr>"
  obtain w where w: "exidx_loop (Read32 mem) (fi_offset info) n [0..<n] ?w = Inr w" "ctx' = walk_context w" "es = walk_entries w"
    using assms(1,2,3,5) by (auto simp: DecodeExidxEntriesInstr_def Let_def split: sum.splits)
  have "walk_ok (addr 0) ?w" by (simp add: walk_ok_def)
  from exidx_loop_ranges [OF assms(4) _ this _ w(1), of pc] assms(3,6) w(2,3)
  show ?thesis by (auto simp: walk_at_def)
qed

text \<open>Two functions, the second of which must not be unwound, and the end of the index.\<close>

definition sample_index :: "u8 list" where
  "sample_index = [0x00, 0x10, 0, 0, 0xb0, 0xb0, 0x01, 0x80,  0x38, 0x10, 0, 0, 1, 0, 0, 0,  0x70, 0x10, 0, 0, 1, 0, 0, 0]"

definition index_generator :: generator where
  "index_generator =
     \<lparr>gen_arm = True, gen_memory = Some (MemoryBuffer_Read sample_index), gen_gnu_memory = None,
      gen_process_memory = (\<lambda>_ _. []), gen_order = (\<lambda>_. [])\<rparr>"

definition index_info :: frame_info where
  "index_info = \<lparr>fi_offset = 0, fi_section_bias = 0, fi_size = 3\<rparr>"

lemma sample_index_entries:
  "map (\<lambda>i. GetPrel31Addr (Read32 (MemoryBuffer_Read sample_index)) (i * 8)) [0, 1, 2] = [Some 0x1000, Some 0x1040, Some 0x1080]"
  "map (\<lambda>i. decode_exidx_entry (Read32 (MemoryBuffer_Read sample_index)) False (i * 8)) [0, 1, 2]
     = [Inr (Some [0xA00000008]), Inr None, Inr None]"
  by code_simp+

lemma sample_index_table:
  "case DecodeExidxEntriesInstr index_generator index_info (new_context True False) [] of
     Inl f \<Rightarrow> False
   | Inr (ctx, es) \<Rightarrow> \<not> memory_overwhelmed ctx \<and> es = [(0x1000, 0x1080, [0xA00000008])]"
  by code_simp

lemma sample_index_holds:
  "index_holds (Read32 (MemoryBuffer_Read sample_index)) False 0 3 (nth [0x1000, 0x1040, 0x1080])
     (nth [Some [0xA00000008], None, None])"
proof -
  have all: "(\<forall>i < 3. P i) \<longleftrightarrow> P 0 \<and> P 1 \<and> P (2 :: nat)" for P
    by (auto simp: less_Suc_eq numeral_3_eq_3 numeral_2_eq_2)
  have "[0x1000, 0x1040, 0x1080 :: u32] ! i < [0x1000, 0x1040, 0x1080] ! j" if "i < j" "j < 3" for i j :: nat
    using that by (auto simp: less_Suc_eq numeral_3_eq_3)
  then show ?thesis
    unfolding index_holds_def all using sample_index_entries by simp
qed

theorem exidx_table_ranges_witness:
  "\<exists>ctx es. DecodeExidxEntriesInstr index_generator index_info (new_context True False) [] = Inr (ctx, es)
     \<and> range_at 0x1050 es = Some [0xA00000008]"
proof -
  obtain ctx es where r: "DecodeExidxEntriesInstr index_generator index_info (new_context True False) [] = Inr (ctx, es)"
    "\<not> memory_overwhelmed ctx"
    using sample_index_table by (auto split: sum.splits)
  have "range_at 0x1050 es = (if (0x1050 :: u64) < ucast (nth [0x1000, 0x1040, 0x1080 :: u32] (3 - 1))
      then last_decoded 0x1050 (map (\<lambda>i. (nth [0x1000, 0x1040, 0x1080] i, nth [Some [0xA00000008], None, None] i)) [0..<3 - 1]) None
      else None)"
    using exidx_table_ranges [OF _ _ _ _ r, of "MemoryBuffer_Read sample_index" 3] sample_index_holds
    by (simp add: index_generator_def index_info_def new_context_def)
  then show ?thesis using r(1) by (simp add: upt_rec)
qed

end
