(* ===== verification/Fp_Unwinder.thy ===== *)
theory Fp_Unwinder
  imports Qut_Prelude
begin

text \<open>
  \<open>FpUnwind\<close> of \<^verbatim>\<open>FpUnwinder.cpp\<close>: unwinding along the frame pointers that the
  functions store on the stack.  The result is described by the chain of frames in memory, and no read
  leaves the stack.
\<close>

section \<open>The code\<close>

text \<open>
  \<open>sizeof(uptr)\<close>.  \<open>mem\<close> is a read of a word through a pointer; it is \<open>None\<close> where the address may not
  be read.  \<open>arm\<close> is \<open>__arm__\<close>.
\<close>

definition uptr_size :: "'w::len itself \<Rightarrow> nat" where
  "uptr_size t = LENGTH('w) div 8"

abbreviation uptr_bytes :: "'w::len word" where
  "uptr_bytes \<equiv> of_nat (uptr_size TYPE('w))"

definition IsValidFrame :: "'w::len word \<Rightarrow> 'w word \<Rightarrow> 'w word \<Rightarrow> bool" where
  "IsValidFrame frame stack_top stack_bottom \<longleftrightarrow> frame > stack_bottom \<and> frame < stack_top - 2 * uptr_bytes"

definition load :: "('w::len word \<Rightarrow> 'w word option) \<Rightarrow> 'w word \<Rightarrow> fault + 'w word" where
  "load mem addr = (case mem addr of None \<Rightarrow> Inl ReadPastEnd | Some v \<Rightarrow> Inr v)"

definition GetCanonicFrame ::
  "bool \<Rightarrow> ('w::len word \<Rightarrow> 'w word option) \<Rightarrow> 'w word \<Rightarrow> 'w word \<Rightarrow> 'w word \<Rightarrow> fault + 'w word" where
  "GetCanonicFrame arm mem fp stack_top stack_bottom =
     (if stack_top < stack_bottom then Inr 0
      else if arm
      then (if \<not> IsValidFrame fp stack_top stack_bottom then Inr 0
            else (case load mem fp of
                    Inl f \<Rightarrow> Inl f
                  | Inr v \<Rightarrow>
                      if IsValidFrame v stack_top stack_bottom then Inr fp
                      else (case load mem (fp - uptr_bytes) of
                              Inl f \<Rightarrow> Inl f
                            | Inr v \<Rightarrow>
                                if IsValidFrame v stack_top stack_bottom then Inr (fp - uptr_bytes) else Inr fp)))
      else Inr fp)"

definition IsAligned :: "'w::len word \<Rightarrow> 'w word \<Rightarrow> bool" where
  "IsAligned a alignment \<longleftrightarrow> a AND (alignment - 1) = 0"

text \<open>
  The loop.  \<open>out\<close> is the part of the backtrace that is filled, so that its length is \<open>frame_size\<close>.  It ends
  because the lowest possible frame moves up.
\<close>

function fp_loop ::
  "bool \<Rightarrow> ('w::len word \<Rightarrow> 'w word option) \<Rightarrow> nat \<Rightarrow> 'w word \<Rightarrow> 'w word \<Rightarrow> 'w word \<Rightarrow> 'w word
     \<Rightarrow> 'w word list \<Rightarrow> fault + 'w word list" where
  "fp_loop arm mem frame_max_size pc stack_top frame bottom out =
     (if IsValidFrame frame stack_top bottom \<and> IsAligned frame uptr_bytes \<and> length out < frame_max_size
      then (case load mem (frame + uptr_bytes) of
              Inl f \<Rightarrow> Inl f
            | Inr pc1 \<Rightarrow>
                if pc1 < 4096 then Inr out
                else (let out' = (if pc1 \<noteq> pc then out @ [frame_pc arm pc1] else out)
                      in case load mem frame of
                           Inl f \<Rightarrow> Inl f
                         | Inr fp \<Rightarrow>
                             (case GetCanonicFrame arm mem fp stack_top frame of
                                Inl f \<Rightarrow> Inl f
                              | Inr frame' \<Rightarrow> fp_loop arm mem frame_max_size pc stack_top frame' frame out')))
      else Inr out)"
  by pat_completeness auto
termination
proof (relation "measure (\<lambda>(arm, mem, n, pc, stack_top, frame, bottom, out). 2 ^ size bottom - unat bottom)", goal_cases)
  case (2 arm mem n pc stack_top frame bottom out pc1 out' fp frame')
  then have "unat bottom < unat frame" by (simp add: IsValidFrame_def word_less_nat_alt)
  moreover have "unat frame < 2 ^ size bottom"
    using unsigned_less [of frame] by (simp add: word_size)
  ultimately show ?case by (simp add: word_size diff_less_mono2)
qed simp

declare fp_loop.simps [simp del]

text \<open>The first frame is written whatever the capacity is.\<close>

definition fpUnwindImpl ::
  "bool \<Rightarrow> ('w::len word \<Rightarrow> 'w word option) \<Rightarrow> 'w word \<Rightarrow> 'w word \<Rightarrow> 'w word \<Rightarrow> 'w word \<Rightarrow> nat
     \<Rightarrow> fault + 'w word list" where
  "fpUnwindImpl arm mem pc fp stack_top stack_bottom frame_max_size =
     (if frame_max_size = 0 then Inl WritePastEnd
      else if stack_top < 4096 then Inr [frame_pc arm pc]
      else (case GetCanonicFrame arm mem fp stack_top stack_bottom of
              Inl f \<Rightarrow> Inl f
            | Inr frame \<Rightarrow> fp_loop arm mem frame_max_size pc stack_top frame stack_bottom [frame_pc arm pc]))"

text \<open>The stack of the thread comes from \<open>pthread_getattr_ext\<close>; \<open>regs\<close> are the minimal registers.\<close>

definition FpUnwind ::
  "bool \<Rightarrow> ('w::len word \<Rightarrow> 'w word option) \<Rightarrow> 'w word \<Rightarrow> 'w word \<Rightarrow> (nat \<Rightarrow> 'w word) \<Rightarrow> nat \<Rightarrow> fault + 'w word list" where
  "FpUnwind arm mem stack_base stack_size regs max_size =
     fpUnwindImpl arm mem (regs 3) (regs 0) (stack_base + stack_size) stack_base max_size"

section \<open>The chain of frames\<close>

text \<open>
  The frames from one on: a frame ends the chain when it is not a possible one or when its return
  address lies in the first page; otherwise the word at the frame points to the next one.
\<close>

inductive fp_chain ::
  "bool \<Rightarrow> ('w::len word \<Rightarrow> 'w word option) \<Rightarrow> 'w word \<Rightarrow> 'w word \<Rightarrow> 'w word \<Rightarrow> 'w word list \<Rightarrow> bool"
  for arm mem stack_top where
  chain_end: "\<not> (IsValidFrame frame stack_top bottom \<and> IsAligned frame uptr_bytes)
    \<Longrightarrow> fp_chain arm mem stack_top bottom frame []"
| chain_low: "IsValidFrame frame stack_top bottom \<Longrightarrow> IsAligned frame uptr_bytes
    \<Longrightarrow> mem (frame + uptr_bytes) = Some r \<Longrightarrow> r < 4096 \<Longrightarrow> fp_chain arm mem stack_top bottom frame []"
| chain_step: "IsValidFrame frame stack_top bottom \<Longrightarrow> IsAligned frame uptr_bytes
    \<Longrightarrow> mem (frame + uptr_bytes) = Some r \<Longrightarrow> \<not> r < 4096 \<Longrightarrow> mem frame = Some fp
    \<Longrightarrow> GetCanonicFrame arm mem fp stack_top frame = Inr frame' \<Longrightarrow> fp_chain arm mem stack_top frame frame' fs
    \<Longrightarrow> fp_chain arm mem stack_top bottom frame (frame # fs)"

definition return_addresses :: "('w::len word \<Rightarrow> 'w word option) \<Rightarrow> 'w word list \<Rightarrow> 'w word list" where
  "return_addresses mem fs = map (\<lambda>f. the (mem (f + uptr_bytes))) fs"

lemma fp_loop_follows:
  assumes "fp_chain arm mem stack_top bottom frame fs" "length out \<le> n"
  shows "fp_loop arm mem n pc stack_top frame bottom out
     = Inr (take n (out @ map (frame_pc arm) (filter (\<lambda>r. r \<noteq> pc) (return_addresses mem fs))))"
  using assms
proof (induction arbitrary: out rule: fp_chain.induct)
  case (chain_end frame bottom)
  then show ?case by (subst fp_loop.simps) (auto simp: return_addresses_def)
next
  case (chain_low frame bottom r)
  then show ?case by (subst fp_loop.simps) (simp add: return_addresses_def load_def)
next
  case (chain_step frame bottom r fp frame' fs)
  show ?case
  proof (cases "length out < n")
    case True
    let ?out = "if r \<noteq> pc then out @ [frame_pc arm r] else out"
    have "length ?out \<le> n" using True by simp
    from chain_step.IH [OF this] show ?thesis
      using True chain_step.hyps Suc_diff_Suc [OF True]
      by (subst fp_loop.simps) (auto simp: return_addresses_def load_def Let_def take_Suc_Cons [symmetric])
  next
    case False
    then show ?thesis using chain_step.prems by (subst fp_loop.simps) simp
  qed
qed

text \<open>
  The stack can be read: every word that lies between the bounds.  Nothing is said of other memory, so that what holds under this condition
  holds when nothing else can be read.
\<close>

definition stack_readable :: "('w::len word \<Rightarrow> 'w word option) \<Rightarrow> 'w word \<Rightarrow> 'w word \<Rightarrow> bool" where
  "stack_readable mem bottom stack_top \<longleftrightarrow>
     (\<forall>a. unat bottom \<le> unat a \<and> unat a + uptr_size TYPE('w) \<le> unat stack_top \<longrightarrow> mem a \<noteq> None)"

lemma uptr_small:
  fixes stack_top :: "'w::len word"
  assumes "LENGTH('w) \<le> 64" "4096 \<le> unat stack_top"
  shows "uptr_size TYPE('w) \<le> 8" "unat (uptr_bytes :: 'w word) = uptr_size TYPE('w)"
    "unat (stack_top - 2 * uptr_bytes) = unat stack_top - 2 * uptr_size TYPE('w)"
proof -
  show small: "uptr_size TYPE('w) \<le> 8" using assms(1) by (simp add: uptr_size_def)
  have big: "4096 < (2 ^ LENGTH('w) :: nat)"
    using assms(2) unsigned_less [of stack_top, where 'a = nat] by linarith
  then show "unat (uptr_bytes :: 'w word) = uptr_size TYPE('w)"
    using small by (simp add: unsigned_of_nat take_bit_nat_eq_self)
  have two: "unat (2 * uptr_bytes :: 'w word) = 2 * uptr_size TYPE('w)"
  proof -
    have "2 * uptr_bytes = (of_nat (2 * uptr_size TYPE('w)) :: 'w word)" by simp
    then show ?thesis using small big by (simp add: unsigned_of_nat take_bit_nat_eq_self del: of_nat_mult)
  qed
  then have "2 * uptr_bytes \<le> stack_top" using small assms(2) by (simp add: word_le_nat_alt)
  then show "unat (stack_top - 2 * uptr_bytes) = unat stack_top - 2 * uptr_size TYPE('w)"
    using two by (simp add: unat_sub)
qed

text \<open>Frames that can be valid, as numbers.\<close>

definition big_stack :: "'w::len word \<Rightarrow> bool" where
  "big_stack stack_top \<longleftrightarrow> LENGTH('w) \<le> 64 \<and> 4096 \<le> unat stack_top"

lemma IsValidFrame_nat:
  fixes stack_top :: "'w::len word"
  assumes "big_stack stack_top"
  shows "IsValidFrame frame stack_top bottom \<longleftrightarrow>
    unat bottom < unat frame \<and> unat frame + 2 * uptr_size TYPE('w) < unat stack_top"
  using uptr_small [of stack_top] assms by (auto simp: IsValidFrame_def word_less_nat_alt big_stack_def)

lemma fp_chain_inside:
  assumes "fp_chain arm mem stack_top bottom frame fs" "big_stack (stack_top :: 'w::len word)"
  shows "sorted_wrt (<) (bottom # fs) \<and> (\<forall>f \<in> set fs. unat f + 2 * uptr_size TYPE('w) < unat stack_top)"
  using assms
proof (induction rule: fp_chain.induct)
  case (chain_step frame bottom r fp frame' fs)
  then have "bottom < frame" "unat frame + 2 * uptr_size TYPE('w) < unat stack_top"
    by (simp_all add: IsValidFrame_nat word_less_nat_alt)
  then show ?case using chain_step by (auto intro: less_trans)
qed simp_all

text \<open>
  On ARM the search for the layout of the compiler looks at the word before a frame without asking whether that is
  still the stack.
\<close>

lemma GetCanonicFrame_reads:
  fixes stack_top :: "'w::len word"
  assumes "stack_readable mem stack_base stack_top" "big_stack stack_top" "stack_base \<le> bottom"
    and "arm \<Longrightarrow> bottom < fp \<Longrightarrow> unat stack_base + uptr_size TYPE('w) \<le> unat fp"
  shows "\<exists>frame. GetCanonicFrame arm mem fp stack_top bottom = Inr frame"
proof (cases "arm \<and> IsValidFrame fp stack_top bottom")
  case True
  note small = uptr_small [of stack_top]
  have valid: "bottom < fp" "unat fp + 2 * uptr_size TYPE('w) < unat stack_top"
    using True assms(2) by (simp_all add: IsValidFrame_nat word_less_nat_alt)
  have room: "unat stack_base + uptr_size TYPE('w) \<le> unat fp" using True valid(1) assms(4) by blast
  then have "uptr_bytes \<le> fp"
    using small(2) assms(2) by (simp add: big_stack_def word_le_nat_alt)
  then have below: "unat (fp - uptr_bytes) = unat fp - uptr_size TYPE('w)"
    using small(2) assms(2) by (simp add: big_stack_def unat_sub)
  have "mem fp \<noteq> None" "mem (fp - uptr_bytes) \<noteq> None"
    using assms(1) room valid(2) unfolding stack_readable_def by (auto simp: below simp del: not_None_eq)
  then show ?thesis by (auto simp: GetCanonicFrame_def load_def)
qed (auto simp: GetCanonicFrame_def)

text \<open>Above the base of the stack, an aligned frame is a word away from it, if the base is aligned.\<close>

lemma aligned_frame_above:
  fixes frame :: "'w::len word"
  assumes "LENGTH('w) = 32" "IsAligned frame uptr_bytes" "4 dvd unat stack_base" "stack_base < frame"
  shows "unat stack_base + uptr_size TYPE('w) \<le> unat frame"
proof -
  have "uptr_bytes - 1 = (mask 2 :: 'w word)" using assms(1) by (simp add: uptr_size_def mask_eq_exp_minus_1)
  then have "take_bit 2 frame = 0" using assms(2) by (simp add: IsAligned_def take_bit_eq_mask)
  then have "take_bit 2 (unat frame) = 0" by (metis unsigned_take_bit_eq unsigned_0)
  then have "4 dvd unat frame" by (simp add: take_bit_eq_mod mod_eq_0_iff_dvd)
  then obtain j k where jk: "unat frame = 4 * j" "unat stack_base = 4 * k" using assms(3) by (auto elim!: dvdE)
  have "k < j" using assms(4) unfolding word_less_nat_alt jk by simp
  then show ?thesis using assms(1) jk by (simp add: uptr_size_def)
qed

lemma fp_chain_exists:
  fixes stack_top :: "'w::len word"
  assumes "stack_readable mem stack_base stack_top" "big_stack stack_top"
    and "arm \<Longrightarrow> LENGTH('w) = 32 \<and> 4 dvd unat stack_base"
    and "stack_base \<le> bottom"
  shows "\<exists>fs. fp_chain arm mem stack_top bottom frame fs"
  using assms(4)
proof (induction "unat stack_top - unat bottom" arbitrary: bottom frame rule: less_induct)
  case less
  show ?case
  proof (cases "IsValidFrame frame stack_top bottom \<and> IsAligned frame uptr_bytes")
    case True
    then have valid: "unat bottom < unat frame" "unat frame + 2 * uptr_size TYPE('w) < unat stack_top"
      using assms(2) by (simp_all add: IsValidFrame_nat)
    have above: "stack_base < frame" "stack_base \<le> frame" "unat stack_base \<le> unat frame"
      using valid(1) less.prems by (simp_all add: word_less_nat_alt word_le_nat_alt)
    have "unat frame + uptr_size TYPE('w) < 2 ^ LENGTH('w)"
      using valid(2) unsigned_less [of stack_top, where 'a = nat] by linarith
    then have "unat (frame + uptr_bytes) = unat frame + uptr_size TYPE('w)"
      using uptr_small(2) [of stack_top] assms(2) by (simp add: big_stack_def unat_word_ariths)
    then have "mem (frame + uptr_bytes) \<noteq> None" "mem frame \<noteq> None"
      using assms(1) valid(2) above(3) unfolding stack_readable_def by (simp_all del: not_None_eq)
    then obtain r fp where r: "mem (frame + uptr_bytes) = Some r" "mem frame = Some fp" by blast
    have "unat stack_base + uptr_size TYPE('w) \<le> unat fp" if arm "frame < fp"
      using aligned_frame_above [of frame stack_base] assms(3) [OF that(1)] True above(1) that(2)
      by (simp add: word_less_nat_alt)
    then obtain frame' where next': "GetCanonicFrame arm mem fp stack_top frame = Inr frame'"
      using GetCanonicFrame_reads [OF assms(1,2) above(2)] by blast
    have "\<exists>fs. fp_chain arm mem stack_top frame frame' fs"
      using valid above(2) by (intro less.hyps) auto
    then show ?thesis using True r next' by (meson chain_low chain_step)
  next
    case False
    then show ?thesis by (auto intro: chain_end)
  qed
qed

text \<open>
  C28. Unwinding along frame pointers.  Let the words of the stack be readable, and maybe no others.  Then the unwinder returns
  without reading where it may not, and the backtrace is the program counter followed by the return addresses in the frames of
  the chain that starts at the frame pointer, up to the capacity; return addresses equal to the program
  counter are left out, and on aarch64 an entry keeps 56 bits.  The frames of the chain lie inside the stack and go up.
  On ARM this takes a stack whose base is aligned, and a frame pointer that is not one to three bytes above the base:
  there the unwinder does read below the stack (\<open>first_frame_reads_below_stack\<close>).
\<close>

theorem FpUnwind_follows_frames:
  fixes stack_base :: "'w::len word"
  assumes "stack_readable mem stack_base (stack_base + stack_size)" "big_stack (stack_base + stack_size)"
    and "arm \<Longrightarrow> LENGTH('w) = 32 \<and> 4 dvd unat stack_base
           \<and> \<not> (unat stack_base < unat (regs 0) \<and> unat (regs 0) < unat stack_base + 4)"
    and "0 < max_size"
  shows "\<exists>frame fs. GetCanonicFrame arm mem (regs 0) (stack_base + stack_size) stack_base = Inr frame
    \<and> fp_chain arm mem (stack_base + stack_size) stack_base frame fs
    \<and> sorted_wrt (<) (stack_base # fs) \<and> (\<forall>f \<in> set fs. unat f + 2 * uptr_size TYPE('w) < unat (stack_base + stack_size))
    \<and> FpUnwind arm mem stack_base stack_size regs max_size
        = Inr (take max_size (map (frame_pc arm) (regs 3 # filter (\<lambda>r. r \<noteq> regs 3) (return_addresses mem fs))))"
proof -
  let ?top = "stack_base + stack_size"
  have "unat stack_base + uptr_size TYPE('w) \<le> unat (regs 0)" if arm "stack_base < regs 0"
    using assms(3) [OF that(1)] that(2) by (simp add: word_less_nat_alt uptr_size_def)
  then obtain frame where frame: "GetCanonicFrame arm mem (regs 0) ?top stack_base = Inr frame"
    using GetCanonicFrame_reads [OF assms(1,2) order_refl] by blast
  have "\<exists>fs. fp_chain arm mem ?top stack_base frame fs"
    by (rule fp_chain_exists [OF assms(1,2)]) (use assms(3) in auto)
  then obtain fs where fs: "fp_chain arm mem ?top stack_base frame fs" by blast
  have "\<not> ?top < 4096"
  proof -
    have "unat (4096 :: 'w word) \<le> 4096" using take_bit_nat_less_eq_self [of "LENGTH('w)" 4096] by (simp add: unsigned_numeral)
    then show ?thesis using assms(2) unfolding big_stack_def word_less_nat_alt by linarith
  qed
  then have "FpUnwind arm mem stack_base stack_size regs max_size
      = Inr (take max_size ([frame_pc arm (regs 3)] @ map (frame_pc arm) (filter (\<lambda>r. r \<noteq> regs 3) (return_addresses mem fs))))"
    using frame fp_loop_follows [OF fs, of "[frame_pc arm (regs 3)]" max_size "regs 3"] assms(4)
    by (simp add: FpUnwind_def fpUnwindImpl_def)
  then show ?thesis using frame fs fp_chain_inside [OF fs assms(2)] by auto
qed

text \<open>Two frames on a stack of eight kilobytes; the second return address ends the chain.\<close>

definition sample_frames :: "u32 \<Rightarrow> u32 option" where
  "sample_frames a =
     (if unat a < 0x1000 \<or> 0x3000 < unat a + 4 then None
      else Some (if a = 0x2000 then 0x2040 else if a = 0x2004 then 0x7100 else if a = 0x2044 then 0x7200
                 else if a = 0x2040 then 0x2080 else if a = 0x2084 then 0x10 else 0))"

lemma sample_frames_readable: "stack_readable sample_frames 0x1000 (0x1000 + 0x2000)"
  by (auto simp: stack_readable_def sample_frames_def uptr_size_def)

theorem FpUnwind_follows_frames_witness:
  "\<exists>fs. fp_chain True sample_frames 0x3000 0x1000 0x2000 fs
     \<and> FpUnwind True sample_frames 0x1000 0x2000 (\<lambda>r. if r = 0 then 0x2000 else 0x7000) 8
         = Inr (take 8 (map (frame_pc True) (0x7000 # filter (\<lambda>r. r \<noteq> 0x7000) (return_addresses sample_frames fs))))"
proof -
  have "big_stack (0x1000 + 0x2000 :: u32)" by (simp add: big_stack_def)
  from FpUnwind_follows_frames [OF sample_frames_readable this, of True "\<lambda>r. if r = 0 then 0x2000 else 0x7000" 8]
  show ?thesis
    by (auto simp: GetCanonicFrame_def IsValidFrame_def uptr_size_def load_def sample_frames_def)
qed

text \<open>The case that is left out: a frame pointer just above the base of the stack makes ARM read below it.\<close>

lemma first_frame_reads_below_stack:
  "FpUnwind True sample_frames 0x1000 0x2000 (\<lambda>r. if r = 0 then 0x1001 else 0x7000) 8 = Inl ReadPastEnd"
  by (simp add: FpUnwind_def fpUnwindImpl_def GetCanonicFrame_def IsValidFrame_def uptr_size_def load_def sample_frames_def)

end
