(* ===== verification/Qut_Utility.thy ===== *)
theory Qut_Utility
  imports Qut_Prelude
begin

text \<open>
  The string helpers of \<^verbatim>\<open>include/QuickenUtility.h\<close>: names of libraries and the printable form of
  a build id.  A string is a list of characters; a \<open>char\<close> is unsigned, as it is on ARM.
\<close>

section \<open>Suffixes and prefixes\<close>

definition HasSuffix :: "string \<Rightarrow> string \<Rightarrow> bool" where
  "HasSuffix str suffix' \<longleftrightarrow>
     length str \<ge> length suffix' \<and> take (length suffix') (drop (length str - length suffix') str) = suffix'"

definition EndsWith :: "string \<Rightarrow> string \<Rightarrow> bool" where
  "EndsWith value ending =
     (if length ending > length value then False
      else take (length ending) (rev value) = rev ending)"

definition StartsWith :: "string \<Rightarrow> string \<Rightarrow> bool" where
  "StartsWith s prefix' \<longleftrightarrow> take (length prefix') s = prefix'"

definition RemoveMapsDeleteSuffix :: "string \<Rightarrow> string" where
  "RemoveMapsDeleteSuffix maps_name =
     (if EndsWith maps_name '' (deleted)'' then take (length maps_name - 10) maps_name else maps_name)"

definition IsSoFile :: "string \<Rightarrow> bool" where
  "IsSoFile soname \<longleftrightarrow> EndsWith soname ''.so''"

definition IsOatFile :: "string \<Rightarrow> bool" where
  "IsOatFile soname \<longleftrightarrow> EndsWith soname ''.oat'' \<or> EndsWith soname ''.odex''"

definition IsJitCacheMap :: "string \<Rightarrow> bool" where
  "IsJitCacheMap name \<longleftrightarrow> StartsWith name ''/memfd:jit-cache'' \<or> StartsWith name ''/memfd:/jit-cache''
     \<or> EndsWith name ''jit-code-cache]''"

definition MaybeDexFile :: "string \<Rightarrow> bool" where
  "MaybeDexFile soname \<longleftrightarrow> EndsWith soname ''.jar'' \<or> EndsWith soname ''.apk'' \<or> EndsWith soname ''.vdex''
     \<or> EndsWith soname ''.dex''"

text \<open>
  \<open>find_last_of\<close> is \<open>npos\<close>, the greatest \<open>size_t\<close>, where there is no separator, so that \<open>pos + 1\<close> is 0:
  the whole path is the name.
\<close>

definition SplitSonameFromPath :: "string \<Rightarrow> string" where
  "SplitSonameFromPath sopath = rev (takeWhile (\<lambda>c. c \<noteq> CHR ''/'') (rev sopath))"

lemma EndsWith_iff: "EndsWith value ending \<longleftrightarrow> (\<exists>s. value = s @ ending)"
proof -
  have "EndsWith value ending \<longleftrightarrow> (\<exists>t. rev value = rev ending @ t)"
  proof (cases "length ending \<le> length value")
    case True
    then show ?thesis
      by (auto simp: EndsWith_def not_less) (metis append_take_drop_id)
  next
    case False
    then show ?thesis by (auto simp: EndsWith_def dest: arg_cong [of _ _ length])
  qed
  also have "\<dots> \<longleftrightarrow> (\<exists>s. value = s @ ending)"
    by (metis rev_append rev_rev_ident)
  finally show ?thesis .
qed

lemma HasSuffix_EndsWith: "HasSuffix str suffix' = EndsWith str suffix'"
  unfolding EndsWith_iff
  by (auto simp: HasSuffix_def) (metis append_take_drop_id diff_diff_cancel length_drop take_all_iff order_refl)

lemma StartsWith_iff: "StartsWith s prefix' \<longleftrightarrow> (\<exists>t. s = prefix' @ t)"
  by (auto simp: StartsWith_def) (metis append_take_drop_id)

lemma RemoveMapsDeleteSuffix_deleted [simp]: "RemoveMapsDeleteSuffix (name @ '' (deleted)'') = name"
  by (simp add: RemoveMapsDeleteSuffix_def EndsWith_iff)

lemma SplitSonameFromPath_path:
  "CHR ''/'' \<notin> set soname \<Longrightarrow> SplitSonameFromPath (dir @ ''/'' @ soname) = soname"
  by (simp add: SplitSonameFromPath_def takeWhile_append)

section \<open>Numbers and build ids as text\<close>

text \<open>\<open>std::to_string\<close> of a number that is not negative.\<close>

fun to_string :: "nat \<Rightarrow> string" where
  "to_string n = (if n < 10 then [char_of (48 + n)] else to_string (n div 10) @ [char_of (48 + n mod 10)])"

declare to_string.simps [simp del]

definition HexChars :: string where
  "HexChars = ''0123456789ABCDEF''"

definition ToBuildId :: "string \<Rightarrow> string" where
  "ToBuildId build_id_raw =
     concat (map (\<lambda>c. let n = of_char c :: u32
                     in [HexChars ! (unat (drop_bit 4 n) mod 16), HexChars ! (unat n mod 16)]) build_id_raw)"

end
