(* ===== verification/Table_Manager.thy ===== *)
theory Table_Manager
  imports Quicken_Interface Dwarf_Memory Qut_Utility
begin

text \<open>
  \<open>QuickenTableManager\<close> of \<^verbatim>\<open>QuickenTableManager.cpp\<close> and
  \<^verbatim>\<open>QuickenTableManager.h\<close>: unwind tables in files, and the record of which tables are loaded
  and which are asked for.  Saving and loading are shown to be a round trip, and the record to be
  consistent in every state that can be reached.
\<close>

section \<open>Files\<close>

text \<open>
  The part of the file system that the manager sees: files and symbolic links by name.  A name resolves
  through at most 40 links, as in Linux.  \<open>rename\<close> moves a name, and succeeds where it exists.
\<close>

datatype file_node = File "u8 list" | Link string

type_synonym file_system = "string \<Rightarrow> file_node option"

primrec resolve :: "nat \<Rightarrow> file_system \<Rightarrow> string \<Rightarrow> u8 list option" where
  "resolve 0 fs name = (case fs name of Some (File bs) \<Rightarrow> Some bs | _ \<Rightarrow> None)"
| "resolve (Suc n) fs name =
     (case fs name of Some (File bs) \<Rightarrow> Some bs | Some (Link target) \<Rightarrow> resolve n fs target | None \<Rightarrow> None)"

definition read_file :: "file_system \<Rightarrow> string \<Rightarrow> u8 list option" where
  "read_file = resolve 40"

definition rename_file :: "string \<Rightarrow> string \<Rightarrow> file_system \<Rightarrow> bool \<times> file_system" where
  "rename_file old new fs =
     (case fs old of None \<Rightarrow> (False, fs) | Some node \<Rightarrow> (True, fs(old := None, new := Some node)))"

definition symlink :: "string \<Rightarrow> string \<Rightarrow> file_system \<Rightarrow> file_system" where
  "symlink target name fs = (if fs name = None then fs(name := Some (Link target)) else fs)"

text \<open>
  What else the system decides: the time, whether the calls that may fail do, and how many bytes reach
  the file that is written.
\<close>

record os_env =
  now :: nat
  open_ok :: bool
  fstat_ok :: bool
  mmap_ok :: bool
  written :: nat

definition ToQutFileName :: "string \<Rightarrow> string \<Rightarrow> string \<Rightarrow> string" where
  "ToQutFileName saving_path soname build_id = saving_path @ ''/'' @ soname @ ''.'' @ build_id"

definition ToTempQutFileName :: "nat \<Rightarrow> string \<Rightarrow> string \<Rightarrow> string \<Rightarrow> string" where
  "ToTempQutFileName seconds saving_path soname build_id =
     saving_path @ ''/'' @ soname @ ''.'' @ build_id @ ''_temp_'' @ to_string seconds"

definition ToSymbolicQutFileName :: "string \<Rightarrow> string \<Rightarrow> string \<Rightarrow> string" where
  "ToSymbolicQutFileName saving_path soname hash = saving_path @ ''/'' @ soname @ ''.hash.'' @ hash"

definition RenameToMalformed :: "nat \<Rightarrow> string \<Rightarrow> file_system \<Rightarrow> file_system" where
  "RenameToMalformed seconds qut_file_name fs =
     snd (rename_file qut_file_name (qut_file_name @ ''_malformed_'' @ to_string seconds) fs)"

section \<open>The file format\<close>

text \<open>
  \<open>QutSections\<close> with the flags that the manager uses.  \<open>size_t\<close> and \<open>uptr\<close> have the width of \<open>'w\<close>.
\<close>

record 'v owned_sections = "'v qut_sections" +
  load_from_file :: bool
  native_only :: bool

definition word_size_of :: "'w::len itself \<Rightarrow> nat" where
  "word_size_of t = LENGTH('w) div 8"

abbreviation size_bytes :: "'w::len word \<Rightarrow> u8 list" where
  "size_bytes v \<equiv> le_bytes (word_size_of TYPE('w)) v"

definition QUT_NATIVE_ONLY_MASK :: "'w::len word" where
  "QUT_NATIVE_ONLY_MASK = 0x1000000"

definition QUT_VERSION :: "'w::len word" where
  "QUT_VERSION = 1"

definition QUT_NATIVE_ONLY_VERSION :: "'w::len word" where
  "QUT_NATIVE_ONLY_VERSION = QUT_NATIVE_ONLY_MASK OR QUT_VERSION"

definition CURRENT_ARCH_ENUM :: "bool \<Rightarrow> 'w::len word" where
  "CURRENT_ARCH_ENUM arm = (if arm then 1 else 2)"

text \<open>The bytes that \<open>SaveQutSections\<close> writes; sections shorter than their sizes are read past their end.\<close>

definition qut_file_header :: "bool \<Rightarrow> 'w::len word owned_sections \<Rightarrow> u8 list" where
  "qut_file_header arm sections =
     (let qut_version = if native_only sections then QUT_NATIVE_ONLY_VERSION else QUT_VERSION :: 'w word;
          idx_size' = of_nat (idx_size sections) :: 'w word;
          tbl_size' = of_nat (tbl_size sections) :: 'w word;
          width = of_nat (word_size_of TYPE('w)) :: 'w word;
          offset = 4 * width;
          idx_offset = offset + width * 2;
          tbl_offset = idx_offset + idx_size' * width
      in size_bytes qut_version @ size_bytes (CURRENT_ARCH_ENUM arm :: 'w word)
         @ size_bytes idx_size' @ size_bytes tbl_size' @ size_bytes idx_offset @ size_bytes tbl_offset)"

definition qut_file_bytes :: "bool \<Rightarrow> 'w::len word owned_sections \<Rightarrow> fault + u8 list" where
  "qut_file_bytes arm sections =
     (if length (quidx sections) < idx_size sections \<or> length (qutbl sections) < tbl_size sections
      then Inl ReadPastEnd
      else Inr (qut_file_header arm sections
                @ concat (map size_bytes (take (idx_size sections) (quidx sections)))
                @ concat (map size_bytes (take (tbl_size sections) (qutbl sections)))))"

text \<open>A word of the mapped file, and an array of them as far as the file goes.\<close>

definition file_word :: "u8 list \<Rightarrow> nat \<Rightarrow> 'w::len word" where
  "file_word data offset = le_word (take (word_size_of TYPE('w)) (drop offset data))"

definition words_at :: "u8 list \<Rightarrow> 'w::len word \<Rightarrow> 'w word \<Rightarrow> 'w word list" where
  "words_at data offset n =
     map (\<lambda>i. file_word data (unat offset + i * word_size_of TYPE('w)))
       [0..<min (unat n) ((length data - unat offset) div word_size_of TYPE('w))]"

text \<open>
  The checks of \<open>TryLoadQutFile\<close> on the mapped file, and the sections over it.  The second component of a
  failure is whether the file is moved out of the way.
\<close>

definition read_qut_file ::
  "bool \<Rightarrow> bool \<Rightarrow> u8 list \<Rightarrow> (QutFileError \<times> bool) + 'w::len word owned_sections" where
  "read_qut_file arm mapped data =
     (let width = word_size_of TYPE('w)
      in if length data < 6 * width then Inl (FileTooShort, True)
         else if \<not> mapped then Inl (MmapFailed, False)
         else (let qut_version = file_word data 0 :: 'w word
               in if qut_version \<noteq> QUT_VERSION \<and> qut_version \<noteq> QUT_NATIVE_ONLY_VERSION
                  then Inl (QutVersionNotMatch, True)
                  else if file_word data width \<noteq> (CURRENT_ARCH_ENUM arm :: 'w word) then Inl (ArchNotMatch, True)
                  else (let idx_size' = file_word data (2 * width) :: 'w word;
                            tbl_size' = file_word data (3 * width) :: 'w word;
                            idx_offset = file_word data (4 * width) :: 'w word;
                            tbl_offset = file_word data (5 * width) :: 'w word
                        in if length data \<noteq> unat (tbl_offset + tbl_size' * of_nat width)
                           then Inl (FileLengthNotMatch, True)
                           else Inr \<lparr>quidx = words_at data idx_offset idx_size',
                                     qutbl = words_at data tbl_offset tbl_size',
                                     idx_size = unat idx_size', tbl_size = unat tbl_size',
                                     load_from_file = True,
                                     native_only = (qut_version AND QUT_NATIVE_ONLY_MASK \<noteq> 0)\<rparr>)))"


section \<open>The manager\<close>

text \<open>
  \<open>'i\<close> is a pointer to an interface.  A pointer to sections may be null.  The static members are fields like
  the others; the underscore at the end of a name is dropped.
\<close>

record ('v, 'i) table_manager =
  sSavingPath :: string
  sHasWarmedUp :: bool
  qut_sections_map :: "string \<Rightarrow> 'v owned_sections option option"
  qut_sections_requesting :: "string \<Rightarrow> (u64 \<times> string) option"
  qut_sections_hash_to_build_id :: "string \<Rightarrow> string option"
  qut_sections_hash_to_interface :: "string \<Rightarrow> 'i option option"

definition new_table_manager :: "('v, 'i) table_manager" where
  "new_table_manager =
     \<lparr>sSavingPath = '''', sHasWarmedUp = False, qut_sections_map = Map.empty, qut_sections_requesting = Map.empty,
      qut_sections_hash_to_build_id = Map.empty, qut_sections_hash_to_interface = Map.empty\<rparr>"

definition SetSavingPath :: "bool \<Rightarrow> string \<Rightarrow> ('v, 'i) table_manager \<Rightarrow> ('v, 'i) table_manager" where
  "SetSavingPath arm saving_path m = m\<lparr>sSavingPath := saving_path @ (if arm then ''arm32'' else ''arm64'')\<rparr>"

definition WarmUp :: "bool \<Rightarrow> ('v, 'i) table_manager \<Rightarrow> ('v, 'i) table_manager" where
  "WarmUp warm_up m = m\<lparr>sHasWarmedUp := warm_up\<rparr>"

definition GetRequestQut :: "('v, 'i) table_manager \<Rightarrow> string \<Rightarrow> (u64 \<times> string) option" where
  "GetRequestQut m = qut_sections_requesting m"

text \<open>
  \<open>InsertQutSectionsNoLock\<close> takes the pointer by reference and sets it to null when the map has taken the
  sections; the result holds the pointer as it is afterwards.
\<close>

definition InsertQutSectionsNoLock ::
  "string \<Rightarrow> string \<Rightarrow> 'v owned_sections option \<Rightarrow> bool \<Rightarrow> ('v, 'i) table_manager
     \<Rightarrow> fault + (bool \<times> 'v owned_sections option \<times> ('v, 'i) table_manager)" where
  "InsertQutSectionsNoLock hash build_id qut_sections immediately m =
     (case qut_sections of
        None \<Rightarrow> Inl CheckFailed
      | Some sections \<Rightarrow>
          if idx_size sections = 0 then Inr (False, qut_sections, m)
          else if build_id = '''' then Inr (False, qut_sections, m)
          else if qut_sections_map m build_id \<noteq> None \<and> qut_sections_map m build_id \<noteq> Some None
          then Inr (False, qut_sections, m)
          else (let (left, m1) =
                      (if immediately \<or> qut_sections_requesting m build_id \<noteq> None
                       then (None, m\<lparr>qut_sections_map := (qut_sections_map m)(build_id := Some qut_sections)\<rparr>)
                       else (qut_sections, m))
                in Inr (True, left,
                        m1\<lparr>qut_sections_requesting := (qut_sections_requesting m1)(build_id := None),
                           qut_sections_hash_to_build_id := (qut_sections_hash_to_build_id m1)(hash := None)\<rparr>)))"

definition TryLoadQutFile ::
  "bool \<Rightarrow> os_env \<Rightarrow> string \<Rightarrow> string \<Rightarrow> string \<Rightarrow> bool \<Rightarrow> 'w::len word owned_sections option
     \<Rightarrow> ('w word, 'i) table_manager \<times> file_system
     \<Rightarrow> fault + (QutFileError \<times> 'w word owned_sections option \<times> ('w word, 'i) table_manager \<times> file_system)" where
  "TryLoadQutFile arm os soname hash build_id testOnly qut_sections = (\<lambda>(m, fs).
     let qut_file_name = ToQutFileName (sSavingPath m) soname build_id
     in case (if open_ok os then read_file fs qut_file_name else None) of
          None \<Rightarrow> Inr (OpenFileFailed, qut_sections, m, fs)
        | Some data \<Rightarrow>
            if \<not> fstat_ok os then Inr (FileStateError, qut_sections, m, fs)
            else (case read_qut_file arm (mmap_ok os) data of
                    Inl (err, malformed) \<Rightarrow>
                      Inr (err, qut_sections, m, if malformed then RenameToMalformed (now os) qut_file_name fs else fs)
                  | Inr sections \<Rightarrow>
                      if testOnly then Inr (NoneError, qut_sections, m, fs)
                      else (case InsertQutSectionsNoLock hash build_id (Some sections) True m of
                              Inl f \<Rightarrow> Inl f
                            | Inr (inserted, left, m') \<Rightarrow>
                                if inserted then Inr (NoneError, Some sections, m', fs)
                                else Inr (InsertNewQutFailed, qut_sections, m', fs))))"

definition FindQutSectionsNoLock ::
  "string \<Rightarrow> string \<Rightarrow> string \<Rightarrow> u64 \<Rightarrow> 'v owned_sections option \<Rightarrow> ('v, 'i) table_manager
     \<Rightarrow> QutFileError \<times> 'v owned_sections option \<times> ('v, 'i) table_manager" where
  "FindQutSectionsNoLock sopath hash build_id elf_start_offset qut_sections m =
     (case qut_sections_map m build_id of
        Some found \<Rightarrow> (NoneError, found, m)
      | None \<Rightarrow>
          if qut_sections_requesting m build_id \<noteq> None then (LoadRequesting, qut_sections, m)
          else (NoneError, qut_sections,
                m\<lparr>qut_sections_requesting := (qut_sections_requesting m)(build_id := Some (elf_start_offset, sopath)),
                  qut_sections_hash_to_build_id := (qut_sections_hash_to_build_id m)(hash := Some build_id)\<rparr>))"

definition RequestQutSections ::
  "bool \<Rightarrow> os_env \<Rightarrow> string \<Rightarrow> string \<Rightarrow> string \<Rightarrow> string \<Rightarrow> u64 \<Rightarrow> 'w::len word owned_sections option
     \<Rightarrow> ('w word, 'i) table_manager \<times> file_system
     \<Rightarrow> fault + (QutFileError \<times> 'w word owned_sections option \<times> ('w word, 'i) table_manager \<times> file_system)" where
  "RequestQutSections arm os soname sopath hash build_id elf_start_offset qut_sections = (\<lambda>(m, fs).
     if sSavingPath m = '''' then Inr (NotInitialized, qut_sections, m, fs)
     else if build_id = '''' then Inr (BuildIdNotMatch, qut_sections, m, fs)
     else (case FindQutSectionsNoLock sopath hash build_id elf_start_offset qut_sections m of
             (ret, found, m1) \<Rightarrow>
               if found \<noteq> None \<or> ret \<noteq> NoneError then Inr (ret, found, m1, fs)
               else (case TryLoadQutFile arm os soname hash build_id False found (m1, fs) of
                       Inl f \<Rightarrow> Inl f
                     | Inr (ret, found, m2, fs2) \<Rightarrow>
                         if ret \<noteq> NoneError
                         then Inr (if \<not> sHasWarmedUp m2 then NotWarmedUp else TryInvokeJavaRequestQutGenerate,
                                   found, m2, fs2)
                         else Inr (ret, found, m2, fs2))))"

text \<open>
  \<open>SaveQutSections\<close>.  The name of the temporary file is written over if it exists (\<open>O_TRUNC\<close>), through a
  symbolic link if it is one.
\<close>

primrec link_target :: "nat \<Rightarrow> file_system \<Rightarrow> string \<Rightarrow> string option" where
  "link_target 0 fs name = (case fs name of Some (Link target) \<Rightarrow> None | _ \<Rightarrow> Some name)"
| "link_target (Suc n) fs name =
     (case fs name of Some (Link target) \<Rightarrow> link_target n fs target | _ \<Rightarrow> Some name)"

definition write_file :: "string \<Rightarrow> u8 list \<Rightarrow> file_system \<Rightarrow> file_system option" where
  "write_file name bs fs = map_option (\<lambda>target. fs(target := Some (File bs))) (link_target 40 fs name)"

definition store_qut_file ::
  "os_env \<Rightarrow> string \<Rightarrow> string \<Rightarrow> string \<Rightarrow> string \<Rightarrow> u8 list \<Rightarrow> file_system \<Rightarrow> QutFileError \<times> file_system" where
  "store_qut_file os path soname hash build_id bs fs =
     (let temp_qut_file_name = ToTempQutFileName (now os) path soname build_id;
          qut_file_name = ToQutFileName path soname build_id
      in case (if open_ok os then write_file temp_qut_file_name (take (written os) bs) fs else None) of
           None \<Rightarrow> (OpenFileFailed, fs)
         | Some fs1 \<Rightarrow>
             (let fs2 = RenameToMalformed (now os) qut_file_name fs1;
                  (moved, fs3) = rename_file temp_qut_file_name qut_file_name fs2
              in (NoneError, if moved then symlink qut_file_name (ToSymbolicQutFileName path soname hash) fs3 else fs3)))"

definition SaveQutSections ::
  "bool \<Rightarrow> os_env \<Rightarrow> string \<Rightarrow> string \<Rightarrow> string \<Rightarrow> bool \<Rightarrow> 'w::len word owned_sections option
     \<Rightarrow> ('w word, 'i) table_manager \<times> file_system
     \<Rightarrow> fault + (QutFileError \<times> ('w word, 'i) table_manager \<times> file_system)" where
  "SaveQutSections arm os soname hash build_id only_save_file qut_sections = (\<lambda>(m, fs).
     case qut_sections of
       None \<Rightarrow> Inr (InsertNewQutFailed, m, fs)
     | Some sections \<Rightarrow>
         (case (if only_save_file then Inr (True, qut_sections, m)
                else InsertQutSectionsNoLock hash build_id qut_sections False m) of
            Inl f \<Rightarrow> Inl f
          | Inr (inserted, left, m1) \<Rightarrow>
              if \<not> inserted then Inr (InsertNewQutFailed, m1, fs)
              else if sSavingPath m1 = '''' then Inr (NotInitialized, m1, fs)
              else (case qut_file_bytes arm sections of
                      Inl f \<Rightarrow> if open_ok os then Inl f else Inr (OpenFileFailed, m1, fs)
                    | Inr bs \<Rightarrow>
                        (case store_qut_file os (sSavingPath m1) soname hash build_id bs fs of
                           (ret, fs') \<Rightarrow> Inr (ret, m1, fs')))))"

definition CheckIfQutFileExistsWithHash :: "string \<Rightarrow> string \<Rightarrow> ('v, 'i) table_manager \<times> file_system \<Rightarrow> bool" where
  "CheckIfQutFileExistsWithHash soname hash =
     (\<lambda>(m, fs). read_file fs (ToSymbolicQutFileName (sSavingPath m) soname hash) \<noteq> None)"

definition CheckIfQutFileExistsWithBuildId :: "string \<Rightarrow> string \<Rightarrow> ('v, 'i) table_manager \<times> file_system \<Rightarrow> bool" where
  "CheckIfQutFileExistsWithBuildId soname build_id =
     (\<lambda>(m, fs). read_file fs (ToQutFileName (sSavingPath m) soname build_id) \<noteq> None)"

definition RecordQutRequestInterface :: "string \<Rightarrow> 'i \<Rightarrow> ('v, 'i) table_manager \<Rightarrow> ('v, 'i) table_manager" where
  "RecordQutRequestInterface hash self_ptr m =
     m\<lparr>qut_sections_hash_to_interface := (qut_sections_hash_to_interface m)(hash := Some (Some self_ptr))\<rparr>"

text \<open>
  The part of \<open>EraseQutRequestingByHash\<close> under the lock, and the interface whose table is then to be
  initialised, if there is one.
\<close>

definition EraseQutRequestingByHash :: "string \<Rightarrow> ('v, 'i) table_manager \<Rightarrow> 'i option \<times> ('v, 'i) table_manager" where
  "EraseQutRequestingByHash hash m =
     (let m1 = (case qut_sections_hash_to_build_id m hash of
                  None \<Rightarrow> m
                | Some build_id \<Rightarrow>
                    m\<lparr>qut_sections_requesting := (qut_sections_requesting m)(build_id := None)\<rparr>);
          interface = (case qut_sections_hash_to_interface m1 hash of None \<Rightarrow> None | Some i \<Rightarrow> i)
      in (interface,
          m1\<lparr>qut_sections_hash_to_build_id := (qut_sections_hash_to_build_id m1)(hash := None),
             qut_sections_hash_to_interface := (qut_sections_hash_to_interface m1)(hash := None)\<rparr>))"

text \<open>
  \<open>TryInitQuickenTable\<close> on an interface with the given names, over the manager: the tables that the interface
  gets are those of the answer.
\<close>

record so_info =
  so_name :: string
  so_path :: string
  so_hash :: string
  so_build_id :: string
  so_elf_start_offset :: u64

definition InitQuickenTable ::
  "bool \<Rightarrow> os_env \<Rightarrow> bool option \<Rightarrow> so_info \<Rightarrow> 'w::len word quicken_interface
     \<Rightarrow> ('w word, 'i) table_manager \<times> file_system
     \<Rightarrow> fault + (QutFileError \<times> 'w word quicken_interface \<times> ('w word, 'i) table_manager \<times> file_system)" where
  "InitQuickenTable arm os delegate so self = (\<lambda>(m, fs).
     if qut_sections_ptr self \<noteq> None then Inr (NoneError, self, m, fs)
     else (case RequestQutSections arm os (so_name so) (so_path so) (so_hash so) (so_build_id so)
                  (so_elf_start_offset so) None (m, fs) of
             Inl f \<Rightarrow> Inl f
           | Inr (ret, found, m', fs') \<Rightarrow>
               (case TryInitQuickenTable (ret, map_option qut_sections.truncate found) delegate self of
                  (ret', self') \<Rightarrow> Inr (ret', self', m', fs'))))"

text \<open>\<open>EraseQutRequestingByHash\<close> as a whole, with the interfaces in a store.\<close>

definition EraseAndRefresh ::
  "bool \<Rightarrow> os_env \<Rightarrow> bool option \<Rightarrow> string \<Rightarrow> ('i \<Rightarrow> so_info \<times> 'w::len word quicken_interface)
     \<Rightarrow> ('w word, 'i) table_manager \<times> file_system
     \<Rightarrow> fault + (('i \<Rightarrow> so_info \<times> 'w word quicken_interface) \<times> ('w word, 'i) table_manager \<times> file_system)" where
  "EraseAndRefresh arm os delegate hash objects = (\<lambda>(m, fs).
     case EraseQutRequestingByHash hash m of
       (None, m1) \<Rightarrow> Inr (objects, m1, fs)
     | (Some i, m1) \<Rightarrow>
         (case objects i of (so, self) \<Rightarrow>
           (case InitQuickenTable arm os delegate so self (m1, fs) of
              Inl f \<Rightarrow> Inl f
            | Inr (ret, self', m2, fs2) \<Rightarrow> Inr (objects(i := (so, self')), m2, fs2))))"


section \<open>Reading a file back\<close>

text \<open>The words of the two builds.\<close>

definition machine_word :: "'w::len itself \<Rightarrow> bool" where
  "machine_word t \<longleftrightarrow> LENGTH('w) = 32 \<or> LENGTH('w) = 64"

definition good_sections :: "'w::len word owned_sections \<Rightarrow> bool" where
  "good_sections s \<longleftrightarrow> length (quidx s) = idx_size s \<and> length (qutbl s) = tbl_size s \<and> idx_size s \<noteq> 0
     \<and> (6 + idx_size s + tbl_size s) * word_size_of TYPE('w) < 2 ^ LENGTH('w)"

lemma machine_word_size:
  "machine_word TYPE('w::len) \<Longrightarrow> 8 * word_size_of TYPE('w) = LENGTH('w)"
  "machine_word TYPE('w::len) \<Longrightarrow> word_size_of TYPE('w) = 4 \<or> word_size_of TYPE('w) = 8"
  by (auto simp: machine_word_def word_size_of_def)

lemma file_word_skip [simp]: "file_word (xs @ data) (length xs + n) = file_word data n"
  by (simp add: file_word_def)

lemma file_word_here [simp]:
  "machine_word TYPE('w::len) \<Longrightarrow> file_word (size_bytes (v :: 'w word) @ data) 0 = v"
  by (simp add: file_word_def le_word_le_bytes machine_word_size take_bit_word_eq_self)

lemma file_word_later:
  "n = length xs + m \<Longrightarrow> file_word (xs @ data) n = file_word data m"
  by simp

lemma length_concat_size_bytes [simp]:
  "length (concat (map size_bytes (ws :: 'w::len word list))) = length ws * word_size_of TYPE('w)"
  by (induction ws) simp_all

lemma file_word_nth:
  assumes "machine_word TYPE('w::len)" "i < length (ws :: 'w word list)"
  shows "file_word (concat (map size_bytes ws) @ post) (i * word_size_of TYPE('w)) = ws ! i"
proof -
  have "concat (map size_bytes ws) @ post = concat (map size_bytes (take i ws))
      @ size_bytes (ws ! i) @ concat (map size_bytes (drop (Suc i) ws)) @ post"
    using arg_cong [OF id_take_nth_drop [OF assms(2)], of "\<lambda>w. concat (map size_bytes w)"] by simp
  moreover have "i * word_size_of TYPE('w) = length (concat (map size_bytes (take i ws))) + 0"
    using assms(2) by (simp add: min_absorb2)
  ultimately show ?thesis
    using assms(1) by (simp only: file_word_later file_word_here)
qed

lemma words_at_array:
  assumes "machine_word TYPE('w::len)" "unat off = length pre" "unat n = length (ws :: 'w word list)"
  shows "words_at (pre @ concat (map size_bytes ws) @ post) off n = ws"
proof -
  have pos: "0 < word_size_of TYPE('w)" using machine_word_size(2) [OF assms(1)] by auto
  have "length ws \<le> (length ws * word_size_of TYPE('w) + length post) div word_size_of TYPE('w)"
    using pos by (simp add: less_eq_div_iff_mult_less_eq)
  then have count: "min (unat n) ((length (pre @ concat (map size_bytes ws) @ post) - unat off)
      div word_size_of TYPE('w)) = length ws"
    using assms(2,3) by (simp add: min_absorb1)
  have "file_word (pre @ concat (map size_bytes ws) @ post) (unat off + i * word_size_of TYPE('w)) = ws ! i"
    if "i < length ws" for i
    using file_word_nth [OF assms(1) that] assms(2) by simp
  then show ?thesis
    unfolding words_at_def count by (intro nth_equalityI) simp_all
qed

lemma length_qut_file_header [simp]:
  "length (qut_file_header arm (sections :: 'w::len word owned_sections)) = 6 * word_size_of TYPE('w)"
  by (simp add: qut_file_header_def Let_def)

text \<open>The six fields of the header.\<close>

lemma header_fields:
  fixes s :: "'w::len word owned_sections"
  assumes "machine_word TYPE('w)"
  shows "file_word (qut_file_header arm s @ data) 0
       = (if native_only s then QUT_NATIVE_ONLY_VERSION else QUT_VERSION :: 'w word)"
    and "file_word (qut_file_header arm s @ data) (word_size_of TYPE('w)) = (CURRENT_ARCH_ENUM arm :: 'w word)"
    and "file_word (qut_file_header arm s @ data) (2 * word_size_of TYPE('w)) = (of_nat (idx_size s) :: 'w word)"
    and "file_word (qut_file_header arm s @ data) (3 * word_size_of TYPE('w)) = (of_nat (tbl_size s) :: 'w word)"
    and "file_word (qut_file_header arm s @ data) (4 * word_size_of TYPE('w))
       = (6 * of_nat (word_size_of TYPE('w)) :: 'w word)"
    and "file_word (qut_file_header arm s @ data) (5 * word_size_of TYPE('w))
       = (6 * of_nat (word_size_of TYPE('w)) + of_nat (idx_size s) * of_nat (word_size_of TYPE('w)) :: 'w word)"
proof -
  have later: "file_word (size_bytes v @ rest) (Suc k * word_size_of TYPE('w)) = (file_word rest (k * word_size_of TYPE('w)) :: 'w word)"
    for v :: "'w word" and rest k
    by (rule file_word_later) simp
  note step = later [of _ _ 0] later [of _ _ 1] later [of _ _ 2] later [of _ _ 3] later [of _ _ 4]
  note run = qut_file_header_def Let_def append_assoc
  show "file_word (qut_file_header arm s @ data) 0
       = (if native_only s then QUT_NATIVE_ONLY_VERSION else QUT_VERSION :: 'w word)"
    using assms by (simp add: run)
  show "file_word (qut_file_header arm s @ data) (word_size_of TYPE('w)) = (CURRENT_ARCH_ENUM arm :: 'w word)"
    using assms step by (simp add: run)
  show "file_word (qut_file_header arm s @ data) (2 * word_size_of TYPE('w)) = (of_nat (idx_size s) :: 'w word)"
    using assms step by (simp add: run numeral_2_eq_2)
  show "file_word (qut_file_header arm s @ data) (3 * word_size_of TYPE('w)) = (of_nat (tbl_size s) :: 'w word)"
    using assms step by (simp add: run eval_nat_numeral)
  show "file_word (qut_file_header arm s @ data) (4 * word_size_of TYPE('w))
       = (6 * of_nat (word_size_of TYPE('w)) :: 'w word)"
    using assms step by (simp add: run eval_nat_numeral)
  show "file_word (qut_file_header arm s @ data) (5 * word_size_of TYPE('w))
       = (6 * of_nat (word_size_of TYPE('w)) + of_nat (idx_size s) * of_nat (word_size_of TYPE('w)) :: 'w word)"
    using assms step by (simp add: run eval_nat_numeral)
qed


lemma good_sections_sizes:
  fixes s :: "'w::len word owned_sections"
  assumes "good_sections s" "machine_word TYPE('w)"
  shows "unat (of_nat (idx_size s) :: 'w word) = idx_size s" "unat (of_nat (tbl_size s) :: 'w word) = tbl_size s"
    and "unat (6 * of_nat (word_size_of TYPE('w)) :: 'w word) = 6 * word_size_of TYPE('w)"
    and "unat (6 * of_nat (word_size_of TYPE('w)) + of_nat (idx_size s) * of_nat (word_size_of TYPE('w)) :: 'w word)
       = (6 + idx_size s) * word_size_of TYPE('w)"
    and "unat (6 * of_nat (word_size_of TYPE('w)) + of_nat (idx_size s) * of_nat (word_size_of TYPE('w))
          + of_nat (tbl_size s) * of_nat (word_size_of TYPE('w)) :: 'w word)
       = (6 + idx_size s + tbl_size s) * word_size_of TYPE('w)"
proof -
  have pos: "0 < word_size_of TYPE('w)" using machine_word_size(2) [OF assms(2)] by auto
  have fits: "(6 + idx_size s + tbl_size s) * word_size_of TYPE('w) < 2 ^ LENGTH('w)"
    using assms(1) by (simp add: good_sections_def)
  have small: "unat (of_nat n :: 'w word) = n" if "n \<le> (6 + idx_size s + tbl_size s) * word_size_of TYPE('w)" for n
    using that fits by (simp add: unsigned_of_nat take_bit_nat_eq_self)
  have "n \<le> n * word_size_of TYPE('w)" for n using pos by simp
  then have below: "n \<le> (6 + idx_size s + tbl_size s) * word_size_of TYPE('w)" if "n \<le> 6 + idx_size s + tbl_size s" for n
    using that by (meson le_trans mult_le_mono1)
  show "unat (of_nat (idx_size s) :: 'w word) = idx_size s" "unat (of_nat (tbl_size s) :: 'w word) = tbl_size s"
    by (rule small, rule below, simp)+
  show "unat (6 * of_nat (word_size_of TYPE('w)) :: 'w word) = 6 * word_size_of TYPE('w)"
    using small [of "6 * word_size_of TYPE('w)"] by simp
  show "unat (6 * of_nat (word_size_of TYPE('w)) + of_nat (idx_size s) * of_nat (word_size_of TYPE('w)) :: 'w word)
       = (6 + idx_size s) * word_size_of TYPE('w)"
    using small [of "(6 + idx_size s) * word_size_of TYPE('w)"] by (simp add: distrib_right)
  show "unat (6 * of_nat (word_size_of TYPE('w)) + of_nat (idx_size s) * of_nat (word_size_of TYPE('w))
          + of_nat (tbl_size s) * of_nat (word_size_of TYPE('w)) :: 'w word)
       = (6 + idx_size s + tbl_size s) * word_size_of TYPE('w)"
    using small [of "(6 + idx_size s + tbl_size s) * word_size_of TYPE('w)"] by (simp add: distrib_right)
qed

lemma version_bits:
  assumes "machine_word TYPE('w::len)"
  shows "(QUT_VERSION :: 'w word) AND QUT_NATIVE_ONLY_MASK = 0"
    and "(QUT_NATIVE_ONLY_VERSION :: 'w word) AND QUT_NATIVE_ONLY_MASK \<noteq> 0"
proof -
  have "bit (0x1000000 :: 'w word) i \<longleftrightarrow> i = 24" for i
  proof -
    have "(0x1000000 :: 'w word) = 2 ^ 24" by simp
    then show ?thesis using assms by (simp only: bit_exp_iff) (auto simp: machine_word_def possible_bit_word)
  qed
  moreover have "bit (1 :: 'w word) i \<longleftrightarrow> i = 0" for i by (simp add: bit_1_iff)
  ultimately show "(QUT_VERSION :: 'w word) AND QUT_NATIVE_ONLY_MASK = 0"
      "(QUT_NATIVE_ONLY_VERSION :: 'w word) AND QUT_NATIVE_ONLY_MASK \<noteq> 0"
    unfolding QUT_VERSION_def QUT_NATIVE_ONLY_VERSION_def QUT_NATIVE_ONLY_MASK_def
    by (auto simp: bit_eq_iff bit_and_iff bit_or_iff)
qed

lemma qut_file_bytes_good:
  "good_sections s \<Longrightarrow> qut_file_bytes arm s = Inr (qut_file_header arm s
     @ concat (map size_bytes (quidx s)) @ concat (map size_bytes (qutbl s)))"
  by (simp add: qut_file_bytes_def good_sections_def)

lemma length_qut_file_bytes:
  assumes "good_sections (s :: 'w::len word owned_sections)" "qut_file_bytes arm s = Inr bs"
  shows "length bs = (6 + idx_size s + tbl_size s) * word_size_of TYPE('w)"
  using assms by (auto simp: qut_file_bytes_good good_sections_def algebra_simps)

text \<open>A file that is whole gives the sections back.\<close>

lemma read_qut_file_whole:
  fixes s :: "'w::len word owned_sections"
  assumes "good_sections s" "machine_word TYPE('w)" "qut_file_bytes arm s = Inr bs"
  shows "read_qut_file arm True bs = Inr (s\<lparr>load_from_file := True\<rparr>)"
proof -
  let ?body = "concat (map size_bytes (quidx s)) @ concat (map size_bytes (qutbl s))"
  have bs: "bs = qut_file_header arm s @ ?body"
    using assms(1,3) by (simp add: qut_file_bytes_good)
  have lengths: "length (quidx s) = idx_size s" "length (qutbl s) = tbl_size s"
    using assms(1) by (simp_all add: good_sections_def)
  note sizes = good_sections_sizes [OF assms(1,2)]
  have idx: "words_at bs (6 * of_nat (word_size_of TYPE('w))) (of_nat (idx_size s)) = quidx s"
    unfolding bs using words_at_array [OF assms(2), of _ "qut_file_header arm s"] sizes lengths by simp
  have tbl: "words_at bs (6 * of_nat (word_size_of TYPE('w)) + of_nat (idx_size s) * of_nat (word_size_of TYPE('w)))
      (of_nat (tbl_size s)) = qutbl s"
    unfolding bs
    using words_at_array [OF assms(2), of _ "qut_file_header arm s @ concat (map size_bytes (quidx s))" _ "qutbl s" "[]"]
      sizes lengths by (simp add: algebra_simps)
  have size: "length bs = (6 + idx_size s + tbl_size s) * word_size_of TYPE('w)"
    using length_qut_file_bytes [OF assms(1,3)] .
  show ?thesis
    using idx tbl size header_fields [OF assms(2), of arm s ?body, folded bs] sizes version_bits [OF assms(2)]
    by (simp add: read_qut_file_def Let_def)
qed

text \<open>A file that was cut short is refused and moved out of the way.\<close>

lemma read_qut_file_torn:
  fixes s :: "'w::len word owned_sections"
  assumes "good_sections s" "machine_word TYPE('w)" "qut_file_bytes arm s = Inr bs" "n < length bs"
  shows "\<exists>err. read_qut_file arm True (take n bs) = (Inl (err, True) :: _ + 'w word owned_sections)
     \<and> err \<in> {FileTooShort, FileLengthNotMatch}"
proof (cases "n < 6 * word_size_of TYPE('w)")
  case True
  then show ?thesis using assms(4) by (simp add: read_qut_file_def)
next
  case False
  let ?body = "concat (map size_bytes (quidx s)) @ concat (map size_bytes (qutbl s))"
  have cut: "take n bs = qut_file_header arm s @ take (n - 6 * word_size_of TYPE('w)) ?body"
    using assms(1,3) False by (auto simp: qut_file_bytes_good)
  show ?thesis
    using False assms(4) length_qut_file_bytes [OF assms(1,3)] good_sections_sizes [OF assms(1,2)]
      header_fields [OF assms(2), of arm s "take (n - 6 * word_size_of TYPE('w)) ?body", folded cut]
    by (simp add: read_qut_file_def Let_def)
qed


section \<open>Saving and loading\<close>

lemma file_names_differ:
  "ToTempQutFileName t path soname build_id \<noteq> ToQutFileName path soname build_id"
  "ToQutFileName path soname build_id @ ''_malformed_'' @ to_string t \<noteq> ToQutFileName path soname build_id"
  "ToTempQutFileName t path soname build_id \<noteq> ToQutFileName path soname build_id @ ''_malformed_'' @ to_string t"
  by (simp_all add: ToTempQutFileName_def ToQutFileName_def)

lemma resolve_File: "fs name = Some (File bs) \<Longrightarrow> resolve n fs name = Some bs"
  by (cases n) simp_all

lemma read_file_File: "fs name = Some (File bs) \<Longrightarrow> read_file fs name = Some bs"
  by (simp add: read_file_def resolve_File)

definition no_link :: "file_system \<Rightarrow> string \<Rightarrow> bool" where
  "no_link fs name \<longleftrightarrow> (case fs name of Some (Link t) \<Rightarrow> False | _ \<Rightarrow> True)"

lemma link_target_no_link: "no_link fs name \<Longrightarrow> link_target n fs name = Some name"
  by (cases n) (auto simp: no_link_def split: option.splits file_node.splits)

lemma write_file_no_link: "no_link fs name \<Longrightarrow> write_file name bs fs = Some (fs(name := Some (File bs)))"
  by (simp add: write_file_def link_target_no_link)

lemma store_qut_file_stores:
  assumes "open_ok os" "no_link fs (ToTempQutFileName (now os) path soname build_id)"
  shows "\<exists>fs'. store_qut_file os path soname hash build_id bs fs = (NoneError, fs')
     \<and> read_file fs' (ToQutFileName path soname build_id) = Some (take (written os) bs)"
proof -
  let ?temp = "ToTempQutFileName (now os) path soname build_id" and ?qut = "ToQutFileName path soname build_id"
  define fs1 where "fs1 = fs(?temp := Some (File (take (written os) bs)))"
  define fs2 where "fs2 = RenameToMalformed (now os) ?qut fs1"
  have temp: "fs2 ?temp = Some (File (take (written os) bs))"
    using file_names_differ file_names_differ(1) [symmetric]
    by (auto simp: fs2_def fs1_def RenameToMalformed_def rename_file_def split: option.split)
  define fs3 where "fs3 = fs2(?temp := None, ?qut := Some (File (take (written os) bs)))"
  have "store_qut_file os path soname hash build_id bs fs
      = (NoneError, symlink ?qut (ToSymbolicQutFileName path soname hash) fs3)"
    using assms temp
    by (simp add: store_qut_file_def Let_def write_file_no_link flip: fs1_def fs2_def)
      (simp add: rename_file_def fs3_def)
  moreover have "symlink ?qut name fs3 ?qut = Some (File (take (written os) bs))" for name
    by (simp add: symlink_def fs3_def)
  ultimately show ?thesis by (auto intro: read_file_File)
qed

text \<open>A manager that can take the sections of a build id: it has a directory and does not hold them yet.\<close>

definition can_load :: "string \<Rightarrow> ('v, 'i) table_manager \<Rightarrow> bool" where
  "can_load build_id m \<longleftrightarrow> sSavingPath m \<noteq> '''' \<and> build_id \<noteq> '''' \<and> qut_sections_map m build_id = None"

definition loaded :: "string \<Rightarrow> string \<Rightarrow> 'v owned_sections \<Rightarrow> ('v, 'i) table_manager \<Rightarrow> ('v, 'i) table_manager" where
  "loaded hash build_id s m =
     m\<lparr>qut_sections_map := (qut_sections_map m)(build_id := Some (Some s)),
       qut_sections_requesting := (qut_sections_requesting m)(build_id := None),
       qut_sections_hash_to_build_id := (qut_sections_hash_to_build_id m)(hash := None)\<rparr>"

lemma InsertQutSectionsNoLock_immediately:
  "can_load build_id m \<Longrightarrow> idx_size s \<noteq> 0 \<Longrightarrow>
     InsertQutSectionsNoLock hash build_id (Some s) True m = Inr (True, None, loaded hash build_id s m)"
  by (simp add: InsertQutSectionsNoLock_def can_load_def loaded_def Let_def)

lemma SaveQutSections_stores:
  fixes s :: "'w::len word owned_sections"
  assumes "good_sections s" "open_ok os" "can_load build_id m" "qut_file_bytes arm s = Inr bs"
    and "no_link fs (ToTempQutFileName (now os) (sSavingPath m) soname build_id)"
  shows "\<exists>m' fs'. SaveQutSections arm os soname hash build_id only_save_file (Some s) (m, fs) = Inr (NoneError, m', fs')
     \<and> read_file fs' (ToQutFileName (sSavingPath m) soname build_id) = Some (take (written os) bs)"
proof -
  obtain fs' where fs': "store_qut_file os (sSavingPath m) soname hash build_id bs fs = (NoneError, fs')"
    "read_file fs' (ToQutFileName (sSavingPath m) soname build_id) = Some (take (written os) bs)"
    using store_qut_file_stores [OF assms(2,5)] by blast
  have "idx_size s \<noteq> 0" using assms(1) by (simp add: good_sections_def)
  then show ?thesis
    using assms(3,4) fs'
    by (auto simp: SaveQutSections_def InsertQutSectionsNoLock_def can_load_def Let_def split: if_splits)
qed

lemma TryLoadQutFile_reads:
  fixes s :: "'w::len word owned_sections"
  assumes "good_sections s" "machine_word TYPE('w)" "qut_file_bytes arm s = Inr bs" "can_load build_id m"
    and "open_ok os" "fstat_ok os" "mmap_ok os"
    and "read_file fs (ToQutFileName (sSavingPath m) soname build_id) = Some bs"
  shows "TryLoadQutFile arm os soname hash build_id False None (m, fs)
     = Inr (NoneError, Some (s\<lparr>load_from_file := True\<rparr>), loaded hash build_id (s\<lparr>load_from_file := True\<rparr>) m, fs)"
proof -
  have "idx_size (s\<lparr>load_from_file := True\<rparr>) \<noteq> 0" using assms(1) by (simp add: good_sections_def)
  then show ?thesis
    using assms(4-8) read_qut_file_whole [OF assms(1-3)] InsertQutSectionsNoLock_immediately [OF assms(4)]
    by (simp add: TryLoadQutFile_def Let_def)
qed

text \<open>
  C4. Round trip through a file.  When sections are saved and every byte reaches the file, any manager with
  the same directory that does not hold them yet, such as that of a later run of the program, loads
  them back as they were.
\<close>

theorem saved_sections_load:
  fixes s :: "'w::len word owned_sections"
  assumes "good_sections s" "machine_word TYPE('w)" "can_load build_id m"
    and "open_ok os" "no_link fs (ToTempQutFileName (now os) (sSavingPath m) soname build_id)"
    and "(6 + idx_size s + tbl_size s) * word_size_of TYPE('w) \<le> written os"
    and "can_load build_id later" "sSavingPath later = sSavingPath m" "open_ok os'" "fstat_ok os'" "mmap_ok os'"
  shows "\<exists>m' fs'. SaveQutSections arm os soname hash build_id only_save_file (Some s) (m, fs) = Inr (NoneError, m', fs')
     \<and> TryLoadQutFile arm os' soname hash build_id False None (later, fs')
         = Inr (NoneError, Some (s\<lparr>load_from_file := True\<rparr>),
                loaded hash build_id (s\<lparr>load_from_file := True\<rparr>) later, fs')"
proof -
  obtain bs where bs: "qut_file_bytes arm s = Inr bs" using qut_file_bytes_good [OF assms(1)] by blast
  have "take (written os) bs = bs"
    using length_qut_file_bytes [OF assms(1) bs] assms(6) by simp
  then show ?thesis
    using SaveQutSections_stores [OF assms(1,4,3) bs assms(5)]
      TryLoadQutFile_reads [OF assms(1,2) bs assms(7) assms(9-11)] assms(8) by metis
qed

definition sample_sections :: "u64 owned_sections" where
  "sample_sections = \<lparr>quidx = [0x1000, 0x80819999], qutbl = [7], idx_size = 2, tbl_size = 1,
     load_from_file = False, native_only = True\<rparr>"

definition sample_os :: os_env where
  "sample_os = \<lparr>now = 1700000000, open_ok = True, fstat_ok = True, mmap_ok = True, written = 72\<rparr>"

theorem saved_sections_load_witness:
  "\<exists>m' fs'. SaveQutSections False sample_os ''libc.so'' ''h'' ''AB'' True (Some sample_sections)
         (SetSavingPath False ''/data/'' new_table_manager, Map.empty) = Inr (NoneError, m', fs')
     \<and> TryLoadQutFile False sample_os ''libc.so'' ''h'' ''AB'' False None
         (SetSavingPath False ''/data/'' new_table_manager :: (u64, nat) table_manager, fs')
         = Inr (NoneError, Some (sample_sections\<lparr>load_from_file := True\<rparr>),
                loaded ''h'' ''AB'' (sample_sections\<lparr>load_from_file := True\<rparr>)
                  (SetSavingPath False ''/data/'' new_table_manager), fs')"
  by (rule saved_sections_load)
    (simp_all add: good_sections_def machine_word_def can_load_def sample_sections_def sample_os_def no_link_def
      word_size_of_def SetSavingPath_def new_table_manager_def)


lemma resolve_None: "fs name = None \<Longrightarrow> resolve n fs name = None"
  by (cases n) simp_all

text \<open>
  C29. Torn files.  When only a part of the bytes reaches the file, saving reports success all the same,
  but no manager loads the file: it is refused for its length and moved away, so that the table counts as
  missing and is generated again.
\<close>

theorem torn_file_refused:
  fixes s :: "'w::len word owned_sections"
  assumes "good_sections s" "machine_word TYPE('w)" "can_load build_id m"
    and "open_ok os" "no_link fs (ToTempQutFileName (now os) (sSavingPath m) soname build_id)"
    and "written os < (6 + idx_size s + tbl_size s) * word_size_of TYPE('w)"
    and "sSavingPath later = sSavingPath m" "open_ok os'" "fstat_ok os'" "mmap_ok os'"
  shows "\<exists>m' fs' err fs''. SaveQutSections arm os soname hash build_id only_save_file (Some s) (m, fs) = Inr (NoneError, m', fs')
     \<and> TryLoadQutFile arm os' soname hash build_id testOnly (None :: 'w word owned_sections option) (later, fs')
         = Inr (err, None, later, fs'')
     \<and> err \<in> {FileTooShort, FileLengthNotMatch}
     \<and> \<not> CheckIfQutFileExistsWithBuildId soname build_id (later, fs'')"
proof -
  obtain bs where bs: "qut_file_bytes arm s = Inr bs" using qut_file_bytes_good [OF assms(1)] by blast
  obtain m' fs' where saved: "SaveQutSections arm os soname hash build_id only_save_file (Some s) (m, fs) = Inr (NoneError, m', fs')"
    "read_file fs' (ToQutFileName (sSavingPath m) soname build_id) = Some (take (written os) bs)"
    using SaveQutSections_stores [OF assms(1,4,3) bs assms(5)] by blast
  have "written os < length bs" using length_qut_file_bytes [OF assms(1) bs] assms(6) by simp
  then obtain err where err: "read_qut_file arm True (take (written os) bs) = (Inl (err, True) :: _ + 'w word owned_sections)"
    "err \<in> {FileTooShort, FileLengthNotMatch}"
    using read_qut_file_torn [OF assms(1,2) bs] by blast
  let ?qut = "ToQutFileName (sSavingPath m) soname build_id"
  have "fs' ?qut \<noteq> None" using saved(2) by (metis read_file_def resolve_None option.distinct(1))
  then have "read_file (RenameToMalformed t ?qut fs') ?qut = None" for t
    using file_names_differ(2) [of "sSavingPath m" soname build_id t]
    by (auto simp: RenameToMalformed_def rename_file_def read_file_def resolve_None)
  then show ?thesis
    using saved err assms(7-10)
    by (auto simp: TryLoadQutFile_def CheckIfQutFileExistsWithBuildId_def Let_def)
qed

theorem torn_file_refused_witness:
  "\<exists>m' fs' err fs''. SaveQutSections False (sample_os\<lparr>written := 60\<rparr>) ''libc.so'' ''h'' ''AB'' True (Some sample_sections)
         (SetSavingPath False ''/data/'' new_table_manager, Map.empty) = Inr (NoneError, m', fs')
     \<and> TryLoadQutFile False sample_os ''libc.so'' ''h'' ''AB'' False None
         (SetSavingPath False ''/data/'' new_table_manager :: (u64, nat) table_manager, fs')
         = Inr (err, None :: u64 owned_sections option, SetSavingPath False ''/data/'' new_table_manager, fs'')
     \<and> err \<in> {FileTooShort, FileLengthNotMatch}
     \<and> \<not> CheckIfQutFileExistsWithBuildId ''libc.so'' ''AB''
          (SetSavingPath False ''/data/'' new_table_manager :: (u64, nat) table_manager, fs'')"
  by (rule torn_file_refused)
    (simp_all add: good_sections_def machine_word_def can_load_def sample_sections_def sample_os_def no_link_def
      word_size_of_def SetSavingPath_def new_table_manager_def)


section \<open>States of the manager\<close>

text \<open>
  One call of the manager; between calls anything may happen to the files, of which other processes
  have the same directory.
\<close>

inductive manager_step ::
  "('w::len word, 'i) table_manager \<times> file_system \<Rightarrow> ('w word, 'i) table_manager \<times> file_system \<Rightarrow> bool" where
  SetSavingPath: "manager_step (m, fs) (SetSavingPath arm path m, fs)"
| WarmUp: "manager_step (m, fs) (WarmUp warm m, fs)"
| Load: "TryLoadQutFile arm os soname hash build_id testOnly given st = Inr (ret, found, st') \<Longrightarrow> manager_step st st'"
| Request: "RequestQutSections arm os soname sopath hash build_id offset given st = Inr (ret, found, st')
    \<Longrightarrow> manager_step st st'"
| Save: "SaveQutSections arm os soname hash build_id only_save_file given st = Inr (ret, st') \<Longrightarrow> manager_step st st'"
| Record: "manager_step (m, fs) (RecordQutRequestInterface hash i m, fs)"
| Erase: "EraseQutRequestingByHash hash m = (i, m') \<Longrightarrow> manager_step (m, fs) (m', fs)"
| Files: "manager_step (m, fs) (m, fs')"

text \<open>
  What holds between calls: the map holds no null pointers, no empty indices and no nameless build id, and a
  build id that is loaded is not asked for.
\<close>

definition manager_inv :: "('v, 'i) table_manager \<Rightarrow> bool" where
  "manager_inv m \<longleftrightarrow>
     (\<forall>build_id p. qut_sections_map m build_id = Some p \<longrightarrow>
        build_id \<noteq> '''' \<and> (\<exists>s. p = Some s \<and> idx_size s \<noteq> 0) \<and> qut_sections_requesting m build_id = None)"

lemma manager_invD:
  assumes "manager_inv m" "qut_sections_map m build_id = Some p"
  obtains s where "p = Some s" "idx_size s \<noteq> 0" "build_id \<noteq> ''''" "qut_sections_requesting m build_id = None"
  using assms unfolding manager_inv_def by blast

text \<open>A later manager: it still has every table that the earlier one held, at the same place.\<close>

definition keeps :: "('v, 'i) table_manager \<Rightarrow> ('v, 'i) table_manager \<Rightarrow> bool" where
  "keeps m m' \<longleftrightarrow> qut_sections_map m \<subseteq>\<^sub>m qut_sections_map m' \<and> manager_inv m'"

lemma keeps_refl: "manager_inv m \<Longrightarrow> keeps m m"
  by (simp add: keeps_def)

lemma keeps_trans: "keeps m m' \<Longrightarrow> keeps m' m'' \<Longrightarrow> keeps m m''"
  by (auto simp: keeps_def intro: map_le_trans)

lemma keeps_insert:
  assumes "manager_inv m" "InsertQutSectionsNoLock hash build_id given immediately m = Inr (inserted, left, m')"
  shows "keeps m m'"
  using assms
  by (auto simp: InsertQutSectionsNoLock_def keeps_def manager_inv_def map_le_def Let_def split: option.splits if_splits)
    blast+

lemma keeps_find:
  assumes "manager_inv m" "FindQutSectionsNoLock sopath hash build_id offset given m = (ret, found, m')"
  shows "keeps m m'"
  using assms
  by (auto simp: FindQutSectionsNoLock_def keeps_def manager_inv_def split: option.splits if_splits) blast

lemma keeps_load:
  assumes "manager_inv m" "TryLoadQutFile arm os soname hash build_id testOnly given (m, fs) = Inr (ret, found, m', fs')"
  shows "keeps m m'"
  using assms
  by (auto simp: TryLoadQutFile_def Let_def split: option.splits if_splits sum.splits prod.splits
      intro: keeps_refl keeps_insert)

lemma keeps_request:
  assumes "manager_inv m"
    and "RequestQutSections arm os soname sopath hash build_id offset given (m, fs) = Inr (ret, found, m', fs')"
  shows "keeps m m'"
proof -
  obtain ret1 found1 m1 where find: "FindQutSectionsNoLock sopath hash build_id offset given m = (ret1, found1, m1)"
    by (cases "FindQutSectionsNoLock sopath hash build_id offset given m")
  have m1: "keeps m m1" using keeps_find [OF assms(1) find] .
  then have "keeps m1 m2" if "TryLoadQutFile arm os soname hash build_id False found1 (m1, fs) = Inr (r, f, m2, fs2)" for r f m2 fs2
    using keeps_load [OF _ that] by (simp add: keeps_def)
  then show ?thesis
    using assms m1 find
    by (auto simp: RequestQutSections_def split: if_splits sum.splits prod.splits intro: keeps_refl keeps_trans)
qed

lemma keeps_save:
  assumes "manager_inv m"
    and "SaveQutSections arm os soname hash build_id only_save_file given (m, fs) = Inr (ret, m', fs')"
  shows "keeps m m'"
  using assms
  by (auto simp: SaveQutSections_def split: option.splits if_splits sum.splits prod.splits
      intro: keeps_refl keeps_insert)

lemma keeps_erase:
  assumes "manager_inv m" "EraseQutRequestingByHash hash m = (i, m')"
  shows "keeps m m'"
  using assms
  by (auto simp: EraseQutRequestingByHash_def keeps_def manager_inv_def Let_def split: option.splits) blast+

lemma keeps_settings:
  assumes "manager_inv m"
  shows "keeps m (SetSavingPath arm path m)" "keeps m (WarmUp warm m)" "keeps m (RecordQutRequestInterface hash i m)"
  using assms
  by (auto simp: keeps_def manager_inv_def SetSavingPath_def WarmUp_def RecordQutRequestInterface_def)

lemma keeps_step:
  assumes "manager_step st st'" "manager_inv (fst st)"
  shows "keeps (fst st) (fst st')"
proof -
  obtain m fs where st: "st = (m, fs)" by (cases st)
  obtain m' fs' where st': "st' = (m', fs')" by (cases st')
  have inv: "manager_inv m" using assms(2) st by simp
  have "keeps m m'"
    using assms(1) unfolding st st'
  proof cases
    case Load
    then show ?thesis using keeps_load [OF inv] by blast
  next
    case Request
    then show ?thesis using keeps_request [OF inv] by blast
  next
    case Save
    then show ?thesis using keeps_save [OF inv] by blast
  next
    case Erase
    then show ?thesis using keeps_erase [OF inv] by blast
  qed (simp_all add: keeps_settings keeps_refl inv)
  then show ?thesis using st st' by simp
qed

lemma manager_inv_new: "manager_inv new_table_manager"
  by (simp add: manager_inv_def new_table_manager_def)

text \<open>
  C15. Tables stay.  In every state that a run of the manager reaches, the tables in its map are present,
  not empty and not asked for at the same time, and from there on a table is never dropped or replaced, so
  that the pointers which interfaces hold stay right.
\<close>

theorem tables_stay:
  assumes "manager_step\<^sup>*\<^sup>* (new_table_manager, fs0) (m, fs)" "manager_step\<^sup>*\<^sup>* (m, fs) (m', fs')"
  shows "manager_inv m \<and> qut_sections_map m \<subseteq>\<^sub>m qut_sections_map m'"
proof -
  have run: "keeps (fst st) (fst st')" if "manager_step\<^sup>*\<^sup>* st st'" "manager_inv (fst st)" for st st'
    using that
  proof (induction rule: rtranclp_induct)
    case (step st1 st2)
    then show ?case using keeps_step keeps_trans by (metis keeps_def)
  qed (simp add: keeps_refl)
  have "manager_inv m" using run [OF assms(1)] by (simp add: keeps_def manager_inv_new)
  then show ?thesis using run [OF assms(2)] by (simp add: keeps_def)
qed

theorem tables_stay_witness:
  "\<exists>m fs. manager_step\<^sup>*\<^sup>* (new_table_manager :: (u64, nat) table_manager, Map.empty) (m, fs)
     \<and> qut_sections_map m ''AB'' = Some (Some (sample_sections\<lparr>load_from_file := True\<rparr>)) \<and> manager_inv m
     \<and> (\<forall>hash i m' fs'. EraseQutRequestingByHash hash m = (i, m')
          \<longrightarrow> qut_sections_map m' ''AB'' = Some (Some (sample_sections\<lparr>load_from_file := True\<rparr>)))"
proof -
  let ?m = "SetSavingPath False ''/data/'' new_table_manager :: (u64, nat) table_manager"
  let ?s = "sample_sections\<lparr>load_from_file := True\<rparr>"
  have good: "good_sections sample_sections" "machine_word TYPE(64)"
    by (simp_all add: good_sections_def machine_word_def sample_sections_def word_size_of_def)
  obtain bs where bs: "qut_file_bytes False sample_sections = Inr bs" using qut_file_bytes_good [OF good(1)] by blast
  define fs where "fs = [ToQutFileName (sSavingPath ?m) ''libc.so'' ''AB'' \<mapsto> File bs]"
  have can: "can_load ''AB'' ?m" by (simp add: can_load_def SetSavingPath_def new_table_manager_def)
  have "TryLoadQutFile False sample_os ''libc.so'' ''h'' ''AB'' False None (?m, fs)
      = Inr (NoneError, Some ?s, loaded ''h'' ''AB'' ?s ?m, fs)"
    by (rule TryLoadQutFile_reads [OF good bs can])
      (simp_all add: sample_os_def fs_def read_file_File)
  then have run: "manager_step\<^sup>*\<^sup>* (new_table_manager, Map.empty) (loaded ''h'' ''AB'' ?s ?m, fs)"
    by (meson manager_step.Files manager_step.SetSavingPath manager_step.Load r_into_rtranclp rtranclp_trans)
  have erase: "qut_sections_map m' ''AB'' = Some (Some ?s)"
    if "EraseQutRequestingByHash hash (loaded ''h'' ''AB'' ?s ?m) = (i, m')" for hash i m'
    using tables_stay [OF run r_into_rtranclp [of manager_step, OF manager_step.Erase [OF that]]]
    by (simp add: loaded_def map_le_def)
  have "manager_inv (loaded ''h'' ''AB'' ?s ?m)"
    using tables_stay [OF run rtranclp.rtrancl_refl] by blast
  then show ?thesis using run erase by (intro exI conjI) (auto simp: loaded_def)
qed


section \<open>How a table arrives\<close>

text \<open>The manager after a build id was asked for.\<close>

definition asked :: "so_info \<Rightarrow> ('v, 'i) table_manager \<Rightarrow> ('v, 'i) table_manager" where
  "asked so m =
     m\<lparr>qut_sections_requesting := (qut_sections_requesting m)(so_build_id so := Some (so_elf_start_offset so, so_path so)),
       qut_sections_hash_to_build_id := (qut_sections_hash_to_build_id m)(so_hash so := Some (so_build_id so))\<rparr>"

definition Request ::
  "bool \<Rightarrow> os_env \<Rightarrow> so_info \<Rightarrow> ('w::len word, 'i) table_manager \<times> file_system
     \<Rightarrow> fault + (QutFileError \<times> 'w word owned_sections option \<times> ('w word, 'i) table_manager \<times> file_system)" where
  "Request arm os so = RequestQutSections arm os (so_name so) (so_path so) (so_hash so) (so_build_id so)
     (so_elf_start_offset so) None"

lemma TryLoadQutFile_failed:
  "TryLoadQutFile arm os soname hash build_id False None (m, fs) = Inr (ret, found, m', fs') \<Longrightarrow> ret \<noteq> NoneError
     \<Longrightarrow> m' = m \<and> found = None"
  by (auto simp: TryLoadQutFile_def InsertQutSectionsNoLock_def Let_def split: option.splits if_splits sum.splits prod.splits)

lemma Request_missing:
  assumes "Request arm os so (m, fs) = Inr (ret, found, m', fs')" "manager_inv m"
    and "ret = TryInvokeJavaRequestQutGenerate \<or> ret = NotWarmedUp"
  shows "can_load (so_build_id so) m \<and> qut_sections_requesting m (so_build_id so) = None \<and> m' = asked so m \<and> found = None"
  using assms
  by (auto dest!: TryLoadQutFile_failed simp: Request_def RequestQutSections_def FindQutSectionsNoLock_def can_load_def asked_def manager_inv_def
      split: if_splits option.splits sum.splits prod.splits)

lemma Request_loads:
  fixes s :: "'w::len word owned_sections"
  assumes "good_sections s" "machine_word TYPE('w)" "qut_file_bytes arm s = Inr bs"
    and "can_load (so_build_id so) m" "qut_sections_requesting m (so_build_id so) = None"
    and "open_ok os" "fstat_ok os" "mmap_ok os"
    and "read_file fs (ToQutFileName (sSavingPath m) (so_name so) (so_build_id so)) = Some bs"
  shows "Request arm os so (m, fs) = Inr (NoneError, Some (s\<lparr>load_from_file := True\<rparr>),
     loaded (so_hash so) (so_build_id so) (s\<lparr>load_from_file := True\<rparr>) (asked so m), fs)"
proof -
  have "can_load (so_build_id so) (asked so m)" using assms(4) by (simp add: can_load_def asked_def)
  from TryLoadQutFile_reads [OF assms(1-3) this assms(6-8), of fs "so_name so" "so_hash so"] assms(4,5,9)
  show ?thesis
    by (simp add: Request_def RequestQutSections_def FindQutSectionsNoLock_def can_load_def asked_def)
qed

text \<open>While it is asked for, a build id is not asked for again.\<close>

lemma Request_again:
  assumes "can_load (so_build_id so) m"
  shows "Request arm os so (asked so m, fs) = Inr (LoadRequesting, None, asked so m, fs)"
  using assms by (simp add: Request_def RequestQutSections_def FindQutSectionsNoLock_def can_load_def asked_def)

lemma Erase_asked:
  "EraseQutRequestingByHash (so_hash so) (RecordQutRequestInterface (so_hash so) i (asked so m))
     = (Some i, m\<lparr>qut_sections_requesting := (qut_sections_requesting m)(so_build_id so := None),
                qut_sections_hash_to_build_id := (qut_sections_hash_to_build_id m)(so_hash so := None),
                qut_sections_hash_to_interface := (qut_sections_hash_to_interface m)(so_hash so := None)\<rparr>)"
  by (simp add: EraseQutRequestingByHash_def RecordQutRequestInterface_def asked_def)

lemma InitQuickenTable_Request:
  "qut_sections_ptr self = None \<Longrightarrow> Request arm os so (m, fs) = Inr (ret, found, m', fs') \<Longrightarrow>
     InitQuickenTable arm os delegate so self (m, fs)
       = (case TryInitQuickenTable (ret, map_option qut_sections.truncate found) delegate self of
            (ret', self') \<Rightarrow> Inr (ret', self', m', fs'))"
  by (simp add: InitQuickenTable_def Request_def)

lemma InitQuickenTable_missing:
  assumes "InitQuickenTable arm os None so self (m, fs) = Inr (TryInvokeJavaRequestQutGenerate, self', m', fs')" "manager_inv m"
  shows "can_load (so_build_id so) m \<and> m' = asked so m \<and> self' = self \<and> qut_sections_ptr self = None"
proof -
  have none: "qut_sections_ptr self = None" using assms(1) by (auto simp: InitQuickenTable_def split: if_splits)
  obtain ret found where req: "Request arm os so (m, fs) = Inr (ret, found, m', fs')"
    and init: "TryInitQuickenTable (ret, map_option qut_sections.truncate found) None self
      = (TryInvokeJavaRequestQutGenerate, self')"
    using assms(1) none by (auto simp: InitQuickenTable_def Request_def split: sum.splits prod.splits)
  have "ret = TryInvokeJavaRequestQutGenerate" "self' = self"
    using init none by (auto simp: TryInitQuickenTable_def Let_def split: if_splits)
  then show ?thesis using Request_missing [OF req assms(2)] none by simp
qed

text \<open>
  C14. How a table arrives.  An interface whose table is missing asks for it to be generated, and is recorded.
  While nothing was generated, asking again changes nothing.  Once the generated sections are
  saved, dropping the request by its hash makes the interface load the file, and from then on
  it holds exactly those sections.
\<close>

theorem requested_table_arrives:
  fixes s :: "'w::len word owned_sections" and objects :: "'i \<Rightarrow> so_info \<times> 'w word quicken_interface"
  assumes "manager_inv m"
    and "InitQuickenTable arm os None so self (m, fs) = Inr (TryInvokeJavaRequestQutGenerate, self', m1, fs1)"
    and "objects i = (so, self')"
    and "good_sections s" "machine_word TYPE('w)" "open_ok os2"
    and "no_link fs1 (ToTempQutFileName (now os2) (sSavingPath m) (so_name so) (so_build_id so))"
    and "(6 + idx_size s + tbl_size s) * word_size_of TYPE('w) \<le> written os2"
    and "open_ok os3" "fstat_ok os3" "mmap_ok os3"
  shows "Request arm os' so (m1, fs') = Inr (LoadRequesting, None, m1, fs')
    \<and> (\<exists>m2 fs2 objects' m3. SaveQutSections arm os2 (so_name so) (so_hash so) (so_build_id so) True (Some s)
          (RecordQutRequestInterface (so_hash so) i m1, fs1) = Inr (NoneError, m2, fs2)
        \<and> EraseAndRefresh arm os3 None (so_hash so) objects (m2, fs2) = Inr (objects', m3, fs2)
        \<and> qut_sections_ptr (snd (objects' i)) = Some (qut_sections.truncate s)
        \<and> qut_sections_map m3 (so_build_id so) = Some (Some (s\<lparr>load_from_file := True\<rparr>)))"
proof -
  have missing: "can_load (so_build_id so) m" "m1 = asked so m" "self' = self" "qut_sections_ptr self = None"
    using InitQuickenTable_missing [OF assms(2,1)] by auto
  obtain bs where bs: "qut_file_bytes arm s = Inr bs" using qut_file_bytes_good [OF assms(4)] by blast
  have all: "take (written os2) bs = bs" using length_qut_file_bytes [OF assms(4) bs] assms(8) by simp
  let ?m2 = "RecordQutRequestInterface (so_hash so) i m1"
  let ?m2' = "m\<lparr>qut_sections_requesting := (qut_sections_requesting m)(so_build_id so := None),
      qut_sections_hash_to_build_id := (qut_sections_hash_to_build_id m)(so_hash so := None),
      qut_sections_hash_to_interface := (qut_sections_hash_to_interface m)(so_hash so := None)\<rparr>"
  let ?s = "s\<lparr>load_from_file := True\<rparr>"
  have path: "sSavingPath ?m2 = sSavingPath m" "can_load (so_build_id so) ?m2" "can_load (so_build_id so) ?m2'"
    using missing by (simp_all add: RecordQutRequestInterface_def asked_def can_load_def)
  obtain fs2 where save: "SaveQutSections arm os2 (so_name so) (so_hash so) (so_build_id so) True (Some s) (?m2, fs1)
      = Inr (NoneError, ?m2, fs2)"
    and stored: "read_file fs2 (ToQutFileName (sSavingPath m) (so_name so) (so_build_id so)) = Some bs"
  proof -
    obtain m' fs2 where save: "SaveQutSections arm os2 (so_name so) (so_hash so) (so_build_id so) True (Some s) (?m2, fs1)
      = Inr (NoneError, m', fs2)" "read_file fs2 (ToQutFileName (sSavingPath m) (so_name so) (so_build_id so)) = Some bs"
      using SaveQutSections_stores [OF assms(4,6) path(2) bs, of fs1 "so_name so" "so_hash so" True] assms(7) path(1) all
      by auto
    moreover have "m' = ?m2" using save(1) bs by (auto simp: SaveQutSections_def split: if_splits prod.splits)
    ultimately show ?thesis using that by simp
  qed
  have req: "Request arm os3 so (?m2', fs2) = Inr (NoneError, Some ?s,
      loaded (so_hash so) (so_build_id so) ?s (asked so ?m2'), fs2)"
    by (rule Request_loads [OF assms(4,5) bs path(3) _ assms(9-11)]) (simp_all add: stored)
  have init: "InitQuickenTable arm os3 None so self (?m2', fs2)
      = Inr (NoneError, self\<lparr>qut_sections_ptr := Some (qut_sections.truncate s)\<rparr>,
             loaded (so_hash so) (so_build_id so) ?s (asked so ?m2'), fs2)"
    unfolding InitQuickenTable_Request [OF missing(4) req]
    using missing(4) by (simp add: TryInitQuickenTable_def qut_sections.truncate_def)
  have "EraseAndRefresh arm os3 None (so_hash so) objects (?m2, fs2)
      = Inr (objects(i := (so, self\<lparr>qut_sections_ptr := Some (qut_sections.truncate s)\<rparr>)),
             loaded (so_hash so) (so_build_id so) ?s (asked so ?m2'), fs2)"
    using init assms(3) missing(2,3) by (simp add: EraseAndRefresh_def Erase_asked)
  then show ?thesis
    using save Request_again [OF missing(1)] missing(2) by (auto simp: loaded_def)
qed

definition sample_so :: so_info where
  "sample_so = \<lparr>so_name = ''libc.so'', so_path = ''/libc.so'', so_hash = ''h'', so_build_id = ''AB'', so_elf_start_offset = 0\<rparr>"

definition sample_interface :: "u64 quicken_interface" where
  "sample_interface = \<lparr>load_bias = 0, qut_sections_ptr = None, quicken_in_memory = None, debug_jit = None,
     jit_cache = False, try_load_qut_failed_count = 0\<rparr>"

theorem requested_table_arrives_witness:
  "\<exists>m1 m2 fs2 objects' m3.
     InitQuickenTable False sample_os None sample_so sample_interface
       (WarmUp True (SetSavingPath False ''/data/'' new_table_manager) :: (u64, nat) table_manager, Map.empty)
       = Inr (TryInvokeJavaRequestQutGenerate, sample_interface, m1, Map.empty)
     \<and> SaveQutSections False sample_os ''libc.so'' ''h'' ''AB'' True (Some sample_sections)
         (RecordQutRequestInterface ''h'' 5 m1, Map.empty) = Inr (NoneError, m2, fs2)
     \<and> EraseAndRefresh False sample_os None ''h'' (\<lambda>i. (sample_so, sample_interface)) (m2, fs2) = Inr (objects', m3, fs2)
     \<and> qut_sections_ptr (snd (objects' 5)) = Some (qut_sections.truncate sample_sections)"
proof -
  let ?m = "WarmUp True (SetSavingPath False ''/data/'' new_table_manager) :: (u64, nat) table_manager"
  have "can_load (so_build_id sample_so) ?m"
    by (simp add: can_load_def sample_so_def WarmUp_def SetSavingPath_def new_table_manager_def)
  then have init: "InitQuickenTable False sample_os None sample_so sample_interface (?m, Map.empty)
      = Inr (TryInvokeJavaRequestQutGenerate, sample_interface, asked sample_so ?m, Map.empty)"
    by (simp add: InitQuickenTable_def RequestQutSections_def FindQutSectionsNoLock_def can_load_def asked_def
        TryLoadQutFile_def TryInitQuickenTable_def sample_interface_def read_file_def resolve_None Let_def
        WarmUp_def SetSavingPath_def new_table_manager_def)
  have inv: "manager_inv ?m" by (simp add: manager_inv_def WarmUp_def SetSavingPath_def new_table_manager_def)
  have so: "so_name sample_so = ''libc.so''" "so_hash sample_so = ''h''" "so_build_id sample_so = ''AB''"
    by (simp_all add: sample_so_def)
  have good: "good_sections sample_sections" "machine_word TYPE(64)" "open_ok sample_os" "fstat_ok sample_os" "mmap_ok sample_os"
    by (simp_all add: good_sections_def machine_word_def sample_sections_def word_size_of_def sample_os_def)
  have room: "(6 + idx_size sample_sections + tbl_size sample_sections) * word_size_of TYPE(64) \<le> written sample_os"
    by (simp add: sample_sections_def word_size_of_def sample_os_def)
  have "no_link Map.empty name" for name by (simp add: no_link_def)
  from requested_table_arrives [where i = 5 and os' = sample_os and fs' = Map.empty, OF inv init refl good(1-3) this room good(3-5)] init
  show ?thesis unfolding so by blast
qed


section \<open>A file whose index lies outside\<close>

text \<open>A file of six words: two index words are announced, at an offset far behind the end.\<close>

definition stray_file :: "u8 list" where
  "stray_file = concat (map size_bytes [1, 2, 2, 0, 0x100000, 48 :: u64])"

text \<open>
  The place of the index is not checked.  A file is accepted whose index lies outside it, and the search
  for any program counter then reads outside the mapped file.
\<close>

theorem stray_index_accepted:
  "\<exists>sections. read_qut_file False True stray_file = Inr (sections :: u64 owned_sections)
     \<and> (\<forall>pc. FindEntry (qut_sections.truncate sections) pc = Some (Inl ReadPastEnd))"
proof -
  have words: "(file_word stray_file 0 :: u64) = 1" "(file_word stray_file 8 :: u64) = 2"
    "(file_word stray_file 16 :: u64) = 2" "(file_word stray_file 24 :: u64) = 0"
    "(file_word stray_file 32 :: u64) = 0x100000" "(file_word stray_file 40 :: u64) = 48" "length stray_file = 48"
    by code_simp+
  have "(read_qut_file False True stray_file :: _ + u64 owned_sections)
      = Inr \<lparr>quidx = [], qutbl = [], idx_size = 2, tbl_size = 0, load_from_file = True, native_only = False\<rparr>"
    by (simp add: Let_def read_qut_file_def word_size_of_def words words_at_def QUT_VERSION_def CURRENT_ARCH_ENUM_def
        QUT_NATIVE_ONLY_MASK_def)
  then show ?thesis
    by (auto simp: FindEntry_def qut_sections.truncate_def find_loop.simps)
qed

end
