(* ===== verification/Memory_Objects.thy ===== *)
theory Memory_Objects
  imports Dwarf_Memory
begin

text \<open>
  Memory objects: \<open>QuickenMemoryFile\<close> of \<^verbatim>\<open>QuickenMemory.cpp\<close>, and the objects of
  \<^verbatim>\<open>external/libunwindstack/Memory.cpp\<close> that the unwinder reads through.  The locale
  \<open>memory_object\<close> is the contract of \<open>Read\<close>: what it copies lies at consecutive addresses from the first;
  \<open>exact_memory\<close> adds that it stops only where nothing is.  Each object is shown to keep one of the two.
\<close>

section \<open>Bytes at consecutive addresses\<close>

fun prefix_at :: "(u64 \<Rightarrow> u8 option) \<Rightarrow> u64 \<Rightarrow> nat \<Rightarrow> u8 list" where
  "prefix_at f a 0 = []"
| "prefix_at f a (Suc n) = (case f a of None \<Rightarrow> [] | Some b \<Rightarrow> b # prefix_at f (a + 1) n)"

definition bytes_of :: "u8 list \<Rightarrow> u64 \<Rightarrow> u8 option" where
  "bytes_of xs a = (if unat a < length xs then Some (xs ! unat a) else None)"

lemma length_prefix_at: "length (prefix_at f a n) \<le> n"
  by (induction f a n rule: prefix_at.induct) (auto split: option.split)

lemma prefix_at_cong:
  "(\<And>i. i < n \<Longrightarrow> f (a + of_nat i) = g (b + of_nat i)) \<Longrightarrow> prefix_at f a n = prefix_at g b n"
proof (induction n arbitrary: a b)
  case (Suc n)
  have "f (a + 1 + of_nat i) = g (b + 1 + of_nat i)" if "i < n" for i
    using Suc.prems [of "Suc i"] that by (simp add: algebra_simps)
  then have "prefix_at f (a + 1) n = prefix_at g (b + 1) n" by (rule Suc.IH)
  moreover have "f a = g b" using Suc.prems [of 0] by simp
  ultimately show ?case by (simp split: option.split)
qed simp

lemma prefix_at_stop: "f (a + of_nat k) = None \<Longrightarrow> prefix_at f a n = prefix_at f a (min n k)"
proof (induction n arbitrary: a k)
  case (Suc n)
  show ?case
  proof (cases k)
    case 0
    then show ?thesis using Suc.prems by simp
  next
    case (Suc j)
    then have "prefix_at f (a + 1) n = prefix_at f (a + 1) (min n j)"
      using Suc.prems by (intro Suc.IH) (simp add: algebra_simps)
    then show ?thesis using Suc by (auto split: option.split)
  qed
qed simp

lemma take_prefix_at: "take k (prefix_at f a n) = prefix_at f a (min k n)"
proof (induction n arbitrary: a k)
  case (Suc n)
  then show ?case by (cases k) (auto split: option.split)
qed simp

lemma prefix_at_append:
  "prefix_at f a (m + n) =
     (if length (prefix_at f a m) = m then prefix_at f a m @ prefix_at f (a + of_nat m) n else prefix_at f a m)"
proof (induction m arbitrary: a)
  case (Suc m)
  have "f a \<noteq> None \<Longrightarrow> length (prefix_at f a (Suc m)) = Suc m \<longleftrightarrow> length (prefix_at f (a + 1) m) = m"
    by auto
  then show ?case using Suc [of "a + 1"] by (auto simp: algebra_simps split: option.split)
qed simp

lemma prefix_at_bytes_of:
  assumes "length xs < 2 ^ 64"
  shows "prefix_at (bytes_of xs) a n = take n (drop (unat a) xs)"
  using assms
proof (induction n arbitrary: a)
  case (Suc n)
  show ?case
  proof (cases "unat a < length xs")
    case True
    then have "unat (a + 1) = Suc (unat a)"
      using Suc.prems by (simp add: unat_word_ariths)
    then show ?thesis
      using True Suc by (simp add: bytes_of_def Cons_nth_drop_Suc [symmetric])
  qed (simp add: bytes_of_def)
qed simp

section \<open>The contract of \<open>Read\<close>\<close>

text \<open>
  \<open>byte_at m a\<close> is the byte at an address of the object, if there is one.  The bound on the number of
  bytes keeps the sums of an address and a size apart from the end of the address space.
\<close>

locale memory_object =
  fixes read :: "'o \<Rightarrow> memory_read" and byte_at :: "'o \<Rightarrow> u64 \<Rightarrow> u8 option" and valid :: "'o \<Rightarrow> bool"
  assumes read_some: "valid m \<Longrightarrow> n < 2 ^ 63 \<Longrightarrow> \<exists>k \<le> n. read m a n = prefix_at (byte_at m) a k"

begin

lemma ReadFully_sound:
  assumes "valid m" "n < 2 ^ 63" "ReadFully (read m) a n = Some bs"
  shows "bs = prefix_at (byte_at m) a n" "length bs = n"
proof -
  obtain k where k: "k \<le> n" "read m a n = prefix_at (byte_at m) a k" using read_some assms(1,2) by blast
  show "length bs = n" using assms(3) by (auto simp: ReadFully_def Let_def split: if_splits)
  then have "k = n" using k assms(3) length_prefix_at [of "byte_at m" a k]
    by (auto simp: ReadFully_def Let_def split: if_splits)
  then show "bs = prefix_at (byte_at m) a n"
    using k assms(3) by (auto simp: ReadFully_def Let_def split: if_splits)
qed

end

locale exact_memory = memory_object +
  assumes read_all: "valid m \<Longrightarrow> n < 2 ^ 63 \<Longrightarrow> read m a n = prefix_at (byte_at m) a n"

begin

lemma ReadFully_exact:
  "valid m \<Longrightarrow> n < 2 ^ 63 \<Longrightarrow> ReadFully (read m) a n
     = (if length (prefix_at (byte_at m) a n) = n then Some (prefix_at (byte_at m) a n) else None)"
  by (simp add: ReadFully_def read_all Let_def)

end

section \<open>Buffers and ranges\<close>

lemma exact_memoryI:
  "(\<And>m n a. valid m \<Longrightarrow> n < 2 ^ 63 \<Longrightarrow> read m a n = prefix_at (byte_at m) a n) \<Longrightarrow> exact_memory read byte_at valid"
  by unfold_locales (blast, assumption)

interpretation buffer: exact_memory MemoryBuffer_Read bytes_of "\<lambda>raw. length raw < 2 ^ 64"
  by (rule exact_memoryI) (auto simp: MemoryBuffer_Read_def Let_def prefix_at_bytes_of min_def)

text \<open>\<open>MemoryRange\<close> over any object; the fields are those of the C++ class.\<close>

record memory_range =
  range_begin :: u64
  range_length :: u64
  range_offset :: u64

definition range_read :: "('o \<Rightarrow> memory_read) \<Rightarrow> 'o \<times> memory_range \<Rightarrow> memory_read" where
  "range_read read = (\<lambda>(m, r). MemoryRange_Read (read m) (range_begin r) (range_length r) (range_offset r))"

definition range_byte :: "('o \<Rightarrow> u64 \<Rightarrow> u8 option) \<Rightarrow> 'o \<times> memory_range \<Rightarrow> u64 \<Rightarrow> u8 option" where
  "range_byte byte_at = (\<lambda>(m, r) a.
     if range_offset r \<le> a \<and> a - range_offset r < range_length r
     then byte_at m (a - range_offset r + range_begin r) else None)"

definition range_ok :: "memory_range \<Rightarrow> bool" where
  "range_ok r \<longleftrightarrow> unat (range_offset r) + unat (range_length r) < 2 ^ 64
     \<and> unat (range_begin r) + unat (range_length r) < 2 ^ 64"


lemma range_start:
  assumes "range_ok r" "range_offset r \<le> a" "a - range_offset r < range_length r"
    and "i < unat (range_length r - (a - range_offset r))"
  shows "range_offset r \<le> a + of_nat i" "a + of_nat i - range_offset r < range_length r"
    and "a + of_nat i - range_offset r = a - range_offset r + of_nat i"
    and "unat (a + of_nat i) = unat a + i"
proof -
  have left: "unat (range_length r - (a - range_offset r)) = unat (range_length r) - (unat a - unat (range_offset r))"
    using assms(2,3) by (simp add: unat_sub order.strict_implies_order word_le_nat_alt word_less_nat_alt)
  have start: "unat (a - range_offset r) = unat a - unat (range_offset r)" using assms(2) by (simp add: unat_sub word_le_nat_alt)
  have "unat a - unat (range_offset r) + i < unat (range_length r)"
    using assms(3,4) left start by (simp add: word_less_nat_alt)
  then have sum: "unat (a + of_nat i) = unat a + i" and i: "unat (of_nat i :: u64) = i"
    using assms(1,2) unsigned_less [of a, where 'a = nat] unfolding range_ok_def
    by (auto simp: unat_word_ariths unsigned_of_nat take_bit_nat_eq_self word_le_nat_alt)
  show "range_offset r \<le> a + of_nat i" using assms(2) sum by (simp add: word_le_nat_alt)
  then show "a + of_nat i - range_offset r < range_length r"
    using sum \<open>unat a - unat (range_offset r) + i < unat (range_length r)\<close> assms(2)
    by (simp add: word_less_nat_alt unat_sub word_le_nat_alt)
  show "a + of_nat i - range_offset r = a - range_offset r + of_nat i" by simp
  show "unat (a + of_nat i) = unat a + i" by (rule sum)
qed

lemma range_end:
  assumes "range_ok r" "range_offset r \<le> a" "a - range_offset r < range_length r"
  shows "range_byte byte_at (m, r) (a + of_nat (unat (range_length r - (a - range_offset r)))) = None"
  by (simp add: range_byte_def)

context exact_memory begin

lemma MemoryRange_exact:
  assumes "valid m" "range_ok r" "n < 2 ^ 63"
  shows "range_read read (m, r) a n = prefix_at (range_byte byte_at (m, r)) a n"
proof (cases "range_offset r \<le> a \<and> a - range_offset r < range_length r")
  case False
  then have "range_byte byte_at (m, r) a = None"
    unfolding range_byte_def prod.case by (rule if_not_P)
  then have "prefix_at (range_byte byte_at (m, r)) a n = []" by (cases n) simp_all
  moreover have "range_read read (m, r) a n = []"
  proof (cases "range_offset r \<le> a")
    case True
    with False have "range_length r \<le> a - range_offset r" by (metis not_less)
    with True show ?thesis by (simp only: range_read_def MemoryRange_Read_def Let_def prod.case if_True if_False not_le if_cancel)
  next
    case False
    then show ?thesis by (simp only: range_read_def MemoryRange_Read_def prod.case not_le if_True)
  qed
  ultimately show ?thesis by simp
next
  case True
  let ?left = "unat (range_length r - (a - range_offset r))"
  have fits: "unat (a - range_offset r) + unat (range_begin r) < 2 ^ 64"
    using assms(2) True by (simp add: range_ok_def word_less_nat_alt)
  have "prefix_at (range_byte byte_at (m, r)) a n = prefix_at (range_byte byte_at (m, r)) a (min n ?left)"
    by (rule prefix_at_stop [where a = a and k = ?left],
        rule range_end [OF assms(2) conjunct1 [OF True] conjunct2 [OF True]])
  also have "\<dots> = prefix_at (byte_at m) (a - range_offset r + range_begin r) (min n ?left)"
  proof (rule prefix_at_cong)
    fix i assume "i < min n ?left"
    then have "i < ?left" by simp
    note at = range_start [OF assms(2) conjunct1 [OF True] conjunct2 [OF True] this]
    have "range_byte byte_at (m, r) (a + of_nat i) = byte_at m (a + of_nat i - range_offset r + range_begin r)"
      unfolding range_byte_def prod.case using at(1,2) by (simp only: if_True conj_absorb simp_thms)
    then show "range_byte byte_at (m, r) (a + of_nat i) = byte_at m (a - range_offset r + range_begin r + of_nat i)"
      unfolding at(3) by (simp only: add.assoc add.commute add.left_commute)
  qed
  also have "\<dots> = range_read read (m, r) a n"
  proof -
    have "read m (a - range_offset r + range_begin r) (min n ?left)
        = prefix_at (byte_at m) (a - range_offset r + range_begin r) (min n ?left)"
      using assms(1,3) by (intro read_all) simp_all
    moreover have "\<not> a < range_offset r" "\<not> range_length r \<le> a - range_offset r"
      "\<not> 2 ^ 64 \<le> unat (a - range_offset r) + unat (range_begin r)"
      using True fits by (simp_all only: not_less not_le)
    ultimately show ?thesis
      by (simp only: range_read_def MemoryRange_Read_def Let_def prod.case if_False)
  qed
  finally show ?thesis by simp
qed

text \<open>Ranges over an exact object are exact objects.\<close>

lemma MemoryRange_exact_memory:
  "exact_memory (range_read read) (range_byte byte_at) (\<lambda>(m, r). valid m \<and> range_ok r)"
  by (rule exact_memoryI) (auto simp: MemoryRange_exact)

end

interpretation buffer_range: exact_memory "range_read MemoryBuffer_Read" "range_byte bytes_of"
    "\<lambda>(raw, r). length raw < 2 ^ 64 \<and> range_ok r"
  by (rule buffer.MemoryRange_exact_memory)


section \<open>Several ranges\<close>

text \<open>
  \<open>MemoryRanges\<close>: a map from the end of a range to the range, here a list in the order of the keys.  A read
  stops at the end of the range it starts in, so the object keeps only the weaker contract.
\<close>

type_synonym memory_ranges = "(u64 \<times> memory_range) list"

definition MemoryRanges_Insert :: "memory_range \<Rightarrow> memory_ranges \<Rightarrow> memory_ranges" where
  "MemoryRanges_Insert memory maps =
     (let key = range_offset memory + range_length memory
      in if key \<in> fst ` set maps then maps else insort_key fst (key, memory) maps)"

definition upper_bound :: "memory_ranges \<Rightarrow> u64 \<Rightarrow> (u64 \<times> memory_range) option" where
  "upper_bound maps addr = find (\<lambda>(key, r). addr < key) maps"

definition MemoryRanges_Read :: "('o \<Rightarrow> memory_read) \<Rightarrow> 'o \<times> memory_ranges \<Rightarrow> memory_read" where
  "MemoryRanges_Read read = (\<lambda>(m, maps) addr size'.
     case upper_bound maps addr of
       None \<Rightarrow> []
     | Some (key, r) \<Rightarrow> range_read read (m, r) addr size')"

definition ranges_byte :: "('o \<Rightarrow> u64 \<Rightarrow> u8 option) \<Rightarrow> 'o \<times> memory_ranges \<Rightarrow> u64 \<Rightarrow> u8 option" where
  "ranges_byte byte_at = (\<lambda>(m, maps) a.
     case upper_bound maps a of None \<Rightarrow> None | Some (key, r) \<Rightarrow> range_byte byte_at (m, r) a)"

definition ranges_ok :: "memory_ranges \<Rightarrow> bool" where
  "ranges_ok maps \<longleftrightarrow> sorted_wrt (<) (map fst maps)
     \<and> (\<forall>(key, r) \<in> set maps. key = range_offset r + range_length r \<and> range_ok r)"

lemma strictly_sorted_insort:
  "sorted_wrt (<) (map fst xs) \<Longrightarrow> fst x \<notin> fst ` set xs \<Longrightarrow> sorted_wrt (<) (map fst (insort_key fst x xs))"
  for xs :: "(u64 \<times> 'r) list"
  by (induction xs) (fastforce simp: set_insort_key)+

lemma ranges_ok_Insert: "ranges_ok maps \<Longrightarrow> range_ok r \<Longrightarrow> ranges_ok (MemoryRanges_Insert r maps)"
  by (auto simp: MemoryRanges_Insert_def ranges_ok_def Let_def strictly_sorted_insort set_insort_key)

lemma upper_bound_SomeD:
  "upper_bound maps a = Some (key, r) \<Longrightarrow> (key, r) \<in> set maps \<and> a < key"
  unfolding upper_bound_def by (induction maps) (auto split: if_splits)

lemma upper_bound_between:
  "upper_bound maps a = Some (key, r) \<Longrightarrow> sorted_wrt (<) (map fst maps) \<Longrightarrow> a \<le> b \<Longrightarrow> b < key
     \<Longrightarrow> upper_bound maps b = Some (key, r)"
  unfolding upper_bound_def
proof (induction maps)
  case (Cons x maps)
  show ?case
  proof (cases "a < fst x")
    case False
    then show ?thesis using Cons by (auto simp: split_def)
  qed (use Cons.prems in \<open>auto simp: split_def\<close>)
qed simp

lemma prefix_at_some: "i < length (prefix_at f a n) \<Longrightarrow> f (a + of_nat i) \<noteq> None"
proof (induction n arbitrary: a i)
  case (Suc n)
  show ?case
  proof (cases i)
    case (Suc j)
    then have "j < length (prefix_at f (a + 1) n)" using Suc.prems by (auto split: option.splits)
    from Suc.IH [OF this] show ?thesis using \<open>i = Suc j\<close> by (simp add: ac_simps)
  qed (use Suc.prems in \<open>auto split: option.splits\<close>)
qed simp

context exact_memory begin

lemma MemoryRanges_prefix:
  assumes "valid m" "ranges_ok maps" "n < 2 ^ 63"
  shows "\<exists>k \<le> n. MemoryRanges_Read read (m, maps) a n = prefix_at (ranges_byte byte_at (m, maps)) a k"
proof (cases "upper_bound maps a")
  case None
  then show ?thesis by (auto simp: MemoryRanges_Read_def intro: exI [of _ 0])
next
  case (Some p)
  then obtain key r where at: "upper_bound maps a = Some (key, r)" by (cases p) auto
  have r: "key = range_offset r + range_length r" "range_ok r"
    using upper_bound_SomeD [OF at] assms(2) by (auto simp: ranges_ok_def)
  let ?f = "range_byte byte_at (m, r)" and ?g = "ranges_byte byte_at (m, maps)"
  define k where "k = length (prefix_at ?f a n)"
  have read: "MemoryRanges_Read read (m, maps) a n = prefix_at ?f a n"
    using at MemoryRange_exact [OF assms(1) r(2) assms(3)] by (simp add: MemoryRanges_Read_def)
  have "k \<le> n" unfolding k_def by (rule length_prefix_at)
  then have "prefix_at ?f a n = prefix_at ?f a k"
    using take_prefix_at [of k ?f a n] by (simp add: k_def min_def)
  also have "\<dots> = prefix_at ?g a k"
  proof (rule prefix_at_cong)
    fix i assume "i < k"
    then have some: "?f (a + of_nat j) \<noteq> None" if "j \<le> i" for j
      using that prefix_at_some [of j ?f a n] by (simp add: k_def)
    have inside: "range_offset r \<le> a" "a - range_offset r < range_length r"
      using some [of 0] by (auto simp: range_byte_def split: if_splits)
    have "i < unat (range_length r - (a - range_offset r))"
    proof (rule ccontr)
      assume "\<not> ?thesis"
      then show False using some range_end [OF r(2) inside] by (metis not_less)
    qed
    note at' = range_start [OF r(2) inside this]
    have "a \<le> a + of_nat i" using at'(4) by (simp add: word_le_nat_alt)
    moreover have "a + of_nat i < key"
    proof -
      have "unat key = unat (range_offset r) + unat (range_length r)"
        using r by (simp add: range_ok_def unat_word_ariths)
      then show ?thesis
        using at'(1,2) by (simp add: word_less_nat_alt word_le_nat_alt unat_sub)
    qed
    ultimately have "upper_bound maps (a + of_nat i) = Some (key, r)"
      using upper_bound_between [OF at] assms(2) by (simp add: ranges_ok_def)
    then show "?f (a + of_nat i) = ?g (a + of_nat i)" by (simp add: ranges_byte_def)
  qed
  finally show ?thesis using read \<open>k \<le> n\<close> by auto
qed

lemma MemoryRanges_memory_object:
  "memory_object (MemoryRanges_Read read) (ranges_byte byte_at) (\<lambda>(m, maps). valid m \<and> ranges_ok maps)"
  by unfold_locales (auto intro: MemoryRanges_prefix)

end

interpretation buffer_ranges: memory_object "MemoryRanges_Read MemoryBuffer_Read" "ranges_byte bytes_of"
    "\<lambda>(raw, maps). length raw < 2 ^ 64 \<and> ranges_ok maps"
  by (rule buffer.MemoryRanges_memory_object)


section \<open>Strings\<close>

text \<open>
  \<open>Memory::ReadString\<close>: blocks of at most 256 bytes are read until one has a terminator; a string that
  reaches into a second block is read again as a whole.
\<close>

function ReadString_loop :: "memory_read \<Rightarrow> u64 \<Rightarrow> nat \<Rightarrow> nat \<Rightarrow> u8 list option" where
  "ReadString_loop mem addr max_read offset =
     (if offset < max_read
      then (let buffer = mem (addr + of_nat offset) (min 256 (max_read - offset));
                size' = length buffer
            in if size' = 0 then None
               else (let len = length (takeWhile (\<lambda>b. b \<noteq> 0) buffer)
                     in if len < size'
                        then (if offset = 0 then Some (take len buffer) else ReadFully mem addr (offset + len))
                        else ReadString_loop mem addr max_read (offset + size')))
      else None)"
  by pat_completeness auto
termination by (relation "measure (\<lambda>(mem, addr, max_read, offset). max_read - offset)")
    (auto intro!: diff_less_mono2 simp: length_greater_0_conv [symmetric] simp del: length_greater_0_conv)

declare ReadString_loop.simps [simp del]

definition ReadString :: "memory_read \<Rightarrow> u64 \<Rightarrow> nat \<Rightarrow> u8 list option" where
  "ReadString mem addr max_read = ReadString_loop mem addr max_read 0"

text \<open>The bytes up to the first terminator, if there is one among the first bytes.\<close>

definition terminated :: "u8 list \<Rightarrow> u8 list option" where
  "terminated bs = (let s = takeWhile (\<lambda>b. b \<noteq> 0) bs in if length s < length bs then Some s else None)"

lemma takeWhile_shorter: "length (takeWhile (\<lambda>b. b \<noteq> 0) bs) < length bs \<longleftrightarrow> 0 \<in> set (bs :: u8 list)"
  by (induction bs) auto

lemma terminated_iff:
  "terminated bs = (if 0 \<in> set bs then Some (takeWhile (\<lambda>b. b \<noteq> 0) bs) else None)"
  by (simp add: terminated_def Let_def takeWhile_shorter)

lemma terminated_append: "0 \<notin> set xs \<Longrightarrow> terminated (xs @ ys) = map_option ((@) xs) (terminated ys)"
  by (auto simp: terminated_iff takeWhile_append)

lemma terminated_None: "0 \<notin> set xs \<Longrightarrow> terminated xs = None"
  by (simp add: terminated_iff)

lemma terminated_first: "0 \<in> set xs \<Longrightarrow> terminated (xs @ ys) = Some (takeWhile (\<lambda>b. b \<noteq> 0) xs)"
  by (auto simp: terminated_iff takeWhile_append)

context exact_memory begin

lemma ReadString_loop_correct:
  assumes "valid m" "max_read < 2 ^ 63"
    and "length (prefix_at (byte_at m) addr offset) = offset" "0 \<notin> set (prefix_at (byte_at m) addr offset)"
    and "offset \<le> max_read"
  shows "ReadString_loop (read m) addr max_read offset = terminated (prefix_at (byte_at m) addr max_read)"
  using assms(3-5)
proof (induction "max_read - offset" arbitrary: offset rule: less_induct)
  case less
  let ?f = "byte_at m"
  let ?pre = "prefix_at ?f addr offset"
  have ahead: "prefix_at ?f addr (offset + n) = ?pre @ prefix_at ?f (addr + of_nat offset) n" for n
    using prefix_at_append [of ?f addr offset n] less.prems(1) by simp
  show ?case
  proof (cases "offset < max_read")
    case False
    then have "offset = max_read" using less.prems(3) by simp
    then show ?thesis using less.prems(2) by (simp add: ReadString_loop.simps terminated_None)
  next
    case True
    define n where "n = min 256 (max_read - offset)"
    define buffer where "buffer = prefix_at ?f (addr + of_nat offset) n"
    have read: "read m (addr + of_nat offset) n = buffer"
      unfolding buffer_def using assms(1,2) by (intro read_all) (simp_all add: n_def)
    have n: "0 < n" "offset + n \<le> max_read" using True by (simp_all add: n_def)
    have small: "length buffer \<le> n" unfolding buffer_def by (rule length_prefix_at)
    have part: "prefix_at ?f (addr + of_nat offset) k = take k buffer" if "k \<le> length buffer" for k
      using take_prefix_at [of k ?f "addr + of_nat offset" n] that small by (simp add: buffer_def min_absorb1)
    have rest: "\<exists>ys. prefix_at ?f addr max_read = ?pre @ buffer @ ys"
      using take_prefix_at [of "offset + n" ?f addr max_read] n(2) ahead [of n]
      by (metis append.assoc append_take_drop_id buffer_def min.absorb1)
    have loop: "ReadString_loop (read m) addr max_read offset
        = (if buffer = [] then None
           else (let len = length (takeWhile (\<lambda>b. b \<noteq> 0) buffer)
                 in if len < length buffer
                    then (if offset = 0 then Some (take len buffer) else ReadFully (read m) addr (offset + len))
                    else ReadString_loop (read m) addr max_read (offset + length buffer)))"
      using True read by (subst ReadString_loop.simps) (simp add: Let_def flip: n_def)
    show ?thesis
    proof (cases "0 \<in> set buffer")
      case True
      let ?s = "takeWhile (\<lambda>b. b \<noteq> 0) buffer"
      have len: "length ?s < length buffer"
        using True takeWhile_shorter by blast
      have s: "prefix_at ?f addr (offset + length ?s) = ?pre @ ?s"
        using ahead [of "length ?s"] part [of "length ?s"] len takeWhile_eq_take [of "\<lambda>b. b \<noteq> 0" buffer] by simp
      have "ReadFully (read m) addr (offset + length ?s) = Some (?pre @ ?s)"
      proof -
        have "offset + length ?s < 2 ^ 63" using len small n(2) assms(2) by linarith
        then show ?thesis using ReadFully_exact [OF assms(1)] s less.prems(1) by simp
      qed
      moreover have "take (length ?s) buffer = ?s" by (rule takeWhile_eq_take [symmetric])
      moreover have "terminated (prefix_at ?f addr max_read) = Some (?pre @ ?s)"
        using rest terminated_append [OF less.prems(2)] terminated_first [OF True] by auto
      ultimately show ?thesis
        using loop len less.prems(1) by (auto simp: Let_def)
    next
      case False
      then have all: "takeWhile (\<lambda>b. b \<noteq> 0) buffer = buffer" by (auto simp: takeWhile_eq_all_conv)
      show ?thesis
      proof (cases "buffer = []")
        case True
        then have "?f (addr + of_nat offset) = None"
          using n(1) by (cases n) (auto simp: buffer_def split: option.splits)
        then have "prefix_at ?f addr max_read = ?pre"
          using prefix_at_stop [of ?f addr offset max_read] less.prems(3) by (simp add: min_absorb2)
        then show ?thesis using loop True less.prems(2) by (simp add: terminated_None)
      next
        case more: False
        have next': "prefix_at ?f addr (offset + length buffer) = ?pre @ buffer"
          using ahead [of "length buffer"] part [of "length buffer"] by simp
        from more have "0 < length buffer" by simp
        then have "max_read - (offset + length buffer) < max_read - offset" using small n by linarith
        then have "ReadString_loop (read m) addr max_read (offset + length buffer) = terminated (prefix_at ?f addr max_read)"
          using False more small n True less.prems by (intro less.hyps) (auto simp: next')
        then show ?thesis using loop more all by simp
      qed
    qed
  qed
qed

lemma ReadString_correct:
  "valid m \<Longrightarrow> max_read < 2 ^ 63
     \<Longrightarrow> ReadString (read m) addr max_read = terminated (prefix_at (byte_at m) addr max_read)"
  unfolding ReadString_def by (rule ReadString_loop_correct) simp_all

end


section \<open>\<open>QuickenMemoryFile\<close>\<close>

text \<open>
  A file that is mapped for reading; \<open>'v\<close> is \<open>size_t\<close>.  \<open>map_data\<close> are the bytes behind
  \<open>data_\<close>, and \<open>None\<close> when nothing is mapped there.  The first bytes of a mapping from the start of a file
  are kept in \<open>slice\<close> and cleared in the mapping.
\<close>

record 'v memory_file =
  mf_size :: 'v
  mf_offset :: 'v
  map_data :: "u8 list option"
  map_size :: 'v
  slice :: "u8 list"
  slice_size :: nat
  file_name :: string
  init_offset :: u64
  init_size :: u64

definition QUICKEN_MEMORY_SLICE :: nat where
  "QUICKEN_MEMORY_SLICE = 16"

definition new_memory_file :: "'w::len word memory_file" where
  "new_memory_file = \<lparr>mf_size = 0, mf_offset = 0, map_data = None, map_size = 0, slice = replicate QUICKEN_MEMORY_SLICE 0,
     slice_size = QUICKEN_MEMORY_SLICE, file_name = '''', init_offset = 0, init_size = 0\<rparr>"

definition Clear :: "'w::len word memory_file \<Rightarrow> 'w word memory_file" where
  "Clear m = (if map_data m \<noteq> None then m\<lparr>map_data := None, map_size := 0\<rparr> else m)"

text \<open>
  \<open>memory_copy\<close>: the copied bytes.  The offset is a \<open>size_t\<close>, to which an address is converted.
\<close>

definition memory_copy :: "u8 list \<Rightarrow> nat \<Rightarrow> 'w::len word \<Rightarrow> 'w word \<Rightarrow> u8 list" where
  "memory_copy data copy_size offset data_size =
     (if offset \<ge> data_size then []
      else (let bytes_left = data_size - offset
            in take (min (unat bytes_left) copy_size) (drop (unat offset) data)))"

text \<open>
  What the system answers for a file: its bytes (or that it cannot be opened), and whether \<open>fstat\<close> and \<open>mmap\<close>
  succeed.  A page has 4096 bytes; behind the end of the file a mapped page is zero.
\<close>

record file_answer =
  file_bytes :: "u8 list option"
  stat_ok :: bool
  map_ok :: bool

definition page_mask :: u64 where
  "page_mask = 4095"

definition mapped_size :: "u64 \<Rightarrow> u64 \<Rightarrow> u64 \<Rightarrow> 'w::len word" where
  "mapped_size st_size offset size' =
     (let start = ucast (offset AND page_mask) :: 'w word;
          whole = ucast (st_size - (offset AND NOT page_mask)) :: 'w word
      in if unat size' + unat start < 2 ^ 64 \<and> unat size' + unat start < unat whole
         then ucast (size' + ucast start) else whole)"

definition QuickenMemoryFile_Init ::
  "(string \<Rightarrow> file_answer) \<Rightarrow> string \<Rightarrow> u64 \<Rightarrow> u64 \<Rightarrow> 'w::len word memory_file \<Rightarrow> bool \<times> 'w word memory_file" where
  "QuickenMemoryFile_Init files file offset size' m0 =
     (let m = (Clear m0)\<lparr>slice_size := (if offset = 0 then QUICKEN_MEMORY_SLICE else 0)\<rparr>
      in case file_bytes (files file) of
           None \<Rightarrow> (False, m)
         | Some content \<Rightarrow>
             (let st_size = of_nat (length content) :: u64
              in if \<not> stat_ok (files file) then (False, m)
                 else if offset \<ge> st_size then (False, m)
                 else (let start = ucast (offset AND page_mask) :: 'w word;
                           aligned_offset = offset AND NOT page_mask;
                           m = m\<lparr>mf_offset := start\<rparr>
                       in if aligned_offset > st_size \<or> offset > st_size then (False, m)
                          else (let mapped = mapped_size st_size offset size' :: 'w word;
                                    m = m\<lparr>mf_size := mapped\<rparr>;
                                    pages = drop (unat aligned_offset) content
                                in if \<not> map_ok (files file) \<or> mapped = 0 then (False, m)
                                   else (let cut = slice_size m;
                                             kept = take cut (pages @ replicate cut 0);
                                             image = take (unat mapped) (replicate cut 0 @ drop cut pages)
                                         in (True, m\<lparr>slice := (if cut > 0 then kept else slice m),
                                                     map_data := Some (drop (unat start) image), map_size := mapped,
                                                     mf_size := mapped - start, file_name := file,
                                                     init_offset := offset, init_size := size'\<rparr>))))))"

definition QuickenMemoryFile_Read :: "'w::len word memory_file \<Rightarrow> u64 \<Rightarrow> nat \<Rightarrow> fault + u8 list" where
  "QuickenMemoryFile_Read m addr size' =
     (if addr < of_nat (slice_size m)
      then (let kept = memory_copy (slice m) size' (ucast addr) (of_nat (slice_size m) :: 'w word)
            in if addr + of_nat size' > of_nat (slice_size m)
               then (case map_data m of
                       None \<Rightarrow> Inl ReadPastEnd
                     | Some data \<Rightarrow>
                         Inr (kept @ memory_copy data (size' - unat (of_nat (slice_size m) - addr))
                                (of_nat (slice_size m)) (mf_size m)))
               else Inr kept)
      else (case map_data m of
              None \<Rightarrow> Inl ReadPastEnd
            | Some data \<Rightarrow> Inr (memory_copy data size' (ucast addr) (mf_size m))))"


section \<open>A mapped file is the file\<close>

lemma memory_copy_nat:
  "memory_copy data n off size' = take (min (unat size' - unat off) n) (drop (unat off) data)"
  by (auto simp: memory_copy_def Let_def word_le_nat_alt unat_sub not_le)

lemma unat_page_start: "unat (x AND page_mask) = unat x mod 4096"
proof -
  have "page_mask = mask 12" by (simp add: page_mask_def mask_eq_exp_minus_1)
  then have "x AND page_mask = take_bit 12 x" by (simp only: take_bit_eq_mask)
  then show ?thesis by (simp only: unsigned_take_bit_eq take_bit_eq_mod [where 'a = nat]) simp
qed

lemma unat_page_aligned: "unat (x AND NOT page_mask) = unat x - unat x mod 4096"
proof -
  have "(x AND page_mask) + (x AND NOT page_mask) = (x AND page_mask) OR (x AND NOT page_mask)"
    by (rule disjunctive_add) (simp add: bit_and_iff bit_not_iff)
  also have "\<dots> = x" by (rule bit_word_eqI) (auto simp: bit_and_iff bit_or_iff bit_not_iff)
  finally have "x AND NOT page_mask = x - (x AND page_mask)" by (metis add_diff_cancel_left')
  moreover have "x AND page_mask \<le> x" by (simp add: word_le_nat_alt unat_page_start)
  ultimately show ?thesis by (simp add: unat_sub unat_page_start word_le_nat_alt)
qed

text \<open>The part of a file that an object over it shows.\<close>

definition file_view :: "u8 list \<Rightarrow> u64 \<Rightarrow> u64 \<Rightarrow> u8 list" where
  "file_view content offset size' = take (unat size') (drop (unat offset) content)"

text \<open>A \<open>size_t\<close> that can hold a page number and the size of the file.\<close>

definition holds_file :: "'w::len itself \<Rightarrow> u8 list \<Rightarrow> bool" where
  "holds_file t content \<longleftrightarrow> 12 < LENGTH('w) \<and> LENGTH('w) \<le> 64 \<and> length content < 2 ^ LENGTH('w) \<and> length content < 2 ^ 63"

lemma holds_file_sizes:
  assumes "holds_file TYPE('w::len) content" "offset < of_nat (length content)"
  shows "unat (of_nat (length content) :: u64) = length content" "unat offset < length content"
    and "unat (ucast (offset AND page_mask) :: 'w word) = unat offset mod 4096"
    and "unat (mapped_size (of_nat (length content)) offset size' :: 'w word)
       = min (unat size' + unat offset mod 4096) (length content - (unat offset - unat offset mod 4096))"
proof -
  have fit: "12 < LENGTH('w)" "LENGTH('w) \<le> 64" "length content < 2 ^ LENGTH('w)" "length content < 2 ^ 63"
    using assms(1) by (simp_all add: holds_file_def)
  show size: "unat (of_nat (length content) :: u64) = length content"
    using fit(4) by (simp add: unsigned_of_nat take_bit_nat_eq_self)
  then show off: "unat offset < length content" using assms(2) by (simp add: word_less_nat_alt)
  have page: "(4096::nat) \<le> 2 ^ LENGTH('w)"
    using power_increasing [of 12 "LENGTH('w)" "2::nat"] fit(1) by simp
  have "unat offset mod 4096 < 2 ^ LENGTH('w)"
    by (rule less_le_trans [OF _ page]) simp
  then show start: "unat (ucast (offset AND page_mask) :: 'w word) = unat offset mod 4096"
    by (simp add: unsigned_ucast_eq unat_page_start take_bit_nat_eq_self)
  have "unat (of_nat (length content) - (offset AND NOT page_mask)) = length content - (unat offset - unat offset mod 4096)"
    using off size by (simp add: unat_sub word_le_nat_alt unat_page_aligned)
  then have whole: "unat (ucast (of_nat (length content) - (offset AND NOT page_mask)) :: 'w word)
      = length content - (unat offset - unat offset mod 4096)"
    using fit(3) by (simp add: unsigned_ucast_eq take_bit_nat_eq_self)
  have u: "unat (ucast (ucast (offset AND page_mask) :: 'w word) :: u64) = unat offset mod 4096"
  proof -
    have "unat offset mod 4096 < 4096" by simp
    moreover have "(4096 :: nat) < 2 ^ LENGTH(64)" by simp
    ultimately have "unat offset mod 4096 < 2 ^ LENGTH(64)" by (rule less_trans)
    then show ?thesis by (simp only: unsigned_ucast_eq [where 'b = 'w] start take_bit_nat_eq_self)
  qed
  show "unat (mapped_size (of_nat (length content)) offset size' :: 'w word)
       = min (unat size' + unat offset mod 4096) (length content - (unat offset - unat offset mod 4096))"
  proof (cases "unat size' + unat offset mod 4096 < length content - (unat offset - unat offset mod 4096)")
    case True
    have "(2::nat) ^ 63 < 2 ^ 64" by simp
    then have small: "unat size' + unat offset mod 4096 < 2 ^ LENGTH('w)" "unat size' + unat offset mod 4096 < 2 ^ 64"
      using True fit(3,4) by linarith+
    have "unat (size' + ucast (ucast (offset AND page_mask) :: 'w word)) = unat size' + unat offset mod 4096"
      using small(2) by (simp add: unat_word_ariths u)
    then have "unat (ucast (size' + ucast (ucast (offset AND page_mask) :: 'w word)) :: 'w word) = unat size' + unat offset mod 4096"
      using small(1) by (simp add: unsigned_ucast_eq take_bit_nat_eq_self)
    then show ?thesis
      using True small by (simp add: mapped_size_def Let_def start whole)
  next
    case False
    then show ?thesis by (simp add: mapped_size_def Let_def start whole)
  qed
qed


lemma min_shift: "s \<le> o' \<Longrightarrow> o' < l \<Longrightarrow> min (z + s) (l - (o' - s)) - s = min z (l - o')" for s :: nat
  by (auto simp: min_def)

lemma length_file_view:
  assumes "holds_file TYPE('w::len) content" "offset < of_nat (length content)"
  shows "unat (mapped_size (of_nat (length content)) offset size' - ucast (offset AND page_mask) :: 'w word)
     = length (file_view content offset size')"
proof -
  note sizes = holds_file_sizes [OF assms]
  let ?s = "unat offset mod 4096"
  have "?s \<le> unat offset" by (rule mod_less_eq_dividend)
  then have "?s \<le> unat (mapped_size (of_nat (length content)) offset size' :: 'w word)"
    using sizes(2,4) by simp
  then have "unat (mapped_size (of_nat (length content)) offset size' - ucast (offset AND page_mask) :: 'w word)
      = unat (mapped_size (of_nat (length content)) offset size' :: 'w word) - ?s"
    using sizes(3) by (simp only: unat_sub word_le_nat_alt)
  also have "\<dots> = min (unat size') (length content - unat offset)"
    unfolding sizes(4) by (rule min_shift [OF \<open>?s \<le> unat offset\<close> sizes(2)])
  finally show ?thesis by (simp add: file_view_def min.commute)
qed

lemma QuickenMemoryFile_Init_mapped:
  fixes m0 :: "'w::len word memory_file"
  assumes "QuickenMemoryFile_Init files file offset size' m0 = (True, m)" "file_bytes (files file) = Some content"
    and "holds_file TYPE('w) content"
  shows "offset < of_nat (length content)"
    and "unat (mf_size m) = length (file_view content offset size')"
    and "offset \<noteq> 0 \<Longrightarrow> slice_size m = 0 \<and> map_data m = Some (file_view content offset size')"
    and "offset = 0 \<Longrightarrow> slice_size m = 16 \<and> slice m = take 16 (content @ replicate 16 0)
           \<and> map_data m = Some (take (length (file_view content offset size')) (replicate 16 0 @ drop 16 content))"
proof -
  show off: "offset < of_nat (length content)"
    using assms(1,2) by (auto simp: QuickenMemoryFile_Init_def Let_def split: if_splits)
  note sizes = holds_file_sizes [OF assms(3) off] and view = length_file_view [OF assms(3) off]
  have m: "slice_size m = (if offset = 0 then 16 else 0)"
    "mf_size m = mapped_size (of_nat (length content)) offset size' - ucast (offset AND page_mask)"
    "offset = 0 \<Longrightarrow> slice m = take 16 (drop (unat (offset AND NOT page_mask)) content @ replicate 16 0)"
    "map_data m = Some (drop (unat (ucast (offset AND page_mask) :: 'w word))
       (take (unat (mapped_size (of_nat (length content)) offset size' :: 'w word))
         (replicate (slice_size m) 0 @ drop (slice_size m) (drop (unat (offset AND NOT page_mask)) content))))"
    using assms(1,2) by (auto simp: QuickenMemoryFile_Init_def Let_def QUICKEN_MEMORY_SLICE_def split: if_splits)
  show "unat (mf_size m) = length (file_view content offset size')" using m(2) view by simp
  let ?s = "unat offset mod 4096"
  have s: "?s \<le> unat offset" by (rule mod_less_eq_dividend)
  show "slice_size m = 0 \<and> map_data m = Some (file_view content offset size')" if "offset \<noteq> 0"
  proof -
    have "map_data m = Some (drop ?s (take (min (unat size' + ?s) (length content - (unat offset - ?s)))
        (drop (unat offset - ?s) content)))"
      using m(1,4) that by (simp add: sizes unat_page_aligned)
    also have "drop ?s (take (min (unat size' + ?s) (length content - (unat offset - ?s))) (drop (unat offset - ?s) content))
        = file_view content offset size'"
      using s by (simp add: file_view_def drop_take min_def)
    finally show ?thesis using m(1) that by simp
  qed
  show "slice_size m = 16 \<and> slice m = take 16 (content @ replicate 16 0)
      \<and> map_data m = Some (take (length (file_view content offset size')) (replicate 16 0 @ drop 16 content))" if "offset = 0"
  proof -
    have "unat (ucast (offset AND page_mask) :: 'w word) = 0" "unat (offset AND NOT page_mask) = 0"
      using that sizes(3) by (simp_all add: unat_page_aligned)
    moreover have "unat (mapped_size (of_nat (length content)) offset size' :: 'w word) = length (file_view content offset size')"
      using sizes(4) that by (simp add: file_view_def)
    ultimately show ?thesis using m(1,3,4) that by simp
  qed
qed


lemma take_drop_split:
  "a \<le> k \<Longrightarrow> k \<le> length xs \<Longrightarrow> k - a \<le> n
     \<Longrightarrow> take n (drop a xs) = drop a (take k xs) @ take (n - (k - a)) (drop k xs)" for k :: nat
proof -
  assume k: "a \<le> k" "k \<le> length xs" "k - a \<le> n"
  have "drop a xs = drop a (take k xs) @ drop k xs"
    using k by (metis append_take_drop_id drop_append diff_is_0_eq drop_0 length_take min.absorb2)
  then show ?thesis using k by (simp add: min_absorb2)
qed

text \<open>
  The reads of an object that was opened, as long as the address fits a \<open>size_t\<close>.  An object over the start of
  a file shows a slice of 16 bytes even where the file is shorter, hence the bound on the view.
\<close>

lemma QuickenMemoryFile_Read_view:
  fixes m0 :: "'w::len word memory_file"
  assumes "QuickenMemoryFile_Init files file offset size' m0 = (True, m)" "file_bytes (files file) = Some content"
    and "holds_file TYPE('w) content" "offset = 0 \<Longrightarrow> 16 \<le> length (file_view content offset size')"
    and "unat addr < 2 ^ LENGTH('w)" "n < 2 ^ 63"
  shows "QuickenMemoryFile_Read m addr n = Inr (take n (drop (unat addr) (file_view content offset size')))"
proof -
  note mapped = QuickenMemoryFile_Init_mapped [OF assms(1-3)]
  let ?view = "file_view content offset size'"
  have addr: "unat (ucast addr :: 'w word) = unat addr"
    using assms(5) by (simp add: unsigned_ucast_eq take_bit_nat_eq_self)
  have cut: "take (min (length ?view - unat addr) n) (drop (unat addr) ?view) = take n (drop (unat addr) ?view)"
    by (metis length_drop min.commute take_all_iff take_take order_refl)
  show ?thesis
  proof (cases "offset = 0")
    case False
    then show ?thesis
      using mapped(2) mapped(3) [OF False] cut addr by (simp add: QuickenMemoryFile_Read_def memory_copy_nat)
  next
    case True
    note slice = mapped(4) [OF True]
    have big: "16 \<le> length ?view" using assms(4) True by simp
    have view: "?view = take (length ?view) content" using True by (auto simp: file_view_def min_def)
    have sixteen: "unat (16 :: 'w word) = 16" "unat (of_nat 16 :: 'w word) = 16"
    proof -
      have "(16 :: nat) < 2 ^ LENGTH('w)"
        using power_increasing [of 12 "LENGTH('w)" "2 :: nat"] assms(3) by (simp add: holds_file_def)
      then show "unat (16 :: 'w word) = 16" by (simp add: unsigned_numeral take_bit_nat_eq_self)
      then show "unat (of_nat 16 :: 'w word) = 16" by simp
    qed
    have "length ?view \<le> length content" by (simp add: file_view_def)
    then have head: "slice m = take 16 ?view" using slice big by (subst view) (simp add: min_def)
    have tail: "drop k (take (length ?view) (replicate 16 0 @ drop 16 content)) = drop k ?view" if "16 \<le> k" for k
    proof -
      have "drop k (replicate 16 0 @ drop 16 content) = drop k content" using that by simp
      then show ?thesis using view by (metis drop_take)
    qed
    show ?thesis
    proof (cases "addr < 16")
      case False
      then have "16 \<le> unat addr" by (simp add: word_less_nat_alt)
      then show ?thesis
        using False slice mapped(2) cut tail addr by (simp add: QuickenMemoryFile_Read_def memory_copy_nat)
    next
      case low: True
      then have a: "unat addr < 16" by (simp add: word_less_nat_alt)
      have kept: "memory_copy (slice m) n (ucast addr) (of_nat 16 :: 'w word) = take n (drop (unat addr) (take 16 ?view))"
        using head big by (simp add: memory_copy_nat sixteen addr min_absorb2 del: of_nat_numeral)
          (metis (no_types) diff_le_self length_drop length_take min.absorb2 min.commute take_all_iff take_take order_refl)
      have sum: "addr + of_nat n > 16 \<longleftrightarrow> 16 < unat addr + n"
      proof -
        have "unat addr + n < 2 ^ 64" using a assms(6) by simp
        then have "unat (addr + of_nat n) = unat addr + n"
          by (simp add: unat_word_ariths unsigned_of_nat take_bit_nat_eq_self)
        then show ?thesis by (simp add: word_less_nat_alt)
      qed
      have rest: "memory_copy (take (length ?view) (replicate 16 0 @ drop 16 content)) (n - unat (16 - addr)) (of_nat 16 :: 'w word) (mf_size m)
          = take (n - (16 - unat addr)) (drop 16 ?view)" if "16 < unat addr + n"
        using mapped(2) tail [of 16] low
        by (simp add: memory_copy_nat sixteen unat_sub order.strict_implies_order del: of_nat_numeral)
          (metis (no_types) length_drop min.commute take_all_iff take_take order_refl)
      show ?thesis
      proof (cases "16 < unat addr + n")
        case True
        have "drop (unat addr) (take 16 ?view) @ take (n - (16 - unat addr)) (drop 16 ?view) = take n (drop (unat addr) ?view)"
          using take_drop_split [of "unat addr" 16 ?view n] a big True by simp
        moreover have "take n (drop (unat addr) (take 16 ?view)) = drop (unat addr) (take 16 ?view)"
          using True by simp
        ultimately show ?thesis
          using True kept rest sum slice low by (simp add: QuickenMemoryFile_Read_def)
      next
        case False
        then have "take n (drop (unat addr) (take 16 ?view)) = take n (drop (unat addr) ?view)"
          by (simp add: take_drop min_def)
        then show ?thesis using False kept sum slice low by (simp add: QuickenMemoryFile_Read_def)
      qed
    qed
  qed
qed


text \<open>The bytes that an object shows, and the objects over files that it was opened for, with a \<open>size_t\<close> of 64 bits.\<close>

definition shown_bytes :: "'w::len word memory_file \<Rightarrow> u8 list" where
  "shown_bytes m = (case map_data m of
     None \<Rightarrow> []
   | Some data \<Rightarrow> take (unat (mf_size m)) (take (slice_size m) (slice m) @ drop (slice_size m) data))"

definition opened :: "u64 memory_file \<Rightarrow> bool" where
  "opened m \<longleftrightarrow> (\<exists>files file offset size' m0 content. QuickenMemoryFile_Init files file offset size' m0 = (True, m)
     \<and> file_bytes (files file) = Some content \<and> length content < 2 ^ 63
     \<and> (offset = 0 \<longrightarrow> 16 \<le> length (file_view content offset size')))"

definition file_read :: "u64 memory_file \<Rightarrow> memory_read" where
  "file_read m addr n = (case QuickenMemoryFile_Read m addr n of Inl f \<Rightarrow> [] | Inr bs \<Rightarrow> bs)"

lemma shown_bytes_view:
  fixes m0 :: "'w::len word memory_file"
  assumes "QuickenMemoryFile_Init files file offset size' m0 = (True, m)" "file_bytes (files file) = Some content"
    and "holds_file TYPE('w) content" "offset = 0 \<Longrightarrow> 16 \<le> length (file_view content offset size')"
  shows "shown_bytes m = file_view content offset size'"
proof (cases "offset = 0")
  case True
  let ?view = "file_view content offset size'"
  note mapped = QuickenMemoryFile_Init_mapped [OF assms(1-3)]
  have view: "?view = take (length ?view) content" using True by (auto simp: file_view_def min_def)
  have "length ?view \<le> length content" by (simp add: file_view_def)
  then have "take (length ?view) (take 16 content @ drop 16 content) = ?view \<and> 16 \<le> length content"
    using view assms(4) [OF True] by simp
  moreover have "take 16 content @ take (length ?view - 16) (drop 16 content) = take (length ?view) content"
    using take_add [of 16 "length ?view - 16" content] assms(4) [OF True] by simp
  ultimately show ?thesis
    using mapped(2) mapped(4) [OF True] assms(4) [OF True] view
    by (simp add: shown_bytes_def min_absorb2 drop_take)
next
  case False
  then show ?thesis
    using QuickenMemoryFile_Init_mapped(2,3) [OF assms(1-3)] by (simp add: shown_bytes_def)
qed

lemma file_read_shown:
  assumes "opened m" "n < 2 ^ 63"
  shows "file_read m addr n = prefix_at (bytes_of (shown_bytes m)) addr n"
proof -
  obtain files fname offset size' m0 content where m: "QuickenMemoryFile_Init files fname offset size' m0 = (True, m)"
    "file_bytes (files fname) = Some content" "length content < 2 ^ 63"
    "offset = 0 \<Longrightarrow> 16 \<le> length (file_view content offset size')"
    using assms(1) unfolding opened_def by blast
  then have holds: "holds_file TYPE(64) content" by (simp add: holds_file_def)
  have "unat addr < 2 ^ LENGTH(64)" using unsigned_less [of addr, where 'a = nat] by simp
  then have "file_read m addr n = take n (drop (unat addr) (shown_bytes m))"
    using QuickenMemoryFile_Read_view [OF m(1,2) holds m(4) _ assms(2)] shown_bytes_view [OF m(1,2) holds m(4)]
    by (simp add: file_read_def)
  moreover have "length (shown_bytes m) < 2 ^ 64"
    using shown_bytes_view [OF m(1,2) holds m(4)] m(3) by (simp add: file_view_def)
  ultimately show ?thesis by (simp add: prefix_at_bytes_of)
qed

interpretation quicken_file: exact_memory file_read "\<lambda>m. bytes_of (shown_bytes m)" opened
  by (rule exact_memoryI) (rule file_read_shown)

interpretation quicken_file_ranges: memory_object "MemoryRanges_Read file_read" "ranges_byte (\<lambda>m. bytes_of (shown_bytes m))"
    "\<lambda>(m, maps). opened m \<and> ranges_ok maps"
  by (rule quicken_file.MemoryRanges_memory_object)

text \<open>
  C23. A mapped file reads as the file.  \<open>Init\<close> keeps the first 16 bytes of a file apart and clears them in the
  mapping, to hide the ELF header from other loaders; reading through the object still gives the bytes
  of the file, from the offset it was opened at and not beyond the size asked for, and strings are those
  that lie there.
\<close>

theorem mapped_file_reads_as_file:
  fixes m0 :: "u64 memory_file"
  assumes "QuickenMemoryFile_Init files file offset size' m0 = (True, m)" "file_bytes (files file) = Some content"
    and "length content < 2 ^ 63" "offset = 0 \<Longrightarrow> 16 \<le> length (file_view content offset size')" "n < 2 ^ 63"
  shows "QuickenMemoryFile_Read m addr n = Inr (take n (drop (unat addr) (file_view content offset size')))
    \<and> ReadString (file_read m) addr n = terminated (take n (drop (unat addr) (file_view content offset size')))"
proof
  have holds: "holds_file TYPE(64) content" using assms(3) by (simp add: holds_file_def)
  have "unat addr < 2 ^ LENGTH(64)" using unsigned_less [of addr, where 'a = nat] by simp
  then show "QuickenMemoryFile_Read m addr n = Inr (take n (drop (unat addr) (file_view content offset size')))"
    using QuickenMemoryFile_Read_view [OF assms(1,2) holds assms(4) _ assms(5)] by blast
  have "opened m" using assms(1-4) unfolding opened_def by blast
  moreover have "length (file_view content offset size') < 2 ^ 64" using assms(3) by (simp add: file_view_def)
  ultimately show "ReadString (file_read m) addr n = terminated (take n (drop (unat addr) (file_view content offset size')))"
    using quicken_file.ReadString_correct [OF _ assms(5), of m addr] shown_bytes_view [OF assms(1,2) holds assms(4)]
    by (simp add: prefix_at_bytes_of)
qed

definition sample_files :: "string \<Rightarrow> file_answer" where
  "sample_files name = \<lparr>file_bytes = Some (if name = ''short'' then [1, 2, 3, 4] else map of_nat [100..<132]),
     stat_ok = True, map_ok = True\<rparr>"


lemma sample_mapped:
  "QuickenMemoryFile_Init sample_files ''long'' 0 64 (new_memory_file :: u64 memory_file)
     = (True, \<lparr>mf_size = 32, mf_offset = 0, map_data = Some (replicate 16 0 @ map of_nat [116..<132]), map_size = 32,
          slice = map of_nat [100..<116], slice_size = 16, file_name = ''long'', init_offset = 0, init_size = 64\<rparr>)"
  by (simp add: QuickenMemoryFile_Init_def sample_files_def new_memory_file_def Clear_def QUICKEN_MEMORY_SLICE_def
      mapped_size_def page_mask_def Let_def upt_rec)

theorem mapped_file_reads_as_file_witness:
  "QuickenMemoryFile_Read (snd (QuickenMemoryFile_Init sample_files ''long'' 0 64 (new_memory_file :: u64 memory_file))) 14 4
     = Inr [114, 115, 116, 117]"
proof -
  let ?content = "map of_nat [100..<132] :: u8 list"
  have "file_view ?content 0 64 = ?content" by (simp add: file_view_def)
  then show ?thesis
    using mapped_file_reads_as_file [OF sample_mapped, of ?content 4 14]
    unfolding sample_mapped by (simp add: sample_files_def upt_rec)
qed

text \<open>
  More than the file.  An object over a file of fewer than 16 bytes shows zeros behind its end, up to
  16 bytes; and where a \<open>size_t\<close> has 32 bits, an address behind four gigabytes is cut off, so that the read
  succeeds with bytes from the start of the file.
\<close>

theorem mapped_file_shows_more:
  "QuickenMemoryFile_Read (snd (QuickenMemoryFile_Init sample_files ''short'' 0 64 (new_memory_file :: u64 memory_file))) 2 6
     = Inr [3, 4, 0, 0, 0, 0] \<and>
   QuickenMemoryFile_Read (snd (QuickenMemoryFile_Init sample_files ''long'' 0 64 (new_memory_file :: u32 memory_file)))
     0x100000014 2 = Inr [120, 121]"
  by (simp add: QuickenMemoryFile_Init_def sample_files_def new_memory_file_def Clear_def QUICKEN_MEMORY_SLICE_def
      mapped_size_def page_mask_def Let_def upt_rec QuickenMemoryFile_Read_def memory_copy_nat)
    (simp add: numeral_eq_Suc)

end
