(* ===== verification/Quicken_Maps.thy ===== *)
theory Quicken_Maps
  imports Memory_Objects Qut_Utility
begin

text \<open>
  The memory maps of the process: \<open>QuickenMapInfo\<close> and \<open>Maps\<close> of \<^verbatim>\<open>QuickenMaps.cpp\<close>,
  \<^verbatim>\<open>QuickenMaps.h\<close> and \<^verbatim>\<open>unwindstack/MapInfo.h\<close>.  Collecting the maps, finding the one
  of an address, and the memory of the ELF file that a map belongs to.
\<close>

section \<open>Map infos\<close>

text \<open>
  A pointer to a map info is its number in the store of those that were created.  \<open>'q\<close> is a pointer to an
  interface.  The fields that only the reader of ELF files uses are left out.
\<close>

record 'q map_info =
  map_start :: u64
  map_end :: u64
  map_offset :: u64
  map_flags :: u16
  map_name :: string
  elf_offset :: u64
  elf_start_offset :: u64
  elf_load_bias :: u64
  prev_map :: "nat option"
  prev_real_map :: "nat option"
  next_real_map :: "nat option"
  memory_backed_elf :: bool
  map_interface :: "'q option"
  map_interface_failed :: bool
  name_without_delete :: string
  maybe_java :: bool

definition PROT_READ :: u16 where
  "PROT_READ = 1"

definition PROT_EXEC :: u16 where
  "PROT_EXEC = 4"

definition MAPS_FLAGS_DEVICE_MAP :: u16 where
  "MAPS_FLAGS_DEVICE_MAP = 0x8000"

definition IsBlank :: "'q map_info \<Rightarrow> bool" where
  "IsBlank m \<longleftrightarrow> map_offset m = 0 \<and> map_flags m = 0 \<and> map_name m = ''''"

text \<open>
  The constructor: the new map info is put into the store, and the real map before it points to it.
\<close>

definition new_map_info ::
  "nat option \<Rightarrow> nat option \<Rightarrow> u64 \<Rightarrow> u64 \<Rightarrow> u64 \<Rightarrow> u16 \<Rightarrow> string \<Rightarrow> 'q map_info list \<Rightarrow> 'q map_info list" where
  "new_map_info prev real start_addr end_addr pgoff flags name infos =
     (case real of
        None \<Rightarrow> infos
      | Some r \<Rightarrow> infos[r := (infos ! r)\<lparr>next_real_map := Some (length infos)\<rparr>])
     @ [\<lparr>map_start = start_addr, map_end = end_addr, map_offset = pgoff, map_flags = flags, map_name = name,
         elf_offset = 0, elf_start_offset = 0, elf_load_bias = 0, prev_map = prev, prev_real_map = real,
         next_real_map = None, memory_backed_elf = False, map_interface = None, map_interface_failed = False,
         name_without_delete = '''', maybe_java = False\<rparr>]"

definition GetRelPc :: "'q map_info \<Rightarrow> u64 \<Rightarrow> u64" where
  "GetRelPc m pc = pc - map_start m + elf_load_bias m + elf_offset m"

section \<open>Collecting maps\<close>

text \<open>
  The lines of \<^verbatim>\<open>/proc/self/maps\<close>, as \<open>ReadMapFile\<close> hands them over, and the loop state of
  \<open>ParseImpl\<close>.  A cell of the array that was not written is \<open>None\<close>.
\<close>

record map_line =
  line_start :: u64
  line_end :: u64
  line_flags :: u16
  line_pgoff :: u64
  line_name :: string

record 'q parse_state =
  infos :: "'q map_info list"
  prev_ptr :: "nat option"
  prev_real_ptr :: "nat option"
  tmp_maps :: "nat option list"
  tmp_capacity :: nat
  tmp_idx :: nat

definition CAPACITY_INCREMENT :: nat where
  "CAPACITY_INCREMENT = 1024"

definition map_line_flags :: "map_line \<Rightarrow> u16" where
  "map_line_flags l =
     (if StartsWith (line_name l) ''/dev/'' \<and> \<not> StartsWith (drop 5 (line_name l)) ''ashmem/''
      then line_flags l OR MAPS_FLAGS_DEVICE_MAP else line_flags l)"

definition parse_line :: "map_line \<Rightarrow> 'q parse_state \<Rightarrow> fault + 'q parse_state" where
  "parse_line l s =
     (let ptr = length (infos s);
          store = new_map_info (prev_ptr s) (prev_real_ptr s) (line_start l) (line_end l) (line_pgoff l)
                    (map_line_flags l) (line_name l) (infos s)
      in if length (tmp_maps s) \<le> tmp_idx s then Inl WritePastEnd
         else (let s1 = s\<lparr>infos := store, prev_ptr := Some ptr, tmp_maps := (tmp_maps s)[tmp_idx s := Some ptr],
                           tmp_idx := tmp_idx s + 1\<rparr>;
                   s2 = (if \<not> IsBlank (store ! ptr) then s1\<lparr>prev_real_ptr := Some ptr\<rparr> else s1)
               in if tmp_idx s2 = tmp_capacity s2
                  then (let capacity = tmp_capacity s2 + CAPACITY_INCREMENT
                        in Inr (s2\<lparr>tmp_capacity := capacity,
                                   tmp_maps := take (tmp_idx s2) (tmp_maps s2) @ replicate (capacity - tmp_idx s2) None\<rparr>))
                  else Inr s2))"

fun parse_lines :: "map_line list \<Rightarrow> 'q parse_state \<Rightarrow> fault + 'q parse_state" where
  "parse_lines [] s = Inr s"
| "parse_lines (l # ls) s = (case parse_line l s of Inl f \<Rightarrow> Inl f | Inr s' \<Rightarrow> parse_lines ls s')"

text \<open>
  A \<open>Maps\<close> object.  \<open>ParseImpl\<close> gets the lines that were read and whether reading succeeded to the end.
\<close>

record maps_obj =
  local_maps :: "nat option list option"
  maps_capacity :: nat
  maps_size :: nat

definition new_maps :: "nat \<Rightarrow> maps_obj" where
  "new_maps start_capacity = \<lparr>local_maps = None, maps_capacity = start_capacity, maps_size = 0\<rparr>"

definition ParseImpl ::
  "map_line list \<times> bool \<Rightarrow> 'q map_info list \<times> maps_obj \<Rightarrow> fault + (bool \<times> 'q map_info list \<times> maps_obj)" where
  "ParseImpl read = (\<lambda>(store, maps). case read of (ls, ret) \<Rightarrow>
     if maps_capacity maps = 0 then Inl CheckFailed
     else (case parse_lines ls \<lparr>infos = store, prev_ptr = None, prev_real_ptr = None,
                    tmp_maps = replicate (maps_capacity maps) None, tmp_capacity = maps_capacity maps, tmp_idx = 0\<rparr> of
             Inl f \<Rightarrow> Inl f
           | Inr s \<Rightarrow>
               if ret then Inr (True, infos s, \<lparr>local_maps = Some (tmp_maps s), maps_capacity = tmp_capacity s, maps_size = tmp_idx s\<rparr>)
               else Inr (False, infos s, maps)))"

section \<open>Finding a map\<close>

function find_map_loop ::
  "'q map_info list \<Rightarrow> nat option list \<Rightarrow> u64 \<Rightarrow> nat \<Rightarrow> nat \<Rightarrow> fault + nat option" where
  "find_map_loop store arr pc first last' =
     (if first < last'
      then (let index = (first + last') div 2
            in if length arr \<le> index then Inl ReadPastEnd
               else (case arr ! index of
                       None \<Rightarrow> Inl Uninitialised
                     | Some cur \<Rightarrow>
                         if pc \<ge> map_start (store ! cur) \<and> pc < map_end (store ! cur) then Inr (Some cur)
                         else if pc < map_start (store ! cur) then find_map_loop store arr pc first index
                         else find_map_loop store arr pc (index + 1) last'))
      else Inr None)"
  by pat_completeness auto
termination by (relation "measure (\<lambda>(store, arr, pc, first, last'). last' - first)") auto

declare find_map_loop.simps [simp del]

definition Find :: "'q map_info list \<Rightarrow> maps_obj \<Rightarrow> u64 \<Rightarrow> fault + nat option" where
  "Find store maps pc =
     (case local_maps maps of None \<Rightarrow> Inr None | Some arr \<Rightarrow> find_map_loop store arr pc 0 (maps_size maps))"

fun collect_suffix :: "'q map_info list \<Rightarrow> nat option list \<Rightarrow> string \<Rightarrow> fault + nat list" where
  "collect_suffix store [] soname = Inr []"
| "collect_suffix store (None # arr) soname = Inl Uninitialised"
| "collect_suffix store (Some cur # arr) soname =
     (case collect_suffix store arr soname of
        Inl f \<Rightarrow> Inl f
      | Inr found \<Rightarrow> Inr (if HasSuffix (map_name (store ! cur)) soname then cur # found else found))"

definition FindMapInfoByName :: "'q map_info list \<Rightarrow> maps_obj \<Rightarrow> string \<Rightarrow> fault + nat list" where
  "FindMapInfoByName store maps soname =
     (case local_maps maps of
        None \<Rightarrow> if maps_size maps = 0 then Inr [] else Inl ReadPastEnd
      | Some arr \<Rightarrow> if length arr < maps_size maps then Inl ReadPastEnd
                    else collect_suffix store (take (maps_size maps) arr) soname)"

section \<open>The current maps\<close>

text \<open>
  The static members of \<open>Maps\<close>.  A \<open>Maps\<close> object is known by its number, in the order in which they were
  made current.
\<close>

record 'q maps_state =
  map_infos :: "'q map_info list"
  maps_objects :: "maps_obj list"
  current_maps :: "nat option"
  latest_maps_capacity :: nat

definition Parse :: "map_line list \<times> bool \<Rightarrow> nat option \<Rightarrow> 'q maps_state \<Rightarrow> fault + (bool \<times> 'q maps_state)" where
  "Parse read maps s =
     (if maps \<noteq> None \<and> maps = current_maps s then Inr (True, s)
      else (case ParseImpl read (map_infos s, new_maps (latest_maps_capacity s)) of
              Inl f \<Rightarrow> Inl f
            | Inr (ret, store, obj) \<Rightarrow>
                Inr (ret, if ret then s\<lparr>map_infos := store, maps_objects := maps_objects s @ [obj],
                                       current_maps := Some (length (maps_objects s)),
                                       latest_maps_capacity := maps_capacity obj\<rparr>
                          else s\<lparr>map_infos := store\<rparr>)))"

definition current :: "map_line list \<times> bool \<Rightarrow> 'q maps_state \<Rightarrow> fault + (nat option \<times> 'q maps_state)" where
  "current read s =
     (if current_maps s = None
      then (case Parse read None s of Inl f \<Rightarrow> Inl f | Inr (ret, s') \<Rightarrow> Inr (current_maps s', s'))
      else Inr (current_maps s, s))"

text \<open>\<open>GetMapInfo\<close> of \<^verbatim>\<open>QuickenUnwinder.cpp\<close>; \<open>readable\<close> tells whether memory at the address can be read.\<close>

definition FindIn :: "nat \<Rightarrow> u64 \<Rightarrow> 'q maps_state \<Rightarrow> fault + nat option" where
  "FindIn maps pc s = Find (map_infos s) (maps_objects s ! maps) pc"

definition GetMapInfo ::
  "map_line list \<times> bool \<Rightarrow> (u64 \<Rightarrow> bool) \<Rightarrow> nat \<Rightarrow> u64 \<Rightarrow> 'q maps_state
     \<Rightarrow> fault + (nat option \<times> nat option \<times> 'q maps_state)" where
  "GetMapInfo read readable maps pc s =
     (case FindIn maps pc s of
        Inl f \<Rightarrow> Inl f
      | Inr (Some info) \<Rightarrow> Inr (Some info, Some maps, s)
      | Inr None \<Rightarrow>
          if readable pc
          then (case Parse read (Some maps) s of
                  Inl f \<Rightarrow> Inl f
                | Inr (ret, s1) \<Rightarrow>
                    (case FindIn maps pc s1 of
                       Inl f \<Rightarrow> Inl f
                     | Inr map_info \<Rightarrow>
                         (case current read s1 of
                            Inl f \<Rightarrow> Inl f
                          | Inr (maps', s2) \<Rightarrow> Inr (map_info, maps', s2))))
          else Inr (None, Some maps, s))"


section \<open>What is collected\<close>

definition blank_line :: "map_line \<Rightarrow> bool" where
  "blank_line l \<longleftrightarrow> line_pgoff l = 0 \<and> map_line_flags l = 0 \<and> line_name l = ''''"

text \<open>The last line that is not blank, as the number of its map info when the first one has number \<open>n\<close>.\<close>

definition last_real :: "nat \<Rightarrow> map_line list \<Rightarrow> nat option" where
  "last_real n ls =
     (let js = filter (\<lambda>j. \<not> blank_line (ls ! j)) [0..<length ls] in if js = [] then None else Some (n + last js))"

lemma last_real_Nil [simp]: "last_real n [] = None"
  by (simp add: last_real_def)

lemma last_real_snoc:
  "last_real n (ls @ [l]) = (if blank_line l then last_real n ls else Some (n + length ls))"
proof -
  have "filter (\<lambda>j. \<not> blank_line ((ls @ [l]) ! j)) [0..<length ls] = filter (\<lambda>j. \<not> blank_line (ls ! j)) [0..<length ls]"
    by (rule filter_cong) (simp_all add: nth_append)
  then show ?thesis by (simp add: last_real_def nth_append Let_def)
qed

lemma last_real_bound: "last_real n ls = Some r \<Longrightarrow> n \<le> r \<and> r < n + length ls"
  by (induction ls arbitrary: r rule: rev_induct) (auto simp: last_real_snoc split: if_splits)

text \<open>A map info is the one of a line.\<close>

definition info_of_line :: "map_line \<Rightarrow> 'q map_info \<Rightarrow> bool" where
  "info_of_line l m \<longleftrightarrow> map_start m = line_start l \<and> map_end m = line_end l \<and> map_offset m = line_pgoff l
     \<and> map_flags m = map_line_flags l \<and> map_name m = line_name l"

text \<open>
  The map infos with numbers from \<open>n\<close> on are those of the lines, each with the map and the real map before it;
  where one points to a later map, that map points back.
\<close>

definition collected :: "nat \<Rightarrow> map_line list \<Rightarrow> 'q map_info list \<Rightarrow> bool" where
  "collected n ls store \<longleftrightarrow> length store = n + length ls
     \<and> (\<forall>i < length ls. info_of_line (ls ! i) (store ! (n + i))
          \<and> prev_map (store ! (n + i)) = (if i = 0 then None else Some (n + i - 1))
          \<and> prev_real_map (store ! (n + i)) = last_real n (take i ls)
          \<and> (\<forall>j. next_real_map (store ! (n + i)) = Some j
               \<longrightarrow> n + i < j \<and> j < length store \<and> prev_real_map (store ! j) = Some (n + i)))"

definition parse_inv :: "'q map_info list \<Rightarrow> map_line list \<Rightarrow> 'q parse_state \<Rightarrow> bool" where
  "parse_inv store ls s \<longleftrightarrow> (let n = length store in
     collected n ls (infos s) \<and> take n (infos s) = store
     \<and> prev_ptr s = (if ls = [] then None else Some (n + length ls - 1)) \<and> prev_real_ptr s = last_real n ls
     \<and> tmp_idx s = length ls \<and> length ls < tmp_capacity s \<and> length (tmp_maps s) = tmp_capacity s
     \<and> take (length ls) (tmp_maps s) = map Some [n..<n + length ls])"

lemma collected_new:
  assumes "collected n ls store" "real = last_real n ls" "prev = (if ls = [] then None else Some (n + length ls - 1))"
  shows "collected n (ls @ [l]) (new_map_info prev real (line_start l) (line_end l) (line_pgoff l) (map_line_flags l)
     (line_name l) store)"
proof -
  let ?new = "new_map_info prev real (line_start l) (line_end l) (line_pgoff l) (map_line_flags l) (line_name l) store"
  have len: "length store = n + length ls" using assms(1) by (simp add: collected_def)
  have same: "?new ! (n + i) = (if real = Some (n + i) then (store ! (n + i))\<lparr>next_real_map := Some (n + length ls)\<rparr>
      else store ! (n + i))" if "i < length ls" for i
    using that len by (auto simp: new_map_info_def nth_append nth_list_update split: option.split)
  have last: "?new ! (n + length ls) = \<lparr>map_start = line_start l, map_end = line_end l, map_offset = line_pgoff l,
      map_flags = map_line_flags l, map_name = line_name l, elf_offset = 0, elf_start_offset = 0, elf_load_bias = 0,
      prev_map = prev, prev_real_map = real, next_real_map = None, memory_backed_elf = False, map_interface = None,
      map_interface_failed = False, name_without_delete = '''', maybe_java = False\<rparr>"
    using len by (auto simp: new_map_info_def nth_append split: option.split)
  have total: "length ?new = n + length (ls @ [l])" using len by (simp add: new_map_info_def split: option.split)
  have old: "info_of_line (ls ! i) (store ! (n + i)) \<and> prev_map (store ! (n + i)) = (if i = 0 then None else Some (n + i - 1))
      \<and> prev_real_map (store ! (n + i)) = last_real n (take i ls)
      \<and> (\<forall>j. next_real_map (store ! (n + i)) = Some j
           \<longrightarrow> n + i < j \<and> j < length store \<and> prev_real_map (store ! j) = Some (n + i))" if "i < length ls" for i
    using assms(1) that unfolding collected_def by blast
  have prev_real: "prev_real_map (?new ! j) = prev_real_map (store ! j)" if "n \<le> j" "j < length store" for j
    using same [of "j - n"] that len by simp
  show ?thesis
    unfolding collected_def
  proof (intro conjI allI impI total)
    fix i assume i: "i < length (ls @ [l])"
    consider "i < length ls" | "i = length ls" using i by fastforce
    then have both: "info_of_line ((ls @ [l]) ! i) (?new ! (n + i))
      \<and> prev_map (?new ! (n + i)) = (if i = 0 then None else Some (n + i - 1))
      \<and> prev_real_map (?new ! (n + i)) = last_real n (take i (ls @ [l]))
      \<and> (\<forall>j. next_real_map (?new ! (n + i)) = Some j
           \<longrightarrow> n + i < j \<and> j < length ?new \<and> prev_real_map (?new ! j) = Some (n + i))"
    proof cases
      case 1
      then show ?thesis
        using same [OF 1] old [OF 1] last total len prev_real
        by (auto simp: info_of_line_def nth_append split: if_splits)
    next
      case 2
      then show ?thesis using last assms(2,3) by (simp add: info_of_line_def)
    qed
    then show "info_of_line ((ls @ [l]) ! i) (?new ! (n + i))"
      "prev_map (?new ! (n + i)) = (if i = 0 then None else Some (n + i - 1))"
      "prev_real_map (?new ! (n + i)) = last_real n (take i (ls @ [l]))"
      by blast+
    fix j assume "next_real_map (?new ! (n + i)) = Some j"
    then show "n + i < j" "j < length ?new" "prev_real_map (?new ! j) = Some (n + i)" using both by blast+
  qed
qed


lemma new_map_info_last:
  "new_map_info prev real a b c d e store ! length store
     = \<lparr>map_start = a, map_end = b, map_offset = c, map_flags = d, map_name = e,
        elf_offset = 0, elf_start_offset = 0, elf_load_bias = 0, prev_map = prev, prev_real_map = real,
        next_real_map = None, memory_backed_elf = False, map_interface = None, map_interface_failed = False,
        name_without_delete = '''', maybe_java = False\<rparr>"
  by (auto simp: new_map_info_def nth_append split: option.split)

lemma new_map_info_take:
  "(\<And>r. real = Some r \<Longrightarrow> n \<le> r) \<Longrightarrow> n \<le> length store \<Longrightarrow> take n (new_map_info prev real a b c d e store) = take n store"
  by (auto simp: new_map_info_def take_update_cancel split: option.split)

text \<open>Every cell that is written lies in the array.\<close>

lemma parse_line_inv:
  assumes "parse_inv store ls s"
  shows "\<exists>s'. parse_line l s = Inr s' \<and> parse_inv store (ls @ [l]) s'"
proof -
  let ?n = "length store" and ?ptr = "length (infos s)"
  let ?infos = "new_map_info (prev_ptr s) (prev_real_ptr s) (line_start l) (line_end l) (line_pgoff l)
      (map_line_flags l) (line_name l) (infos s)"
  have inv: "collected ?n ls (infos s)" "take ?n (infos s) = store"
    "prev_ptr s = (if ls = [] then None else Some (?n + length ls - 1))" "prev_real_ptr s = last_real ?n ls"
    "tmp_idx s = length ls" "length ls < tmp_capacity s" "length (tmp_maps s) = tmp_capacity s"
    "take (length ls) (tmp_maps s) = map Some [?n..<?n + length ls]"
    using assms by (simp_all add: parse_inv_def Let_def)
  have ptr: "?ptr = ?n + length ls" using inv(1) by (simp add: collected_def)
  have blank: "IsBlank (?infos ! ?ptr) = blank_line l"
    by (simp add: new_map_info_last IsBlank_def blank_line_def)
  have coll: "collected ?n (ls @ [l]) ?infos" by (rule collected_new [OF inv(1,4,3)])
  have prefix': "take ?n ?infos = store"
    using new_map_info_take [of "prev_real_ptr s" ?n "infos s"] last_real_bound [of ?n ls] inv(2,4) ptr by simp
  have written: "take (Suc (length ls)) ((tmp_maps s)[length ls := Some ?ptr]) = map Some [?n..<?n + Suc (length ls)]"
    using inv(6,7,8) ptr by (simp add: take_Suc_conv_app_nth)
  define s1 where "s1 = s\<lparr>infos := ?infos, prev_ptr := Some ?ptr, tmp_maps := (tmp_maps s)[length ls := Some ?ptr],
      tmp_idx := length ls + 1, prev_real_ptr := (if blank_line l then prev_real_ptr s else Some ?ptr)\<rparr>"
  have real: "prev_real_ptr s1 = last_real ?n (ls @ [l])"
    using inv(4) ptr by (simp add: s1_def last_real_snoc)
  have line: "parse_line l s = Inr (if length ls + 1 = tmp_capacity s
      then s1\<lparr>tmp_capacity := tmp_capacity s + CAPACITY_INCREMENT,
              tmp_maps := take (length ls + 1) (tmp_maps s1) @ replicate (tmp_capacity s + CAPACITY_INCREMENT - (length ls + 1)) None\<rparr>
      else s1)"
    using inv(5,6,7) blank by (simp add: parse_line_def s1_def Let_def)
  have "parse_inv store (ls @ [l]) s1" if "length ls + 1 \<noteq> tmp_capacity s"
    using that inv coll prefix' written real ptr by (simp add: parse_inv_def Let_def s1_def)
  moreover have "parse_inv store (ls @ [l]) (s1\<lparr>tmp_capacity := tmp_capacity s + CAPACITY_INCREMENT,
      tmp_maps := take (length ls + 1) (tmp_maps s1) @ replicate (tmp_capacity s + CAPACITY_INCREMENT - (length ls + 1)) None\<rparr>)"
    if "length ls + 1 = tmp_capacity s"
    using that inv coll prefix' written real ptr by (simp add: parse_inv_def Let_def s1_def CAPACITY_INCREMENT_def)
  ultimately show ?thesis using line by auto
qed

lemma parse_lines_inv:
  "parse_inv store done s \<Longrightarrow> \<exists>s'. parse_lines ls s = Inr s' \<and> parse_inv store (done @ ls) s'"
proof (induction ls arbitrary: "done" s)
  case (Cons l ls)
  obtain s' where s': "parse_line l s = Inr s'" "parse_inv store (done @ [l]) s'"
    using parse_line_inv [OF Cons.prems] by blast
  then show ?case using Cons.IH [OF s'(2)] by simp
qed simp

definition fresh_parse :: "'q map_info list \<Rightarrow> nat \<Rightarrow> 'q parse_state" where
  "fresh_parse store capacity = \<lparr>infos = store, prev_ptr = None, prev_real_ptr = None,
     tmp_maps = replicate capacity None, tmp_capacity = capacity, tmp_idx = 0\<rparr>"

lemma parse_inv_fresh: "0 < capacity \<Longrightarrow> parse_inv store [] (fresh_parse store capacity)"
  by (simp add: parse_inv_def fresh_parse_def collected_def Let_def)

text \<open>A \<open>Maps\<close> object over the lines: its array holds their map infos, and has room left.\<close>

definition holds_maps :: "nat \<Rightarrow> map_line list \<Rightarrow> maps_obj \<Rightarrow> bool" where
  "holds_maps n ls maps \<longleftrightarrow> maps_size maps = length ls \<and> length ls < maps_capacity maps
     \<and> (\<exists>arr. local_maps maps = Some arr \<and> length arr = maps_capacity maps
          \<and> take (length ls) arr = map Some [n..<n + length ls])"

lemma ParseImpl_parses:
  assumes "0 < maps_capacity maps"
  shows "\<exists>store' maps'. ParseImpl (ls, ret) (store, maps) = Inr (ret, store', maps')
    \<and> collected (length store) ls store' \<and> take (length store) store' = store
    \<and> (if ret then holds_maps (length store) ls maps' else maps' = maps)"
proof -
  obtain s where s: "parse_lines ls (fresh_parse store (maps_capacity maps)) = Inr s" "parse_inv store ls s"
    using parse_lines_inv [OF parse_inv_fresh [OF assms, of store], of ls] by auto
  then show ?thesis
    using assms by (auto simp: ParseImpl_def fresh_parse_def [symmetric] parse_inv_def Let_def holds_maps_def)
qed


section \<open>The search\<close>

text \<open>Maps as the kernel lists them: not empty, in ascending order and disjoint.\<close>

definition ascending_maps :: "map_line list \<Rightarrow> bool" where
  "ascending_maps ls \<longleftrightarrow> (\<forall>l \<in> set ls. line_start l < line_end l) \<and> sorted_wrt (\<lambda>a b. line_end a \<le> line_start b) ls"

definition line_covers :: "u64 \<Rightarrow> map_line \<Rightarrow> bool" where
  "line_covers pc l \<longleftrightarrow> line_start l \<le> pc \<and> pc < line_end l"

text \<open>The map of an address, by going through all of them.\<close>

definition covering_map :: "nat \<Rightarrow> map_line list \<Rightarrow> u64 \<Rightarrow> nat option" where
  "covering_map n ls pc = map_option ((+) n) (find (\<lambda>i. line_covers pc (ls ! i)) [0..<length ls])"

lemma covering_map_Some:
  assumes "ascending_maps ls" "i < length ls" "line_covers pc (ls ! i)"
  shows "covering_map n ls pc = Some (n + i)"
proof -
  have "\<not> line_covers pc (ls ! j)" if "j < i" for j
    using assms that unfolding ascending_maps_def line_covers_def sorted_wrt_iff_nth_less
    by (meson leD less_le_trans le_less_trans not_le)
  then have "find (\<lambda>i. line_covers pc (ls ! i)) [0..<length ls] = Some i"
    using assms(2,3) by (simp add: find_Some_iff) (intro exI [of _ i], simp)
  then show ?thesis by (simp add: covering_map_def)
qed

lemma covering_map_None: "(\<And>i. i < length ls \<Longrightarrow> \<not> line_covers pc (ls ! i)) \<Longrightarrow> covering_map n ls pc = None"
  by (simp add: covering_map_def find_None_iff)

text \<open>The store holds the map infos of the lines; other fields may have changed since they were collected.\<close>

definition keeps_lines :: "nat \<Rightarrow> map_line list \<Rightarrow> 'q map_info list \<Rightarrow> bool" where
  "keeps_lines n ls store \<longleftrightarrow> n + length ls \<le> length store \<and> (\<forall>i < length ls. info_of_line (ls ! i) (store ! (n + i)))"

lemma collected_keeps_lines: "collected n ls store \<Longrightarrow> keeps_lines n ls store"
  by (auto simp: collected_def keeps_lines_def)

lemma find_map_loop_correct:
  assumes "ascending_maps ls" "keeps_lines n ls store" "take (length ls) arr = map Some [n..<n + length ls]"
    and "last' \<le> length ls" "\<And>i. i < first \<Longrightarrow> i < length ls \<Longrightarrow> line_end (ls ! i) \<le> pc"
    and "\<And>i. last' \<le> i \<Longrightarrow> i < length ls \<Longrightarrow> pc < line_start (ls ! i)"
  shows "find_map_loop store arr pc first last' = Inr (covering_map n ls pc)"
  using assms(4-6)
proof (induction "last' - first" arbitrary: first last' rule: less_induct)
  case less
  show ?case
  proof (cases "first < last'")
    case False
    have "\<not> line_covers pc (ls ! i)" if "i < length ls" for i
      using less.prems(2,3) [of i] that False unfolding line_covers_def by (meson leD not_le order.strict_trans1 le_less_linear)
    then show ?thesis using False by (simp add: find_map_loop.simps covering_map_None)
  next
    case True
    define i where "i = (first + last') div 2"
    have i: "first \<le> i" "i < last'" "i < length ls" using True less.prems(1) by (auto simp: i_def)
    have cell: "i < length arr" "arr ! i = Some (n + i)"
    proof -
      have "length ls \<le> length arr" using arg_cong [OF assms(3), of length] by simp
      then show "i < length arr" using i(3) by simp
      have "arr ! i = take (length ls) arr ! i" using i(3) by simp
      also have "\<dots> = Some (n + i)" unfolding assms(3) using i(3) by simp
      finally show "arr ! i = Some (n + i)" .
    qed
    have info: "map_start (store ! (n + i)) = line_start (ls ! i)" "map_end (store ! (n + i)) = line_end (ls ! i)"
      using assms(2) i(3) by (simp_all add: keeps_lines_def info_of_line_def)
    have step: "find_map_loop store arr pc first last'
        = (if line_covers pc (ls ! i) then Inr (Some (n + i))
           else if pc < line_start (ls ! i) then find_map_loop store arr pc first i
           else find_map_loop store arr pc (i + 1) last')"
      using True cell info by (subst find_map_loop.simps) (auto simp: Let_def line_covers_def not_le simp flip: i_def)
    consider "line_covers pc (ls ! i)" | "pc < line_start (ls ! i)" | "line_end (ls ! i) \<le> pc"
      unfolding line_covers_def by (meson not_le)
    then show ?thesis
    proof cases
      case 1
      then show ?thesis using step covering_map_Some [OF assms(1) i(3)] by simp
    next
      case 2
      have "pc < line_start (ls ! j)" if "i \<le> j" "j < length ls" for j
      proof (cases "j = i")
        case False
        then have "line_end (ls ! i) \<le> line_start (ls ! j)" "line_start (ls ! i) < line_end (ls ! i)"
          using assms(1) that i(3) by (auto simp: ascending_maps_def sorted_wrt_iff_nth_less)
        then show ?thesis using 2 by order
      qed (use 2 in simp)
      moreover have "i - first < last' - first" using i True by linarith
      ultimately have "find_map_loop store arr pc first i = Inr (covering_map n ls pc)"
        using less.prems(2) i(3) by (intro less.hyps) auto
      moreover have "\<not> line_covers pc (ls ! i)" using 2 by (auto simp: line_covers_def)
      ultimately show ?thesis using step 2 by simp
    next
      case 3
      have "line_end (ls ! j) \<le> pc" if "j < i + 1" "j < length ls" for j
      proof (cases "j = i")
        case False
        then have "line_end (ls ! j) \<le> line_start (ls ! i)" "line_start (ls ! i) < line_end (ls ! i)"
          using assms(1) that i(3) by (auto simp: ascending_maps_def sorted_wrt_iff_nth_less)
        then show ?thesis using 3 by order
      qed (use 3 in simp)
      moreover have "last' - (i + 1) < last' - first" using i True by linarith
      ultimately have "find_map_loop store arr pc (i + 1) last' = Inr (covering_map n ls pc)"
        using less.prems(1,3) by (intro less.hyps) auto
      moreover have "\<not> line_covers pc (ls ! i)" "\<not> pc < line_start (ls ! i)"
      proof -
        have "line_start (ls ! i) < line_end (ls ! i)" using assms(1) i(3) by (simp add: ascending_maps_def)
        then show "\<not> line_covers pc (ls ! i)" "\<not> pc < line_start (ls ! i)" using 3 by (auto simp: line_covers_def)
      qed
      ultimately show ?thesis using step by simp
    qed
  qed
qed

lemma Find_covering:
  assumes "ascending_maps ls" "keeps_lines n ls store" "holds_maps n ls maps"
  shows "Find store maps pc = Inr (covering_map n ls pc)"
proof -
  obtain arr where arr: "local_maps maps = Some arr" "take (length ls) arr = map Some [n..<n + length ls]" "maps_size maps = length ls"
    using assms(3) by (auto simp: holds_maps_def)
  show ?thesis
    using find_map_loop_correct [OF assms(1,2) arr(2), of "length ls" 0 pc] arr(1,3) by (simp add: Find_def)
qed

text \<open>
  C13. Maps are collected and found.  However many lines the kernel reports, none is written outside the array;
  afterwards every map info has the fields of its line and points to the map and to the real map
  before it, and the binary search finds, for any address, the map that a walk over all maps finds.
\<close>

theorem maps_collected_and_found:
  assumes "0 < capacity" "ascending_maps ls"
  shows "\<exists>store' maps. ParseImpl (ls, True) (store, new_maps capacity) = Inr (True, store', maps)
    \<and> collected (length store) ls store' \<and> take (length store) store' = store
    \<and> (\<forall>pc. Find store' maps pc = Inr (covering_map (length store) ls pc))"
proof -
  obtain store' maps where parse: "ParseImpl (ls, True) (store, new_maps capacity) = Inr (True, store', maps)"
    "collected (length store) ls store'" "take (length store) store' = store" "holds_maps (length store) ls maps"
    using ParseImpl_parses [of "new_maps capacity" ls True store] assms(1) by (auto simp: new_maps_def)
  then show ?thesis using Find_covering [OF assms(2) collected_keeps_lines [OF parse(2)] parse(4)] by blast
qed

definition sample_lines :: "map_line list" where
  "sample_lines =
     [\<lparr>line_start = 0x1000, line_end = 0x3000, line_flags = 1, line_pgoff = 0, line_name = ''/lib/libc.so''\<rparr>,
      \<lparr>line_start = 0x3000, line_end = 0x4000, line_flags = 0, line_pgoff = 0, line_name = ''''\<rparr>,
      \<lparr>line_start = 0x5000, line_end = 0x9000, line_flags = 5, line_pgoff = 0x4000, line_name = ''/lib/libc.so''\<rparr>]"

theorem maps_collected_and_found_witness:
  "\<exists>store maps. ParseImpl (sample_lines, True) ([] :: nat map_info list, new_maps 1) = Inr (True, store, maps)
    \<and> Find store maps 0x5004 = Inr (Some 2) \<and> Find store maps 0x4004 = Inr None
    \<and> prev_real_map (store ! 2) = Some 0"
proof -
  have "ascending_maps sample_lines" by (simp add: ascending_maps_def sample_lines_def)
  then obtain store maps where store: "ParseImpl (sample_lines, True) ([] :: nat map_info list, new_maps 1) = Inr (True, store, maps)"
    "collected 0 sample_lines store" "\<forall>pc. Find store maps pc = Inr (covering_map 0 sample_lines pc)"
    using maps_collected_and_found [of 1 sample_lines "[]"] by auto
  have "length sample_lines = 3" by (simp add: sample_lines_def)
  then have "prev_real_map (store ! (0 + 2)) = last_real 0 (take 2 sample_lines)"
    using store(2) unfolding collected_def by (simp add: numeral_2_eq_2)
  then have "prev_real_map (store ! 2) = Some 0"
    by (simp add: last_real_def sample_lines_def blank_line_def map_line_flags_def StartsWith_def Let_def upt_rec numeral_2_eq_2)
  then show ?thesis
    using store by (simp add: covering_map_def line_covers_def sample_lines_def upt_rec)
qed

section \<open>Looking for a map again\<close>

text \<open>The arrays of the objects point into the store.\<close>

definition cells_in :: "'q map_info list \<Rightarrow> maps_obj \<Rightarrow> bool" where
  "cells_in store maps \<longleftrightarrow> (\<forall>arr c. local_maps maps = Some arr \<longrightarrow> Some c \<in> set arr \<longrightarrow> c < length store)"

definition maps_ok :: "'q maps_state \<Rightarrow> bool" where
  "maps_ok s \<longleftrightarrow> 0 < latest_maps_capacity s \<and> (\<forall>maps \<in> set (maps_objects s). cells_in (map_infos s) maps)"

lemma find_map_loop_store:
  assumes "\<And>c. Some c \<in> set arr \<Longrightarrow> store' ! c = store ! c"
  shows "find_map_loop store' arr pc first last' = find_map_loop store arr pc first last'"
proof (induction "last' - first" arbitrary: first last' rule: less_induct)
  case less
  let ?i = "(first + last') div 2"
  show ?case
  proof (cases "first < last' \<and> ?i < length arr")
    case False
    then have "find_map_loop x arr pc first last' = (if first < last' then Inl ReadPastEnd else Inr None)" for x :: "'a map_info list"
      by (subst find_map_loop.simps) (auto simp: Let_def)
    then show ?thesis by simp
  next
    case True
    have step: "find_map_loop x arr pc first last' = (case arr ! ?i of
        None \<Rightarrow> Inl Uninitialised
      | Some cur \<Rightarrow>
          if pc \<ge> map_start (x ! cur) \<and> pc < map_end (x ! cur) then Inr (Some cur)
          else if pc < map_start (x ! cur) then find_map_loop x arr pc first ?i
          else find_map_loop x arr pc (?i + 1) last')" for x :: "'a map_info list"
      using True by (subst find_map_loop.simps) (simp add: Let_def)
    show ?thesis
    proof (cases "arr ! ?i")
      case (Some cur)
      then have "Some cur \<in> set arr" using True nth_mem by metis
      moreover have "?i - first < last' - first" "last' - (?i + 1) < last' - first" using True by linarith+
      ultimately show ?thesis
        using assms less step [of store] step [of store'] Some by simp
    qed (simp add: step)
  qed
qed

lemma Find_extended:
  assumes "cells_in store maps" "take (length store) store' = store"
  shows "Find store' maps pc = Find store maps pc"
proof -
  have "store' ! c = store ! c" if "c < length store" for c
    using that assms(2) by (metis nth_take)
  then show ?thesis
    using assms(1) by (auto simp: Find_def cells_in_def intro!: find_map_loop_store split: option.split)
qed

lemma Parse_keeps:
  assumes "Parse (ls, ret) maps s = Inr (r, s')" "maps_ok s"
  shows "take (length (map_infos s)) (map_infos s') = map_infos s"
    and "take (length (maps_objects s)) (maps_objects s') = maps_objects s"
    and "maps \<noteq> None \<Longrightarrow> maps = current_maps s \<Longrightarrow> s' = s"
proof -
  have "0 < maps_capacity (new_maps (latest_maps_capacity s))" using assms(2) by (simp add: new_maps_def maps_ok_def)
  from ParseImpl_parses [OF this, of ls ret "map_infos s"] assms(1)
  show "take (length (map_infos s)) (map_infos s') = map_infos s"
    "take (length (maps_objects s)) (maps_objects s') = maps_objects s"
    by (auto simp: Parse_def split: if_splits)
  show "maps \<noteq> None \<Longrightarrow> maps = current_maps s \<Longrightarrow> s' = s" using assms(1) by (auto simp: Parse_def)
qed

text \<open>
  C39. Looking again never helps.  When no map holds the program counter, \<open>GetMapInfo\<close> reads the maps again and
  looks once more.  But \<open>Parse\<close> does nothing when the maps at hand are the current ones, and otherwise the second look
  goes to the old maps, before they are replaced; so the answer is always that of the first look.
\<close>

theorem looking_again_never_helps:
  assumes "maps_ok s" "maps < length (maps_objects s)"
    and "GetMapInfo (ls, ret) readable maps pc s = Inr (map_info, maps', s')"
  shows "FindIn maps pc s = Inr map_info \<and> (current_maps s = Some maps \<longrightarrow> s' = s \<and> maps' = Some maps)"
proof (cases "FindIn maps pc s")
  case (Inl f)
  then show ?thesis using assms(3) by (simp add: GetMapInfo_def)
next
  case (Inr found)
  show ?thesis
  proof (cases "found = None \<and> readable pc")
    case False
    then show ?thesis using Inr assms(3) by (auto simp: GetMapInfo_def split: option.splits)
  next
    case True
    then obtain r s1 where parse: "Parse (ls, ret) (Some maps) s = Inr (r, s1)"
      using Inr assms(3) by (cases "Parse (ls, ret) (Some maps) s") (auto simp: GetMapInfo_def)
    note kept = Parse_keeps [OF parse assms(1)]
    have "maps_objects s1 ! maps = maps_objects s ! maps"
      using kept(2) assms(2) by (metis nth_take)
    then have "FindIn maps pc s1 = FindIn maps pc s"
      using Find_extended [OF _ kept(1), of "maps_objects s ! maps" pc] assms(1,2)
      by (simp add: FindIn_def maps_ok_def)
    then have "map_info = found" using Inr True parse assms(3)
      by (auto simp: GetMapInfo_def split: sum.splits prod.splits)
    moreover have "s' = s \<and> maps' = Some maps" if "current_maps s = Some maps"
    proof -
      have "s1 = s" by (rule kept(3)) (simp_all only: that option.distinct simp_thms)
      then show ?thesis using that Inr True parse assms(3) by (simp add: GetMapInfo_def current_def)
    qed
    ultimately show ?thesis using Inr by simp
  qed
qed


text \<open>Nothing was mapped when the maps were read; now the address lies in the first line.\<close>

definition sample_maps :: "nat maps_state" where
  "sample_maps = \<lparr>map_infos = [],
     maps_objects = [\<lparr>local_maps = Some [None], maps_capacity = 1, maps_size = 0\<rparr>], current_maps = Some 0,
     latest_maps_capacity = 1\<rparr>"

theorem looking_again_never_helps_witness:
  "line_covers 0x1004 (hd sample_lines)
    \<and> GetMapInfo (sample_lines, True) (\<lambda>a. True) 0 0x1004 sample_maps = Inr (None, Some 0, sample_maps)"
proof -
  have find: "FindIn 0 0x1004 sample_maps = Inr None"
    by (simp add: FindIn_def Find_def sample_maps_def find_map_loop.simps)
  have run: "GetMapInfo (sample_lines, True) (\<lambda>a. True) 0 0x1004 sample_maps = Inr (None, Some 0, sample_maps)"
    using find by (simp add: GetMapInfo_def Parse_def current_def sample_maps_def)
  have ok: "maps_ok sample_maps" "0 < length (maps_objects sample_maps)"
    by (simp_all add: maps_ok_def cells_in_def sample_maps_def)
  have "line_covers 0x1004 (hd sample_lines)" by (simp add: line_covers_def sample_lines_def)
  then show ?thesis
    using looking_again_never_helps [OF ok run] run by blast
qed

section \<open>The memory of a map\<close>

text \<open>
  \<open>Elf::IsValidElf\<close> and \<open>Elf::GetInfo\<close> of \<^verbatim>\<open>external/libunwindstack/Elf.cpp\<close>, with
  \<open>ElfInterface::GetMaxSize\<close>: the size of the file is taken from the place and number of the section headers.
\<close>

definition IsValidElf :: "memory_read \<Rightarrow> bool" where
  "IsValidElf mem \<longleftrightarrow> ReadFully mem 0 4 = Some [0x7f, 0x45, 0x4c, 0x46]"

definition GetMaxSize32 :: "memory_read \<Rightarrow> u64" where
  "GetMaxSize32 mem =
     (case ReadFully mem 0 52 of
        None \<Rightarrow> 0
      | Some ehdr \<Rightarrow>
          let e_shoff = le_word (take 4 (drop 32 ehdr)) :: u32;
              e_shentsize = le_word (take 2 (drop 46 ehdr)) :: u16;
              e_shnum = le_word (take 2 (drop 48 ehdr)) :: u16
          in if e_shnum = 0 then 0 else ucast (e_shoff + ucast e_shentsize * ucast e_shnum))"

definition GetMaxSize64 :: "memory_read \<Rightarrow> u64" where
  "GetMaxSize64 mem =
     (case ReadFully mem 0 64 of
        None \<Rightarrow> 0
      | Some ehdr \<Rightarrow>
          let e_shoff = le_word (take 8 (drop 40 ehdr)) :: u64;
              e_shentsize = le_word (take 2 (drop 58 ehdr)) :: u16;
              e_shnum = le_word (take 2 (drop 60 ehdr)) :: u16
          in if e_shnum = 0 then 0 else e_shoff + scast (ucast e_shentsize * ucast e_shnum :: u32))"

definition GetInfo :: "memory_read \<Rightarrow> u64 option" where
  "GetInfo mem =
     (if \<not> IsValidElf mem then None
      else (case ReadFully mem 4 1 of
              None \<Rightarrow> None
            | Some class_type \<Rightarrow>
                if class_type = [1] then Some (GetMaxSize32 mem)
                else if class_type = [2] then Some (GetMaxSize64 mem) else None))"

text \<open>
  \<open>CreateQuickenMemory\<close>: the memory of the process that shows the ELF file of a map from its start.  The
  result is a single range or several of them.  A map that is not there is \<open>None\<close>; \<open>info\<close> is the pointer to
  the map and \<open>proc\<close> reads the process.
\<close>

datatype elf_memory = Range memory_range | Ranges memory_ranges

fun elf_memory_read :: "memory_read \<Rightarrow> elf_memory \<Rightarrow> memory_read" where
  "elf_memory_read proc (Range r) = range_read (\<lambda>_. proc) ((), r)"
| "elf_memory_read proc (Ranges maps) = MemoryRanges_Read (\<lambda>_. proc) ((), maps)"

definition whole_map :: "'q map_info \<Rightarrow> u64 \<Rightarrow> memory_range" where
  "whole_map m offset = \<lparr>range_begin = map_start m, range_length = map_end m - map_start m, range_offset = offset\<rparr>"

text \<open>The map starts with the ELF header; a part of the file may be in the map behind.\<close>

definition memory_from_here :: "nat \<Rightarrow> 'q map_info list \<Rightarrow> elf_memory option \<times> u64 option \<times> 'q map_info list" where
  "memory_from_here info store =
     (let this = store ! info;
          next_map = (case next_real_map this of None \<Rightarrow> None | Some j \<Rightarrow> Some (store ! j));
          store' = store[info := this\<lparr>elf_start_offset := map_offset this\<rparr>]
      in case next_map of
           None \<Rightarrow> (Some (Range (whole_map this 0)), Some (map_end this - map_start this), store')
         | Some nxt \<Rightarrow>
             if map_offset this \<noteq> 0 \<or> map_name this = '''' \<or> map_offset this \<ge> map_offset nxt
                \<or> map_name nxt \<noteq> map_name this
             then (Some (Range (whole_map this 0)), Some (map_end this - map_start this), store')
             else (Some (Ranges (MemoryRanges_Insert (whole_map nxt (map_offset nxt - map_offset this))
                           (MemoryRanges_Insert (whole_map this 0) []))),
                   Some ((map_offset nxt - map_offset this) + (map_end nxt - map_start nxt)), store'))"

text \<open>The map has no ELF header; the start of the file may be in the real map before.\<close>

definition memory_from_previous :: "nat \<Rightarrow> 'q map_info list \<Rightarrow> elf_memory option \<times> u64 option \<times> 'q map_info list" where
  "memory_from_previous info store =
     (let this = store ! info
      in case prev_real_map this of
           None \<Rightarrow> (None, None, store)
         | Some p \<Rightarrow>
             let prv = store ! p
             in if map_offset this = 0 \<or> map_name this = '''' \<or> map_name prv \<noteq> map_name this
                   \<or> map_offset prv \<ge> map_offset this
                then (None, None, store)
                else (let offset = map_offset this - map_offset prv
                      in (Some (Ranges (MemoryRanges_Insert (whole_map this offset)
                                  (MemoryRanges_Insert (whole_map prv 0) []))),
                          Some (offset + (map_end this - map_start this)),
                          store[info := this\<lparr>elf_offset := offset, elf_start_offset := map_offset prv,
                                            memory_backed_elf := True\<rparr>])))"

definition CreateQuickenMemory ::
  "memory_read \<Rightarrow> nat \<Rightarrow> 'q map_info list \<Rightarrow> elf_memory option \<times> u64 option \<times> 'q map_info list" where
  "CreateQuickenMemory proc info store =
     (let this = store ! info
      in if map_end this \<le> map_start this then (None, None, store)
         else (let store1 = store[info := this\<lparr>elf_offset := 0, elf_start_offset := 0\<rparr>]
               in if map_flags this AND MAPS_FLAGS_DEVICE_MAP \<noteq> 0 then (None, None, store1)
                  else if map_flags this AND PROT_READ = 0 \<and> map_flags this AND PROT_EXEC = 0 then (None, None, store1)
                  else if IsValidElf (elf_memory_read proc (Range (whole_map this 0)))
                  then memory_from_here info store1
                  else memory_from_previous info store1))"


text \<open>
  The maps of one file: each part of it is mapped behind the parts that come before it in the file.
\<close>

definition map_size_of :: "'q map_info \<Rightarrow> u64" where
  "map_size_of m = map_end m - map_start m"

definition in_file_order :: "nat \<Rightarrow> 'q map_info list \<Rightarrow> bool" where
  "in_file_order info store \<longleftrightarrow> (let this = store ! info in
     info < length store \<and> unat (map_offset this) + unat (map_size_of this) < 2 ^ 64
     \<and> (\<forall>j. next_real_map this = Some j \<longrightarrow> j \<noteq> info
          \<and> unat (map_offset (store ! j)) + unat (map_size_of (store ! j)) < 2 ^ 64
          \<and> (map_offset this < map_offset (store ! j) \<longrightarrow> map_size_of this \<le> map_offset (store ! j) - map_offset this))
     \<and> (\<forall>p. prev_real_map this = Some p \<longrightarrow> p \<noteq> info
          \<and> (map_offset (store ! p) < map_offset this \<longrightarrow> map_size_of (store ! p) \<le> map_offset this - map_offset (store ! p))))"

lemma range_read_inside:
  assumes "unat k < unat (range_length r)" "unat k + n \<le> unat (range_length r)"
    and "unat (range_offset r) + unat (range_length r) < 2 ^ 64" "unat k + unat (range_begin r) < 2 ^ 64"
  shows "range_read (\<lambda>_. proc) ((), r) (k + range_offset r) n = proc (k + range_begin r) n"
proof -
  have "unat (k + range_offset r) = unat k + unat (range_offset r)"
    using assms(1,3) by (simp add: unat_word_ariths)
  then have "\<not> k + range_offset r < range_offset r" by (simp add: word_less_nat_alt)
  moreover have "k + range_offset r - range_offset r = k" by simp
  moreover have "\<not> range_length r \<le> k" using assms(1) by (simp add: word_le_nat_alt)
  moreover have "min n (unat (range_length r - k)) = n"
    using assms(1,2) by (simp add: unat_sub word_le_nat_alt)
  moreover have "\<not> 2 ^ 64 \<le> unat k + unat (range_begin r)" using assms(4) by simp
  ultimately show ?thesis
    by (simp only: range_read_def MemoryRange_Read_def prod.case Let_def if_False)
qed

lemma whole_map_read:
  assumes "map_start m \<le> pc" "pc < map_end m" "unat pc + n \<le> unat (map_end m)"
    and "unat offset + unat (map_size_of m) < 2 ^ 64"
  shows "range_read (\<lambda>_. proc) ((), whole_map m offset) (pc - map_start m + offset) n = proc pc n"
proof -
  have size: "unat (map_size_of m) = unat (map_end m) - unat (map_start m)"
    using assms(1,2) by (simp add: map_size_of_def unat_sub word_le_nat_alt word_less_nat_alt)
  have k: "unat (pc - map_start m) = unat pc - unat (map_start m)" "unat (map_start m) \<le> unat pc" "unat pc < unat (map_end m)"
    using assms(1,2) by (simp_all add: unat_sub word_le_nat_alt word_less_nat_alt)
  have "unat pc < 2 ^ 64" using unsigned_less [of pc, where 'a = nat] by simp
  then show ?thesis
    using range_read_inside [of "pc - map_start m" "whole_map m offset" n proc] k size assms(3,4)
    by (simp add: whole_map_def map_size_of_def)
qed

lemma upper_bound_pair:
  "upper_bound [(k1, r1), (k2, r2)] a = (if a < k1 then Some (k1, r1) else if a < k2 then Some (k2, r2) else None)"
  by (simp add: upper_bound_def)

text \<open>
  Two maps of a file inserted one after the other; \<open>a\<close> falls into the second range, or into the first if the
  second lies behind.
\<close>

lemma MemoryRanges_Insert_second:
  assumes "unat (range_offset r2) + unat (range_length r2) < 2 ^ 64" "range_offset r1 = 0"
    and "range_length r1 \<le> range_offset r2" "range_offset r2 \<le> a" "a - range_offset r2 < range_length r2"
  shows "upper_bound (MemoryRanges_Insert r2 (MemoryRanges_Insert r1 [])) a = Some (range_offset r2 + range_length r2, r2)"
proof -
  have key: "unat (range_offset r2 + range_length r2) = unat (range_offset r2) + unat (range_length r2)"
    using assms(1) by (simp add: unat_word_ariths)
  have sub: "unat (a - range_offset r2) = unat a - unat (range_offset r2)" using assms(4) by (simp add: unat_sub word_le_nat_alt)
  have len: "0 < unat (range_length r2)" using assms(5) by (simp add: word_less_nat_alt)
  have less: "range_length r1 < range_offset r2 + range_length r2" "a < range_offset r2 + range_length r2" "\<not> a < range_length r1"
    using assms(3-5) key sub len by (auto simp: word_less_nat_alt word_le_nat_alt)
  then show ?thesis
    using assms(2) by (auto simp: MemoryRanges_Insert_def Let_def upper_bound_pair)
qed

lemma MemoryRanges_Insert_first:
  assumes "unat (range_offset r2) + unat (range_length r2) < 2 ^ 64" "range_offset r1 = 0"
    and "range_length r1 \<le> range_offset r2" "a < range_length r1"
  shows "upper_bound (MemoryRanges_Insert r2 (MemoryRanges_Insert r1 [])) a = Some (range_length r1, r1)"
proof -
  have "unat (range_offset r2 + range_length r2) = unat (range_offset r2) + unat (range_length r2)"
    using assms(1) by (simp add: unat_word_ariths)
  then have "range_length r1 \<le> range_offset r2 + range_length r2" using assms(3) by (simp add: word_le_nat_alt)
  then show ?thesis
    using assms(2,4) by (auto simp: MemoryRanges_Insert_def Let_def upper_bound_def)
qed

lemma memory_from_here_kinds:
  assumes "memory_from_here info store = (Some mem, e, store')" "info < length store"
    and "\<And>j. next_real_map (store ! info) = Some j \<Longrightarrow> j \<noteq> info"
  shows "elf_start_offset (store' ! info) = map_offset (store ! info) \<and> elf_offset (store' ! info) = elf_offset (store ! info)
    \<and> map_offset (store' ! info) = map_offset (store ! info) \<and> map_start (store' ! info) = map_start (store ! info)
    \<and> (mem = Range (whole_map (store ! info) 0) \<or>
       (\<exists>j. next_real_map (store ! info) = Some j \<and> map_offset (store ! info) < map_offset (store ! j)
          \<and> mem = Ranges (MemoryRanges_Insert (whole_map (store ! j) (map_offset (store ! j) - map_offset (store ! info)))
              (MemoryRanges_Insert (whole_map (store ! info) 0) []))))"
proof (cases "next_real_map (store ! info)")
  case None
  then show ?thesis using assms(1,2) by (auto simp: memory_from_here_def Let_def)
next
  case (Some j)
  show ?thesis
  proof (cases "map_offset (store ! info) \<noteq> 0 \<or> map_name (store ! info) = '''' \<or> map_offset (store ! info) \<ge> map_offset (store ! j)
      \<or> map_name (store ! j) \<noteq> map_name (store ! info)")
    case True
    then show ?thesis using Some assms(1,2) by (auto simp: memory_from_here_def Let_def)
  next
    case False
    then have "map_offset (store ! info) < map_offset (store ! j)" by (metis not_le)
    then show ?thesis using False Some assms(1,2) by (auto simp: memory_from_here_def Let_def)
  qed
qed

lemma memory_from_previous_kinds:
  assumes "memory_from_previous info store = (Some mem, e, store')" "info < length store"
  shows "\<exists>p. prev_real_map (store ! info) = Some p \<and> map_offset (store ! p) < map_offset (store ! info)
    \<and> map_offset (store' ! info) = map_offset (store ! info) \<and> map_start (store' ! info) = map_start (store ! info)
    \<and> elf_start_offset (store' ! info) = map_offset (store ! p)
    \<and> elf_offset (store' ! info) = map_offset (store ! info) - map_offset (store ! p)
    \<and> mem = Ranges (MemoryRanges_Insert (whole_map (store ! info) (map_offset (store ! info) - map_offset (store ! p)))
          (MemoryRanges_Insert (whole_map (store ! p) 0) []))"
proof (cases "prev_real_map (store ! info)")
  case None
  then show ?thesis using assms(1) by (simp add: memory_from_previous_def)
next
  case (Some p)
  show ?thesis
  proof (cases "map_offset (store ! info) = 0 \<or> map_name (store ! info) = '''' \<or> map_name (store ! p) \<noteq> map_name (store ! info)
      \<or> map_offset (store ! p) \<ge> map_offset (store ! info)")
    case True
    then show ?thesis using Some assms(1) by (auto simp: memory_from_previous_def Let_def)
  next
    case False
    then have "map_offset (store ! p) < map_offset (store ! info)" by (metis not_le)
    then show ?thesis using False Some assms by (auto simp: memory_from_previous_def Let_def)
  qed
qed

lemma whole_map_offsets: "whole_map (m\<lparr>elf_offset := a, elf_start_offset := b\<rparr>) = whole_map m"
  by (simp add: whole_map_def fun_eq_iff)

lemma CreateQuickenMemory_kinds:
  assumes "CreateQuickenMemory proc info store = (Some mem, range_end, store')" "in_file_order info store"
  shows "elf_start_offset (store' ! info) = map_offset (store ! info) \<and> elf_offset (store' ! info) = 0
        \<and> map_offset (store' ! info) = map_offset (store ! info) \<and> map_start (store' ! info) = map_start (store ! info)
        \<and> (mem = Range (whole_map (store ! info) 0) \<or>
           (\<exists>j. next_real_map (store ! info) = Some j \<and> map_offset (store ! info) < map_offset (store ! j)
              \<and> mem = Ranges (MemoryRanges_Insert (whole_map (store ! j) (map_offset (store ! j) - map_offset (store ! info)))
                  (MemoryRanges_Insert (whole_map (store ! info) 0) []))))
      \<or> (\<exists>p. prev_real_map (store ! info) = Some p \<and> map_offset (store ! p) < map_offset (store ! info)
           \<and> map_offset (store' ! info) = map_offset (store ! info) \<and> map_start (store' ! info) = map_start (store ! info)
           \<and> elf_start_offset (store' ! info) = map_offset (store ! p)
           \<and> elf_offset (store' ! info) = map_offset (store ! info) - map_offset (store ! p)
           \<and> mem = Ranges (MemoryRanges_Insert (whole_map (store ! info) (map_offset (store ! info) - map_offset (store ! p)))
                 (MemoryRanges_Insert (whole_map (store ! p) 0) [])))"
proof -
  let ?store1 = "store[info := (store ! info)\<lparr>elf_offset := 0, elf_start_offset := 0\<rparr>]"
  have order: "info < length store" "\<And>j. next_real_map (store ! info) = Some j \<Longrightarrow> j \<noteq> info"
    "\<And>p. prev_real_map (store ! info) = Some p \<Longrightarrow> p \<noteq> info"
    using assms(2) by (auto simp: in_file_order_def Let_def)
  consider "memory_from_here info ?store1 = (Some mem, range_end, store')"
    | "memory_from_previous info ?store1 = (Some mem, range_end, store')"
    using assms(1) unfolding CreateQuickenMemory_def Let_def by (auto split: if_splits)
  then show ?thesis
  proof cases
    case 1
    from memory_from_here_kinds [OF this] order(1,2) show ?thesis
      by (simp add: whole_map_offsets) (metis nth_list_update_neq)
  next
    case 2
    from memory_from_previous_kinds [OF this] order(1) obtain p where p: "prev_real_map (store ! info) = Some p"
      and rest: "map_offset (?store1 ! p) < map_offset (store ! info)"
        "map_offset (store' ! info) = map_offset (store ! info)" "map_start (store' ! info) = map_start (store ! info)"
        "elf_start_offset (store' ! info) = map_offset (?store1 ! p)"
        "elf_offset (store' ! info) = map_offset (store ! info) - map_offset (?store1 ! p)"
        "mem = Ranges (MemoryRanges_Insert (whole_map (store ! info) (map_offset (store ! info) - map_offset (?store1 ! p)))
          (MemoryRanges_Insert (whole_map (?store1 ! p) 0) []))"
      by (auto simp: whole_map_offsets)
    have "?store1 ! p = store ! p" using order(3) [OF p] by simp
    then show ?thesis using p rest by auto
  qed
qed


text \<open>A library whose code is mapped behind its read-only start.\<close>

definition sample_infos :: "nat map_info list" where
  "sample_infos =
     (let ro = hd (new_map_info None None 0x10000 0x12000 0 1 ''/lib/libc.so'' []);
          rx = hd (new_map_info (Some 0) None 0x13000 0x17000 0x2000 5 ''/lib/libc.so'' [])
      in [ro\<lparr>next_real_map := Some 1\<rparr>, rx\<lparr>prev_real_map := Some 0, elf_load_bias := 0x400\<rparr>])"

definition sample_process :: memory_read where
  "sample_process a n = map (\<lambda>i. ucast (a + of_nat i)) [0..<n]"



section \<open>The file of a map\<close>

text \<open>
  \<open>CreateFileQuickenMemoryImpl\<close> and what it calls, with a \<open>size_t\<close> of 64 bits.  \<open>files\<close> answers for the files;
  the result is the object over the file, if there is one, and the map info with its offsets.
\<close>

definition InitFileMemoryFromPreviousReadOnlyMap ::
  "(string \<Rightarrow> file_answer) \<Rightarrow> 'q map_info option \<Rightarrow> u64 memory_file \<Rightarrow> 'q map_info
     \<Rightarrow> bool \<times> u64 memory_file \<times> 'q map_info" where
  "InitFileMemoryFromPreviousReadOnlyMap files prev memory this =
     (case prev of
        None \<Rightarrow> (False, memory, this)
      | Some prv \<Rightarrow>
          if map_flags prv \<noteq> PROT_READ then (False, memory, this)
          else (let size' = map_end this - map_end prv
                in case QuickenMemoryFile_Init files (map_name this) (map_offset prv) size' memory of
                     (False, memory1) \<Rightarrow> (False, memory1, this)
                   | (True, memory1) \<Rightarrow>
                       (case GetInfo (file_read memory1) of
                          None \<Rightarrow> (False, memory1, this)
                        | Some max_size \<Rightarrow>
                            if max_size < size' then (False, memory1, this)
                            else (case QuickenMemoryFile_Init files (map_name this) (map_offset prv) max_size memory1 of
                                    (False, memory2) \<Rightarrow> (False, memory2, this)
                                  | (True, memory2) \<Rightarrow>
                                      (True, memory2, this\<lparr>elf_offset := map_offset this - map_offset prv,
                                                          elf_start_offset := map_offset prv\<rparr>)))))"

text \<open>The start of the map is the start of an ELF file inside the file, which may be larger than the map.\<close>

definition file_memory_at_offset ::
  "(string \<Rightarrow> file_answer) \<Rightarrow> u64 \<Rightarrow> u64 \<Rightarrow> u64 memory_file \<Rightarrow> 'q map_info
     \<Rightarrow> u64 memory_file option \<times> 'q map_info" where
  "file_memory_at_offset files size' max_size memory this =
     (let this1 = this\<lparr>elf_start_offset := map_offset this\<rparr>
      in if max_size > size'
         then (case QuickenMemoryFile_Init files (map_name this) (map_offset this) max_size memory of
                 (True, memory1) \<Rightarrow> (Some memory1, this1)
               | (False, memory1) \<Rightarrow>
                   (case QuickenMemoryFile_Init files (map_name this) (map_offset this) size' memory1 of
                      (True, memory2) \<Rightarrow> (Some memory2, this1)
                    | (False, memory2) \<Rightarrow> (None, this1\<lparr>elf_start_offset := 0\<rparr>)))
         else (Some memory, this1))"

text \<open>There is no ELF file at the offset: the whole file may be one, or it starts in the map before.\<close>

definition file_memory_elsewhere ::
  "(string \<Rightarrow> file_answer) \<Rightarrow> 'q map_info option \<Rightarrow> u64 \<Rightarrow> u64 memory_file \<Rightarrow> 'q map_info
     \<Rightarrow> u64 memory_file option \<times> 'q map_info" where
  "file_memory_elsewhere files prev size' memory this =
     (case QuickenMemoryFile_Init files (map_name this) 0 (- 1) memory of (ok, memory1) \<Rightarrow>
        if ok \<and> IsValidElf (file_read memory1)
        then (Some memory1,
              this\<lparr>elf_offset := map_offset this,
                   elf_start_offset :=
                     (case prev of
                        None \<Rightarrow> map_offset this
                      | Some prv \<Rightarrow> if map_offset prv \<noteq> 0 \<or> map_flags prv \<noteq> PROT_READ \<or> map_name prv \<noteq> map_name this
                                    then map_offset this else elf_start_offset this)\<rparr>)
        else (case InitFileMemoryFromPreviousReadOnlyMap files prev memory1 this of
                (True, memory2, this2) \<Rightarrow> (Some memory2, this2)
              | (False, memory2, this2) \<Rightarrow>
                  (case QuickenMemoryFile_Init files (map_name this) (map_offset this) size' memory2 of
                     (True, memory3) \<Rightarrow> (Some memory3, this2)
                   | (False, memory3) \<Rightarrow> (None, this2))))"

definition CreateFileQuickenMemoryImpl ::
  "(string \<Rightarrow> file_answer) \<Rightarrow> 'q map_info option \<Rightarrow> 'q map_info \<Rightarrow> u64 memory_file option \<times> 'q map_info" where
  "CreateFileQuickenMemoryImpl files prev this =
     (if StartsWith (map_name this) ''/memfd:'' then (None, this)
      else if map_offset this = 0
      then (case QuickenMemoryFile_Init files (map_name this) 0 (- 1) new_memory_file of
              (True, memory) \<Rightarrow> (Some memory, this)
            | (False, memory) \<Rightarrow> (None, this))
      else (let size' = map_end this - map_start this
            in case QuickenMemoryFile_Init files (map_name this) (map_offset this) size' new_memory_file of
                 (False, memory) \<Rightarrow> (None, this)
               | (True, memory) \<Rightarrow>
                   (case GetInfo (file_read memory) of
                      Some max_size \<Rightarrow> file_memory_at_offset files size' max_size memory this
                    | None \<Rightarrow> file_memory_elsewhere files prev size' memory this)))"

definition CreateFileQuickenMemory ::
  "(string \<Rightarrow> file_answer) \<Rightarrow> nat \<Rightarrow> 'q map_info list \<Rightarrow> u64 memory_file option \<times> 'q map_info list" where
  "CreateFileQuickenMemory files info store =
     (let this = store ! info
      in if map_end this \<le> map_start this then (None, store)
         else (let this1 = this\<lparr>elf_offset := 0\<rparr>
               in if map_flags this AND MAPS_FLAGS_DEVICE_MAP \<noteq> 0 then (None, store[info := this1])
                  else if map_name this = '''' then (None, store[info := this1])
                  else (case CreateFileQuickenMemoryImpl files
                               (case prev_real_map this of None \<Rightarrow> None | Some p \<Rightarrow> Some (store ! p)) this1 of
                          (memory, this2) \<Rightarrow> (memory, store[info := this2]))))"

definition CreateQuickenMemoryFromFile ::
  "(string \<Rightarrow> file_answer) \<Rightarrow> string \<Rightarrow> u64 \<Rightarrow> u64 memory_file option" where
  "CreateQuickenMemoryFromFile files so_path offset =
     (case QuickenMemoryFile_Init files so_path offset (- 1) new_memory_file of
        (True, memory) \<Rightarrow> Some memory
      | (False, memory) \<Rightarrow> None)"

text \<open>Whatever object is made, it was opened over the file of the map.\<close>

definition opened_on :: "(string \<Rightarrow> file_answer) \<Rightarrow> string \<Rightarrow> u64 memory_file \<Rightarrow> bool" where
  "opened_on files name memory \<longleftrightarrow> (\<exists>offset size' m0. QuickenMemoryFile_Init files name offset size' m0 = (True, memory))"

lemma opened_onI: "QuickenMemoryFile_Init files name offset size' m0 = (True, memory) \<Longrightarrow> opened_on files name memory"
  by (auto simp: opened_on_def)

lemma file_memory_at_offset_opened:
  "opened_on files (map_name this) memory \<Longrightarrow> file_memory_at_offset files size' max_size memory this = (Some m, this')
     \<Longrightarrow> opened_on files (map_name this) m"
  by (auto simp: file_memory_at_offset_def Let_def split: if_splits prod.splits bool.splits intro: opened_onI)

lemma file_memory_previous_opened:
  "InitFileMemoryFromPreviousReadOnlyMap files prev memory this = (True, m, this') \<Longrightarrow>
     opened_on files (map_name this) m \<and> map_name this' = map_name this"
  by (auto simp: InitFileMemoryFromPreviousReadOnlyMap_def Let_def
      split: option.splits if_splits prod.splits bool.splits intro: opened_onI)

lemma file_memory_elsewhere_opened:
  "file_memory_elsewhere files prev size' memory this = (Some m, this') \<Longrightarrow> opened_on files (map_name this) m"
  by (auto simp: file_memory_elsewhere_def split: if_splits prod.splits bool.splits intro: opened_onI
      dest: file_memory_previous_opened)

lemma CreateFileQuickenMemoryImpl_opened:
  "CreateFileQuickenMemoryImpl files prev this = (Some m, this') \<Longrightarrow> opened_on files (map_name this) m"
  by (auto simp: CreateFileQuickenMemoryImpl_def Let_def split: if_splits prod.splits bool.splits option.splits
      intro: opened_onI file_memory_at_offset_opened file_memory_elsewhere_opened)

end
