(* ===== verification/Sha1.thy ===== *)
theory Sha1
  imports Qut_Prelude
begin

text \<open>
  \<^verbatim>\<open>include/SHA1.h\<close>, from which the program takes its hashes and fake build ids: the code works in place, with an
  unrolled loop over a ring of sixteen words and rotated variables, and takes its input in pieces.  The theory
  has the standard's definition beside it and shows that the two agree.
\<close>

section \<open>The code\<close>

definition BLOCK_INTS :: nat where
  "BLOCK_INTS = 16"

definition BLOCK_BYTES :: nat where
  "BLOCK_BYTES = BLOCK_INTS * 4"

record sha1_state =
  digest :: "u32 list"
  buffer :: "u8 list"
  transforms :: u64

text \<open>\<open>reset\<close>, and the constructor, which calls it.\<close>

definition reset_sha1 :: sha1_state where
  "reset_sha1 = \<lparr>digest = [0x67452301, 0xefcdab89, 0x98badcfe, 0x10325476, 0xc3d2e1f0], buffer = [], transforms = 0\<rparr>"

definition rol :: "u32 \<Rightarrow> nat \<Rightarrow> u32" where
  "rol value bits = push_bit bits value OR drop_bit (32 - bits) value"

definition blk :: "u32 list \<Rightarrow> nat \<Rightarrow> u32" where
  "blk block i = rol (block ! ((i + 13) AND 15) XOR block ! ((i + 8) AND 15) XOR block ! ((i + 2) AND 15) XOR block ! i) 1"

text \<open>
  The rounds get the working variables \<open>v\<close> to \<open>z\<close>, of which they change \<open>w\<close> and \<open>z\<close>; the result holds the block
  and these two.
\<close>

type_synonym round_operation = "u32 list \<Rightarrow> u32 \<Rightarrow> u32 \<Rightarrow> u32 \<Rightarrow> u32 \<Rightarrow> u32 \<Rightarrow> nat \<Rightarrow> u32 list \<times> u32 \<times> u32"

definition R_0 :: round_operation where
  "R_0 block v w x y z i =
     (block, rol w 30, z + (((w AND (x XOR y)) XOR y) + block ! i + 0x5a827999 + rol v 5))"

definition R_1 :: round_operation where
  "R_1 block v w x y z i =
     (let block' = block[i := blk block i]
      in (block', rol w 30, z + (((w AND (x XOR y)) XOR y) + block' ! i + 0x5a827999 + rol v 5)))"

definition R_2 :: round_operation where
  "R_2 block v w x y z i =
     (let block' = block[i := blk block i]
      in (block', rol w 30, z + ((w XOR x XOR y) + block' ! i + 0x6ed9eba1 + rol v 5)))"

definition R_3 :: round_operation where
  "R_3 block v w x y z i =
     (let block' = block[i := blk block i]
      in (block', rol w 30, z + ((((w OR x) AND y) OR (w AND x)) + block' ! i + 0x8f1bbcdc + rol v 5)))"

definition R_4 :: round_operation where
  "R_4 block v w x y z i =
     (let block' = block[i := blk block i]
      in (block', rol w 30, z + ((w XOR x XOR y) + block' ! i + 0xca62c1d6 + rol v 5)))"

text \<open>The unrolled loop of \<open>transform\<close>.  The working variables \<open>a\<close> to \<open>e\<close> have the numbers 0 to 4.\<close>

type_synonym round_call = "round_operation \<times> nat \<times> nat \<times> nat \<times> nat \<times> nat \<times> nat"

definition transform_calls :: "round_call list" where
  "transform_calls =
     [(R_0, 0, 1, 2, 3, 4, 0), (R_0, 4, 0, 1, 2, 3, 1), (R_0, 3, 4, 0, 1, 2, 2), (R_0, 2, 3, 4, 0, 1, 3),
      (R_0, 1, 2, 3, 4, 0, 4), (R_0, 0, 1, 2, 3, 4, 5), (R_0, 4, 0, 1, 2, 3, 6), (R_0, 3, 4, 0, 1, 2, 7),
      (R_0, 2, 3, 4, 0, 1, 8), (R_0, 1, 2, 3, 4, 0, 9), (R_0, 0, 1, 2, 3, 4, 10), (R_0, 4, 0, 1, 2, 3, 11),
      (R_0, 3, 4, 0, 1, 2, 12), (R_0, 2, 3, 4, 0, 1, 13), (R_0, 1, 2, 3, 4, 0, 14), (R_0, 0, 1, 2, 3, 4, 15),
      (R_1, 4, 0, 1, 2, 3, 0), (R_1, 3, 4, 0, 1, 2, 1), (R_1, 2, 3, 4, 0, 1, 2), (R_1, 1, 2, 3, 4, 0, 3),
      (R_2, 0, 1, 2, 3, 4, 4), (R_2, 4, 0, 1, 2, 3, 5), (R_2, 3, 4, 0, 1, 2, 6), (R_2, 2, 3, 4, 0, 1, 7),
      (R_2, 1, 2, 3, 4, 0, 8), (R_2, 0, 1, 2, 3, 4, 9), (R_2, 4, 0, 1, 2, 3, 10), (R_2, 3, 4, 0, 1, 2, 11),
      (R_2, 2, 3, 4, 0, 1, 12), (R_2, 1, 2, 3, 4, 0, 13), (R_2, 0, 1, 2, 3, 4, 14), (R_2, 4, 0, 1, 2, 3, 15),
      (R_2, 3, 4, 0, 1, 2, 0), (R_2, 2, 3, 4, 0, 1, 1), (R_2, 1, 2, 3, 4, 0, 2), (R_2, 0, 1, 2, 3, 4, 3),
      (R_2, 4, 0, 1, 2, 3, 4), (R_2, 3, 4, 0, 1, 2, 5), (R_2, 2, 3, 4, 0, 1, 6), (R_2, 1, 2, 3, 4, 0, 7),
      (R_3, 0, 1, 2, 3, 4, 8), (R_3, 4, 0, 1, 2, 3, 9), (R_3, 3, 4, 0, 1, 2, 10), (R_3, 2, 3, 4, 0, 1, 11),
      (R_3, 1, 2, 3, 4, 0, 12), (R_3, 0, 1, 2, 3, 4, 13), (R_3, 4, 0, 1, 2, 3, 14), (R_3, 3, 4, 0, 1, 2, 15),
      (R_3, 2, 3, 4, 0, 1, 0), (R_3, 1, 2, 3, 4, 0, 1), (R_3, 0, 1, 2, 3, 4, 2), (R_3, 4, 0, 1, 2, 3, 3),
      (R_3, 3, 4, 0, 1, 2, 4), (R_3, 2, 3, 4, 0, 1, 5), (R_3, 1, 2, 3, 4, 0, 6), (R_3, 0, 1, 2, 3, 4, 7),
      (R_3, 4, 0, 1, 2, 3, 8), (R_3, 3, 4, 0, 1, 2, 9), (R_3, 2, 3, 4, 0, 1, 10), (R_3, 1, 2, 3, 4, 0, 11),
      (R_4, 0, 1, 2, 3, 4, 12), (R_4, 4, 0, 1, 2, 3, 13), (R_4, 3, 4, 0, 1, 2, 14), (R_4, 2, 3, 4, 0, 1, 15),
      (R_4, 1, 2, 3, 4, 0, 0), (R_4, 0, 1, 2, 3, 4, 1), (R_4, 4, 0, 1, 2, 3, 2), (R_4, 3, 4, 0, 1, 2, 3),
      (R_4, 2, 3, 4, 0, 1, 4), (R_4, 1, 2, 3, 4, 0, 5), (R_4, 0, 1, 2, 3, 4, 6), (R_4, 4, 0, 1, 2, 3, 7),
      (R_4, 3, 4, 0, 1, 2, 8), (R_4, 2, 3, 4, 0, 1, 9), (R_4, 1, 2, 3, 4, 0, 10), (R_4, 0, 1, 2, 3, 4, 11),
      (R_4, 4, 0, 1, 2, 3, 12), (R_4, 3, 4, 0, 1, 2, 13), (R_4, 2, 3, 4, 0, 1, 14), (R_4, 1, 2, 3, 4, 0, 15)]"

definition round_call :: "round_call \<Rightarrow> u32 list \<times> (nat \<Rightarrow> u32) \<Rightarrow> u32 list \<times> (nat \<Rightarrow> u32)" where
  "round_call = (\<lambda>(r, v, w, x, y, z, i) (block, vars).
     case r block (vars v) (vars w) (vars x) (vars y) (vars z) i of
       (block', w', z') \<Rightarrow> (block', vars(w := w', z := z')))"

definition transform :: "u32 list \<Rightarrow> sha1_state \<Rightarrow> sha1_state" where
  "transform block s =
     (let vars = snd (fold round_call transform_calls (block, \<lambda>i. digest s ! i))
      in s\<lparr>digest := map (\<lambda>i. digest s ! i + vars i) [0..<5], transforms := transforms s + 1\<rparr>)"

definition buffer_to_block :: "u8 list \<Rightarrow> u32 list" where
  "buffer_to_block buf =
     map (\<lambda>i. ucast (buf ! (4 * i + 3)) OR push_bit 8 (ucast (buf ! (4 * i + 2)))
              OR push_bit 16 (ucast (buf ! (4 * i + 1))) OR push_bit 24 (ucast (buf ! (4 * i))))
       [0..<BLOCK_INTS]"

text \<open>
  The loop of \<open>update\<close> on what the stream still holds.  It reads up to \<open>BLOCK_BYTES - buffer.size()\<close> bytes into an
  array of that size.
\<close>

function update :: "u8 list \<Rightarrow> sha1_state \<Rightarrow> fault + sha1_state" where
  "update input s =
     (if BLOCK_BYTES < length (buffer s) then Inl WritePastEnd
      else (let n = BLOCK_BYTES - length (buffer s);
                s1 = s\<lparr>buffer := buffer s @ take n input\<rparr>
            in if length (buffer s1) \<noteq> BLOCK_BYTES then Inr s1
               else update (drop n input) ((transform (buffer_to_block (buffer s1)) s1)\<lparr>buffer := []\<rparr>)))"
  by pat_completeness auto
termination
  by (relation "measure (\<lambda>(input, s). length input + length (buffer s))") (auto simp: BLOCK_BYTES_def BLOCK_INTS_def)

declare update.simps [simp del]

text \<open>A digit of a stream in hexadecimal, and a number, filled up with zeros to eight digits.\<close>

definition hex_digit :: "nat \<Rightarrow> char" where
  "hex_digit n = ''0123456789abcdef'' ! n"

fun hex_number :: "nat \<Rightarrow> string" where
  "hex_number n = (if n < 16 then [hex_digit n] else hex_number (n div 16) @ [hex_digit (n mod 16)])"

declare hex_number.simps [simp del]

definition put_hex :: "u32 \<Rightarrow> string" where
  "put_hex d = (let s = hex_number (unat d) in replicate (8 - length s) CHR ''0'' @ s)"

definition final :: "sha1_state \<Rightarrow> string \<times> sha1_state" where
  "final s =
     (let total_bits = (transforms s * of_nat BLOCK_BYTES + of_nat (length (buffer s))) * 8;
          padded = buffer s @ [0x80];
          orig_size = length padded;
          block = buffer_to_block (padded @ replicate (BLOCK_BYTES - orig_size) 0);
          s1 = s\<lparr>buffer := padded @ replicate (BLOCK_BYTES - orig_size) 0\<rparr>;
          overflow = orig_size > BLOCK_BYTES - 8;
          s2 = (if overflow then transform block s1 else s1);
          block2 = (if overflow then replicate (BLOCK_INTS - 2) 0 @ drop (BLOCK_INTS - 2) block else block);
          s3 = transform (block2[BLOCK_INTS - 1 := ucast total_bits, BLOCK_INTS - 2 := ucast (drop_bit 32 total_bits)]) s2
      in (concat (map put_hex (digest s3)), reset_sha1))"


section \<open>The standard\<close>

text \<open>
  SHA-1 as FIPS 180-4 defines it: functions and constants of the rounds, the schedule of a block, the working
  variables as a tuple that moves on by one place in every round, and a message padded to whole blocks.
\<close>

definition sha_f :: "nat \<Rightarrow> u32 \<Rightarrow> u32 \<Rightarrow> u32 \<Rightarrow> u32" where
  "sha_f t x y z =
     (if t < 20 then (x AND y) XOR (NOT x AND z)
      else if 40 \<le> t \<and> t < 60 then (x AND y) XOR (x AND z) XOR (y AND z)
      else x XOR y XOR z)"

definition sha_K :: "nat \<Rightarrow> u32" where
  "sha_K t = (if t < 20 then 0x5a827999 else if t < 40 then 0x6ed9eba1 else if t < 60 then 0x8f1bbcdc else 0xca62c1d6)"

fun sha_W :: "u32 list \<Rightarrow> nat \<Rightarrow> u32" where
  "sha_W M t = (if t < 16 then M ! t
     else word_rotl 1 (sha_W M (t - 3) XOR sha_W M (t - 8) XOR sha_W M (t - 14) XOR sha_W M (t - 16)))"

declare sha_W.simps [simp del]

type_synonym sha_vars = "u32 \<times> u32 \<times> u32 \<times> u32 \<times> u32"

definition sha_round :: "u32 list \<Rightarrow> nat \<Rightarrow> sha_vars \<Rightarrow> sha_vars" where
  "sha_round M t = (\<lambda>(a, b, c, d, e).
     (word_rotl 5 a + sha_f t b c d + e + sha_K t + sha_W M t, a, word_rotl 30 b, c, d))"

definition sha_block :: "u32 list \<Rightarrow> u32 list \<Rightarrow> u32 list" where
  "sha_block H M =
     (case fold (sha_round M) [0..<80] (H ! 0, H ! 1, H ! 2, H ! 3, H ! 4) of
        (a, b, c, d, e) \<Rightarrow> [H ! 0 + a, H ! 1 + b, H ! 2 + c, H ! 3 + d, H ! 4 + e])"

definition be_word :: "u8 list \<Rightarrow> u32" where
  "be_word bs = foldl (\<lambda>w b. push_bit 8 w OR ucast b) 0 bs"

definition sha_words :: "u8 list \<Rightarrow> u32 list" where
  "sha_words bs = map (\<lambda>i. be_word (take 4 (drop (4 * i) bs))) [0..<16]"

definition sha_blocks :: "u8 list \<Rightarrow> u8 list list" where
  "sha_blocks bs = map (\<lambda>i. take 64 (drop (64 * i) bs)) [0..<length bs div 64]"

definition sha_pad :: "u8 list \<Rightarrow> u8 list" where
  "sha_pad msg = msg @ [0x80] @ replicate ((119 - length msg mod 64) mod 64) 0
     @ map (\<lambda>k. ucast (drop_bit (8 * k) (of_nat (8 * length msg) :: u64))) (rev [0..<8])"

definition sha_digest :: "u32 list \<Rightarrow> u8 list list \<Rightarrow> u32 list" where
  "sha_digest H blocks = foldl (\<lambda>H b. sha_block H (sha_words b)) H blocks"

definition sha_start :: "u32 list" where
  "sha_start = [0x67452301, 0xefcdab89, 0x98badcfe, 0x10325476, 0xc3d2e1f0]"

definition sha1 :: "u8 list \<Rightarrow> u32 list" where
  "sha1 msg = sha_digest sha_start (sha_blocks (sha_pad msg))"

text \<open>A word as eight hexadecimal digits.\<close>

definition hex_digits :: "u32 \<Rightarrow> string" where
  "hex_digits d = map (\<lambda>k. hex_digit (unat (drop_bit (4 * k) d) mod 16)) (rev [0..<8])"

section \<open>A block\<close>

lemma rol_rotl: "0 < k \<Longrightarrow> k < 32 \<Longrightarrow> rol x k = word_rotl k x"
proof (rule bit_word_eqI)
  fix n assume k: "0 < k" "k < 32" and n: "n < LENGTH(32)"
  show "bit (rol x k) n = bit (word_rotl k x) n"
  proof (cases "n < k")
    case True
    moreover have "(n + (32 - k)) mod 32 = 32 - k + n" using True k by simp
    ultimately show ?thesis
      using k n by (simp add: rol_def bit_word_rotl_iff bit_or_iff bit_push_bit_iff bit_drop_bit_eq)
  next
    case False
    then have "(n + (32 - k)) mod 32 = n - k" using k n by (simp add: mod_if)
    moreover have "\<not> bit x (32 - k + n)" using False by (auto dest: bit_imp_le_length)
    ultimately show ?thesis
      using False k n by (simp add: rol_def bit_word_rotl_iff bit_or_iff bit_push_bit_iff bit_drop_bit_eq)
  qed
qed

lemma choice: "(w AND (x XOR y)) XOR y = (w AND x) XOR (NOT w AND y)" for w x y :: u32
  by (rule bit_word_eqI) (auto simp: bit_and_iff bit_xor_iff bit_not_iff)

lemma majority: "((w OR x) AND y) OR (w AND x) = (w AND x) XOR (w AND y) XOR (x AND y)" for w x y :: u32
  by (rule bit_word_eqI) (auto simp: bit_and_iff bit_xor_iff bit_or_iff)


text \<open>
  The unrolled calls by number: call \<open>t\<close> has the variables rotated by \<open>t\<close> places, and works on word \<open>t mod 16\<close> of
  the ring.
\<close>

definition var_at :: "nat \<Rightarrow> nat \<Rightarrow> nat" where
  "var_at t j = (j + 4 * t) mod 5"

definition operation_at :: "nat \<Rightarrow> round_operation" where
  "operation_at t = (if t < 16 then R_0 else if t < 20 then R_1 else if t < 40 then R_2 else if t < 60 then R_3 else R_4)"

definition call_at :: "nat \<Rightarrow> round_call" where
  "call_at t = (operation_at t, var_at t 0, var_at t 1, var_at t 2, var_at t 3, var_at t 4, t mod 16)"

lemma transform_calls_at: "transform_calls = map call_at [0..<80]"
  by (simp add: transform_calls_def upt_rec call_at_def operation_at_def var_at_def)

lemma and_15: "(n::nat) AND 15 = n mod 16"
proof -
  have "(15::nat) = mask 4" by (simp add: mask_eq_exp_minus_1)
  then have "n AND 15 = take_bit 4 n" by (simp only: take_bit_eq_mask)
  then show ?thesis by (simp add: take_bit_eq_mod)
qed

text \<open>The ring holds the last sixteen words of the schedule.\<close>

definition ring :: "u32 list \<Rightarrow> nat \<Rightarrow> u32 list \<Rightarrow> bool" where
  "ring M t block \<longleftrightarrow> length block = 16 \<and> (\<forall>s. s < max t 16 \<longrightarrow> max t 16 \<le> s + 16 \<longrightarrow> block ! (s mod 16) = sha_W M s)"

lemma ring_start: "length M = 16 \<Longrightarrow> ring M 0 M"
  by (simp add: ring_def sha_W.simps)

lemma ring_blk:
  assumes "ring M t block" "16 \<le> t"
  shows "blk block (t mod 16) = sha_W M t" "ring M (Suc t) (block[t mod 16 := sha_W M t])"
proof -
  have at: "block ! (s mod 16) = sha_W M s" if "s < t" "t \<le> s + 16" for s
    using assms that by (simp add: ring_def)
  have rotated: "(t mod 16 + (16 - k)) mod 16 = (t - k) mod 16" if "k \<le> 16" for k
  proof -
    have "(t mod 16 + (16 - k)) mod 16 = (t + (16 - k)) mod 16" by (rule mod_add_left_eq)
    also have "t + (16 - k) = (t - k) + 16" using that assms(2) by simp
    finally show ?thesis by simp
  qed
  have "blk block (t mod 16) = rol (block ! ((t - 3) mod 16) XOR block ! ((t - 8) mod 16) XOR block ! ((t - 14) mod 16)
      XOR block ! ((t - 16) mod 16)) 1"
    using rotated [of 3] rotated [of 8] rotated [of 14] rotated [of 16] by (simp add: blk_def and_15)
  also have "\<dots> = sha_W M t"
    using assms(2) by (subst sha_W.simps) (simp add: at rol_rotl)
  finally show "blk block (t mod 16) = sha_W M t" .
  show "ring M (Suc t) (block[t mod 16 := sha_W M t])"
    unfolding ring_def
  proof (intro conjI allI impI)
    fix s assume s: "s < max (Suc t) 16" "max (Suc t) 16 \<le> s + 16"
    show "block[t mod 16 := sha_W M t] ! (s mod 16) = sha_W M s"
    proof (cases "s = t")
      case True
      then show ?thesis using assms(1) by (simp add: ring_def)
    next
      case False
      then have s: "s < t" "t < s + 16" using s assms(2) by auto
      have "t mod 16 \<noteq> s mod 16"
      proof
        assume "t mod 16 = s mod 16"
        then have "16 dvd t - s" using s(1) by (simp add: mod_eq_dvd_iff_nat)
        then show False using s by (auto dest!: dvd_imp_le)
      qed
      then show ?thesis using at [of s] s by simp
    qed
  qed (use assms(1) in \<open>simp add: ring_def\<close>)
qed

lemma ring_word:
  assumes "ring M t block" "t < 16"
  shows "block ! (t mod 16) = sha_W M t" "ring M (Suc t) block"
  using assms by (simp_all add: ring_def max_def)

text \<open>A call does what a round of the standard does.\<close>

lemma operation_round:
  assumes "ring M t block" "t < 80"
  shows "\<exists>block'. operation_at t block v w x y z (t mod 16)
      = (block', word_rotl 30 w, word_rotl 5 v + sha_f t w x y + z + sha_K t + sha_W M t) \<and> ring M (Suc t) block'"
proof (cases "t < 16")
  case True
  then show ?thesis
    using ring_word [OF assms(1)] by (simp add: operation_at_def R_0_def rol_rotl choice sha_f_def sha_K_def)
next
  case False
  then have t: "16 \<le> t" by simp
  have "length block = 16" using assms(1) by (simp add: ring_def)
  then show ?thesis
    using ring_blk [OF assms(1) t] t assms(2)
    by (simp add: operation_at_def R_1_def R_2_def R_3_def R_4_def Let_def rol_rotl choice majority sha_f_def sha_K_def)
qed


text \<open>The working variables of the code, read in the order of the standard.\<close>

definition vars_at :: "nat \<Rightarrow> (nat \<Rightarrow> u32) \<Rightarrow> sha_vars" where
  "vars_at t vars = (vars (var_at t 0), vars (var_at t 1), vars (var_at t 2), vars (var_at t 3), vars (var_at t 4))"

lemma var_at_Suc: "var_at (Suc t) 0 = var_at t 4" "var_at (Suc t) (Suc j) = var_at t j"
proof -
  show "var_at (Suc t) 0 = var_at t 4" by (simp add: var_at_def)
  have "(Suc j + 4 * Suc t) mod 5 = (j + 4 * t + 5) mod 5" by simp
  also have "\<dots> = (j + 4 * t) mod 5" by (rule mod_add_self2)
  finally show "var_at (Suc t) (Suc j) = var_at t j" by (simp add: var_at_def)
qed

lemma var_at_inj: "i < 5 \<Longrightarrow> j < 5 \<Longrightarrow> var_at t i = var_at t j \<longleftrightarrow> i = j"
proof -
  assume ij: "i < 5" "j < 5"
  have eq: "i = j" if "i \<le> j" "(i + 4 * t) mod 5 = (j + 4 * t) mod 5" "j < 5" for i j
  proof -
    have "5 dvd j + 4 * t - (i + 4 * t)" using that(1,2) by (metis add_le_mono1 mod_eq_dvd_iff_nat)
    then have "5 dvd j - i" by simp
    then show "i = j" using that by (auto dest!: dvd_imp_le)
  qed
  from eq [of i j] eq [of j i] ij show ?thesis by (cases "i \<le> j") (auto simp: var_at_def)
qed

lemma call_round:
  assumes "ring M t block" "t < 80"
  shows "\<exists>block' vars'. round_call (call_at t) (block, vars) = (block', vars') \<and> ring M (Suc t) block'
    \<and> vars_at (Suc t) vars' = sha_round M t (vars_at t vars)"
proof -
  obtain block' where step: "operation_at t block (vars (var_at t 0)) (vars (var_at t 1)) (vars (var_at t 2))
      (vars (var_at t 3)) (vars (var_at t 4)) (t mod 16)
      = (block', word_rotl 30 (vars (var_at t 1)), word_rotl 5 (vars (var_at t 0))
          + sha_f t (vars (var_at t 1)) (vars (var_at t 2)) (vars (var_at t 3)) + vars (var_at t 4) + sha_K t + sha_W M t)"
    and ring: "ring M (Suc t) block'"
    using operation_round [OF assms, of "vars (var_at t 0)" "vars (var_at t 1)" "vars (var_at t 2)"
      "vars (var_at t 3)" "vars (var_at t 4)"] by blast
  have places: "var_at (Suc t) 1 = var_at t 0" "var_at (Suc t) 2 = var_at t 1" "var_at (Suc t) 3 = var_at t 2" "var_at (Suc t) 4 = var_at t 3"
    using var_at_Suc(2) [of t 0] var_at_Suc(2) [of t 1] var_at_Suc(2) [of t 2] var_at_Suc(2) [of t 3]
    by (simp_all add: numeral_eq_Suc)
  show ?thesis
    using ring by (simp add: round_call_def call_at_def step vars_at_def sha_round_def var_at_Suc(1) places var_at_inj
        del: One_nat_def)
qed

lemma calls_rounds:
  assumes "length M = 16" "n \<le> 80"
  shows "\<exists>block vars'. fold round_call (map call_at [0..<n]) (M, vars) = (block, vars') \<and> ring M n block
    \<and> vars_at n vars' = fold (sha_round M) [0..<n] (vars_at 0 vars)"
  using assms(2)
proof (induction n)
  case 0
  then show ?case using ring_start [OF assms(1)] by simp
next
  case (Suc n)
  then obtain block vars' where state: "fold round_call (map call_at [0..<n]) (M, vars) = (block, vars')" "ring M n block"
      "vars_at n vars' = fold (sha_round M) [0..<n] (vars_at 0 vars)"
    by auto
  show ?case using call_round [OF state(2), of vars'] Suc.prems state(1,3) by auto
qed

lemma upt_0_5: "[0..<5] = [0, 1, 2, 3, 4::nat]"
  by (simp add: upt_rec)

lemma transform_block:
  assumes "length block = 16" "length (digest s) = 5"
  shows "transform block s = s\<lparr>digest := sha_block (digest s) block, transforms := transforms s + 1\<rparr>"
proof -
  obtain ring_end vars' where run: "fold round_call (map call_at [0..<80]) (block, \<lambda>i. digest s ! i) = (ring_end, vars')"
      "vars_at 80 vars' = fold (sha_round block) [0..<80] (vars_at 0 (\<lambda>i. digest s ! i))"
    using calls_rounds [OF assms(1), of 80 "\<lambda>i. digest s ! i"] by auto
  have "vars_at 80 vars' = (vars' 0, vars' 1, vars' 2, vars' 3, vars' 4)"
    by (simp add: vars_at_def var_at_def)
  then have rounds: "fold (sha_round block) [0..<80] (digest s ! 0, digest s ! 1, digest s ! 2, digest s ! 3, digest s ! 4)
      = (vars' 0, vars' 1, vars' 2, vars' 3, vars' 4)"
    using run(2) by (simp add: vars_at_def var_at_def)
  have "map (\<lambda>i. digest s ! i + vars' i) [0..<5] = sha_block (digest s) block"
    by (simp add: sha_block_def rounds upt_0_5 del: One_nat_def)
  then show ?thesis by (simp only: transform_def transform_calls_at run(1) snd_conv Let_def)
qed


section \<open>The message\<close>

lemma be_word_bytes:
  "be_word [a, b, c, d] = ucast d OR push_bit 8 (ucast c) OR push_bit 16 (ucast b) OR push_bit 24 (ucast a)"
  by (simp add: be_word_def push_bit_or or.assoc or.commute or.left_commute)

lemma take_4: "n + 4 \<le> length xs \<Longrightarrow> take 4 (drop n xs) = [xs ! n, xs ! (n + 1), xs ! (n + 2), xs ! (n + 3)]"
  by (rule nth_equalityI) (auto simp: less_Suc_eq numeral_eq_Suc)

lemma buffer_to_block_words: "length buf = 64 \<Longrightarrow> buffer_to_block buf = sha_words buf"
  by (auto simp: buffer_to_block_def sha_words_def BLOCK_INTS_def take_4 be_word_bytes add.commute)

lemma length_block [simp]: "length (buffer_to_block buf) = 16" "length (sha_words bs) = 16" "length (sha_block H M) = 5"
  by (simp_all add: buffer_to_block_def sha_words_def BLOCK_INTS_def sha_block_def split: prod.split)

lemma sha_digest_append: "sha_digest H (bs @ cs) = sha_digest (sha_digest H bs) cs"
  by (simp add: sha_digest_def)

lemma length_sha_digest: "length H = 5 \<Longrightarrow> length (sha_digest H bs) = 5"
  by (induction bs arbitrary: H) (simp_all add: sha_digest_def)

lemma blocks_and_rest: "(l + n) div 64 = l div 64 + (l mod 64 + n) div 64" "(l + n) mod 64 = (l mod 64 + n) mod 64" for l :: nat
proof -
  have "l + n = 64 * (l div 64) + (l mod 64 + n)" by simp
  then show "(l + n) div 64 = l div 64 + (l mod 64 + n) div 64" by (metis div_mult_self4 zero_neq_numeral)
  show "(l + n) mod 64 = (l mod 64 + n) mod 64" by (simp only: mod_add_left_eq)
qed

lemma blocks_short: "l mod 64 + n < 64 \<Longrightarrow> (l + n) div 64 = l div 64" for l :: nat
  using blocks_and_rest(1) [of l n] by simp

lemma blocks_full: "l mod 64 + n = 64 \<Longrightarrow> (l + n) div 64 = Suc (l div 64)" "l mod 64 + n = 64 \<Longrightarrow> (l + n) mod 64 = 0" for l :: nat
  using blocks_and_rest [of l n] by simp_all

lemma take_block: "i < length msg div 64 \<Longrightarrow> take 64 (drop (64 * i) (msg @ x)) = take 64 (drop (64 * i) msg)"
proof -
  assume "i < length msg div 64"
  then have "64 * i + 64 \<le> length msg" using div_times_less_eq_dividend [of "length msg" 64] by linarith
  then show ?thesis by simp
qed

lemma sha_blocks_short:
  assumes "length msg mod 64 + length x < 64"
  shows "sha_blocks (msg @ x) = sha_blocks msg"
proof -
  have "length (msg @ x) div 64 = length msg div 64" using assms by (simp add: blocks_short)
  then show ?thesis using take_block [of _ msg x] by (simp add: sha_blocks_def del: drop_append take_append)
qed

lemma sha_blocks_full:
  assumes "length msg mod 64 + length x = 64"
  shows "sha_blocks (msg @ x) = sha_blocks msg @ [drop (64 * (length msg div 64)) msg @ x]"
proof -
  let ?q = "length msg div 64"
  have "length (msg @ x) div 64 = Suc ?q" using assms by (simp add: blocks_full)
  moreover have "take 64 (drop (64 * ?q) (msg @ x)) = drop (64 * ?q) msg @ x"
    using assms by (simp add: minus_mult_div_eq_mod)
  ultimately show ?thesis
    using take_block [of _ msg x] by (simp add: sha_blocks_def del: drop_append take_append)
qed

text \<open>The object after the bytes of a message.\<close>

definition absorbed :: "u8 list \<Rightarrow> sha1_state" where
  "absorbed msg = \<lparr>digest = sha_digest sha_start (sha_blocks msg), buffer = drop (64 * (length msg div 64)) msg,
     transforms = of_nat (length msg div 64)\<rparr>"

lemma absorbed_Nil: "absorbed [] = reset_sha1"
  by (simp add: absorbed_def reset_sha1_def sha_blocks_def sha_digest_def sha_start_def)

lemma length_absorbed: "length (buffer (absorbed msg)) = length msg mod 64"
  by (simp add: absorbed_def minus_mult_div_eq_mod)

lemma length_digest_absorbed: "length (digest (absorbed msg)) = 5"
  by (simp add: absorbed_def length_sha_digest sha_start_def)

text \<open>A full buffer is a block more.\<close>

lemma transform_absorbed:
  assumes "length msg mod 64 + length x = 64"
  shows "(transform (buffer_to_block (buffer (absorbed msg) @ x)) ((absorbed msg)\<lparr>buffer := b\<rparr>))\<lparr>buffer := []\<rparr> = absorbed (msg @ x)"
proof -
  have "length (buffer (absorbed msg) @ x) = 64" using assms by (simp add: length_absorbed)
  moreover have "drop (64 * (length (msg @ x) div 64)) (msg @ x) = []"
    using blocks_full(2) [OF assms] by (simp add: minus_mult_div_eq_mod [symmetric] del: drop_append)
  ultimately show ?thesis
    using blocks_full(1) [OF assms] length_digest_absorbed [of msg]
    by (simp add: transform_block buffer_to_block_words absorbed_def sha_blocks_full [OF assms] sha_digest_append)
      (simp add: sha_digest_def)
qed

lemma update_absorbs: "update input (absorbed msg) = Inr (absorbed (msg @ input))"
proof (induction "length input" arbitrary: input msg rule: less_induct)
  case less
  let ?r = "buffer (absorbed msg)" and ?n = "64 - length msg mod 64"
  have r: "length ?r = length msg mod 64" "(64 < length msg mod 64) = False" by (simp_all add: length_absorbed not_less less_imp_le)
  show ?case
  proof (cases "length input < ?n")
    case True
    then have short: "length msg mod 64 + length input < 64" by simp
    then have "(length msg + length input) div 64 = length msg div 64" by (rule blocks_short)
    then have "(absorbed msg)\<lparr>buffer := ?r @ input\<rparr> = absorbed (msg @ input)"
      using short by (simp add: absorbed_def sha_blocks_short)
    moreover have "update input (absorbed msg) = Inr ((absorbed msg)\<lparr>buffer := ?r @ input\<rparr>)"
      using True short by (subst update.simps) (simp add: r(1) BLOCK_BYTES_def BLOCK_INTS_def Let_def not_less)
    ultimately show ?thesis by simp
  next
    case False
    let ?x = "take ?n input"
    have x: "length msg mod 64 + length ?x = 64" using False by simp
    have "update input (absorbed msg)
        = update (drop ?n input) ((transform (buffer_to_block (?r @ ?x)) ((absorbed msg)\<lparr>buffer := ?r @ ?x\<rparr>))\<lparr>buffer := []\<rparr>)"
      using False by (subst update.simps) (simp add: r BLOCK_BYTES_def BLOCK_INTS_def Let_def)
    moreover have "length (drop ?n input) < length input" using False by simp
    ultimately show ?thesis
      using less [of "drop ?n input" "msg @ ?x"] transform_absorbed [OF x] by simp
  qed
qed


section \<open>Padding and printing\<close>

text \<open>The length of the message, in bits, as the last eight bytes of the padding.\<close>

definition length_bytes :: "u64 \<Rightarrow> u8 list" where
  "length_bytes w = map (\<lambda>k. ucast (drop_bit (8 * k) w)) (rev [0..<8])"

lemma be_word_drop: "be_word [ucast (drop_bit (k + 24) w), ucast (drop_bit (k + 16) w), ucast (drop_bit (k + 8) w), ucast (drop_bit k w)]
    = ucast (drop_bit k w)" for w :: u64
proof (rule bit_word_eqI)
  fix n assume "n < LENGTH(32)"
  then consider "n < 8" | "8 \<le> n" "n < 16" | "16 \<le> n" "n < 24" | "24 \<le> n" "n < 32" by force
  then show "bit (be_word [ucast (drop_bit (k + 24) w), ucast (drop_bit (k + 16) w), ucast (drop_bit (k + 8) w), ucast (drop_bit k w)]) n
      = bit (ucast (drop_bit k w) :: u32) n"
    by cases (auto simp: be_word_bytes bit_or_iff bit_push_bit_iff bit_ucast_iff bit_drop_bit_eq)
qed

lemma length_bytes_words:
  "be_word (take 4 (length_bytes w)) = ucast (drop_bit 32 w)" "be_word (drop 4 (length_bytes w)) = ucast w"
  using be_word_drop [of 32 w] be_word_drop [of 0 w] by (simp_all add: length_bytes_def upt_rec)

lemma sha_words_length:
  assumes "length p = 56" "length z = 8"
  shows "sha_words (p @ length_bytes w) = (sha_words (p @ z))[15 := ucast w, 14 := ucast (drop_bit 32 w)]"
proof (rule nth_equalityI)
  fix i assume "i < length (sha_words (p @ length_bytes w))"
  then have "i < 16" by simp
  then consider "i < 14" | "i = 14" | "i = 15" by linarith
  then show "sha_words (p @ length_bytes w) ! i = (sha_words (p @ z))[15 := ucast w, 14 := ucast (drop_bit 32 w)] ! i"
    by cases (use assms length_bytes_words in \<open>simp_all add: sha_words_def length_bytes_def\<close>)
qed (simp add: sha_words_def)

lemma hex_number_digits:
  "hex_number n = (if n < 16 then [] else hex_number (n div 16)) @ [hex_digit (n mod 16)]"
  by (subst hex_number.simps) simp

lemma hex_fill:
  assumes "n < 16 ^ k" "0 < k"
  shows "replicate (k - length (hex_number n)) CHR ''0'' @ hex_number n = map (\<lambda>j. hex_digit (n div 16 ^ j mod 16)) (rev [0..<k])"
  using assms
proof (induction k arbitrary: n)
  case (Suc k)
  show ?case
  proof (cases "k = 0")
    case True
    then show ?thesis using Suc.prems by (subst hex_number.simps) (simp_all add: hex_number.simps [of n])
  next
    case False
    have "[0..<Suc k] = 0 # map Suc [0..<k]" by (simp add: map_Suc_upt upt_conv_Cons del: upt_Suc)
    then have rest: "rev [0..<Suc k] = map Suc (rev [0..<k]) @ [0]" by (simp only: rev.simps rev_map)
    have ih: "replicate (k - length (hex_number (n div 16))) CHR ''0'' @ hex_number (n div 16)
        = map (\<lambda>j. hex_digit (n div 16 ^ Suc j mod 16)) (rev [0..<k])"
      using Suc.IH [of "n div 16"] Suc.prems False by (simp add: div_mult2_eq less_mult_imp_div_less mult.commute)
    show ?thesis
    proof (cases "n < 16")
      case True
      then have "hex_number (n div 16) = [CHR ''0'']" by (subst hex_number.simps) (simp add: hex_digit_def)
      then show ?thesis
        using ih True False unfolding rest
        by (simp add: hex_number.simps [of n] comp_def replicate_append_same flip: replicate_Suc)
    next
      case n: False
      then show ?thesis using ih unfolding rest
        by (simp add: hex_number.simps [of n] comp_def flip: append_assoc)
    qed
  qed
qed simp

lemma put_hex_digits: "put_hex d = hex_digits d"
proof -
  have "unat d < 16 ^ 8" using unsigned_less [of d] by simp
  moreover have "unat (drop_bit (4 * k) d) = unat d div 16 ^ k" for k
    by (simp only: unat_drop_bit_eq drop_bit_eq_div [where 'a = nat] power_mult) simp
  ultimately show ?thesis using hex_fill [of "unat d" 8] by (simp add: put_hex_def Let_def hex_digits_def)
qed


section \<open>The hash of a message\<close>

lemma sha_blocks_next:
  assumes "length m mod 64 = 0" "length y = 64"
  shows "sha_blocks (m @ y) = sha_blocks m @ [y]"
proof -
  have "drop (64 * (length m div 64)) m = []" using assms(1) by (simp add: minus_mult_div_eq_mod [symmetric])
  then show ?thesis using sha_blocks_full [of m y] assms by simp
qed

lemma sha_pad_short:
  assumes "length msg mod 64 + 1 \<le> 56"
  shows "sha_blocks (sha_pad msg) = sha_blocks msg @
    [buffer (absorbed msg) @ [0x80] @ replicate (55 - length msg mod 64) 0 @ length_bytes (of_nat (8 * length msg))]"
proof -
  let ?x = "[0x80] @ replicate (55 - length msg mod 64) 0 @ length_bytes (of_nat (8 * length msg))"
  have "119 - length msg mod 64 = (55 - length msg mod 64) + 64" "55 - length msg mod 64 < 64" using assms by linarith+
  then have "(119 - length msg mod 64) mod 64 = 55 - length msg mod 64" by (simp only: mod_add_self2 mod_less)
  then have "sha_pad msg = msg @ ?x" by (simp add: sha_pad_def length_bytes_def)
  moreover have "length msg mod 64 + length ?x = 64" using assms by (simp add: length_bytes_def)
  ultimately show ?thesis using sha_blocks_full [of msg ?x] by (simp add: absorbed_def)
qed

lemma sha_pad_long:
  assumes "\<not> length msg mod 64 + 1 \<le> 56"
  shows "sha_blocks (sha_pad msg) = sha_blocks msg @
    [buffer (absorbed msg) @ [0x80] @ replicate (63 - length msg mod 64) 0, replicate 56 0 @ length_bytes (of_nat (8 * length msg))]"
proof -
  let ?x = "[0x80] @ replicate (63 - length msg mod 64) 0" and ?y = "replicate 56 0 @ length_bytes (of_nat (8 * length msg))"
  have r: "length msg mod 64 < 64" by simp
  have "119 - length msg mod 64 = (63 - length msg mod 64) + 56" "119 - length msg mod 64 < 64" using assms r by linarith+
  then have "(119 - length msg mod 64) mod 64 = (63 - length msg mod 64) + 56" by (simp only: mod_less)
  then have "replicate ((119 - length msg mod 64) mod 64) (0::u8) = replicate (63 - length msg mod 64) 0 @ replicate 56 0"
    by (simp only: replicate_add)
  then have pad: "sha_pad msg = (msg @ ?x) @ ?y" by (simp add: sha_pad_def length_bytes_def)
  have x: "length msg mod 64 + length ?x = 64" using r by simp
  have "length (msg @ ?x) mod 64 = 0" using blocks_full(2) [OF x] by simp
  moreover have "length ?y = 64" by (simp add: length_bytes_def)
  ultimately have "sha_blocks ((msg @ ?x) @ ?y) = sha_blocks (msg @ ?x) @ [?y]" by (rule sha_blocks_next)
  then show ?thesis unfolding pad using sha_blocks_full [OF x] by (simp add: absorbed_def)
qed

lemma zero_words: "sha_words (replicate 64 0) = replicate 16 0"
  by (rule nth_equalityI) (simp_all add: sha_words_def be_word_bytes take_4 del: take_replicate drop_replicate)

lemma last_words:
  assumes "length block = 16"
  shows "(replicate 14 0 @ drop 14 block)[15 := ucast w, 14 := ucast (drop_bit 32 w)] = sha_words (replicate 56 0 @ length_bytes w)"
proof -
  have "sha_words (replicate 56 0 @ length_bytes w) = (replicate 16 0)[15 := ucast w, 14 := ucast (drop_bit 32 w)]"
    using sha_words_length [of "replicate 56 0" "replicate 8 0" w] zero_words by (simp flip: replicate_add)
  moreover have "(replicate 14 0 @ drop 14 block)[15 := a, 14 := b] = (replicate 16 0)[15 := a, 14 := b]" for a b
    using assms by (intro nth_equalityI) (auto simp: nth_list_update nth_append)
  ultimately show ?thesis by simp
qed

lemma put_hex_eq: "put_hex = hex_digits"
  by (rule ext) (rule put_hex_digits)

text \<open>The object after the message and before its last blocks.\<close>

lemma final_short:
  assumes "length (digest s) = 5" "length (buffer s) + 1 \<le> 56"
    and "(transforms s * 64 + of_nat (length (buffer s))) * 8 = bits"
  shows "final s = (concat (map hex_digits (sha_block (digest s)
    (sha_words (buffer s @ [0x80] @ replicate (55 - length (buffer s)) 0 @ length_bytes bits)))), reset_sha1)"
proof -
  let ?p = "buffer s @ [0x80] @ replicate (55 - length (buffer s)) 0"
  have p: "length ?p = 56" using assms(2) by simp
  have "replicate (63 - length (buffer s)) (0::u8) = replicate (55 - length (buffer s)) 0 @ replicate 8 0"
    using assms(2) by (simp flip: replicate_add)
  then have full: "buffer s @ [0x80] @ replicate (63 - length (buffer s)) 0 = ?p @ replicate 8 0" by simp
  show ?thesis
    using assms sha_words_length [OF p, of "replicate 8 0" bits] full
    by (simp add: final_def BLOCK_BYTES_def BLOCK_INTS_def Let_def buffer_to_block_words transform_block put_hex_eq)
qed

lemma final_long:
  assumes "length (digest s) = 5" "\<not> length (buffer s) + 1 \<le> 56" "length (buffer s) < 64"
    and "(transforms s * 64 + of_nat (length (buffer s))) * 8 = bits"
  shows "final s = (concat (map hex_digits (sha_block (sha_block (digest s)
    (sha_words (buffer s @ [0x80] @ replicate (63 - length (buffer s)) 0)))
    (sha_words (replicate 56 0 @ length_bytes bits)))), reset_sha1)"
proof -
  let ?full = "buffer s @ [0x80] @ replicate (63 - length (buffer s)) 0"
  have full: "length ?full = 64" using assms(3) by simp
  show ?thesis
    using assms full last_words [of "sha_words ?full" bits]
    by (simp add: final_def BLOCK_BYTES_def BLOCK_INTS_def Let_def buffer_to_block_words transform_block put_hex_eq)
qed

lemma final_absorbed: "final (absorbed msg) = (concat (map hex_digits (sha1 msg)), reset_sha1)"
proof -
  let ?bits = "of_nat (8 * length msg) :: u64"
  have "of_nat (length msg) = of_nat (length msg div 64) * 64 + (of_nat (length msg mod 64) :: u64)"
    by (metis div_mult_mod_eq of_nat_add of_nat_mult of_nat_numeral)
  then have "(of_nat (length msg div 64) * 64 + of_nat (length msg mod 64)) * 8 = ?bits" by simp
  then have bits: "(transforms (absorbed msg) * 64 + of_nat (length (buffer (absorbed msg)))) * 8 = ?bits"
    by (simp only: length_absorbed) (simp add: absorbed_def)
  have digest: "digest (absorbed msg) = sha_digest sha_start (sha_blocks msg)" by (simp add: absorbed_def)
  show ?thesis
  proof (cases "length msg mod 64 + 1 \<le> 56")
    case True
    then show ?thesis
      using final_short [OF length_digest_absorbed _ bits] sha_pad_short [OF True]
      by (simp add: length_absorbed sha1_def sha_digest_append digest) (simp add: sha_digest_def)
  next
    case False
    then show ?thesis
      using final_long [OF length_digest_absorbed _ _ bits] sha_pad_long [OF False]
      by (simp add: length_absorbed sha1_def sha_digest_append digest) (simp add: sha_digest_def)
  qed
qed


text \<open>\<open>update\<close> for one string after the other, and \<open>ToHash\<close> of \<^verbatim>\<open>include/QuickenUtility.h\<close>.\<close>

fun update_all :: "u8 list list \<Rightarrow> sha1_state \<Rightarrow> fault + sha1_state" where
  "update_all [] s = Inr s"
| "update_all (p # ps) s = (case update p s of Inl f \<Rightarrow> Inl f | Inr s' \<Rightarrow> update_all ps s')"

definition ToHash :: "string \<Rightarrow> fault + string" where
  "ToHash path = (case update (map of_char path) reset_sha1 of Inl f \<Rightarrow> Inl f | Inr s \<Rightarrow> Inr (fst (final s)))"

lemma update_all_absorbs: "update_all pieces (absorbed msg) = Inr (absorbed (msg @ concat pieces))"
  by (induction pieces arbitrary: msg) (simp_all add: update_absorbs)

text \<open>
  C25. Hashing is SHA-1.  However a message is cut into pieces, feeding them to a fresh object and finishing
  gives the hexadecimal digits of the hash that the standard defines, for every length, and leaves
  the object fresh again.
\<close>

theorem hashing_is_sha1:
  "\<exists>s. update_all pieces reset_sha1 = Inr s \<and> final s = (concat (map hex_digits (sha1 (concat pieces))), reset_sha1)"
  using update_all_absorbs [of pieces "[]"] final_absorbed by (simp add: absorbed_Nil)

text \<open>Hashes are names of 40 characters, none of which separates directories.\<close>

lemma ToHash_sha1: "ToHash path = Inr (concat (map hex_digits (sha1 (map of_char path))))"
  using update_absorbs [of "map of_char path" "[]"] by (simp add: ToHash_def absorbed_Nil final_absorbed)

lemma hex_digits_chars: "length (hex_digits d) = 8" "c \<in> set (hex_digits d) \<Longrightarrow> c \<in> set ''0123456789abcdef''"
proof -
  show "length (hex_digits d) = 8" by (simp add: hex_digits_def)
  have "hex_digit (n mod 16) \<in> set ''0123456789abcdef''" for n
    unfolding hex_digit_def by (rule nth_mem) simp
  then show "c \<in> set (hex_digits d) \<Longrightarrow> c \<in> set ''0123456789abcdef''" by (auto simp: hex_digits_def simp del: set_simps)
qed

lemma ToHash_name: "\<exists>hash. ToHash path = Inr hash \<and> length hash = 40 \<and> CHR ''/'' \<notin> set hash"
proof -
  have "length (sha1 msg) = 5" for msg by (simp add: sha1_def length_sha_digest sha_start_def)
  moreover have "length (concat (map hex_digits ws)) = 8 * length ws" for ws
    by (induction ws) (simp_all add: hex_digits_chars(1))
  moreover have "CHR ''/'' \<notin> set (hex_digits d)" for d using hex_digits_chars(2) [of "CHR ''/''" d] by auto
  ultimately show ?thesis by (simp add: ToHash_sha1)
qed

end
