(* ===== verification/Elf_Wrapper.thy ===== *)
theory Elf_Wrapper
  imports Quicken_Maps Table_Manager Sha1
begin

text \<open>
  How a map gets its interface: \<open>GetQuickenInterface\<close> of \<^verbatim>\<open>QuickenMaps.cpp\<close>, with \<open>ElfWrapper::Init\<close> of
  \<^verbatim>\<open>ElfWrapper.cpp\<close>, the cache of interfaces, and the table manager behind it.  An interface that a map was
  given stays its interface, and maps with the same name and range share one.
\<close>

section \<open>The world of the unwinder\<close>

text \<open>
  An interface object has, beside the fields that a step uses, the names of its library and the offset of the map in
  the ELF file.  A pointer to one is its number.
\<close>

record 'v interface_object =
  io_so :: so_info
  io_elf_offset :: u64
  io_interface :: "'v quicken_interface"

record 'v unwind_world =
  w_maps :: "nat maps_state"
  w_objects :: "'v interface_object list"
  cached_quicken_interface :: "string \<Rightarrow> nat option"
  w_manager :: "('v, nat) table_manager"
  w_disk :: file_system

text \<open>
  What is outside of the program: the system calls on table files, the files of the libraries with the
  time of their last change, the memory of the process as it is read through both readers, the answer of the
  delegate, and the lines of the maps.  \<open>light_elf\<close> is the reader of ELF files: the build id (as raw bytes) and the load bias
  of a valid one of the right architecture.  \<open>in_memory\<close> and \<open>jit\<close> give the tables that are made in memory.
\<close>

record 'v unwind_env =
  env_os :: os_env
  env_files :: "string \<Rightarrow> file_answer"
  env_mtime :: "string \<Rightarrow> nat"
  env_process :: memory_read
  env_unsafe :: memory_read
  env_delegate :: "bool option"
  env_lines :: "map_line list \<times> bool"
  light_elf :: "memory_read \<Rightarrow> (string \<times> u64) option"
  in_memory :: "elf_memory \<Rightarrow> 'v \<Rightarrow> 'v qut_sections option"
  jit :: "'v \<Rightarrow> 'v qut_sections option"

text \<open>\<open>FileSize\<close> and \<open>FakeBuildId\<close> of \<^verbatim>\<open>include/QuickenUtility.h\<close>.\<close>

definition FileSize :: "(string \<Rightarrow> file_answer) \<Rightarrow> string \<Rightarrow> nat" where
  "FileSize files sopath =
     (case file_bytes (files sopath) of
        None \<Rightarrow> 0
      | Some content \<Rightarrow> if stat_ok (files sopath) then length content else 0)"

definition FakeBuildId :: "(string \<Rightarrow> file_answer) \<Rightarrow> (string \<Rightarrow> nat) \<Rightarrow> string \<Rightarrow> fault + string" where
  "FakeBuildId files mtime sopath =
     (case file_bytes (files sopath) of
        None \<Rightarrow> Inr ''''
      | Some content \<Rightarrow>
          if stat_ok (files sopath) \<and> length content > 0
          then ToHash (to_string (length content) @ sopath @ to_string (mtime sopath))
          else Inr '''')"

text \<open>\<open>InitSoInfo\<close>: the names of an interface.\<close>

definition InitSoInfo ::
  "(string \<Rightarrow> file_answer) \<Rightarrow> string \<Rightarrow> string \<Rightarrow> u64 \<Rightarrow> bool \<Rightarrow> fault + so_info" where
  "InitSoInfo files sopath build_id elf_start jit_cache_map =
     (case ToHash (sopath @ to_string (FileSize files sopath) @ to_string (unat elf_start)) of
        Inl f \<Rightarrow> Inl f
      | Inr hash \<Rightarrow>
          Inr \<lparr>so_name = (if jit_cache_map then sopath else SplitSonameFromPath sopath), so_path = sopath,
               so_hash = hash, so_build_id = build_id, so_elf_start_offset = elf_start\<rparr>)"

text \<open>\<open>CreateQuickenInterfaceFromElf\<close>: a new interface, for a map with the given offsets.\<close>

definition CreateQuickenInterfaceFromElf ::
  "(string \<Rightarrow> file_answer) \<Rightarrow> string \<Rightarrow> u64 \<Rightarrow> u64 \<Rightarrow> u64 \<Rightarrow> string \<Rightarrow> bool \<Rightarrow> fault + 'v interface_object" where
  "CreateQuickenInterfaceFromElf files sopath load elf_off elf_start build_id jit_cache_map =
     (case InitSoInfo files sopath build_id elf_start jit_cache_map of
        Inl f \<Rightarrow> Inl f
      | Inr so \<Rightarrow>
          Inr \<lparr>io_so = so, io_elf_offset = elf_off,
               io_interface = \<lparr>load_bias = load, qut_sections_ptr = None, quicken_in_memory = None, debug_jit = None,
                               jit_cache = jit_cache_map, try_load_qut_failed_count = 0\<rparr>\<rparr>)"

section \<open>Opening the ELF file of a map\<close>

text \<open>
  \<open>ElfWrapper::Init\<close>.  The result holds what the interface takes from the wrapper; the map info gets its offsets,
  first from the file and then from the memory.  The symbols, which only names of functions need, are left out.
\<close>

record elf_wrapper =
  is_jit_cache :: bool
  wrapper_build_id :: string
  wrapper_load_bias :: u64
  wrapper_memory :: "elf_memory option"
  memory_ranges_end :: u64

definition ElfWrapper_Init ::
  "'v unwind_env \<Rightarrow> nat \<Rightarrow> 'q map_info list \<Rightarrow> elf_wrapper option \<times> 'q map_info list" where
  "ElfWrapper_Init env info store =
     (case CreateFileQuickenMemory (env_files env) info store of
        (None, store1) \<Rightarrow>
          if IsJitCacheMap (map_name (store1 ! info))
          then (Some \<lparr>is_jit_cache = True, wrapper_build_id = '''', wrapper_load_bias = 0, wrapper_memory = None,
                      memory_ranges_end = 0\<rparr>, store1)
          else (None, store1)
      | (Some file_memory, store1) \<Rightarrow>
          (case light_elf env (file_read file_memory) of
             None \<Rightarrow> (None, store1)
           | Some (build_id_hex, bias) \<Rightarrow>
               (case CreateQuickenMemory (env_process env) info store1 of
                  (None, range_end, store2) \<Rightarrow> (None, store2)
                | (Some mem, range_end, store2) \<Rightarrow>
                    (case light_elf env (elf_memory_read (env_process env) mem) of
                       None \<Rightarrow> (None, store2)
                     | Some ignored \<Rightarrow>
                         (Some \<lparr>is_jit_cache = False,
                                wrapper_build_id = (if build_id_hex = '''' then '''' else ToBuildId build_id_hex),
                                wrapper_load_bias = bias, wrapper_memory = Some mem,
                                memory_ranges_end = (case range_end of None \<Rightarrow> 0 | Some e \<Rightarrow> e)\<rparr>, store2)))))"

section \<open>The interface of a map\<close>

text \<open>
  The initialisation of a fresh interface: jitted code gets its tables from the virtual machine; otherwise the
  table manager is asked, and when it has no table one is made in memory from the ELF file.  Handing over the file always succeeds here,
  because the file was opened.
\<close>

definition init_interface ::
  "bool \<Rightarrow> 'w::len word unwind_env \<Rightarrow> elf_wrapper \<Rightarrow> nat \<Rightarrow> 'w word interface_object
     \<Rightarrow> ('w word, nat) table_manager \<times> file_system
     \<Rightarrow> fault + ('w word interface_object \<times> ('w word, nat) table_manager \<times> file_system)" where
  "init_interface arm env wrapper ptr obj = (\<lambda>(m, fs).
     if is_jit_cache wrapper
     then Inr (obj\<lparr>io_interface := (io_interface obj)\<lparr>debug_jit := Some (jit env)\<rparr>\<rparr>, m, fs)
     else (case InitQuickenTable arm (env_os env) (env_delegate env) (io_so obj) (io_interface obj) (m, fs) of
             Inl f \<Rightarrow> Inl f
           | Inr (ret, self, m1, fs1) \<Rightarrow>
               (let self1 = (if ret \<noteq> NoneError
                             then self\<lparr>quicken_in_memory := map_option (in_memory env) (wrapper_memory wrapper)\<rparr> else self);
                    m2 = (if ret = TryInvokeJavaRequestQutGenerate
                          then RecordQutRequestInterface (so_hash (io_so obj)) ptr m1 else m1)
                in Inr (obj\<lparr>io_interface := self1\<rparr>, m2, fs1))))"

definition so_key :: "'q map_info \<Rightarrow> string" where
  "so_key m = RemoveMapsDeleteSuffix (map_name m) @ '':'' @ to_string (unat (map_start m)) @ '':'' @ to_string (unat (map_end m))"

text \<open>
  The part of \<open>GetQuickenInterface\<close> behind the cache: an interface is made for an opened file (\<open>this\<close> is the map info
  with its offsets) and put into the cache.
\<close>

definition register_interface ::
  "bool \<Rightarrow> 'w::len word unwind_env \<Rightarrow> nat \<Rightarrow> elf_wrapper \<Rightarrow> nat map_info list \<Rightarrow> nat map_info \<Rightarrow> 'w word unwind_world
     \<Rightarrow> fault + (nat option \<times> 'w word unwind_world)" where
  "register_interface arm env info wrapper store this w =
     (let path = name_without_delete this;
          build_id = (if is_jit_cache wrapper then '''' else wrapper_build_id wrapper)
      in case (if build_id = '''' then FakeBuildId (env_files env) (env_mtime env) path else Inr build_id) of
           Inl f \<Rightarrow> Inl f
         | Inr final_id \<Rightarrow>
             (case CreateQuickenInterfaceFromElf (env_files env) path (elf_load_bias this) (elf_offset this)
                     (elf_start_offset this) final_id (is_jit_cache wrapper) of
                Inl f \<Rightarrow> Inl f
              | Inr obj \<Rightarrow>
                  (let ptr = length (w_objects w)
                   in case init_interface arm env wrapper ptr obj (w_manager w, w_disk w) of
                        Inl f \<Rightarrow> Inl f
                      | Inr (obj1, m, fs) \<Rightarrow>
                          Inr (Some ptr,
                               w\<lparr>w_maps := (w_maps w)\<lparr>map_infos := store[info := this\<lparr>map_interface := Some ptr\<rparr>]\<rparr>,
                                 w_objects := w_objects w @ [obj1],
                                 cached_quicken_interface := (cached_quicken_interface w)(so_key this := Some ptr),
                                 w_manager := m, w_disk := fs\<rparr>))))"

definition create_interface ::
  "bool \<Rightarrow> 'w::len word unwind_env \<Rightarrow> nat \<Rightarrow> 'w word unwind_world \<Rightarrow> fault + (nat option \<times> 'w word unwind_world)" where
  "create_interface arm env info w =
     (case ElfWrapper_Init env info (map_infos (w_maps w)) of
        (None, store) \<Rightarrow>
          Inr (None, w\<lparr>w_maps := (w_maps w)\<lparr>map_infos := store[info := (store ! info)\<lparr>map_interface_failed := True\<rparr>]\<rparr>\<rparr>)
      | (Some wrapper, store) \<Rightarrow>
          register_interface arm env info wrapper store
            (if is_jit_cache wrapper then store ! info
             else (store ! info)\<lparr>elf_load_bias := wrapper_load_bias wrapper\<rparr>) w)"

definition GetQuickenInterface ::
  "bool \<Rightarrow> 'w::len word unwind_env \<Rightarrow> nat \<Rightarrow> 'w word unwind_world \<Rightarrow> fault + (nat option \<times> 'w word unwind_world)" where
  "GetQuickenInterface arm env info w =
     (let this = map_infos (w_maps w) ! info
      in if map_interface this \<noteq> None then Inr (map_interface this, w)
         else if map_interface_failed this then Inr (None, w)
         else (let path = RemoveMapsDeleteSuffix (map_name this);
                   this1 = this\<lparr>name_without_delete := path, maybe_java := \<not> IsSoFile path\<rparr>;
                   w1 = w\<lparr>w_maps := (w_maps w)\<lparr>map_infos := (map_infos (w_maps w))[info := this1]\<rparr>\<rparr>
               in case cached_quicken_interface w (so_key this) of
                    Some ptr \<Rightarrow>
                      (let obj = w_objects w ! ptr
                       in Inr (Some ptr, w1\<lparr>w_maps := (w_maps w1)\<lparr>map_infos := (map_infos (w_maps w1))[info :=
                            this1\<lparr>map_interface := Some ptr, elf_load_bias := load_bias (io_interface obj),
                                  elf_offset := io_elf_offset obj,
                                  elf_start_offset := so_elf_start_offset (io_so obj)\<rparr>]\<rparr>\<rparr>))
                  | None \<Rightarrow> create_interface arm env info w1))"

section \<open>What opening a file changes\<close>

text \<open>
  Opening the file of a map changes its map info only, and in it no more than the offsets, the load bias and the flag for
  memory-backed files.
\<close>

definition line_part :: "'q map_info \<Rightarrow> u64 \<times> u64 \<times> u64 \<times> u16 \<times> string" where
  "line_part m = (map_start m, map_end m, map_offset m, map_flags m, map_name m)"

definition fixed_part :: "'q map_info \<Rightarrow> (u64 \<times> u64 \<times> u64 \<times> u16 \<times> string) \<times> 'q option \<times> bool \<times> string \<times> bool" where
  "fixed_part m = (line_part m, map_interface m, map_interface_failed m, name_without_delete m, maybe_java m)"

definition retouched :: "nat \<Rightarrow> 'q map_info list \<Rightarrow> 'q map_info list \<Rightarrow> bool" where
  "retouched info store store' \<longleftrightarrow> (\<exists>x. store' = store[info := x] \<and> (info < length store \<longrightarrow> fixed_part x = fixed_part (store ! info)))"

lemma retouched_refl [simp]: "retouched info store store"
  unfolding retouched_def by (intro exI [of _ "store ! info"]) simp

lemma retouched_update: "fixed_part x = fixed_part (store ! info) \<Longrightarrow> retouched info store (store[info := x])"
  by (auto simp: retouched_def)

lemma retouched_trans: "retouched info a b \<Longrightarrow> retouched info b c \<Longrightarrow> retouched info a c"
  by (auto simp: retouched_def)

lemma retouched_at:
  "retouched info store store' \<Longrightarrow> length store' = length store"
  "retouched info store store' \<Longrightarrow> j \<noteq> info \<Longrightarrow> store' ! j = store ! j"
  "retouched info store store' \<Longrightarrow> fixed_part (store' ! info) = fixed_part (store ! info)"
  by (auto simp: retouched_def list_update_beyond not_less) (metis list_update_beyond not_less nth_list_update_eq)

lemma fixed_part_updates [simp]:
  "fixed_part (m\<lparr>elf_offset := a\<rparr>) = fixed_part m" "fixed_part (m\<lparr>elf_start_offset := a\<rparr>) = fixed_part m"
  "fixed_part (m\<lparr>elf_load_bias := a\<rparr>) = fixed_part m" "fixed_part (m\<lparr>memory_backed_elf := b\<rparr>) = fixed_part m"
  by (simp_all add: fixed_part_def line_part_def)

lemma InitFileMemory_fixed:
  "InitFileMemoryFromPreviousReadOnlyMap files prev mem this = (r, m, this') \<Longrightarrow> fixed_part this' = fixed_part this"
  by (auto simp: InitFileMemoryFromPreviousReadOnlyMap_def Let_def split: option.splits if_splits prod.splits bool.splits)

lemma CreateFileQuickenMemoryImpl_fixed:
  "CreateFileQuickenMemoryImpl files prev this = (m, this') \<Longrightarrow> fixed_part this' = fixed_part this"
  by (auto simp: CreateFileQuickenMemoryImpl_def file_memory_at_offset_def file_memory_elsewhere_def Let_def
      split: if_splits prod.splits bool.splits option.splits dest!: InitFileMemory_fixed)

lemma CreateFileQuickenMemory_retouches:
  assumes "CreateFileQuickenMemory files info store = (m, store')"
  shows "retouched info store store'"
  using assms
  by (auto simp: CreateFileQuickenMemory_def Let_def split: if_splits prod.splits option.splits
      dest!: CreateFileQuickenMemoryImpl_fixed intro!: retouched_update)

lemma CreateQuickenMemory_retouches:
  assumes "CreateQuickenMemory proc info store = (m, e, store')" "info < length store"
  shows "retouched info store store'"
  using assms
  by (auto simp: CreateQuickenMemory_def memory_from_here_def memory_from_previous_def Let_def
      split: if_splits prod.splits option.splits intro!: retouched_update)

lemma ElfWrapper_Init_retouches:
  assumes "ElfWrapper_Init env info store = (r, store')" "info < length store"
  shows "retouched info store store'"
proof -
  obtain fm store1 where first: "CreateFileQuickenMemory (env_files env) info store = (fm, store1)" by fastforce
  note one = CreateFileQuickenMemory_retouches [OF first]
  show ?thesis
    using assms first one retouched_at(1) [OF one] CreateQuickenMemory_retouches [of "env_process env" info store1]
    by (auto simp: ElfWrapper_Init_def split: option.splits prod.splits if_splits intro: retouched_trans)
qed

section \<open>One interface for a map\<close>

text \<open>
  The pointers are good, maps with the same key share their interface, and a map that has one has the offsets
  and the load bias of its library.
\<close>

definition agrees :: "'v interface_object \<Rightarrow> 'q map_info \<Rightarrow> bool" where
  "agrees obj m \<longleftrightarrow> elf_load_bias m = load_bias (io_interface obj) \<and> elf_offset m = io_elf_offset obj
     \<and> elf_start_offset m = so_elf_start_offset (io_so obj)"

definition interfaces_ok :: "'v unwind_world \<Rightarrow> bool" where
  "interfaces_ok w \<longleftrightarrow>
     (\<forall>key i. cached_quicken_interface w key = Some i \<longrightarrow> i < length (w_objects w))
     \<and> (\<forall>m \<in> set (map_infos (w_maps w)). \<forall>i. map_interface m = Some i
          \<longrightarrow> cached_quicken_interface w (so_key m) = Some i \<and> agrees (w_objects w ! i) m)"

lemma so_key_fixed: "fixed_part m' = fixed_part m \<Longrightarrow> so_key m' = so_key m"
  by (simp add: so_key_def fixed_part_def line_part_def)

lemma so_key_updates [simp]:
  "so_key (m\<lparr>elf_offset := a\<rparr>) = so_key m" "so_key (m\<lparr>elf_start_offset := a\<rparr>) = so_key m"
  "so_key (m\<lparr>elf_load_bias := a\<rparr>) = so_key m" "so_key (m\<lparr>map_interface := p\<rparr>) = so_key m"
  "so_key (m\<lparr>name_without_delete := n\<rparr>) = so_key m" "so_key (m\<lparr>maybe_java := b\<rparr>) = so_key m"
  "so_key (m\<lparr>map_interface_failed := b\<rparr>) = so_key m"
  by (simp_all add: so_key_def)

lemma TryInit_load_bias: "TryInitQuickenTable req d self = (r, self') \<Longrightarrow> load_bias self' = load_bias self"
  by (auto simp: TryInitQuickenTable_def Let_def split: if_splits prod.splits option.splits)

lemma InitQuickenTable_load_bias:
  "InitQuickenTable arm os d so self (m, fs) = Inr (r, self', m', fs') \<Longrightarrow> load_bias self' = load_bias self"
  by (auto simp: InitQuickenTable_def split: if_splits sum.splits prod.splits dest: TryInit_load_bias)

lemma init_interface_names:
  assumes "init_interface arm env wrapper ptr obj (m, fs) = Inr (obj', m', fs')"
  shows "io_so obj' = io_so obj" "io_elf_offset obj' = io_elf_offset obj" "load_bias (io_interface obj') = load_bias (io_interface obj)"
  using assms
  by (auto simp: init_interface_def Let_def split: if_splits sum.splits prod.splits dest: InitQuickenTable_load_bias)

lemma CreateInterface_agrees:
  assumes "CreateQuickenInterfaceFromElf files path (elf_load_bias m) (elf_offset m) (elf_start_offset m) build_id b = Inr obj"
  shows "agrees obj m"
  using assms by (auto simp: CreateQuickenInterfaceFromElf_def InitSoInfo_def agrees_def split: sum.splits)

text \<open>What the creation of an interface does to the world: at most a new object at the end and a changed map info.\<close>

definition adds_interface :: "nat \<Rightarrow> nat option \<Rightarrow> 'v unwind_world \<Rightarrow> 'v unwind_world \<Rightarrow> bool" where
  "adds_interface info r w w' \<longleftrightarrow>
     (\<exists>x. map_infos (w_maps w') = (map_infos (w_maps w))[info := x] \<and> line_part x = line_part (map_infos (w_maps w) ! info)
        \<and> map_interface x = r \<and> map_interface_failed x = (r = None)
        \<and> (case r of None \<Rightarrow> w_objects w' = w_objects w \<and> cached_quicken_interface w' = cached_quicken_interface w
           | Some i \<Rightarrow> i < length (w_objects w') \<and> agrees (w_objects w' ! i) x
               \<and> take (length (w_objects w)) (w_objects w') = w_objects w
               \<and> cached_quicken_interface w' = (cached_quicken_interface w)(so_key x := Some i)
               \<and> (cached_quicken_interface w (so_key x) = None \<or> cached_quicken_interface w (so_key x) = Some i)))
     \<and> maps_objects (w_maps w') = maps_objects (w_maps w) \<and> current_maps (w_maps w') = current_maps (w_maps w)
     \<and> latest_maps_capacity (w_maps w') = latest_maps_capacity (w_maps w)"

lemma create_interface_adds:
  assumes run: "create_interface arm env info w = Inr (r, w')" and info: "info < length (map_infos (w_maps w))"
    and fresh: "map_interface (map_infos (w_maps w) ! info) = None" "\<not> map_interface_failed (map_infos (w_maps w) ! info)"
    and key: "cached_quicken_interface w (so_key (map_infos (w_maps w) ! info)) = None"
  shows "adds_interface info r w w'"
proof -
  let ?store = "map_infos (w_maps w)"
  obtain opened store where init: "ElfWrapper_Init env info ?store = (opened, store)" by fastforce
  then have re: "retouched info ?store store" using info by (rule ElfWrapper_Init_retouches)
  note at = retouched_at(1,3) [OF re]
  obtain y where y: "store = ?store[info := y]" "fixed_part y = fixed_part (?store ! info)"
    using re info by (auto simp: retouched_def)
  show ?thesis
  proof (cases opened)
    case None
    then show ?thesis
      using run init y info fresh by (auto simp: create_interface_def adds_interface_def fixed_part_def line_part_def)
  next
    case (Some wrapper)
    define this where "this = (if is_jit_cache wrapper then y else y\<lparr>elf_load_bias := wrapper_load_bias wrapper\<rparr>)"
    have this_part: "fixed_part this = fixed_part (?store ! info)" using y(2) by (simp add: this_def)
    have "register_interface arm env info wrapper store this w = Inr (r, w')"
      using run init Some y(1) info by (simp add: create_interface_def this_def split: if_splits)
    then obtain final_id obj obj1 m fs where
      obj: "CreateQuickenInterfaceFromElf (env_files env) (name_without_delete this) (elf_load_bias this) (elf_offset this)
          (elf_start_offset this) final_id (is_jit_cache wrapper) = Inr obj"
      and init1: "init_interface arm env wrapper (length (w_objects w)) obj (w_manager w, w_disk w) = Inr (obj1, m, fs)"
      and r: "r = Some (length (w_objects w))"
      and w': "w' = w\<lparr>w_maps := (w_maps w)\<lparr>map_infos := store[info := this\<lparr>map_interface := r\<rparr>]\<rparr>,
          w_objects := w_objects w @ [obj1],
          cached_quicken_interface := (cached_quicken_interface w)(so_key this := r), w_manager := m, w_disk := fs\<rparr>"
      by (auto simp: register_interface_def Let_def split: sum.splits prod.splits)
    have "agrees obj1 this"
      using CreateInterface_agrees [OF obj] init_interface_names [OF init1] by (simp add: agrees_def)
    then have "agrees obj1 (this\<lparr>map_interface := r\<rparr>)" by (simp add: agrees_def)
    moreover have "so_key this = so_key (?store ! info)" using so_key_fixed [OF this_part] .
    ultimately show ?thesis
      using this_part fresh key y(1) unfolding w' r adds_interface_def
      by (intro conjI exI [of _ "this\<lparr>map_interface := Some (length (w_objects w))\<rparr>"])
        (auto simp: fixed_part_def line_part_def)
  qed
qed

lemma GetQuickenInterface_adds:
  assumes run: "GetQuickenInterface arm env info w = Inr (r, w')" and info: "info < length (map_infos (w_maps w))"
    and ok: "interfaces_ok w"
  shows "(w' = w \<and> map_interface (map_infos (w_maps w) ! info) = r \<and> (r = None \<longrightarrow> map_interface_failed (map_infos (w_maps w) ! info)))
    \<or> adds_interface info r w w'"
proof -
  define this where "this = map_infos (w_maps w) ! info"
  show ?thesis
  proof (cases "map_interface this \<noteq> None \<or> map_interface_failed this")
    case True
    then show ?thesis using run by (auto simp: GetQuickenInterface_def this_def Let_def split: if_splits)
  next
    case False
    define this1 where "this1 = this\<lparr>name_without_delete := RemoveMapsDeleteSuffix (map_name this),
      maybe_java := \<not> IsSoFile (RemoveMapsDeleteSuffix (map_name this))\<rparr>"
    define w1 where "w1 = w\<lparr>w_maps := (w_maps w)\<lparr>map_infos := (map_infos (w_maps w))[info := this1]\<rparr>\<rparr>"
    have parts: "line_part this1 = line_part this" "so_key this1 = so_key this" "map_interface this1 = None" "\<not> map_interface_failed this1"
      using False by (simp_all add: this1_def line_part_def)
    show ?thesis
    proof (cases "cached_quicken_interface w (so_key this)")
      case (Some ptr)
      then have "ptr < length (w_objects w)" using ok by (simp add: interfaces_ok_def)
      define x where "x = this1\<lparr>map_interface := Some ptr, elf_load_bias := load_bias (io_interface (w_objects w ! ptr)),
        elf_offset := io_elf_offset (w_objects w ! ptr), elf_start_offset := so_elf_start_offset (io_so (w_objects w ! ptr))\<rparr>"
      have r: "r = Some ptr" and w': "w' = w1\<lparr>w_maps := (w_maps w1)\<lparr>map_infos := (map_infos (w_maps w1))[info := x]\<rparr>\<rparr>"
        using run False Some parts(2) by (auto simp: GetQuickenInterface_def Let_def w1_def x_def this1_def this_def)
      have x: "line_part x = line_part this" "so_key x = so_key this" "map_interface x = Some ptr" "\<not> map_interface_failed x"
          "agrees (w_objects w ! ptr) x"
        using parts by (simp_all add: x_def line_part_def agrees_def)
      have "adds_interface info r w w'"
        using x \<open>ptr < length (w_objects w)\<close> Some info unfolding adds_interface_def r w' w1_def
        by (intro conjI exI [of _ x]) (simp_all add: this_def fun_upd_idem)
      then show ?thesis by simp
    next
      case None
      have "create_interface arm env info w1 = Inr (r, w')"
        using run False None parts(2) by (simp add: GetQuickenInterface_def Let_def w1_def this1_def this_def)
      then have "adds_interface info r w1 w'"
        by (rule create_interface_adds) (use info parts None in \<open>simp_all add: w1_def\<close>)
      then have "adds_interface info r w w'"
        using info parts by (auto simp: adds_interface_def w1_def this_def [symmetric])
      then show ?thesis by simp
    qed
  qed
qed

lemma take_nth: "take n xs' = xs \<Longrightarrow> n = length xs \<Longrightarrow> i < n \<Longrightarrow> xs' ! i = xs ! i"
  by (metis nth_take)

lemma adds_interface_ok:
  assumes "adds_interface info r w w'" "interfaces_ok w" "info < length (map_infos (w_maps w))"
  shows "interfaces_ok w'"
proof -
  obtain x where x: "map_infos (w_maps w') = (map_infos (w_maps w))[info := x]" "map_interface x = r"
      "case r of None \<Rightarrow> w_objects w' = w_objects w \<and> cached_quicken_interface w' = cached_quicken_interface w
           | Some i \<Rightarrow> i < length (w_objects w') \<and> agrees (w_objects w' ! i) x
               \<and> take (length (w_objects w)) (w_objects w') = w_objects w
               \<and> cached_quicken_interface w' = (cached_quicken_interface w)(so_key x := Some i)
               \<and> (cached_quicken_interface w (so_key x) = None \<or> cached_quicken_interface w (so_key x) = Some i)"
    using assms(1) by (auto simp: adds_interface_def)
  have old: "cached_quicken_interface w (so_key m) = Some i \<and> i < length (w_objects w) \<and> agrees (w_objects w ! i) m"
    if "m \<in> set (map_infos (w_maps w))" "map_interface m = Some i" for m i
    using assms(2) that by (auto simp: interfaces_ok_def)
  show ?thesis
  proof (cases r)
    case None
    then have "m \<in> set (map_infos (w_maps w))" if "m \<in> set (map_infos (w_maps w'))" "map_interface m = Some i" for m i
      using that x set_update_subset_insert [of "map_infos (w_maps w)" info x] by auto
    then show ?thesis using None x(3) old assms(2) unfolding interfaces_ok_def by auto
  next
    case (Some p)
    then have kept: "w_objects w' ! i = w_objects w ! i" if "i < length (w_objects w)" for i
      using that x(3) take_nth by auto
    have longer: "length (w_objects w) \<le> length (w_objects w')"
      using x(3) Some by (auto dest!: arg_cong [where f = length])
    show ?thesis
      unfolding interfaces_ok_def
    proof (intro conjI ballI allI impI)
      fix key i assume "cached_quicken_interface w' key = Some i"
      then show "i < length (w_objects w')"
        using x(3) Some assms(2) longer by (auto simp: interfaces_ok_def split: if_splits intro: less_le_trans)
    next
      fix m i assume m: "m \<in> set (map_infos (w_maps w'))" "map_interface m = Some i"
      then have "m = x \<or> m \<in> set (map_infos (w_maps w))"
        using x(1) set_update_subset_insert [of "map_infos (w_maps w)" info x] by auto
      then show "cached_quicken_interface w' (so_key m) = Some i" "agrees (w_objects w' ! i) m"
        using m(2) x(2,3) Some old [of m i] kept by auto
    qed
  qed
qed

lemma map_line_part_update: "line_part x = line_part (xs ! i) \<Longrightarrow> map line_part (xs[i := x]) = map line_part xs"
  by (cases "i < length xs") (metis map_update list_update_id nth_map length_map, simp add: list_update_beyond)

lemma GetQuickenInterface_stays:
  assumes "interfaces_ok w" "info < length (map_infos (w_maps w))" "GetQuickenInterface arm env info w = Inr (r, w')"
  shows "interfaces_ok w'" "GetQuickenInterface arm' env' info w' = Inr (r, w')"
    and "map line_part (map_infos (w_maps w')) = map line_part (map_infos (w_maps w))"
    and "maps_objects (w_maps w') = maps_objects (w_maps w) \<and> current_maps (w_maps w') = current_maps (w_maps w)
       \<and> latest_maps_capacity (w_maps w') = latest_maps_capacity (w_maps w)"
    and "map_interface (map_infos (w_maps w') ! info) = r"
    and "j < length (map_infos (w_maps w)) \<Longrightarrow> map_interface (map_infos (w_maps w) ! j) = Some i \<Longrightarrow>
       map_interface (map_infos (w_maps w') ! j) = Some i \<and> w_objects w' ! i = w_objects w ! i"
proof -
  note adds = GetQuickenInterface_adds [OF assms(3,2,1)]
  show "interfaces_ok w'" using adds adds_interface_ok [OF _ assms(1,2)] assms(1) by blast
  show r: "map_interface (map_infos (w_maps w') ! info) = r"
    using adds assms(2) by (auto simp: adds_interface_def)
  have failed: "r = None \<Longrightarrow> map_interface_failed (map_infos (w_maps w') ! info)"
    using adds assms(2) by (auto simp: adds_interface_def)
  show "GetQuickenInterface arm' env' info w' = Inr (r, w')"
    using r failed by (cases r) (simp_all add: GetQuickenInterface_def Let_def)
  show "map line_part (map_infos (w_maps w')) = map line_part (map_infos (w_maps w))"
    using adds by (auto simp: adds_interface_def map_line_part_update)
  show "maps_objects (w_maps w') = maps_objects (w_maps w) \<and> current_maps (w_maps w') = current_maps (w_maps w)
      \<and> latest_maps_capacity (w_maps w') = latest_maps_capacity (w_maps w)"
    using adds by (auto simp: adds_interface_def)
  assume j: "j < length (map_infos (w_maps w))" "map_interface (map_infos (w_maps w) ! j) = Some i"
  then have i: "i < length (w_objects w)" "cached_quicken_interface w (so_key (map_infos (w_maps w) ! j)) = Some i"
    using assms(1) nth_mem [OF j(1)] unfolding interfaces_ok_def by blast+
  from adds show "map_interface (map_infos (w_maps w') ! j) = Some i \<and> w_objects w' ! i = w_objects w ! i"
  proof
    assume "adds_interface info r w w'"
    moreover have "j \<noteq> info \<or> w' = w"
      using j assms(3) by (auto simp: GetQuickenInterface_def Let_def)
    ultimately show ?thesis using j i by (auto simp: adds_interface_def split: option.splits dest: take_nth)
  qed (use j in simp)
qed

text \<open>
  C16. A map keeps its interface.  The answer for a map is its answer from then on, whatever the files and the
  manager say later, also when it is that there is none; no other map loses its interface, maps of the same name and range
  share one, and every map with an interface has the offsets and the load bias of its library.
\<close>

theorem interface_of_a_map_stays:
  assumes "interfaces_ok w" "info < length (map_infos (w_maps w))" "GetQuickenInterface arm env info w = Inr (r, w')"
  shows "interfaces_ok w' \<and> GetQuickenInterface arm' env' info w' = Inr (r, w')
    \<and> (\<forall>j < length (map_infos (w_maps w)). \<forall>i. map_interface (map_infos (w_maps w) ! j) = Some i \<longrightarrow>
         map_interface (map_infos (w_maps w') ! j) = Some i \<and> w_objects w' ! i = w_objects w ! i)
    \<and> (\<forall>m \<in> set (map_infos (w_maps w')). \<forall>m' \<in> set (map_infos (w_maps w')). \<forall>i i'.
         so_key m = so_key m' \<and> map_interface m = Some i \<and> map_interface m' = Some i' \<longrightarrow> i = i' \<and> agrees (w_objects w' ! i) m)"
proof (intro conjI)
  show ok: "interfaces_ok w'" by (rule GetQuickenInterface_stays(1) [OF assms])
  show "GetQuickenInterface arm' env' info w' = Inr (r, w')" by (rule GetQuickenInterface_stays(2) [OF assms])
  show "\<forall>j < length (map_infos (w_maps w)). \<forall>i. map_interface (map_infos (w_maps w) ! j) = Some i \<longrightarrow>
         map_interface (map_infos (w_maps w') ! j) = Some i \<and> w_objects w' ! i = w_objects w ! i"
    using GetQuickenInterface_stays(6) [OF assms] by blast
  show "\<forall>m \<in> set (map_infos (w_maps w')). \<forall>m' \<in> set (map_infos (w_maps w')). \<forall>i i'.
         so_key m = so_key m' \<and> map_interface m = Some i \<and> map_interface m' = Some i' \<longrightarrow> i = i' \<and> agrees (w_objects w' ! i) m"
    using ok unfolding interfaces_ok_def by (metis option.inject)
qed

text \<open>A library whose maps were read twice.\<close>

definition sample_info :: "nat map_info" where
  "sample_info = \<lparr>map_start = 0x1000, map_end = 0x2000, map_offset = 0, map_flags = 5, map_name = ''/lib.so'',
     elf_offset = 0, elf_start_offset = 0, elf_load_bias = 0, prev_map = None, prev_real_map = None, next_real_map = None,
     memory_backed_elf = False, map_interface = Some 0, map_interface_failed = False, name_without_delete = ''/lib.so'',
     maybe_java = False\<rparr>"

definition sample_object :: "'v qut_sections option \<Rightarrow> 'v interface_object" where
  "sample_object sections =
     \<lparr>io_so = \<lparr>so_name = ''lib.so'', so_path = ''/lib.so'', so_hash = ''h'', so_build_id = ''b'', so_elf_start_offset = 0\<rparr>,
      io_elf_offset = 0,
      io_interface = \<lparr>load_bias = 0, qut_sections_ptr = sections, quicken_in_memory = None, debug_jit = None,
                      jit_cache = False, try_load_qut_failed_count = 0\<rparr>\<rparr>"

definition sample_world :: "'v qut_sections option \<Rightarrow> 'v unwind_world" where
  "sample_world sections =
     \<lparr>w_maps = \<lparr>map_infos = [sample_info, sample_info\<lparr>map_interface := None\<rparr>],
               maps_objects = [\<lparr>local_maps = Some [Some 0, None], maps_capacity = 2, maps_size = 1\<rparr>], current_maps = Some 0,
               latest_maps_capacity = 2\<rparr>,
      w_objects = [sample_object sections],
      cached_quicken_interface = [so_key sample_info \<mapsto> 0], w_manager = new_table_manager, w_disk = Map.empty\<rparr>"

definition sample_env :: "'v unwind_env" where
  "sample_env = \<lparr>env_os = sample_os, env_files = (\<lambda>f. \<lparr>file_bytes = None, stat_ok = False, map_ok = False\<rparr>),
     env_mtime = (\<lambda>f. 0), env_process = MemoryBuffer_Read [], env_unsafe = (\<lambda>a n. replicate n 0), env_delegate = None,
     env_lines = ([], True), light_elf = (\<lambda>r. None), in_memory = (\<lambda>m pc. None), jit = (\<lambda>pc. None)\<rparr>"

lemma sample_world_ok: "interfaces_ok (sample_world sections)"
  by (simp add: interfaces_ok_def sample_world_def agrees_def sample_object_def sample_info_def)

theorem interface_of_a_map_stays_witness:
  "\<exists>w'. GetQuickenInterface True sample_env 1 (sample_world None :: u32 unwind_world) = Inr (Some 0, w')
     \<and> GetQuickenInterface True (sample_env\<lparr>light_elf := \<lambda>r. Some ('''', 7)\<rparr>) 1 w' = Inr (Some 0, w')
     \<and> interfaces_ok w'"
proof -
  let ?w = "sample_world None :: u32 unwind_world"
  have "map_interface_failed sample_info = False" by (simp add: sample_info_def)
  then have "\<exists>w'. GetQuickenInterface True sample_env 1 ?w = Inr (Some 0, w')"
    by (simp add: GetQuickenInterface_def sample_world_def Let_def)
  then obtain w' where run: "GetQuickenInterface True sample_env 1 ?w = Inr (Some 0, w')" by blast
  have info: "1 < length (map_infos (w_maps ?w))" by (simp add: sample_world_def)
  show ?thesis
    using run interface_of_a_map_stays [OF sample_world_ok info run, of True "sample_env\<lparr>light_elf := \<lambda>r. Some ('''', 7)\<rparr>"] by blast
qed

end
