(* ===== verification/Quicken_Unwinder.thy ===== *)
theory Quicken_Unwinder
  imports Elf_Wrapper
begin

text \<open>
  \<open>WeChatQuickenUnwind\<close> of \<^verbatim>\<open>QuickenUnwinder.cpp\<close>: the loop that looks up the map and the interface of every
  program counter, adjusts it, writes the frames and takes the steps.  It refines a walk from caller to caller
  that has neither the memory of the last map nor a bounded array.
\<close>

section \<open>The code\<close>

text \<open>
  Frames, with \<open>frame_pc\<close> for the program counter.  The attribute is only ever combined with
  what the array of the caller held before.
\<close>

record 'v frame =
  frame_attr :: u8
  frame_addr :: 'v

definition frame_attr_is_dex_pc :: u8 where
  "frame_attr_is_dex_pc = 1"

definition frame_attr_maybe_java :: u8 where
  "frame_attr_maybe_java = 2"

definition write_frame ::
  "bool \<Rightarrow> nat \<Rightarrow> u8 \<Rightarrow> 'w::len word \<Rightarrow> 'w word frame list \<Rightarrow> fault + 'w word frame list" where
  "write_frame arm i attrs pc frames =
     (if i < length frames
      then Inr (frames[i := \<lparr>frame_attr = frame_attr (frames ! i) OR attrs, frame_addr = frame_pc arm pc\<rparr>])
      else Inl WritePastEnd)"

text \<open>\<open>GetPcAdjustment\<close>: relative program counters and load biases are cut to 32 bits.\<close>

definition GetPcAdjustment :: "memory_read \<Rightarrow> 'q map_info \<Rightarrow> u64 \<Rightarrow> u32 \<Rightarrow> u32 \<Rightarrow> u32" where
  "GetPcAdjustment unsafe map_info pc rel_pc load_bias' =
     (if rel_pc < load_bias' then (if rel_pc < 2 then 0 else 2)
      else (let adjusted_rel_pc = rel_pc - load_bias'
            in if adjusted_rel_pc < 5 then (if adjusted_rel_pc < 2 then 0 else 2)
               else if pc AND 1 \<noteq> 0
               then (let adjusted_pc = pc - 5
                     in if map_flags map_info AND PROT_READ = 0 \<or> adjusted_pc < map_start map_info
                           \<or> adjusted_pc + 4 \<ge> map_end map_info
                        then 2
                        else (case ReadFully unsafe adjusted_pc 4 of
                                None \<Rightarrow> 2
                              | Some bytes \<Rightarrow> if (le_word bytes :: u32) AND 0xe000f000 \<noteq> 0xe000f000 then 2 else 4))
               else 4))"

text \<open>
  The state of the loop: the world, the \<open>Maps\<close> object at hand, the last map info with its interface and load bias, and
  the step context, whose \<open>frame_index\<close> is the index of the next frame.
\<close>

record 'v unwind_state =
  u_world :: "'v unwind_world"
  u_maps :: nat
  u_adjust :: bool
  u_last :: "(nat \<times> nat) option"
  u_last_load_bias :: u64
  u_ctx :: "'v step_context"
  u_frames :: "'v frame list"

text \<open>
  The lookup at the start of an iteration: the map info and the interface of the program counter, or the error that
  ends the loop.  When \<open>GetMapInfo\<close> has replaced the maps by null, no map was found, and the loop ends.
\<close>

definition find_map ::
  "'v unwind_env \<Rightarrow> bool \<Rightarrow> nat \<Rightarrow> u64 \<Rightarrow> nat maps_state \<Rightarrow> fault + (nat option \<times> nat option \<times> nat maps_state)" where
  "find_map env update_maps maps pc s =
     (if update_maps then GetMapInfo (env_lines env) (\<lambda>a. env_process env a 2 \<noteq> []) maps pc s
      else (case FindIn maps pc s of Inl f \<Rightarrow> Inl f | Inr found \<Rightarrow> Inr (found, Some maps, s)))"

definition lookup_frame ::
  "bool \<Rightarrow> 'w::len word unwind_env \<Rightarrow> bool \<Rightarrow> 'w word unwind_state
     \<Rightarrow> fault + ((QutErrorCode + nat \<times> nat) \<times> 'w word unwind_state)" where
  "lookup_frame arm env update_maps s =
     (let cur_pc = ucast (ctx_regs (u_ctx s) PC) :: u64;
          store = map_infos (w_maps (u_world s))
      in case (case u_last s of
                 None \<Rightarrow> None
               | Some (info, i) \<Rightarrow> if map_start (store ! info) \<le> cur_pc \<and> map_end (store ! info) > cur_pc
                                   then Some (info, i) else None) of
           Some found \<Rightarrow> Inr (Inr found, s)
         | None \<Rightarrow>
             (case find_map env update_maps (u_maps s) cur_pc (w_maps (u_world s)) of
                Inl f \<Rightarrow> Inl f
              | Inr (found, maps', ms) \<Rightarrow>
                  (let s1 = s\<lparr>u_world := (u_world s)\<lparr>w_maps := ms\<rparr>,
                              u_maps := (case maps' of None \<Rightarrow> u_maps s | Some k \<Rightarrow> k)\<rparr>
                   in case found of
                        None \<Rightarrow> Inr (Inl QUT_ERROR_INVALID_MAP, s1)
                      | Some info \<Rightarrow>
                          (case GetQuickenInterface arm env info (u_world s1) of
                             Inl f \<Rightarrow> Inl f
                           | Inr (None, w) \<Rightarrow> Inr (Inl QUT_ERROR_INVALID_ELF, s1\<lparr>u_world := w\<rparr>)
                           | Inr (Some i, w) \<Rightarrow>
                               Inr (Inr (info, i),
                                    s1\<lparr>u_world := w, u_last := Some (info, i),
                                       u_last_load_bias := load_bias (io_interface (w_objects w ! i))\<rparr>)))))"

text \<open>
  The frames of an iteration, for the program counter of the dex file that the last step found and for the program
  counter itself.  The result tells whether the array is full.
\<close>

definition write_frames ::
  "bool \<Rightarrow> nat \<Rightarrow> 'w::len word \<Rightarrow> bool \<Rightarrow> 'w word unwind_state \<Rightarrow> fault + (bool \<times> 'w word unwind_state)" where
  "write_frames arm frame_max pc java s =
     (let ctx = u_ctx s;
          write = (\<lambda>idx frames.
            case write_frame arm idx (if java then frame_attr_maybe_java else 0) pc frames of
              Inl f \<Rightarrow> Inl f
            | Inr frames' \<Rightarrow>
                Inr (frame_max \<le> idx + 1,
                     s\<lparr>u_ctx := ctx\<lparr>ctx_dex_pc := 0, frame_index := idx + 1\<rparr>, u_frames := frames', u_adjust := True\<rparr>))
      in if ctx_dex_pc ctx \<noteq> 0
         then (case write_frame arm (frame_index ctx) (frame_attr_is_dex_pc OR frame_attr_maybe_java) (ctx_dex_pc ctx) (u_frames s) of
                 Inl f \<Rightarrow> Inl f
               | Inr frames' \<Rightarrow>
                   if frame_max \<le> frame_index ctx + 1
                   then Inr (True, s\<lparr>u_ctx := ctx\<lparr>ctx_dex_pc := 0, frame_index := frame_index ctx + 1\<rparr>, u_frames := frames'\<rparr>)
                   else write (frame_index ctx + 1) frames')
         else write (frame_index ctx) (u_frames s))"

text \<open>The step to the caller, with the tables of the interface.\<close>

definition take_step ::
  "'w::len word evaluator \<Rightarrow> 'w word quicken_interface \<Rightarrow> 'w word \<Rightarrow> 'w word \<Rightarrow> 'w word step_context
     \<Rightarrow> (fault + 'w word step_result) option" where
  "take_step eval interface rel_pc adjustment ctx =
     (if jit_cache interface then StepJIT eval interface (ctx\<lparr>ctx_pc := ctx_regs ctx PC - adjustment\<rparr>)
      else Step eval interface (ctx\<lparr>ctx_pc := rel_pc - adjustment\<rparr>))"

definition step_outcome ::
  "'w::len word step_context \<Rightarrow> 'w word step_result \<Rightarrow> QutErrorCode option \<times> 'w word step_context" where
  "step_outcome before = (\<lambda>(step_ret, err, ctx).
     (if \<not> step_ret then Some err
      else if finished ctx then Some QUT_ERROR_NONE
      else if ctx_regs before PC = ctx_regs ctx PC \<and> ctx_regs before SP = ctx_regs ctx SP then Some QUT_ERROR_REPEATED_FRAME
      else None, ctx))"

text \<open>The amount by which an iteration adjusts its program counter.\<close>

definition pc_adjustment ::
  "'w::len word unwind_env \<Rightarrow> bool \<Rightarrow> nat map_info \<Rightarrow> u64 \<Rightarrow> 'w word \<Rightarrow> 'w word" where
  "pc_adjustment env adjust map_info bias pc =
     (if adjust
      then ucast (GetPcAdjustment (env_unsafe env) map_info (ucast pc) (ucast (GetRelPc map_info (ucast pc))) (ucast bias))
      else 0)"

text \<open>One iteration: the code with which the loop ends, if it does, and the state.\<close>

definition unwind_iteration ::
  "bool \<Rightarrow> 'w::len word unwind_env \<Rightarrow> 'w word evaluator \<Rightarrow> bool \<Rightarrow> nat \<Rightarrow> 'w word unwind_state
     \<Rightarrow> (fault + (QutErrorCode option \<times> 'w word unwind_state)) option" where
  "unwind_iteration arm env eval update_maps frame_max s =
     (case lookup_frame arm env update_maps s of
        Inl f \<Rightarrow> Some (Inl f)
      | Inr (Inl err, s1) \<Rightarrow>
          (case write_frame arm (frame_index (u_ctx s1)) 0 (ctx_regs (u_ctx s1) PC - 2) (u_frames s1) of
             Inl f \<Rightarrow> Some (Inl f)
           | Inr frames \<Rightarrow>
               Some (Inr (Some err, s1\<lparr>u_frames := frames,
                                       u_ctx := (u_ctx s1)\<lparr>frame_index := frame_index (u_ctx s1) + 1\<rparr>\<rparr>)))
      | Inr (Inr (info, i), s1) \<Rightarrow>
          (let pc = ctx_regs (u_ctx s1) PC;
               map_info = map_infos (w_maps (u_world s1)) ! info;
               rel_pc = ucast (GetRelPc map_info (ucast pc)) :: 'w word;
               adjustment = pc_adjustment env (u_adjust s1) map_info (u_last_load_bias s1) pc
           in case write_frames arm frame_max (pc - adjustment) (maybe_java map_info) s1 of
                Inl f \<Rightarrow> Some (Inl f)
              | Inr (True, s2) \<Rightarrow> Some (Inr (Some QUT_ERROR_MAX_FRAMES_EXCEEDED, s2))
              | Inr (False, s2) \<Rightarrow>
                  (case take_step eval (io_interface (w_objects (u_world s2) ! i)) rel_pc adjustment (u_ctx s2) of
                     None \<Rightarrow> None
                   | Some (Inl f) \<Rightarrow> Some (Inl f)
                   | Some (Inr r) \<Rightarrow>
                       (case step_outcome (u_ctx s2) r of
                          (ret, ctx) \<Rightarrow> Some (Inr (ret, s2\<lparr>u_ctx := ctx\<rparr>))))))"

text \<open>
  The loop.  Every iteration that goes on has written a frame, so that it ends when the array is full at the latest;
  a step that does not return makes it not return.
\<close>

lemma StepInternal_frame_index:
  "StepInternal eval sections ctx = Some (Inr (b, err, ctx')) \<Longrightarrow> frame_index ctx' = frame_index ctx"
  by (auto simp: StepInternal_def end_step_def Let_def split: option.splits sum.splits prod.splits)

lemma take_step_frame_index:
  "take_step eval interface rel adj ctx = Some (Inr (b, err, ctx')) \<Longrightarrow> frame_index ctx' = frame_index ctx"
  by (auto simp: take_step_def StepJIT_def Step_def split: if_splits option.splits dest: StepInternal_frame_index)

lemma lookup_frame_ctx:
  "lookup_frame arm env update_maps s = Inr (r, s') \<Longrightarrow>
     u_ctx s' = u_ctx s \<and> u_frames s' = u_frames s \<and> u_adjust s' = u_adjust s"
  by (auto simp: lookup_frame_def Let_def split: option.splits sum.splits prod.splits if_splits)

lemma write_frames_index:
  "write_frames arm frame_max pc java s = Inr (full, s') \<Longrightarrow> frame_index (u_ctx s) < frame_index (u_ctx s')"
  by (auto simp: write_frames_def Let_def split: sum.splits if_splits)

lemma unwind_iteration_index:
  "unwind_iteration arm env eval update_maps frame_max s = Some (Inr (None, s')) \<Longrightarrow>
     frame_index (u_ctx s) < frame_index (u_ctx s')"
  by (auto simp: unwind_iteration_def step_outcome_def Let_def split: option.splits sum.splits prod.splits bool.splits if_splits
      dest!: lookup_frame_ctx write_frames_index take_step_frame_index)

function unwind_loop ::
  "bool \<Rightarrow> 'w::len word unwind_env \<Rightarrow> 'w word evaluator \<Rightarrow> bool \<Rightarrow> nat \<Rightarrow> 'w word unwind_state
     \<Rightarrow> (fault + (QutErrorCode \<times> 'w word unwind_state)) option" where
  "unwind_loop arm env eval update_maps frame_max s =
     (if frame_index (u_ctx s) < frame_max
      then (case unwind_iteration arm env eval update_maps frame_max s of
              None \<Rightarrow> None
            | Some (Inl f) \<Rightarrow> Some (Inl f)
            | Some (Inr (Some ret, s')) \<Rightarrow> Some (Inr (ret, s'))
            | Some (Inr (None, s')) \<Rightarrow> unwind_loop arm env eval update_maps frame_max s')
      else Some (Inr (QUT_ERROR_NONE, s)))"
  by pat_completeness auto
termination
  by (relation "measure (\<lambda>(arm, env, eval, update_maps, frame_max, s). frame_max - frame_index (u_ctx s))")
    (auto dest!: unwind_iteration_index)

declare unwind_loop.simps [simp del]

text \<open>\<open>QuickenContext\<close>, less the bounds of the stack, which the table evaluator \<open>eval\<close> has.\<close>

record 'v quicken_context =
  qc_regs :: "nat \<Rightarrow> 'v"
  frame_max_size :: nat
  backtrace :: "'v frame list"
  frame_size :: nat
  update_maps_as_need :: bool

definition start_context :: "(nat \<Rightarrow> 'v::zero) \<Rightarrow> 'v step_context" where
  "start_context rs = \<lparr>ctx_regs = rs, ctx_pc = 0, ctx_dex_pc = 0, frame_index = 0, finished = False\<rparr>"

definition start_unwind :: "'v::zero quicken_context \<Rightarrow> nat \<Rightarrow> 'v unwind_world \<Rightarrow> 'v unwind_state" where
  "start_unwind c maps w =
     \<lparr>u_world = w, u_maps = maps, u_adjust = False, u_last = None, u_last_load_bias = 0,
      u_ctx = start_context (qc_regs c),
      u_frames = backtrace c\<rparr>"

definition WeChatQuickenUnwind ::
  "bool \<Rightarrow> 'w::len word unwind_env \<Rightarrow> 'w word evaluator \<Rightarrow> 'w word quicken_context option \<Rightarrow> 'w word unwind_world
     \<Rightarrow> (fault + (QutErrorCode \<times> 'w word quicken_context option \<times> 'w word unwind_world)) option" where
  "WeChatQuickenUnwind arm env eval context w =
     (case context of
        None \<Rightarrow> Some (Inr (QUT_ERROR_CONTEXT_IS_NULL, None, w))
      | Some c \<Rightarrow>
          (case current (env_lines env) (w_maps w) of
             Inl f \<Rightarrow> Some (Inl f)
           | Inr (None, ms) \<Rightarrow> Some (Inr (QUT_ERROR_MAPS_IS_NULL, Some c, w\<lparr>w_maps := ms\<rparr>))
           | Inr (Some maps, ms) \<Rightarrow>
               (case unwind_loop arm env eval (update_maps_as_need c) (frame_max_size c) (start_unwind c maps (w\<lparr>w_maps := ms\<rparr>)) of
                  None \<Rightarrow> None
                | Some (Inl f) \<Rightarrow> Some (Inl f)
                | Some (Inr (ret, s)) \<Rightarrow>
                    Some (Inr (ret, Some (c\<lparr>qc_regs := ctx_regs (u_ctx s), backtrace := u_frames s,
                                            frame_size := frame_index (u_ctx s)\<rparr>), u_world s)))))"

section \<open>Remembering the last answer\<close>

text \<open>
  A lookup that gives the same answer for all keys that the answer covers may remember its last one.
\<close>

definition remember_last ::
  "('w \<Rightarrow> 'k \<Rightarrow> fault + (('e + 'a) \<times> 'w)) \<Rightarrow> ('w \<Rightarrow> 'a \<Rightarrow> 'k \<Rightarrow> bool) \<Rightarrow> 'w \<times> 'a option \<Rightarrow> 'k
     \<Rightarrow> fault + (('e + 'a) \<times> 'w \<times> 'a option)" where
  "remember_last look covers = (\<lambda>(w, prev) k.
     case (case prev of None \<Rightarrow> None | Some a \<Rightarrow> if covers w a k then Some a else None) of
       Some a \<Rightarrow> Inr (Inr a, w, prev)
     | None \<Rightarrow>
         (case look w k of
            Inl f \<Rightarrow> Inl f
          | Inr (Inl e, w') \<Rightarrow> Inr (Inl e, w', prev)
          | Inr (Inr a, w') \<Rightarrow> Inr (Inr a, w', Some a)))"

definition remembers ::
  "('w \<Rightarrow> 'k \<Rightarrow> fault + (('e + 'a) \<times> 'w)) \<Rightarrow> ('w \<Rightarrow> 'a \<Rightarrow> 'k \<Rightarrow> bool) \<Rightarrow> 'w \<Rightarrow> 'a option \<Rightarrow> bool" where
  "remembers look covers w prev \<longleftrightarrow> (\<forall>a k. prev = Some a \<longrightarrow> covers w a k \<longrightarrow> look w k = Inr (Inr a, w))"

locale stable_lookup =
  fixes look :: "'w \<Rightarrow> 'k \<Rightarrow> fault + (('e + 'a) \<times> 'w)"
    and covers :: "'w \<Rightarrow> 'a \<Rightarrow> 'k \<Rightarrow> bool"
    and good :: "'w \<Rightarrow> bool"
  assumes keeps: "good w \<Longrightarrow> look w k = Inr (r, w') \<Longrightarrow> good w'"
    and again: "good w \<Longrightarrow> look w k = Inr (Inr a, w') \<Longrightarrow> covers w' a k' \<Longrightarrow> look w' k' = Inr (Inr a, w')"
begin

lemma remembers_None: "remembers look covers w None"
  by (simp add: remembers_def)

lemma remembers_answer: "good w \<Longrightarrow> look w k = Inr (Inr a, w') \<Longrightarrow> remembers look covers w' (Some a)"
  unfolding remembers_def by (blast intro: again)

lemma remembering_agrees:
  assumes "remembers look covers w prev"
  shows "remember_last look covers (w, prev) k =
     (case look w k of
        Inl f \<Rightarrow> Inl f
      | Inr (Inl e, w') \<Rightarrow> Inr (Inl e, w', prev)
      | Inr (Inr a, w') \<Rightarrow> Inr (Inr a, w', Some a))"
  using assms by (auto simp: remember_last_def remembers_def split: option.split)

end

section \<open>The map of a program counter\<close>

text \<open>The lookup without a memory, and the maps in which it is stable.\<close>

definition interface_at ::
  "bool \<Rightarrow> 'w::len word unwind_env \<Rightarrow> nat \<Rightarrow> 'w word unwind_world \<Rightarrow> u64
     \<Rightarrow> fault + ((QutErrorCode + nat \<times> nat) \<times> 'w word unwind_world)" where
  "interface_at arm env maps w pc =
     (case FindIn maps pc (w_maps w) of
        Inl f \<Rightarrow> Inl f
      | Inr None \<Rightarrow> Inr (Inl QUT_ERROR_INVALID_MAP, w)
      | Inr (Some info) \<Rightarrow>
          (case GetQuickenInterface arm env info w of
             Inl f \<Rightarrow> Inl f
           | Inr (None, w') \<Rightarrow> Inr (Inl QUT_ERROR_INVALID_ELF, w')
           | Inr (Some i, w') \<Rightarrow> Inr (Inr (info, i), w')))"

definition info_covers :: "'v unwind_world \<Rightarrow> nat \<times> nat \<Rightarrow> u64 \<Rightarrow> bool" where
  "info_covers w a pc \<longleftrightarrow> map_start (map_infos (w_maps w) ! fst a) \<le> pc \<and> pc < map_end (map_infos (w_maps w) ! fst a)"

definition good_maps :: "nat \<Rightarrow> 'v unwind_world \<Rightarrow> bool" where
  "good_maps maps w \<longleftrightarrow> interfaces_ok w \<and> maps_ok (w_maps w) \<and> maps < length (maps_objects (w_maps w))
     \<and> (\<exists>n ls. ascending_maps ls \<and> keeps_lines n ls (map_infos (w_maps w)) \<and> holds_maps n ls (maps_objects (w_maps w) ! maps))"

lemma keeps_lines_parts:
  assumes "map line_part store' = map line_part store" "keeps_lines n ls store"
  shows "keeps_lines n ls store'"
proof -
  have len: "length store' = length store" using arg_cong [OF assms(1), of length] by simp
  have "line_part (store' ! j) = line_part (store ! j)" if "j < length store" for j
    using that len arg_cong [OF assms(1), of "\<lambda>l. l ! j"] by simp
  then show ?thesis
    using assms(2) len by (auto simp: keeps_lines_def info_of_line_def line_part_def)
qed

lemma interface_at_keeps:
  assumes "good_maps maps w" "interface_at arm env maps w pc = Inr (r, w')"
  shows "good_maps maps w'"
proof -
  obtain n ls where ls: "ascending_maps ls" "keeps_lines n ls (map_infos (w_maps w))" "holds_maps n ls (maps_objects (w_maps w) ! maps)"
    using assms(1) by (auto simp: good_maps_def)
  have "FindIn maps pc (w_maps w) = Inr (covering_map n ls pc)"
    by (simp add: FindIn_def Find_covering [OF ls])
  show ?thesis
  proof (cases "covering_map n ls pc")
    case None
    then show ?thesis
      using assms \<open>FindIn maps pc (w_maps w) = _\<close> by (auto simp: interface_at_def)
  next
    case (Some info)
    then have "info < length (map_infos (w_maps w))"
      using ls(2) by (auto simp: covering_map_def keeps_lines_def find_Some_iff)
    moreover have "interfaces_ok w" using assms(1) by (simp add: good_maps_def)
    moreover obtain r1 where "GetQuickenInterface arm env info w = Inr (r1, w')"
      using assms(2) Some \<open>FindIn maps pc (w_maps w) = _\<close>
      by (auto simp: interface_at_def split: sum.splits option.splits prod.splits)
    ultimately have stays: "interfaces_ok w'" "map line_part (map_infos (w_maps w')) = map line_part (map_infos (w_maps w))"
        "maps_objects (w_maps w') = maps_objects (w_maps w)" "latest_maps_capacity (w_maps w') = latest_maps_capacity (w_maps w)"
      using GetQuickenInterface_stays(1,3,4) by blast+
    moreover have "length (map_infos (w_maps w')) = length (map_infos (w_maps w))"
      using arg_cong [OF stays(2), of length] by simp
    ultimately have "maps_ok (w_maps w')" using assms(1) by (simp add: good_maps_def maps_ok_def cells_in_def)
    moreover have "keeps_lines n ls (map_infos (w_maps w'))" by (rule keeps_lines_parts [OF stays(2) ls(2)])
    ultimately show ?thesis
      using assms(1) stays(1,3) ls(1,3) unfolding good_maps_def by metis
  qed
qed

lemma covering_map_inside: "covering_map n ls pc = Some info \<Longrightarrow> \<exists>j < length ls. info = n + j \<and> line_covers pc (ls ! j)"
  by (auto simp: covering_map_def find_Some_iff)

lemma interface_at_again:
  assumes "good_maps maps w" "interface_at arm env maps w pc = Inr (Inr a, w')" "info_covers w' a pc'"
  shows "interface_at arm env maps w' pc' = Inr (Inr a, w')"
proof -
  obtain info i where a: "a = (info, i)" by fastforce
  have found: "FindIn maps pc (w_maps w) = Inr (Some info)" and get: "GetQuickenInterface arm env info w = Inr (Some i, w')"
    using assms(2) a by (auto simp: interface_at_def split: sum.splits option.splits prod.splits)
  have "good_maps maps w'" by (rule interface_at_keeps [OF assms(1,2)])
  obtain n ls where ls: "ascending_maps ls" "keeps_lines n ls (map_infos (w_maps w))" "holds_maps n ls (maps_objects (w_maps w) ! maps)"
    and ok: "interfaces_ok w"
    using assms(1) by (auto simp: good_maps_def)
  have "covering_map n ls pc = Some info"
    using found by (simp add: FindIn_def Find_covering [OF ls])
  then obtain j where j: "j < length ls" "info = n + j" using covering_map_inside by blast
  have info: "info < length (map_infos (w_maps w))" using j ls(2) by (simp add: keeps_lines_def)
  note stays = GetQuickenInterface_stays(2,3,4) [OF ok info get]
  have ls': "keeps_lines n ls (map_infos (w_maps w'))" by (rule keeps_lines_parts [OF stays(2) ls(2)])
  have "line_covers pc' (ls ! j)"
    using assms(3) ls' j by (simp add: info_covers_def a keeps_lines_def info_of_line_def line_covers_def)
  then have "covering_map n ls pc' = Some info" using covering_map_Some [OF ls(1) j(1)] j(2) by simp
  moreover have "holds_maps n ls (maps_objects (w_maps w') ! maps)" using ls(3) stays(3) by simp
  ultimately have "FindIn maps pc' (w_maps w') = Inr (Some info)"
    by (simp add: FindIn_def Find_covering [OF ls(1) ls'])
  then show ?thesis using stays(1) a by (simp add: interface_at_def)
qed

interpretation map_lookup: stable_lookup "interface_at arm env maps" info_covers "good_maps maps"
  by unfold_locales (rule interface_at_keeps, assumption+, rule interface_at_again)

text \<open>When no map is found, reading the maps again does not change that.\<close>

lemma GetMapInfo_found: "FindIn maps pc s = Inr (Some info) \<Longrightarrow> GetMapInfo read readable maps pc s = Inr (Some info, Some maps, s)"
  by (simp add: GetMapInfo_def)

lemma Parse_returns:
  assumes "0 < latest_maps_capacity s"
  shows "\<exists>r s'. Parse (ls, ret) maps s = Inr (r, s')"
proof -
  have "0 < maps_capacity (new_maps (latest_maps_capacity s))" using assms by (simp add: new_maps_def)
  from ParseImpl_parses [OF this, of ls ret "map_infos s"] show ?thesis by (auto simp: Parse_def)
qed

lemma GetMapInfo_lost:
  assumes "FindIn maps pc s = Inr None" "maps_ok s" "maps < length (maps_objects s)"
  shows "\<exists>maps' s'. GetMapInfo (ls, ret) readable maps pc s = Inr (None, maps', s')"
proof (cases "readable pc")
  case True
  have "0 < latest_maps_capacity s" using assms(2) by (simp add: maps_ok_def)
  then obtain r s1 where parse: "Parse (ls, ret) (Some maps) s = Inr (r, s1)" using Parse_returns by blast
  note kept = Parse_keeps [OF parse assms(2)]
  have "maps_objects s1 ! maps = maps_objects s ! maps" using kept(2) assms(3) by (metis nth_take)
  then have find: "FindIn maps pc s1 = Inr None"
    using Find_extended [OF _ kept(1), of "maps_objects s ! maps" pc] assms
    by (simp add: FindIn_def maps_ok_def)
  have "\<exists>m s2. current (ls, ret) s1 = Inr (m, s2)"
  proof (cases "current_maps s1")
    case None
    then have "s1 \<noteq> s \<or> current_maps s = None" by auto
    have "0 < latest_maps_capacity s1"
      using parse \<open>0 < latest_maps_capacity s\<close> ParseImpl_parses [of "new_maps (latest_maps_capacity s)" ls ret "map_infos s"] None
      by (auto simp: Parse_def new_maps_def split: if_splits)
    then show ?thesis using Parse_returns [of s1 ls ret None] None by (auto simp: current_def)
  qed (simp add: current_def)
  then show ?thesis using True assms(1) parse find by (auto simp: GetMapInfo_def)
qed (use assms in \<open>simp add: GetMapInfo_def\<close>)

section \<open>The walk from caller to caller\<close>

text \<open>
  A walk looks up every program counter afresh and has room for any number of frames.  It ends where no map or
  interface is found, or where a step ends it, or it is looked at no further.  A frame is its attribute with its program counter.
\<close>

datatype walk_end = Lost QutErrorCode | Ended QutErrorCode | Cut

definition frames_here :: "'w::len word step_context \<Rightarrow> bool \<Rightarrow> 'w word \<Rightarrow> (u8 \<times> 'w word) list" where
  "frames_here ctx java pc =
     (if ctx_dex_pc ctx \<noteq> 0 then [(frame_attr_is_dex_pc OR frame_attr_maybe_java, ctx_dex_pc ctx)] else [])
     @ [(if java then frame_attr_maybe_java else 0, pc)]"

definition after_frames :: "'w::len word step_context \<Rightarrow> (u8 \<times> 'w word) list \<Rightarrow> 'w word step_context" where
  "after_frames ctx fs = ctx\<lparr>ctx_dex_pc := 0, frame_index := frame_index ctx + length fs\<rparr>"

definition adjustment_at :: "'w::len word unwind_env \<Rightarrow> bool \<Rightarrow> 'w word unwind_world \<Rightarrow> nat \<times> nat \<Rightarrow> 'w word \<Rightarrow> 'w word" where
  "adjustment_at env adjust w a pc =
     pc_adjustment env adjust (map_infos (w_maps w) ! fst a) (load_bias (io_interface (w_objects w ! snd a))) pc"

definition walk_frames ::
  "'w::len word unwind_env \<Rightarrow> bool \<Rightarrow> 'w word unwind_world \<Rightarrow> nat \<times> nat \<Rightarrow> 'w word step_context \<Rightarrow> (u8 \<times> 'w word) list" where
  "walk_frames env adjust w a ctx =
     (let pc = ctx_regs ctx PC
      in frames_here ctx (maybe_java (map_infos (w_maps w) ! fst a)) (pc - adjustment_at env adjust w a pc))"

definition walk_step ::
  "'w::len word unwind_env \<Rightarrow> 'w word evaluator \<Rightarrow> bool \<Rightarrow> 'w word unwind_world \<Rightarrow> nat \<times> nat \<Rightarrow> 'w word step_context
     \<Rightarrow> (fault + 'w word step_result) option" where
  "walk_step env eval adjust w a ctx =
     (let pc = ctx_regs ctx PC
      in take_step eval (io_interface (w_objects w ! snd a)) (ucast (GetRelPc (map_infos (w_maps w) ! fst a) (ucast pc)))
           (adjustment_at env adjust w a pc) (after_frames ctx (walk_frames env adjust w a ctx)))"

inductive walk ::
  "bool \<Rightarrow> 'w::len word unwind_env \<Rightarrow> 'w word evaluator \<Rightarrow> nat \<Rightarrow> 'w word unwind_world \<Rightarrow> bool \<Rightarrow> 'w word step_context
     \<Rightarrow> (u8 \<times> 'w word) list \<Rightarrow> walk_end \<Rightarrow> bool"
  for arm env eval maps where
  lost: "interface_at arm env maps w (ucast (ctx_regs ctx PC)) = Inr (Inl err, w')
    \<Longrightarrow> walk arm env eval maps w adjust ctx [(0, ctx_regs ctx PC - 2)] (Lost err)"
| cut: "interface_at arm env maps w (ucast (ctx_regs ctx PC)) = Inr (Inr a, w')
    \<Longrightarrow> walk arm env eval maps w adjust ctx (walk_frames env adjust w' a ctx) Cut"
| ended: "interface_at arm env maps w (ucast (ctx_regs ctx PC)) = Inr (Inr a, w')
    \<Longrightarrow> walk_step env eval adjust w' a ctx = Some (Inr r)
    \<Longrightarrow> step_outcome (after_frames ctx (walk_frames env adjust w' a ctx)) r = (Some err, ctx')
    \<Longrightarrow> walk arm env eval maps w adjust ctx (walk_frames env adjust w' a ctx) (Ended err)"
| caller: "interface_at arm env maps w (ucast (ctx_regs ctx PC)) = Inr (Inr a, w')
    \<Longrightarrow> walk_step env eval adjust w' a ctx = Some (Inr r)
    \<Longrightarrow> step_outcome (after_frames ctx (walk_frames env adjust w' a ctx)) r = (None, ctx')
    \<Longrightarrow> walk arm env eval maps w' True ctx' fs e
    \<Longrightarrow> walk arm env eval maps w adjust ctx (walk_frames env adjust w' a ctx @ fs) e"

text \<open>Frames in the array, over what it held before.\<close>

fun put_frames :: "bool \<Rightarrow> nat \<Rightarrow> (u8 \<times> 'w::len word) list \<Rightarrow> 'w word frame list \<Rightarrow> 'w word frame list" where
  "put_frames arm i [] frames = frames"
| "put_frames arm i ((attrs, pc) # fs) frames =
     put_frames arm (Suc i) fs
       (frames[i := \<lparr>frame_attr = frame_attr (frames ! i) OR attrs, frame_addr = frame_pc arm pc\<rparr>])"

lemma length_put_frames [simp]: "length (put_frames arm i fs frames) = length frames"
  by (induction arm i fs frames rule: put_frames.induct) simp_all

lemma put_frames_append: "put_frames arm i (fs @ gs) frames = put_frames arm (i + length fs) gs (put_frames arm i fs frames)"
  by (induction arm i fs frames rule: put_frames.induct) simp_all

lemma put_frames_nth:
  "i + length fs \<le> length frames \<Longrightarrow> j < length frames \<Longrightarrow>
     put_frames arm i fs frames ! j =
       (if i \<le> j \<and> j < i + length fs
        then \<lparr>frame_attr = frame_attr (frames ! j) OR fst (fs ! (j - i)), frame_addr = frame_pc arm (snd (fs ! (j - i)))\<rparr>
        else frames ! j)"
proof (induction arm i fs frames rule: put_frames.induct)
  case (2 arm i attrs pc fs frames)
  then show ?case by (cases "j = i") (auto simp: nth_Cons' Suc_le_eq)
qed auto

lemma length_frames_here: "0 < length (frames_here ctx java pc)"
  by (simp add: frames_here_def)

lemma write_frames_puts:
  assumes "frame_index (u_ctx s) < frame_max" "frame_max \<le> length (u_frames s)" "fs = frames_here (u_ctx s) java pc"
  shows "\<exists>s'. write_frames arm frame_max pc java s = Inr (frame_max \<le> frame_index (u_ctx s) + length fs, s')
    \<and> u_frames s' = put_frames arm (frame_index (u_ctx s)) (take (frame_max - frame_index (u_ctx s)) fs) (u_frames s)
    \<and> frame_index (u_ctx s') = min frame_max (frame_index (u_ctx s) + length fs)
    \<and> (frame_index (u_ctx s) + length fs < frame_max
        \<longrightarrow> s' = s\<lparr>u_ctx := after_frames (u_ctx s) fs, u_frames := u_frames s', u_adjust := True\<rparr>)"
proof (cases "ctx_dex_pc (u_ctx s) = 0")
  case True
  then show ?thesis
    using assms by (auto simp: write_frames_def frames_here_def write_frame_def after_frames_def Let_def take_Cons' min_def)
next
  case False
  show ?thesis
  proof (cases "frame_index (u_ctx s) + 1 < frame_max")
    case True
    moreover have "take (frame_max - frame_index (u_ctx s)) fs = fs"
      using True False assms(3) by (simp add: frames_here_def)
    ultimately show ?thesis
      using False assms by (auto simp: write_frames_def frames_here_def write_frame_def after_frames_def Let_def min_def)
  next
    case full: False
    then have "frame_max - frame_index (u_ctx s) = 1" using assms(1) by simp
    then show ?thesis
      using False full assms by (auto simp: write_frames_def frames_here_def write_frame_def after_frames_def Let_def min_def)
  qed
qed

section \<open>The loop follows the walk\<close>

text \<open>The state of the loop on a walk.\<close>

definition on_walk ::
  "bool \<Rightarrow> 'w::len word unwind_env \<Rightarrow> nat \<Rightarrow> 'w word unwind_world \<Rightarrow> bool \<Rightarrow> 'w word step_context \<Rightarrow> 'w word unwind_state \<Rightarrow> bool" where
  "on_walk arm env maps w adjust ctx s \<longleftrightarrow>
     u_world s = w \<and> u_maps s = maps \<and> u_adjust s = adjust \<and> u_ctx s = ctx \<and> good_maps maps w
     \<and> remembers (interface_at arm env maps) info_covers w (u_last s)
     \<and> (\<forall>a. u_last s = Some a \<longrightarrow> u_last_load_bias s = load_bias (io_interface (w_objects w ! snd a)))"

lemma lookup_frame_hit:
  assumes "on_walk arm env maps w adjust ctx s" "interface_at arm env maps w (ucast (ctx_regs ctx PC)) = Inr (Inr a, w')"
  shows "\<exists>s'. lookup_frame arm env update_maps s = Inr (Inr a, s') \<and> on_walk arm env maps w' adjust ctx s'
    \<and> u_last s' = Some a \<and> u_frames s' = u_frames s"
proof -
  have s: "u_world s = w" "u_maps s = maps" "u_ctx s = ctx" "good_maps maps w" "u_adjust s = adjust"
    and mem: "remembers (interface_at arm env maps) info_covers w (u_last s)"
    and bias: "\<And>a. u_last s = Some a \<Longrightarrow> u_last_load_bias s = load_bias (io_interface (w_objects w ! snd a))"
    using assms(1) by (auto simp: on_walk_def)
  let ?pc = "ucast (ctx_regs ctx PC) :: u64"
  show ?thesis
  proof (cases "\<exists>b. u_last s = Some b \<and> info_covers w b ?pc")
    case True
    then obtain b where b: "u_last s = Some b" "info_covers w b ?pc" by blast
    then have "interface_at arm env maps w ?pc = Inr (Inr b, w)" using mem by (simp add: remembers_def)
    then have "a = b" "w' = w" using assms(2) by simp_all
    moreover have "lookup_frame arm env update_maps s = Inr (Inr b, s)"
      using b s(1,3) by (auto simp: lookup_frame_def info_covers_def Let_def split: prod.splits)
    ultimately show ?thesis using assms(1) b(1) by blast
  next
    case False
    obtain info i where a: "a = (info, i)" by fastforce
    have found: "FindIn maps ?pc (w_maps w) = Inr (Some info)" and get: "GetQuickenInterface arm env info w = Inr (Some i, w')"
      using assms(2) a by (auto simp: interface_at_def split: sum.splits option.splits prod.splits)
    have map: "find_map env update_maps maps ?pc (w_maps w) = Inr (Some info, Some maps, w_maps w)"
      using found by (simp add: find_map_def GetMapInfo_found)
    define s' where "s' = s\<lparr>u_world := w', u_last := Some (info, i), u_last_load_bias := load_bias (io_interface (w_objects w' ! i))\<rparr>"
    have miss: "(case u_last s of None \<Rightarrow> None | Some (info, i) \<Rightarrow> if map_start (map_infos (w_maps w) ! info) \<le> ?pc
        \<and> map_end (map_infos (w_maps w) ! info) > ?pc then Some (info, i) else None) = None"
      using False by (auto simp: info_covers_def split: option.splits)
    have "lookup_frame arm env update_maps s = Inr (Inr a, s')"
      unfolding lookup_frame_def Let_def s(1,2,3) miss option.case map sum.case prod.case
      using get a s(1,2) by (simp add: s'_def)
    moreover have "on_walk arm env maps w' adjust ctx s'"
      using s a assms(2) interface_at_keeps [OF s(4) assms(2)] map_lookup.remembers_answer [OF s(4) assms(2)]
      by (simp add: on_walk_def s'_def)
    ultimately show ?thesis using a by (auto simp: s'_def)
  qed
qed

lemma lookup_frame_lost:
  assumes "on_walk arm env maps w adjust ctx s" "interface_at arm env maps w (ucast (ctx_regs ctx PC)) = Inr (Inl err, w')"
  shows "\<exists>s'. lookup_frame arm env update_maps s = Inr (Inl err, s') \<and> u_ctx s' = ctx \<and> u_frames s' = u_frames s"
proof -
  have s: "u_world s = w" "u_maps s = maps" "u_ctx s = ctx" "good_maps maps w"
    and mem: "remembers (interface_at arm env maps) info_covers w (u_last s)"
    using assms(1) by (auto simp: on_walk_def)
  let ?pc = "ucast (ctx_regs ctx PC) :: u64"
  have "\<not> info_covers w b ?pc" if "u_last s = Some b" for b
    using mem that assms(2) by (auto simp: remembers_def)
  then have miss: "(case u_last s of None \<Rightarrow> None | Some (info, i) \<Rightarrow> if map_start (map_infos (w_maps w) ! info) \<le> ?pc
      \<and> map_end (map_infos (w_maps w) ! info) > ?pc then Some (info, i) else None) = None"
    by (auto simp: info_covers_def split: option.splits)
  consider "FindIn maps ?pc (w_maps w) = Inr None" "err = QUT_ERROR_INVALID_MAP"
    | info where "FindIn maps ?pc (w_maps w) = Inr (Some info)" "GetQuickenInterface arm env info w = Inr (None, w')"
        "err = QUT_ERROR_INVALID_ELF"
    using assms(2) by (auto simp: interface_at_def split: sum.splits option.splits prod.splits)
  then show ?thesis
  proof cases
    case 1
    have good: "maps_ok (w_maps w)" "maps < length (maps_objects (w_maps w))" using s(4) by (simp_all add: good_maps_def)
    obtain ls ret where read: "env_lines env = (ls, ret)" by fastforce
    obtain maps' ms where map: "find_map env update_maps maps ?pc (w_maps w) = Inr (None, maps', ms)"
      using 1 GetMapInfo_lost [OF 1(1) good, of ls ret "\<lambda>a. env_process env a 2 \<noteq> []"]
      by (cases update_maps) (auto simp: find_map_def read)
    show ?thesis
      unfolding lookup_frame_def Let_def s(1,2,3) miss option.case map sum.case prod.case using 1(2) s by simp
  next
    case (2 info)
    have map: "find_map env update_maps maps ?pc (w_maps w) = Inr (Some info, Some maps, w_maps w)"
      using 2 by (simp add: find_map_def GetMapInfo_found)
    show ?thesis
      unfolding lookup_frame_def Let_def s(1,2,3) miss option.case map sum.case prod.case using 2 s by simp
  qed
qed

text \<open>What the loop returns when the walk has the given frames and end.\<close>

definition end_code :: "nat \<Rightarrow> nat \<Rightarrow> walk_end \<Rightarrow> QutErrorCode" where
  "end_code frame_max n e =
     (case e of
        Lost err \<Rightarrow> if n \<le> frame_max then err else QUT_ERROR_MAX_FRAMES_EXCEEDED
      | Ended err \<Rightarrow> if n < frame_max then err else QUT_ERROR_MAX_FRAMES_EXCEEDED
      | Cut \<Rightarrow> QUT_ERROR_MAX_FRAMES_EXCEEDED)"

lemma iteration_found:
  assumes "on_walk arm env maps w adjust ctx s" "interface_at arm env maps w (ucast (ctx_regs ctx PC)) = Inr (Inr a, w')"
    and "frame_index ctx < frame_max" "frame_max \<le> length (u_frames s)" "fs = walk_frames env adjust w' a ctx"
  shows "\<exists>s'. u_frames s' = put_frames arm (frame_index ctx) (take (frame_max - frame_index ctx) fs) (u_frames s)
    \<and> frame_index (u_ctx s') = min frame_max (frame_index ctx + length fs)
    \<and> (frame_max \<le> frame_index ctx + length fs
        \<longrightarrow> unwind_iteration arm env eval update_maps frame_max s = Some (Inr (Some QUT_ERROR_MAX_FRAMES_EXCEEDED, s')))
    \<and> (frame_index ctx + length fs < frame_max
        \<longrightarrow> on_walk arm env maps w' True (after_frames ctx fs) s'
          \<and> unwind_iteration arm env eval update_maps frame_max s =
              (case walk_step env eval adjust w' a ctx of
                 None \<Rightarrow> None
               | Some (Inl f) \<Rightarrow> Some (Inl f)
               | Some (Inr r) \<Rightarrow> (case step_outcome (after_frames ctx fs) r of (ret, ctx') \<Rightarrow> Some (Inr (ret, s'\<lparr>u_ctx := ctx'\<rparr>)))))"
proof -
  obtain s1 where s1: "lookup_frame arm env update_maps s = Inr (Inr a, s1)" "on_walk arm env maps w' adjust ctx s1"
      "u_last s1 = Some a" "u_frames s1 = u_frames s"
    using lookup_frame_hit [OF assms(1,2)] by blast
  obtain info i where a: "a = (info, i)" by fastforce
  have s1': "u_ctx s1 = ctx" "u_world s1 = w'" "u_adjust s1 = adjust"
      "u_last_load_bias s1 = load_bias (io_interface (w_objects w' ! i))"
    using s1(2,3) a by (auto simp: on_walk_def)
  let ?pc = "ctx_regs ctx PC" and ?java = "maybe_java (map_infos (w_maps w') ! info)"
  have adj: "pc_adjustment env (u_adjust s1) (map_infos (w_maps (u_world s1)) ! info) (u_last_load_bias s1) ?pc
      = adjustment_at env adjust w' a ?pc"
    using s1' a by (simp add: adjustment_at_def)
  have fs: "fs = frames_here ctx ?java (?pc - adjustment_at env adjust w' a ?pc)"
    using assms(5) a by (simp add: walk_frames_def Let_def)
  obtain s2 where s2:
      "write_frames arm frame_max (?pc - adjustment_at env adjust w' a ?pc) ?java s1
         = Inr (frame_max \<le> frame_index ctx + length fs, s2)"
      "u_frames s2 = put_frames arm (frame_index ctx) (take (frame_max - frame_index ctx) fs) (u_frames s)"
      "frame_index (u_ctx s2) = min frame_max (frame_index ctx + length fs)"
      "frame_index ctx + length fs < frame_max \<Longrightarrow>
         s2 = s1\<lparr>u_ctx := after_frames ctx fs, u_frames := u_frames s2, u_adjust := True\<rparr>"
    using write_frames_puts [of s1 frame_max fs ?java "?pc - adjustment_at env adjust w' a ?pc" arm] s1(4) s1'(1) assms(3,4) fs by auto
  have iteration: "unwind_iteration arm env eval update_maps frame_max s =
      (if frame_max \<le> frame_index ctx + length fs then Some (Inr (Some QUT_ERROR_MAX_FRAMES_EXCEEDED, s2))
       else case take_step eval (io_interface (w_objects (u_world s2) ! i)) (ucast (GetRelPc (map_infos (w_maps w') ! info) (ucast ?pc)))
              (adjustment_at env adjust w' a ?pc) (u_ctx s2) of
                None \<Rightarrow> None
              | Some (Inl f) \<Rightarrow> Some (Inl f)
              | Some (Inr r) \<Rightarrow> (case step_outcome (u_ctx s2) r of (ret, ctx') \<Rightarrow> Some (Inr (ret, s2\<lparr>u_ctx := ctx'\<rparr>))))"
    using s1(1) a adj s2(1) s1' by (simp add: unwind_iteration_def Let_def)
  have step: "on_walk arm env maps w' True (after_frames ctx fs) s2 \<and> u_world s2 = w' \<and> u_ctx s2 = after_frames ctx fs"
    if "frame_index ctx + length fs < frame_max"
    using s1(2) s2(4) [OF that] by (auto simp: on_walk_def) (metis unwind_state.select_convs unwind_state.surjective unwind_state.update_convs)+
  have more: "unwind_iteration arm env eval update_maps frame_max s =
      (case walk_step env eval adjust w' a ctx of
         None \<Rightarrow> None
       | Some (Inl f) \<Rightarrow> Some (Inl f)
       | Some (Inr r) \<Rightarrow> (case step_outcome (after_frames ctx fs) r of (ret, ctx') \<Rightarrow> Some (Inr (ret, s2\<lparr>u_ctx := ctx'\<rparr>))))"
    if "frame_index ctx + length fs < frame_max"
  proof -
    have s2': "u_ctx s2 = after_frames ctx fs" "u_world s2 = w'" using step [OF that] by simp_all
    show ?thesis unfolding iteration s2' using that a assms(5) by (simp add: walk_step_def Let_def)
  qed
  show ?thesis
    by (intro exI [of _ s2] conjI impI)
      (use s2(2,3) iteration in simp, use s2(2,3) in simp, use iteration in simp, use step in blast, erule more)
qed

lemma iteration_lost:
  assumes "on_walk arm env maps w adjust ctx s" "interface_at arm env maps w (ucast (ctx_regs ctx PC)) = Inr (Inl err, w')"
    and "frame_index ctx < length (u_frames s)"
  shows "\<exists>s'. unwind_iteration arm env eval update_maps frame_max s = Some (Inr (Some err, s'))
    \<and> u_frames s' = put_frames arm (frame_index ctx) [(0, ctx_regs ctx PC - 2)] (u_frames s)
    \<and> frame_index (u_ctx s') = frame_index ctx + 1"
proof -
  obtain s1 where "lookup_frame arm env update_maps s = Inr (Inl err, s1)" "u_ctx s1 = ctx" "u_frames s1 = u_frames s"
    using lookup_frame_lost [OF assms(1,2)] by blast
  then show ?thesis using assms(3) by (simp add: unwind_iteration_def write_frame_def)
qed

lemma walk_frames_nonempty: "1 \<le> length (walk_frames env adjust w a ctx)"
  unfolding walk_frames_def Let_def One_nat_def Suc_le_eq by (rule length_frames_here)

lemma frame_index_walk_step:
  assumes "walk_step env eval adjust w a ctx = Some (Inr r)"
    and "step_outcome (after_frames ctx (walk_frames env adjust w a ctx)) r = (ret, ctx')"
  shows "frame_index ctx' = frame_index ctx + length (walk_frames env adjust w a ctx)"
  using assms
  by (cases r) (auto simp: walk_step_def Let_def step_outcome_def after_frames_def dest!: take_step_frame_index)

lemma walk_nonempty: "walk arm env eval maps w adjust ctx fs e \<Longrightarrow> 1 \<le> length fs"
proof (induction rule: walk.induct)
  case (caller w ctx a w' adjust r ctx' fs e)
  then show ?case unfolding length_append by linarith
qed (rule walk_frames_nonempty | simp)+

lemma unwind_loop_follows:
  assumes "walk arm env eval maps w adjust ctx fs e" "on_walk arm env maps w adjust ctx s"
    and "frame_index ctx < frame_max" "frame_max \<le> length (u_frames s)" "e = Cut \<longrightarrow> frame_max \<le> frame_index ctx + length fs"
  shows "\<exists>s'. unwind_loop arm env eval update_maps frame_max s
      = Some (Inr (end_code frame_max (frame_index ctx + length fs) e, s'))
    \<and> u_frames s' = put_frames arm (frame_index ctx) (take (frame_max - frame_index ctx) fs) (u_frames s)
    \<and> frame_index (u_ctx s') = min frame_max (frame_index ctx + length fs)"
  using assms
proof (induction arbitrary: s rule: walk.induct)
  case (lost w ctx err w' adjust)
  have "frame_index ctx < length (u_frames s)" using lost.prems(2,3) by simp
  from iteration_lost [OF lost.prems(1) lost.hyps this] obtain s' where
    "unwind_iteration arm env eval update_maps frame_max s = Some (Inr (Some err, s'))"
    "u_frames s' = put_frames arm (frame_index ctx) [(0, ctx_regs ctx PC - 2)] (u_frames s)"
    "frame_index (u_ctx s') = frame_index ctx + 1" by blast
  then show ?case
    using lost.prems by (subst unwind_loop.simps) (auto simp: on_walk_def end_code_def take_Cons' min_def)
next
  case (cut w ctx a w' adjust)
  from iteration_found [OF cut.prems(1) cut.hyps cut.prems(2,3) refl, of eval update_maps] cut.prems(2,4)
  show ?case
    using cut.prems(1) by (subst unwind_loop.simps) (auto simp: on_walk_def end_code_def)
next
  case (ended w ctx a w' adjust r err ctx')
  note found = iteration_found [OF ended.prems(1) ended.hyps(1) ended.prems(2,3) refl, of eval update_maps]
  have index: "frame_index ctx' = frame_index ctx + length (walk_frames env adjust w' a ctx)"
    by (rule frame_index_walk_step [OF ended.hyps(2,3)])
  show ?case
  proof (cases "frame_index ctx + length (walk_frames env adjust w' a ctx) < frame_max")
    case True
    then show ?thesis
      using found ended.hyps ended.prems(1,2) index by (subst unwind_loop.simps) (auto simp: on_walk_def end_code_def min_def)
  next
    case False
    then show ?thesis
      using found ended.prems(1,2) by (subst unwind_loop.simps) (auto simp: on_walk_def end_code_def)
  qed
next
  case (caller w ctx a w' adjust r ctx' fs e)
  let ?here = "walk_frames env adjust w' a ctx"
  obtain s1 where s1: "u_frames s1 = put_frames arm (frame_index ctx) (take (frame_max - frame_index ctx) ?here) (u_frames s)"
      "frame_index (u_ctx s1) = min frame_max (frame_index ctx + length ?here)"
      "frame_max \<le> frame_index ctx + length ?here
        \<Longrightarrow> unwind_iteration arm env eval update_maps frame_max s = Some (Inr (Some QUT_ERROR_MAX_FRAMES_EXCEEDED, s1))"
      "frame_index ctx + length ?here < frame_max
        \<Longrightarrow> on_walk arm env maps w' True (after_frames ctx ?here) s1
          \<and> unwind_iteration arm env eval update_maps frame_max s = Some (Inr (None, s1\<lparr>u_ctx := ctx'\<rparr>))"
    using iteration_found [OF caller.prems(1) caller.hyps(1) caller.prems(2,3) refl, of eval update_maps] caller.hyps(2,3) by auto
  have index: "frame_index ctx' = frame_index ctx + length ?here"
    by (rule frame_index_walk_step [OF caller.hyps(2,3)])
  have s: "frame_index (u_ctx s) < frame_max" using caller.prems(1,2) by (simp add: on_walk_def)
  show ?case
  proof (cases "frame_index ctx + length ?here < frame_max")
    case True
    let ?s = "s1\<lparr>u_ctx := ctx'\<rparr>"
    have "on_walk arm env maps w' True ctx' ?s" using s1(4) [OF True] by (simp add: on_walk_def)
    moreover have frames: "u_frames s1 = put_frames arm (frame_index ctx) ?here (u_frames s)" using s1(1) True by simp
    ultimately obtain s' where s': "unwind_loop arm env eval update_maps frame_max ?s
          = Some (Inr (end_code frame_max (frame_index ctx' + length fs) e, s'))"
        "u_frames s' = put_frames arm (frame_index ctx') (take (frame_max - frame_index ctx') fs) (u_frames s1)"
        "frame_index (u_ctx s') = min frame_max (frame_index ctx' + length fs)"
      using caller.IH [of ?s] True index caller.prems(3,4) by (auto simp: add.assoc)
    have "unwind_loop arm env eval update_maps frame_max s = unwind_loop arm env eval update_maps frame_max ?s"
      using s s1(4) [OF True] by (subst unwind_loop.simps) simp
    then show ?thesis
      using s' frames index True by (auto simp: put_frames_append add.assoc)
  next
    case False
    have "end_code frame_max (frame_index ctx + length (?here @ fs)) e = QUT_ERROR_MAX_FRAMES_EXCEEDED"
    proof -
      have "\<not> frame_index ctx + length (?here @ fs) \<le> frame_max"
        using walk_nonempty [OF caller.hyps(4)] False unfolding length_append by linarith
      then show ?thesis by (cases e) (simp_all add: end_code_def)
    qed
    then show ?thesis
      using False s s1(1-3) by (subst unwind_loop.simps) auto
  qed
qed

text \<open>A loop that returns has a walk.\<close>

lemma FindIn_good: "good_maps maps w \<Longrightarrow> \<exists>found. FindIn maps pc (w_maps w) = Inr found"
  by (auto simp: good_maps_def FindIn_def Find_covering)

lemma lookup_frame_fault:
  assumes "on_walk arm env maps w adjust ctx s" "interface_at arm env maps w (ucast (ctx_regs ctx PC)) = Inl f"
  shows "lookup_frame arm env update_maps s = Inl f"
proof -
  have s: "u_world s = w" "u_maps s = maps" "u_ctx s = ctx" "good_maps maps w"
    and mem: "remembers (interface_at arm env maps) info_covers w (u_last s)"
    using assms(1) by (auto simp: on_walk_def)
  let ?pc = "ucast (ctx_regs ctx PC) :: u64"
  have "\<not> info_covers w b ?pc" if "u_last s = Some b" for b
    using mem that assms(2) by (auto simp: remembers_def)
  then have miss: "(case u_last s of None \<Rightarrow> None | Some (info, i) \<Rightarrow> if map_start (map_infos (w_maps w) ! info) \<le> ?pc
      \<and> map_end (map_infos (w_maps w) ! info) > ?pc then Some (info, i) else None) = None"
    by (auto simp: info_covers_def split: option.splits)
  obtain info where found: "FindIn maps ?pc (w_maps w) = Inr (Some info)" and get: "GetQuickenInterface arm env info w = Inl f"
    using assms(2) FindIn_good [OF s(4), of ?pc] by (auto simp: interface_at_def split: sum.splits option.splits prod.splits)
  have map: "find_map env update_maps maps ?pc (w_maps w) = Inr (Some info, Some maps, w_maps w)"
    using found by (simp add: find_map_def GetMapInfo_found)
  show ?thesis
    unfolding lookup_frame_def Let_def s(1,2,3) miss option.case map sum.case prod.case using get s by simp
qed

lemma unwind_loop_walks:
  assumes "unwind_loop arm env eval update_maps frame_max s = Some (Inr (ret, s'))" "on_walk arm env maps w adjust ctx s"
    and "frame_index ctx < frame_max" "frame_max \<le> length (u_frames s)"
  shows "\<exists>fs e. walk arm env eval maps w adjust ctx fs e \<and> (e = Cut \<longrightarrow> frame_max \<le> frame_index ctx + length fs)"
  using assms
proof (induction arm env eval update_maps frame_max s arbitrary: w adjust ctx rule: unwind_loop.induct)
  case (1 arm env eval update_maps frame_max s)
  let ?look = "interface_at arm env maps w (ucast (ctx_regs ctx PC))"
  have s: "u_ctx s = ctx" using "1.prems"(2) by (simp add: on_walk_def)
  have run: "(case unwind_iteration arm env eval update_maps frame_max s of
                None \<Rightarrow> None
              | Some (Inl f) \<Rightarrow> Some (Inl f)
              | Some (Inr (Some ret, s')) \<Rightarrow> Some (Inr (ret, s'))
              | Some (Inr (None, s')) \<Rightarrow> unwind_loop arm env eval update_maps frame_max s') = Some (Inr (ret, s'))"
    using "1.prems"(1,3) s unwind_loop.simps [of arm env eval update_maps frame_max s] by simp
  consider f where "?look = Inl f" | err w' where "?look = Inr (Inl err, w')" | a w' where "?look = Inr (Inr a, w')"
    by (metis sum.exhaust surj_pair)
  then show ?case
  proof cases
    case (1 f)
    then show ?thesis using lookup_frame_fault [OF "1.prems"(2) 1] run by (simp add: unwind_iteration_def)
  next
    case 2
    then show ?thesis using walk.lost by blast
  next
    case (3 a w')
    let ?fs = "walk_frames env adjust w' a ctx"
    obtain s1 where s1: "u_frames s1 = put_frames arm (frame_index ctx) (take (frame_max - frame_index ctx) ?fs) (u_frames s)"
        "frame_index ctx + length ?fs < frame_max \<Longrightarrow> on_walk arm env maps w' True (after_frames ctx ?fs) s1
          \<and> unwind_iteration arm env eval update_maps frame_max s =
              (case walk_step env eval adjust w' a ctx of
                 None \<Rightarrow> None
               | Some (Inl f) \<Rightarrow> Some (Inl f)
               | Some (Inr r) \<Rightarrow> (case step_outcome (after_frames ctx ?fs) r of (ret, ctx') \<Rightarrow> Some (Inr (ret, s1\<lparr>u_ctx := ctx'\<rparr>))))"
      using iteration_found [OF "1.prems"(2) 3 "1.prems"(3,4) refl, of eval update_maps] by blast
    show ?thesis
    proof (cases "frame_index ctx + length ?fs < frame_max")
      case False
      then show ?thesis using walk.cut [OF 3, of eval adjust] by (meson not_less)
    next
      case True
      obtain r where r: "walk_step env eval adjust w' a ctx = Some (Inr r)"
        using s1(2) [OF True] run by (auto split: option.splits sum.splits)
      obtain out ctx' where out: "step_outcome (after_frames ctx ?fs) r = (out, ctx')" by fastforce
      show ?thesis
      proof (cases out)
        case (Some err)
        then show ?thesis using walk.ended [OF 3 r] out by blast
      next
        case None
        have iteration: "unwind_iteration arm env eval update_maps frame_max s = Some (Inr (None, s1\<lparr>u_ctx := ctx'\<rparr>))"
          using s1(2) [OF True] r out None by simp
        have index: "frame_index ctx' = frame_index ctx + length ?fs" using frame_index_walk_step [OF r] out None by blast
        have "on_walk arm env maps w' True ctx' (s1\<lparr>u_ctx := ctx'\<rparr>)" using s1(2) [OF True] by (simp add: on_walk_def)
        moreover have "unwind_loop arm env eval update_maps frame_max (s1\<lparr>u_ctx := ctx'\<rparr>) = Some (Inr (ret, s'))"
          using run iteration by simp
        ultimately obtain fs e where "walk arm env eval maps w' True ctx' fs e" "e = Cut \<longrightarrow> frame_max \<le> frame_index ctx' + length fs"
          using "1.IH" [OF _ iteration refl refl] "1.prems"(3,4) s s1(1) index True by (metis length_put_frames unwind_state.select_convs(7) unwind_state.surjective unwind_state.update_convs(6))
        moreover have "walk arm env eval maps w adjust ctx (?fs @ fs) e"
          using walk.caller [OF 3 r] out None calculation(1) by blast
        ultimately show ?thesis using index by (metis add.assoc length_append)
      qed
    qed
  qed
qed

lemma unwind_gives_walk:
  assumes "current_maps (w_maps w) = Some maps" "good_maps maps w" "walk arm env eval maps w False (start_context (qc_regs c)) fs e"
    and "0 < frame_max_size c" "frame_max_size c \<le> length (backtrace c)" "e = Cut \<longrightarrow> frame_max_size c \<le> length fs"
  shows "\<exists>regs w'. WeChatQuickenUnwind arm env eval (Some c) w
    = Some (Inr (end_code (frame_max_size c) (length fs) e,
                 Some (c\<lparr>qc_regs := regs, backtrace := put_frames arm 0 (take (frame_max_size c) fs) (backtrace c),
                         frame_size := min (frame_max_size c) (length fs)\<rparr>), w'))"
proof -
  have "current (env_lines env) (w_maps w) = Inr (Some maps, w_maps w)" using assms(1) by (simp add: current_def)
  moreover have "on_walk arm env maps w False (start_context (qc_regs c)) (start_unwind c maps w)"
    using assms(2) by (simp add: on_walk_def start_unwind_def remembers_def)
  note unwind_loop_follows [OF assms(3) this, of "frame_max_size c" "update_maps_as_need c"]
  ultimately show ?thesis using assms(4-6) by (auto simp: WeChatQuickenUnwind_def start_unwind_def start_context_def)
qed

text \<open>
  C1. Unwinding gives the frames of the walk.  The loop returns when there is a walk from caller to caller that ends or
  fills the array, and only then.  Whatever the memory of the last map, the dex frames and the limit do to
  it, it fills the array with the frames of the walk, each with its attribute put over the one
  that the array held, until the walk ends or the array is full, and it returns the code with which the walk ends, or
  that there were too many frames.
\<close>

theorem unwind_follows_walk:
  assumes "current_maps (w_maps w) = Some maps" "good_maps maps w"
    and "0 < frame_max_size c" "frame_max_size c \<le> length (backtrace c)"
  shows "((\<exists>result. WeChatQuickenUnwind arm env eval (Some c) w = Some (Inr result))
      \<longleftrightarrow> (\<exists>fs e. walk arm env eval maps w False (start_context (qc_regs c)) fs e \<and> (e = Cut \<longrightarrow> frame_max_size c \<le> length fs)))
    \<and> (\<forall>fs e. walk arm env eval maps w False (start_context (qc_regs c)) fs e \<and> (e = Cut \<longrightarrow> frame_max_size c \<le> length fs) \<longrightarrow>
        (\<exists>regs w'. WeChatQuickenUnwind arm env eval (Some c) w
          = Some (Inr (end_code (frame_max_size c) (length fs) e,
                       Some (c\<lparr>qc_regs := regs, backtrace := put_frames arm 0 (take (frame_max_size c) fs) (backtrace c),
                               frame_size := min (frame_max_size c) (length fs)\<rparr>), w'))))"
proof -
  let ?walk = "walk arm env eval maps w False (start_context (qc_regs c))"
  have "\<exists>fs e. ?walk fs e \<and> (e = Cut \<longrightarrow> frame_max_size c \<le> length fs)"
    if run: "WeChatQuickenUnwind arm env eval (Some c) w = Some (Inr result)" for result
  proof -
    have "current (env_lines env) (w_maps w) = Inr (Some maps, w_maps w)" using assms(1) by (simp add: current_def)
    then obtain ret s' where
      "unwind_loop arm env eval (update_maps_as_need c) (frame_max_size c) (start_unwind c maps w) = Some (Inr (ret, s'))"
      using run by (auto simp: WeChatQuickenUnwind_def split: option.splits sum.splits)
    moreover have "on_walk arm env maps w False (start_context (qc_regs c)) (start_unwind c maps w)"
      using assms(2) by (simp add: on_walk_def start_unwind_def remembers_def)
    ultimately show ?thesis
      using unwind_loop_walks assms(3,4) by (fastforce simp: start_unwind_def start_context_def)
  qed
  then show ?thesis using unwind_gives_walk [OF assms(1,2) _ assms(3,4)] by blast
qed

section \<open>The array of the caller\<close>

text \<open>What a run leaves of the array: its length, the frames from an index on, and all attributes that were set.\<close>

definition leaves_frames :: "nat \<Rightarrow> 'v frame list \<Rightarrow> 'v frame list \<Rightarrow> bool" where
  "leaves_frames n before after \<longleftrightarrow> length after = length before
     \<and> (\<forall>j. n \<le> j \<and> j < length before \<longrightarrow> after ! j = before ! j)
     \<and> (\<forall>j < length before. frame_attr (before ! j) AND frame_attr (after ! j) = frame_attr (before ! j))"

lemma leaves_frames_refl [simp]: "leaves_frames n frames frames"
  by (simp add: leaves_frames_def)

lemma leaves_frames_more: "leaves_frames n a b \<Longrightarrow> n \<le> n' \<Longrightarrow> leaves_frames n' a b"
  by (simp add: leaves_frames_def)

lemma and_keeps: "(a::u8) AND b = a \<Longrightarrow> b AND c = b \<Longrightarrow> a AND c = a"
  by (metis and.assoc)

lemma leaves_frames_trans:
  assumes "leaves_frames n a b" "leaves_frames n' b c" "n \<le> n'"
  shows "leaves_frames n' a c"
  using assms unfolding leaves_frames_def by (auto intro: and_keeps)

lemma leaves_frames_write: "write_frame arm i attrs pc frames = Inr frames' \<Longrightarrow> leaves_frames (i + 1) frames frames'"
  by (auto simp: write_frame_def leaves_frames_def nth_list_update and.assoc [symmetric] bit.conj_disj_distrib split: if_splits)

lemma write_frames_leaves:
  assumes "write_frames arm frame_max pc java s = Inr (full, s')" "frame_index (u_ctx s) < frame_max"
  shows "frame_index (u_ctx s) < frame_index (u_ctx s')" "frame_index (u_ctx s') \<le> frame_max"
    and "leaves_frames (frame_index (u_ctx s')) (u_frames s) (u_frames s')"
  using assms
  by (auto simp: write_frames_def Let_def split: sum.splits if_splits
      dest!: leaves_frames_write intro: leaves_frames_trans)

lemma unwind_iteration_leaves:
  assumes "unwind_iteration arm env eval update_maps frame_max s = Some (Inr (ret, s'))" "frame_index (u_ctx s) < frame_max"
  shows "frame_index (u_ctx s) < frame_index (u_ctx s') \<and> frame_index (u_ctx s') \<le> frame_max
    \<and> leaves_frames (frame_index (u_ctx s')) (u_frames s) (u_frames s')"
  using assms
  by (auto simp: unwind_iteration_def step_outcome_def Let_def split: option.splits sum.splits prod.splits bool.splits if_splits
      dest!: lookup_frame_ctx take_step_frame_index leaves_frames_write dest: write_frames_leaves)

lemma unwind_loop_leaves:
  assumes "unwind_loop arm env eval update_maps frame_max s = Some (Inr (ret, s'))" "frame_index (u_ctx s) \<le> frame_max"
  shows "frame_index (u_ctx s) \<le> frame_index (u_ctx s') \<and> frame_index (u_ctx s') \<le> frame_max
    \<and> (frame_index (u_ctx s) < frame_max \<longrightarrow> frame_index (u_ctx s) < frame_index (u_ctx s'))
    \<and> leaves_frames (frame_index (u_ctx s')) (u_frames s) (u_frames s')"
  using assms
proof (induction arm env eval update_maps frame_max s rule: unwind_loop.induct)
  case (1 arm env eval update_maps frame_max s)
  show ?case
  proof (cases "frame_index (u_ctx s) < frame_max")
    case False
    then show ?thesis using "1.prems" by (subst (asm) unwind_loop.simps) simp
  next
    case True
    then obtain out s1 where step: "unwind_iteration arm env eval update_maps frame_max s = Some (Inr (out, s1))"
      and rest: "case out of Some r \<Rightarrow> ret = r \<and> s' = s1
        | None \<Rightarrow> unwind_loop arm env eval update_maps frame_max s1 = Some (Inr (ret, s'))"
      using "1.prems"(1) by (subst (asm) unwind_loop.simps) (auto split: option.splits sum.splits)
    note first = unwind_iteration_leaves [OF step True]
    show ?thesis
    proof (cases out)
      case (Some r)
      then show ?thesis using rest first by simp
    next
      case None
      then have "frame_index (u_ctx s1) \<le> frame_index (u_ctx s') \<and> frame_index (u_ctx s') \<le> frame_max
          \<and> leaves_frames (frame_index (u_ctx s')) (u_frames s1) (u_frames s')"
        using "1.IH" [OF True step refl] rest first by simp
      then show ?thesis using first leaves_frames_trans by fastforce
    qed
  qed
qed

text \<open>
  C17. Unwinding stays inside of its array.  Whatever the world, the memory and the evaluator of the tables are, a run that
  returns has written at least one frame when there is room, no more than the limit, and nothing after the frames
  that it reports; no attribute bit that the array held is cleared.  Without maps the context is left as it was.
\<close>

theorem unwind_stays_inside:
  assumes "WeChatQuickenUnwind arm env eval (Some c) w = Some (Inr (ret, Some c', w'))"
  shows "(ret = QUT_ERROR_MAPS_IS_NULL \<and> c' = c)
    \<or> (frame_size c' \<le> frame_max_size c \<and> (0 < frame_max_size c \<longrightarrow> 0 < frame_size c')
      \<and> frame_max_size c' = frame_max_size c \<and> length (backtrace c') = length (backtrace c)
      \<and> (\<forall>j. frame_size c' \<le> j \<and> j < length (backtrace c) \<longrightarrow> backtrace c' ! j = backtrace c ! j)
      \<and> (\<forall>j < length (backtrace c).
           frame_attr (backtrace c ! j) AND frame_attr (backtrace c' ! j) = frame_attr (backtrace c ! j)))"
proof -
  obtain maps ms where "current (env_lines env) (w_maps w) = Inr (maps, ms)"
    using assms by (auto simp: WeChatQuickenUnwind_def split: sum.splits)
  then show ?thesis
  proof (cases maps)
    case None
    then show ?thesis using assms \<open>current _ _ = _\<close> by (simp add: WeChatQuickenUnwind_def)
  next
    case (Some m)
    let ?s = "start_unwind c m (w\<lparr>w_maps := ms\<rparr>)"
    obtain s where run: "unwind_loop arm env eval (update_maps_as_need c) (frame_max_size c) ?s = Some (Inr (ret, s))"
      and c': "c' = c\<lparr>qc_regs := ctx_regs (u_ctx s), backtrace := u_frames s, frame_size := frame_index (u_ctx s)\<rparr>"
      using assms Some \<open>current _ _ = _\<close> by (auto simp: WeChatQuickenUnwind_def split: option.splits sum.splits)
    from unwind_loop_leaves [OF run] show ?thesis
      unfolding c' by (simp add: start_unwind_def start_context_def leaves_frames_def)
  qed
qed

text \<open>A run of two frames: a step through the index of a library, to a program counter that no map covers.\<close>

definition sample_sections :: "u32 qut_sections" where
  "sample_sections = \<lparr>quidx = [0x100, 0x80999999, 0x200, 0x80999999], qutbl = [], idx_size = 4, tbl_size = 0\<rparr>"

definition sample_context :: "u32 quicken_context" where
  "sample_context = \<lparr>qc_regs = (\<lambda>r. 0)(SP := 0x8000, PC := 0x1110, LR := 0x9000), frame_max_size = 3,
     backtrace = replicate 4 \<lparr>frame_attr = 0, frame_addr = 0\<rparr>, frame_size = 0, update_maps_as_need = True\<rparr>"

lemma sample_world_good: "good_maps 0 (sample_world sections)"
  unfolding good_maps_def
  by (intro conjI exI [of _ 0] exI [of _ "[\<lparr>line_start = 0x1000, line_end = 0x2000, line_flags = 5, line_pgoff = 0, line_name = ''/lib.so''\<rparr>]"]
      sample_world_ok)
    (simp_all add: sample_world_def maps_ok_def cells_in_def keeps_lines_def ascending_maps_def holds_maps_def info_of_line_def
      sample_info_def map_line_flags_def StartsWith_def)

lemma sample_FindIn:
  "FindIn 0 pc (w_maps (sample_world sections)) = Inr (if 0x1000 \<le> pc \<and> pc < 0x2000 then Some 0 else None)"
  by (simp add: FindIn_def Find_def sample_world_def sample_info_def find_map_loop.simps Let_def)

lemma GetQuickenInterface_known:
  "map_interface (map_infos (w_maps w) ! info) = Some i \<Longrightarrow> GetQuickenInterface arm env info w = Inr (Some i, w)"
  by (simp add: GetQuickenInterface_def Let_def)

lemma sample_interface_at:
  "interface_at arm env 0 (sample_world sections :: 'w::len word unwind_world) pc
     = Inr (if 0x1000 \<le> pc \<and> pc < 0x2000 then Inr (0, 0) else Inl QUT_ERROR_INVALID_MAP, sample_world sections)"
proof -
  have "map_interface (map_infos (w_maps (sample_world sections :: 'w word unwind_world)) ! 0) = Some 0"
    by (simp add: sample_world_def sample_info_def)
  from GetQuickenInterface_known [OF this, of arm env] show ?thesis unfolding interface_at_def sample_FindIn by simp
qed

definition sample_eval :: "u32 evaluator" where
  "sample_eval = (\<lambda>sections entry q. Inr (QUT_ERROR_NONE, q))"

lemma sample_find: "FindEntry sample_sections 0x110 = Some (Inr (Some 0))"
  by (simp add: FindEntry_def sample_sections_def find_loop.simps)

lemma sample_step:
  "walk_step sample_env sample_eval False (sample_world (Some sample_sections)) (0, 0) (start_context (qc_regs sample_context))
     = Some (Inr (True, QUT_ERROR_NONE, \<lparr>ctx_regs = (qc_regs sample_context)(PC := 0x9000), ctx_pc = 0x110, ctx_dex_pc = 0,
         frame_index = 1, finished = False\<rparr>))"
  using sample_find
  by (simp add: sample_eval_def walk_step_def Let_def take_step_def sample_world_def sample_object_def sample_info_def GetRelPc_def
    adjustment_at_def pc_adjustment_def start_context_def sample_context_def Step_def StepInternal_def
    end_step_def start_table_def after_frames_def walk_frames_def frames_here_def)
    (auto simp: fun_eq_iff)

lemma sample_walk:
  "walk True sample_env sample_eval 0 (sample_world (Some sample_sections)) False (start_context (qc_regs sample_context))
     [(0, 0x1110), (0, 0x8ffe)] (Lost QUT_ERROR_INVALID_MAP)"
proof -
  let ?w = "sample_world (Some sample_sections)" and ?start = "start_context (qc_regs sample_context)"
  let ?next = "\<lparr>ctx_regs = (qc_regs sample_context)(PC := 0x9000), ctx_pc = 0x110, ctx_dex_pc = 0, frame_index = 1, finished = False\<rparr>"
  have frames: "walk_frames sample_env False ?w (0, 0) ?start = [(0, 0x1110)]"
    by (simp add: walk_frames_def frames_here_def start_context_def sample_context_def adjustment_at_def pc_adjustment_def
        sample_world_def sample_info_def)
  have "interface_at True sample_env 0 ?w (ucast (ctx_regs ?start PC)) = Inr (Inr (0, 0), ?w)"
    by (simp add: sample_interface_at start_context_def sample_context_def)
  moreover have "step_outcome (after_frames ?start (walk_frames sample_env False ?w (0, 0) ?start)) (True, QUT_ERROR_NONE, ?next)
      = (None, ?next)"
    by (simp add: step_outcome_def after_frames_def start_context_def sample_context_def)
  moreover have "walk True sample_env sample_eval 0 ?w True ?next [(0, ctx_regs ?next PC - 2)] (Lost QUT_ERROR_INVALID_MAP)"
    by (rule walk.lost) (simp add: sample_interface_at)
  ultimately have "walk True sample_env sample_eval 0 ?w False ?start
      (walk_frames sample_env False ?w (0, 0) ?start @ [(0, ctx_regs ?next PC - 2)]) (Lost QUT_ERROR_INVALID_MAP)"
    using sample_step by (blast intro: walk.caller)
  then show ?thesis by (simp add: frames)
qed

theorem unwind_follows_walk_witness:
  "\<exists>rs w'. WeChatQuickenUnwind True sample_env sample_eval (Some sample_context) (sample_world (Some sample_sections))
     = Some (Inr (QUT_ERROR_INVALID_MAP,
                  Some (sample_context\<lparr>qc_regs := rs,
                    backtrace := [\<lparr>frame_attr = 0, frame_addr = 0x1110\<rparr>, \<lparr>frame_attr = 0, frame_addr = 0x8ffe\<rparr>,
                                  \<lparr>frame_attr = 0, frame_addr = 0\<rparr>, \<lparr>frame_attr = 0, frame_addr = 0\<rparr>],
                    frame_size := 2\<rparr>), w'))"
proof -
  have cur: "current_maps (w_maps (sample_world (Some sample_sections))) = Some 0" by (simp add: sample_world_def)
  have size: "frame_max_size sample_context = 3" and pos: "0 < frame_max_size sample_context"
    and room: "frame_max_size sample_context \<le> length (backtrace sample_context)" by (simp_all add: sample_context_def)
  have "put_frames True 0 (take 3 [(0, 0x1110), (0, 0x8ffe)]) (backtrace sample_context)
      = [\<lparr>frame_attr = 0, frame_addr = 0x1110\<rparr>, \<lparr>frame_attr = 0, frame_addr = 0x8ffe\<rparr>,
         \<lparr>frame_attr = 0, frame_addr = 0\<rparr>, \<lparr>frame_attr = 0, frame_addr = 0\<rparr>]"
    by (simp add: sample_context_def numeral_eq_Suc frame_pc_def)
  moreover note mp [OF spec [OF spec [OF conjunct2 [OF unwind_follows_walk [OF cur sample_world_good pos room]]]] conjI [OF sample_walk]]
  ultimately show ?thesis by (simp add: size end_code_def numeral_2_eq_2)
qed

theorem unwind_stays_inside_witness:
  "\<exists>ret c' w'. WeChatQuickenUnwind True sample_env sample_eval (Some sample_context) (sample_world (Some sample_sections))
     = Some (Inr (ret, Some c', w')) \<and> length (backtrace c') = 4"
proof -
  obtain c' w' where run: "WeChatQuickenUnwind True sample_env sample_eval (Some sample_context) (sample_world (Some sample_sections))
      = Some (Inr (QUT_ERROR_INVALID_MAP, Some c', w'))"
    using unwind_gives_walk [OF _ sample_world_good sample_walk]
    by (fastforce simp: sample_world_def sample_context_def end_code_def)
  from unwind_stays_inside [OF this] have "length (backtrace c') = 4" by (auto simp: sample_context_def)
  with run show ?thesis by blast
qed

end
