(* ===== verification/Quicken_In_Memory.thy ===== *)
theory Quicken_In_Memory
  imports Table_Generator Quicken_Interface
begin

text \<open>
  Tables made at run time, \<^verbatim>\<open>QuickenInMemory.cpp\<close>: the search in the ARM exception index, with its cache of
  addresses, the choice of a source for a program counter, and the cache of the tables made so far.
\<close>

section \<open>The search in the exception index\<close>

text \<open>
  \<open>ExidxDecoderHelper\<close>, less its two memories.  A missing key of the unordered map \<open>addrs_\<close> reads as zero.
  Indices are natural numbers: an entry has eight bytes, so that the sum of two indices is in the range of \<open>size_t\<close>.
\<close>

record exidx_helper =
  start_offset :: u64
  total_entries :: nat
  addrs :: "nat \<Rightarrow> u32"

definition new_helper :: "frame_info \<Rightarrow> exidx_helper" where
  "new_helper info = \<lparr>start_offset = fi_offset info, total_entries = unat (fi_size info), addrs = (\<lambda>i. 0)\<rparr>"

definition entry_at_index :: "exidx_helper \<Rightarrow> nat \<Rightarrow> u32" where
  "entry_at_index h i = ucast (start_offset h + of_nat i * 8)"

definition GetAddr :: "(u32 \<Rightarrow> u32 option) \<Rightarrow> nat \<Rightarrow> exidx_helper \<Rightarrow> u32 option \<times> exidx_helper" where
  "GetAddr read32 i h =
     (if addrs h i = 0
      then (case GetPrel31Addr read32 (entry_at_index h i) of
              None \<Rightarrow> (None, h)
            | Some a \<Rightarrow> (Some a, h\<lparr>addrs := (addrs h)(i := a)\<rparr>))
      else (Some (addrs h i), h))"

text \<open>How the loop ends: an address cannot be read, an entry has the address itself, or there is none.\<close>

datatype search_end = Unreadable | Exact nat u32 nat | Missed nat "u32 option"

function exidx_search ::
  "(u32 \<Rightarrow> u32 option) \<Rightarrow> u32 \<Rightarrow> nat \<Rightarrow> nat \<Rightarrow> u32 option \<Rightarrow> exidx_helper \<Rightarrow> search_end \<times> exidx_helper" where
  "exidx_search read32 pc first last' addr h =
     (if first < last'
      then (let current = (first + last') div 2
            in case GetAddr read32 current h of
                 (None, h) \<Rightarrow> (Unreadable, h)
               | (Some a, h) \<Rightarrow>
                   if pc = a then (Exact current a last', h)
                   else if pc < a then exidx_search read32 pc first current (Some a) h
                   else exidx_search read32 pc (current + 1) last' (Some a) h)
      else (Missed last' addr, h))"
  by pat_completeness auto
termination
  by (relation "measure (\<lambda>(read32, pc, first, last', addr, h). last' - first)") auto

declare exidx_search.simps [simp del]

text \<open>
  \<open>FindEntry\<close>: the returned value and what is then in the variables of the caller, \<open>None\<close> where it was
  not written.
\<close>

record found_entry =
  found_ret :: bool
  found_offset :: "u32 option"
  found_start :: "u32 option"
  found_end :: "u32 option"

definition INT32_MAX :: u32 where
  "INT32_MAX = 0x7fffffff"

definition nothing_found :: found_entry where
  "nothing_found = \<lparr>found_ret = False, found_offset = None, found_start = None, found_end = None\<rparr>"

text \<open>The end of the entry: the address of the next one, when the search knows that there is one.\<close>

definition with_end ::
  "(u32 \<Rightarrow> u32 option) \<Rightarrow> nat \<Rightarrow> nat \<Rightarrow> u32 \<Rightarrow> u32 \<Rightarrow> exidx_helper \<Rightarrow> found_entry \<times> exidx_helper" where
  "with_end read32 last' next_index offset start h =
     (let found = (\<lambda>ret stop. \<lparr>found_ret = ret, found_offset = Some offset, found_start = Some start, found_end = Some stop\<rparr>)
      in if last' \<ge> total_entries h then (found False INT32_MAX, h)
         else (case GetAddr read32 next_index h of
                 (None, h) \<Rightarrow> (found False INT32_MAX, h)
               | (Some stop, h) \<Rightarrow> (found True stop, h)))"

definition FindEntry_exidx :: "(u32 \<Rightarrow> u32 option) \<Rightarrow> u32 \<Rightarrow> exidx_helper \<Rightarrow> fault + (found_entry \<times> exidx_helper)" where
  "FindEntry_exidx read32 pc h =
     (if start_offset h = 0 \<or> total_entries h = 0 then Inr (nothing_found, h)
      else (case exidx_search read32 pc 0 (total_entries h) None h of
              (Unreadable, h) \<Rightarrow> Inr (nothing_found, h)
            | (Exact current a last', h) \<Rightarrow> Inr (with_end read32 last' (current + 1) (entry_at_index h current) a h)
            | (Missed last' addr, h) \<Rightarrow>
                if last' = 0 then Inr (nothing_found, h)
                else (let offset = entry_at_index h (last' - 1)
                      in case addr of
                           None \<Rightarrow> Inl Uninitialised
                         | Some a \<Rightarrow>
                             if pc > a then Inr (with_end read32 last' last' offset a h)
                             else (case GetAddr read32 (last' - 1) h of
                                     (None, h) \<Rightarrow>
                                       Inr (\<lparr>found_ret = False, found_offset = Some offset, found_start = Some INT32_MAX,
                                             found_end = None\<rparr>, h)
                                   | (Some start, h) \<Rightarrow> Inr (with_end read32 last' last' offset start h)))))"

text \<open>
  \<open>DecodeEntry\<close>, which does not look at what \<open>FindEntry\<close> returns.  The result is the range and the one entry of the
  map of instructions.
\<close>

definition DecodeEntry ::
  "(u32 \<Rightarrow> u32 option) \<Rightarrow> bool \<Rightarrow> u32 \<Rightarrow> exidx_helper \<Rightarrow> fault + ((u64 \<times> u64 \<times> qut_entries) option \<times> exidx_helper)" where
  "DecodeEntry read32 native_only pc h =
     (case FindEntry_exidx read32 pc h of
        Inl f \<Rightarrow> Inl f
      | Inr (found, h) \<Rightarrow>
          (case (found_offset found, found_start found, found_end found) of
             (Some offset, Some start, Some stop) \<Rightarrow>
               (case decode_exidx_entry read32 native_only offset of
                  Inl f \<Rightarrow> Inl f
                | Inr None \<Rightarrow> Inr (None, h)
                | Inr (Some is) \<Rightarrow> Inr (Some (ucast start, ucast stop, [(ucast start, ucast start, is)]), h))
           | _ \<Rightarrow> Inl Uninitialised))"

section \<open>The cache of tables\<close>

text \<open>\<open>qut_in_memory_\<close>, in the order of its keys: the range and the sections of a table.\<close>

type_synonym 'w in_memory_cache = "(u64 \<times> u64 \<times> u64 \<times> 'w qut_sections) list"

definition FindInCache :: "u64 \<Rightarrow> 'w in_memory_cache \<Rightarrow> 'w qut_sections option" where
  "FindInCache pc cache =
     (if cache = [] then None
      else (let before = filter (\<lambda>e. fst e \<le> pc) cache;
                (key, start, stop, sections) = (if before = [] then hd cache else last before)
            in if pc \<ge> start \<and> pc \<le> stop then Some sections else None))"

definition UpdateCache :: "u64 \<Rightarrow> u64 \<Rightarrow> 'w qut_sections \<Rightarrow> 'w in_memory_cache \<Rightarrow> 'w in_memory_cache" where
  "UpdateCache start stop sections cache = map_put start (start, stop, sections) cache"

section \<open>Tables at run time\<close>

text \<open>
  The decoders of the sections, null when a section is not there or cannot be opened, and the cache.
\<close>

record 'w quicken_in_memory =
  eh_frame :: "frame_section option"
  debug_frame :: "frame_section option"
  eh_frame_from_gnu_debug_data :: "frame_section option"
  debug_frame_from_gnu_debug_data :: "frame_section option"
  exidx_decoder :: "exidx_helper option"
  qut_in_memory :: "'w in_memory_cache"

definition InitDebugFrame :: "memory_read option \<Rightarrow> frame_info \<Rightarrow> frame_section option" where
  "InitDebugFrame mem info =
     (case mem of
        Some m \<Rightarrow>
          if fi_offset info \<noteq> 0
          then Some (Init (fi_offset info) (fi_size info) (fi_section_bias info) (new_section DebugFrame m)) else None
      | None \<Rightarrow> None)"

definition InitEhFrame ::
  "'a::len itself \<Rightarrow> memory_read option \<Rightarrow> frame_info \<Rightarrow> frame_info \<Rightarrow> (fault + frame_section option) option" where
  "InitEhFrame t mem hdr_info info =
     (case mem of None \<Rightarrow> Some (Inr None) | Some m \<Rightarrow> open_eh_frame t m hdr_info info)"

text \<open>
  \<open>Init\<close>, for an ELF file with its memory and, where it has compressed debug data, the memory of those.
\<close>

definition QuickenInMemory_Init ::
  "memory_read option \<Rightarrow> memory_read option option \<Rightarrow> frame_infos \<Rightarrow> (fault + 'w::len word quicken_in_memory) option" where
  "QuickenInMemory_Init mem gnu_debug_data infos =
     (case InitEhFrame TYPE('w) mem (eh_frame_hdr_info infos) (eh_frame_info infos) of
        None \<Rightarrow> None
      | Some (Inl f) \<Rightarrow> Some (Inl f)
      | Some (Inr eh) \<Rightarrow>
          (case (case gnu_debug_data of
                   None \<Rightarrow> Some (Inr None)
                 | Some gnu \<Rightarrow> InitEhFrame TYPE('w) gnu (gnu_eh_frame_hdr_info infos) (gnu_eh_frame_info infos)) of
             None \<Rightarrow> None
           | Some (Inl f) \<Rightarrow> Some (Inl f)
           | Some (Inr gnu_eh) \<Rightarrow>
               Some (Inr \<lparr>eh_frame = eh, debug_frame = InitDebugFrame mem (debug_frame_info infos),
                          eh_frame_from_gnu_debug_data = gnu_eh,
                          debug_frame_from_gnu_debug_data =
                            (case gnu_debug_data of None \<Rightarrow> None | Some gnu \<Rightarrow> InitDebugFrame gnu (gnu_debug_frame_info infos)),
                          exidx_decoder = (if fi_size (arm_exidx_info infos) > 0 then Some (new_helper (arm_exidx_info infos)) else None),
                          qut_in_memory = []\<rparr>)))"

text \<open>
  What the ELF reader of the library knows: the FDE of a program counter, by section; a section that is not there is
  \<open>None\<close>.
\<close>

type_synonym fde_lookup = "(u64 \<Rightarrow> dwarf_fde option) option"

record elf_view =
  elf_eh_frame :: fde_lookup
  gnu_interface :: "(fde_lookup \<times> fde_lookup) option"

text \<open>The FDE with the decoder that is used for it.\<close>

datatype decoder_slot = EhFrameSlot | GnuEhFrameSlot | GnuDebugFrameSlot

definition choose_fde :: "elf_view \<Rightarrow> u64 \<Rightarrow> (dwarf_fde \<times> decoder_slot) option" where
  "choose_fde elf pc =
     (case elf_eh_frame elf of
        Some look \<Rightarrow> map_option (\<lambda>fde. (fde, EhFrameSlot)) (look pc)
      | None \<Rightarrow>
          (case gnu_interface elf of
             None \<Rightarrow> None
           | Some (Some look, debug) \<Rightarrow> map_option (\<lambda>fde. (fde, GnuEhFrameSlot)) (look pc)
           | Some (None, Some look) \<Rightarrow> map_option (\<lambda>fde. (fde, GnuDebugFrameSlot)) (look pc)
           | Some (None, None) \<Rightarrow> None))"

fun slot_of :: "decoder_slot \<Rightarrow> 'w quicken_in_memory \<Rightarrow> frame_section option" where
  "slot_of EhFrameSlot s = eh_frame s"
| "slot_of GnuEhFrameSlot s = eh_frame_from_gnu_debug_data s"
| "slot_of GnuDebugFrameSlot s = debug_frame_from_gnu_debug_data s"

fun set_slot :: "decoder_slot \<Rightarrow> frame_section \<Rightarrow> 'w quicken_in_memory \<Rightarrow> 'w quicken_in_memory" where
  "set_slot EhFrameSlot d s = s\<lparr>eh_frame := Some d\<rparr>"
| "set_slot GnuEhFrameSlot d s = s\<lparr>eh_frame_from_gnu_debug_data := Some d\<rparr>"
| "set_slot GnuDebugFrameSlot d s = s\<lparr>debug_frame_from_gnu_debug_data := Some d\<rparr>"

text \<open>A fresh table for a program counter, from the frame sections or else from the exception index.\<close>

definition generate_sections ::
  "generator \<Rightarrow> (u32 \<Rightarrow> u32 option) \<Rightarrow> bool \<Rightarrow> elf_view \<Rightarrow> u64 \<Rightarrow> 'w::len word quicken_in_memory
     \<Rightarrow> (fault + ((u64 \<times> u64 \<times> 'w word qut_sections) option \<times> 'w word quicken_in_memory)) option" where
  "generate_sections g read32 native_only elf pc s =
     (case choose_fde elf pc of
        Some (fde, slot) \<Rightarrow>
          (case slot_of slot s of
             None \<Rightarrow> Some (Inr (None, s))
           | Some d \<Rightarrow>
               (case GenerateSingleQUTSections g native_only d fde pc of
                  None \<Rightarrow> None
                | Some (Inl f) \<Rightarrow> Some (Inl f)
                | Some (Inr (r, d')) \<Rightarrow> Some (Inr (r, set_slot slot d' s))))
      | None \<Rightarrow>
          (case exidx_decoder s of
             None \<Rightarrow> Some (Inr (None, s))
           | Some h \<Rightarrow>
               (case DecodeEntry read32 native_only (ucast pc) h of
                  Inl f \<Rightarrow> Some (Inl f)
                | Inr (None, h') \<Rightarrow> Some (Inr (None, s\<lparr>exidx_decoder := Some h'\<rparr>))
                | Inr (Some (start, stop, entries), h') \<Rightarrow>
                    (case PackEntriesToQutSections (gen_arm g) entries of
                       Inl f \<Rightarrow> Some (Inl f)
                     | Inr sections \<Rightarrow> Some (Inr (Some (start, stop, sections), s\<lparr>exidx_decoder := Some h'\<rparr>))))))"

definition GetFutSectionsInMemory ::
  "generator \<Rightarrow> (u32 \<Rightarrow> u32 option) \<Rightarrow> bool \<Rightarrow> elf_view \<Rightarrow> u64 \<Rightarrow> 'w::len word quicken_in_memory
     \<Rightarrow> (fault + ('w word qut_sections option \<times> 'w word quicken_in_memory)) option" where
  "GetFutSectionsInMemory g read32 native_only elf pc s =
     (case FindInCache pc (qut_in_memory s) of
        Some sections \<Rightarrow> Some (Inr (Some sections, s))
      | None \<Rightarrow>
          (case generate_sections g read32 native_only elf pc s of
             None \<Rightarrow> None
           | Some (Inl f) \<Rightarrow> Some (Inl f)
           | Some (Inr (None, s)) \<Rightarrow> Some (Inr (None, s))
           | Some (Inr (Some (start, stop, sections), s)) \<Rightarrow>
               Some (Inr (Some sections, s\<lparr>qut_in_memory := UpdateCache start stop sections (qut_in_memory s)\<rparr>))))"

text \<open>\<open>GenerateFutSectionsInMemoryForJIT\<close>, with the debug frame of the jitted code or of its compressed debug data.\<close>

definition GenerateFutSectionsInMemoryForJIT ::
  "generator \<Rightarrow> bool \<Rightarrow> frame_info \<Rightarrow> (u64 \<Rightarrow> dwarf_fde option) \<Rightarrow> bool \<Rightarrow> u64 \<Rightarrow> 'w::len word quicken_in_memory
     \<Rightarrow> (fault + ('w word qut_sections option \<times> 'w word quicken_in_memory)) option" where
  "GenerateFutSectionsInMemoryForJIT g native_only info look gnu_debug_data pc s =
     (case look pc of
        None \<Rightarrow> Some (Inr (None, s))
      | Some fde \<Rightarrow>
          (case GenerateSingleQUTSectionsForJIT g native_only info fde pc gnu_debug_data of
             None \<Rightarrow> None
           | Some (Inl f) \<Rightarrow> Some (Inl f)
           | Some (Inr None) \<Rightarrow> Some (Inr (None, s))
           | Some (Inr (Some (start, stop, sections))) \<Rightarrow>
               Some (Inr (Some sections, s\<lparr>qut_in_memory := UpdateCache start stop sections (qut_in_memory s)\<rparr>))))"

section \<open>What the search finds\<close>

text \<open>An index in memory, with the addresses that were read so far.\<close>

definition helper_ok :: "(u32 \<Rightarrow> u32 option) \<Rightarrow> (nat \<Rightarrow> u32) \<Rightarrow> exidx_helper \<Rightarrow> bool" where
  "helper_ok read32 addr h \<longleftrightarrow>
     (\<forall>i < total_entries h. GetPrel31Addr read32 (entry_at_index h i) = Some (addr i) \<and> addrs h i \<in> {0, addr i})
     \<and> (\<forall>i j. i < j \<longrightarrow> j < total_entries h \<longrightarrow> addr i < addr j)"

definition same_index :: "exidx_helper \<Rightarrow> exidx_helper \<Rightarrow> bool" where
  "same_index h h' \<longleftrightarrow> start_offset h' = start_offset h \<and> total_entries h' = total_entries h"

lemma same_index_refl [simp]: "same_index h h"
  by (simp add: same_index_def)

lemma same_index_trans: "same_index a b \<Longrightarrow> same_index b c \<Longrightarrow> same_index a c"
  by (simp add: same_index_def)

lemma same_index_simps:
  assumes "same_index h h'"
  shows "entry_at_index h' i = entry_at_index h i" "total_entries h' = total_entries h" "start_offset h' = start_offset h"
  using assms by (simp_all add: same_index_def entry_at_index_def)

lemma GetAddr_ok:
  assumes "helper_ok read32 addr h" "i < total_entries h"
  shows "\<exists>h'. GetAddr read32 i h = (Some (addr i), h') \<and> same_index h h' \<and> helper_ok read32 addr h'"
  using assms by (auto simp: GetAddr_def helper_ok_def same_index_def entry_at_index_def)

lemma helper_less: "helper_ok read32 addr h \<Longrightarrow> i < j \<Longrightarrow> j < total_entries h \<Longrightarrow> addr i < addr j"
  by (simp add: helper_ok_def)

lemma helper_le: "helper_ok read32 addr h \<Longrightarrow> i \<le> j \<Longrightarrow> j < total_entries h \<Longrightarrow> addr i \<le> addr j"
  by (cases "i = j") (simp_all add: helper_less less_imp_le)

text \<open>
  The loop keeps the program counter between what it has left out, and the last address read is next to what is left.
\<close>

definition search_ok :: "(nat \<Rightarrow> u32) \<Rightarrow> nat \<Rightarrow> u32 \<Rightarrow> search_end \<Rightarrow> bool" where
  "search_ok addr n pc r \<longleftrightarrow>
     (case r of
        Unreadable \<Rightarrow> False
      | Exact k a last' \<Rightarrow> k < last' \<and> last' \<le> n \<and> a = pc \<and> addr k = pc
      | Missed k a \<Rightarrow> k \<le> n \<and> (\<forall>i < k. addr i < pc) \<and> (\<forall>i < n. k \<le> i \<longrightarrow> pc < addr i)
          \<and> (\<exists>b. a = Some b \<and> (b < pc \<longrightarrow> 0 < k \<and> b = addr (k - 1))))"

lemma exidx_search_ok:
  assumes "helper_ok read32 addr h" "first \<le> last'" "last' \<le> total_entries h"
    and "\<forall>i < first. addr i < pc" "\<forall>i < total_entries h. last' \<le> i \<longrightarrow> pc < addr i"
    and "first < last' \<or> (\<exists>b. a = Some b \<and> (b < pc \<longrightarrow> 0 < first \<and> b = addr (first - 1)))"
  shows "\<exists>r h'. exidx_search read32 pc first last' a h = (r, h') \<and> search_ok addr (total_entries h) pc r
    \<and> same_index h h' \<and> helper_ok read32 addr h'"
  using assms
proof (induction "last' - first" arbitrary: first last' a h rule: less_induct)
  case less
  let ?n = "total_entries h"
  show ?case
  proof (cases "first < last'")
    case False
    then show ?thesis using less.prems by (subst exidx_search.simps) (auto simp: search_ok_def)
  next
    case True
    let ?c = "(first + last') div 2"
    have c: "first \<le> ?c" "?c < last'" "?c < ?n" using True less.prems(3) by auto
    obtain h1 where h1: "GetAddr read32 ?c h = (Some (addr ?c), h1)" "same_index h h1" "helper_ok read32 addr h1"
      using GetAddr_ok [OF less.prems(1) c(3)] by blast
    note n1 = same_index_simps(2) [OF h1(2)]
    have unf: "exidx_search read32 pc first last' a h =
        (if pc = addr ?c then (Exact ?c (addr ?c) last', h1)
         else if pc < addr ?c then exidx_search read32 pc first ?c (Some (addr ?c)) h1
         else exidx_search read32 pc (?c + 1) last' (Some (addr ?c)) h1)"
      using True h1(1) by (subst exidx_search.simps) (simp add: Let_def)
    consider "pc = addr ?c" | "pc < addr ?c" | "addr ?c < pc" by fastforce
    then show ?thesis
    proof cases
      case 1
      then show ?thesis unfolding unf using h1 c less.prems(3) by (auto simp: search_ok_def)
    next
      case 2
      have above: "\<forall>i < ?n. ?c \<le> i \<longrightarrow> pc < addr i"
        using 2 helper_le [OF less.prems(1)] by (meson less_le_trans)
      have "\<exists>r h'. exidx_search read32 pc first ?c (Some (addr ?c)) h1 = (r, h') \<and> search_ok addr (total_entries h1) pc r
          \<and> same_index h1 h' \<and> helper_ok read32 addr h'"
        by (rule less.hyps) (use above less_not_sym [OF 2] 2 h1(3) c less.prems(4) in \<open>simp_all add: n1\<close>)
      then show ?thesis unfolding unf n1 using 2 same_index_trans [OF h1(2)] by auto
    next
      case 3
      have below: "\<forall>i < ?c + 1. addr i < pc"
        using 3 helper_le [OF less.prems(1) _ c(3)] by (metis le_less_trans Suc_eq_plus1 less_Suc_eq_le)
      have "\<exists>r h'. exidx_search read32 pc (?c + 1) last' (Some (addr ?c)) h1 = (r, h') \<and> search_ok addr (total_entries h1) pc r
          \<and> same_index h1 h' \<and> helper_ok read32 addr h'"
        by (rule less.hyps) (use below 3 h1(3) c less.prems(3,5) in \<open>simp_all add: n1 less_Suc_eq_le\<close>)
      then show ?thesis unfolding unf n1 using 3 same_index_trans [OF h1(2)] by auto
    qed
  qed
qed

text \<open>
  C22. The search in the exception index finds the last entry at or below the program counter, from any state of the
  cache of addresses, and its end is the start of the next entry; but it is the largest address there is for the last
  entry, and may be that when the program counter is the start of an entry.  Below all entries nothing is
  written to the variables of the caller.
\<close>

theorem exidx_entry_of_pc:
  assumes "helper_ok read32 addr h" "start_offset h \<noteq> 0" "0 < total_entries h"
  shows "\<exists>r h'. FindEntry_exidx read32 pc h = Inr (r, h') \<and> helper_ok read32 addr h'
    \<and> (if pc < addr 0 then r = nothing_found
        else \<exists>k < total_entries h. addr k \<le> pc \<and> (\<forall>j < total_entries h. k < j \<longrightarrow> pc < addr j)
          \<and> found_offset r = Some (entry_at_index h k) \<and> found_start r = Some (addr k)
          \<and> (if found_ret r then k + 1 < total_entries h \<and> found_end r = Some (addr (k + 1))
              else (k + 1 = total_entries h \<or> pc = addr k) \<and> found_end r = Some INT32_MAX))"
proof -
  let ?n = "total_entries h"
  obtain e h1 where search: "exidx_search read32 pc 0 ?n None h = (e, h1)" and e: "search_ok addr ?n pc e"
    and h1: "same_index h h1" "helper_ok read32 addr h1"
    using exidx_search_ok [OF assms(1), of 0 ?n pc None] assms(3) by auto
  note idx = same_index_simps [OF h1(1)]
  have ended: "\<exists>r h'. with_end read32 l (k + 1) (entry_at_index h k) (addr k) g = (r, h') \<and> helper_ok read32 addr h'
      \<and> found_offset r = Some (entry_at_index h k) \<and> found_start r = Some (addr k)
      \<and> (if found_ret r then k + 1 < ?n \<and> found_end r = Some (addr (k + 1)) else l \<ge> ?n \<and> found_end r = Some INT32_MAX)"
    if room: "l < ?n \<Longrightarrow> k + 1 < ?n" and g: "same_index h g" "helper_ok read32 addr g" for l k g
  proof (cases "l < ?n")
    case True
    then have k: "k + 1 < total_entries g" using room g same_index_simps(2) [OF g(1)] by simp
    obtain h' where h': "GetAddr read32 (k + 1) g = (Some (addr (k + 1)), h')" "helper_ok read32 addr h'"
      using GetAddr_ok [OF g(2) k] by blast
    let ?r = "\<lparr>found_ret = True, found_offset = Some (entry_at_index h k), found_start = Some (addr k),
      found_end = Some (addr (k + 1))\<rparr>"
    show ?thesis
      using h' True room same_index_simps(2) [OF g(1)]
      by (intro exI [of _ ?r] exI [of _ h']) (simp add: with_end_def Let_def)
  next
    case False
    then show ?thesis using g(2) same_index_simps(2) [OF g(1)] by (simp add: with_end_def Let_def)
  qed
  have run: "FindEntry_exidx read32 pc h = (case e of
      Unreadable \<Rightarrow> Inr (nothing_found, h1)
    | Exact k a l \<Rightarrow> Inr (with_end read32 l (k + 1) (entry_at_index h k) a h1)
    | Missed l a \<Rightarrow>
        if l = 0 then Inr (nothing_found, h1)
        else (case a of
                None \<Rightarrow> Inl Uninitialised
              | Some a \<Rightarrow>
                  if pc > a then Inr (with_end read32 l l (entry_at_index h (l - 1)) a h1)
                  else (case GetAddr read32 (l - 1) h1 of
                          (None, h') \<Rightarrow> Inr (\<lparr>found_ret = False, found_offset = Some (entry_at_index h (l - 1)),
                                             found_start = Some INT32_MAX, found_end = None\<rparr>, h')
                        | (Some start, h') \<Rightarrow> Inr (with_end read32 l l (entry_at_index h (l - 1)) start h'))))"
    using assms(2,3) search by (cases e) (simp_all add: FindEntry_exidx_def idx Let_def split: option.split prod.split)
  show ?thesis
  proof (cases e)
    case Unreadable
    then show ?thesis using e by (simp add: search_ok_def)
  next
    case (Exact k a l)
    then have k: "k < l" "l \<le> ?n" "a = addr k" "addr k = pc" using e by (simp_all add: search_ok_def)
    obtain r h' where r: "with_end read32 l (k + 1) (entry_at_index h k) (addr k) h1 = (r, h')" "helper_ok read32 addr h'"
        "found_offset r = Some (entry_at_index h k)" "found_start r = Some (addr k)"
        "if found_ret r then k + 1 < ?n \<and> found_end r = Some (addr (k + 1)) else l \<ge> ?n \<and> found_end r = Some INT32_MAX"
      using ended [OF _ h1, of l k] k by auto
    have "\<not> pc < addr 0" using helper_le [OF assms(1), of 0 k] k by auto
    moreover have "\<forall>j < ?n. k < j \<longrightarrow> pc < addr j" using helper_less [OF assms(1)] k(4) by auto
    ultimately show ?thesis
      using r k unfolding run Exact by (intro exI [of _ r] exI [of _ h']) (auto intro!: exI [of _ k])
  next
    case (Missed l a)
    then obtain b where l: "l \<le> ?n" "\<forall>i < l. addr i < pc" "\<forall>i < ?n. l \<le> i \<longrightarrow> pc < addr i" "a = Some b"
        "b < pc \<longrightarrow> 0 < l \<and> b = addr (l - 1)"
      using e by (auto simp: search_ok_def)
    show ?thesis
    proof (cases "l = 0")
      case True
      then show ?thesis using l(3) assms(3) h1(2) unfolding run Missed by auto
    next
      case False
      let ?k = "l - 1"
      have k: "?k < ?n" "addr ?k < pc" "\<forall>j < ?n. ?k < j \<longrightarrow> pc < addr j" "?k + 1 = l" using False l by auto
      obtain h2 where h2: "GetAddr read32 ?k h1 = (Some (addr ?k), h2)" "same_index h h2" "helper_ok read32 addr h2"
        using GetAddr_ok [OF h1(2), of ?k] k(1) same_index_trans [OF h1(1)] by (auto simp: idx)
      define g where "g = (if pc > b then h1 else h2)"
      have g: "same_index h g" "helper_ok read32 addr g" using h1 h2(2,3) by (simp_all add: g_def)
      have run2: "FindEntry_exidx read32 pc h = Inr (with_end read32 l (?k + 1) (entry_at_index h ?k) (addr ?k) g)"
        using False l(4,5) h2(1) unfolding run Missed by (simp add: g_def idx)
      obtain r h' where r: "with_end read32 l (?k + 1) (entry_at_index h ?k) (addr ?k) g = (r, h')" "helper_ok read32 addr h'"
          "found_offset r = Some (entry_at_index h ?k)" "found_start r = Some (addr ?k)"
          "if found_ret r then ?k + 1 < ?n \<and> found_end r = Some (addr (?k + 1)) else l \<ge> ?n \<and> found_end r = Some INT32_MAX"
        using ended [of l ?k g, OF _ g] k(4) by auto
      have "\<not> pc < addr 0" using helper_le [OF assms(1) _ k(1), of 0] k(2) by simp
      then show ?thesis
        using r k l(1) unfolding run2 by (intro exI [of _ r] exI [of _ h']) (auto intro!: exI [of _ ?k])
    qed
  qed
qed

section \<open>What the cache answers\<close>

lemma filter_le_last:
  fixes es :: "(u64 \<times> 'e) list"
  assumes "sorted_wrt (<) (map fst es)" "(k, e) \<in> set es" "k \<le> pc" "\<forall>e' \<in> set es. fst e' \<le> pc \<longrightarrow> fst e' \<le> k"
  shows "filter (\<lambda>e. fst e \<le> pc) es \<noteq> [] \<and> last (filter (\<lambda>e. fst e \<le> pc) es) = (k, e)"
  using assms
proof (induction es)
  case (Cons x es)
  show ?case
  proof (cases "x = (k, e)")
    case True
    then have "filter (\<lambda>e. fst e \<le> pc) es = []"
      using Cons.prems(1,4) by (fastforce simp: filter_empty_conv)
    then show ?thesis using True Cons.prems(3) by simp
  next
    case False
    then show ?thesis using Cons by auto
  qed
qed simp

lemma map_put_sorted:
  "sorted_wrt (<) (map fst es) \<Longrightarrow> sorted_wrt (<) (map fst (map_put k v es)) \<and> (k, v) \<in> set (map_put k v es)
     \<and> fst ` set (map_put k v es) = insert k (fst ` set es)"
proof (induction es)
  case (Cons e es)
  obtain k' v' where e: "e = (k', v')" by fastforce
  consider "k < k'" | "k = k'" | "k' < k" by fastforce
  then show ?case using Cons by cases (auto simp: e image_iff)
qed simp

text \<open>The cache: in the order of its keys, which are the starts of the ranges.\<close>

definition cache_ok :: "'w in_memory_cache \<Rightarrow> bool" where
  "cache_ok cache \<longleftrightarrow> sorted_wrt (<) (map fst cache) \<and> (\<forall>(k, start, stop, sections) \<in> set cache. start = k)"

lemma FindInCache_hit:
  assumes "cache_ok cache" "(start, start, stop, sections) \<in> set cache" "start \<le> pc" "pc \<le> stop"
    and "\<forall>e \<in> set cache. fst e \<le> pc \<longrightarrow> fst e \<le> start"
  shows "FindInCache pc cache = Some sections"
  using filter_le_last [of cache start "(start, stop, sections)" pc] assms
  by (auto simp: FindInCache_def cache_ok_def)

lemma FindInCache_inside:
  assumes "cache_ok cache" "FindInCache pc cache = Some sections"
  shows "\<exists>start stop. (start, start, stop, sections) \<in> set cache \<and> start \<le> pc \<and> pc \<le> stop"
proof -
  let ?before = "filter (\<lambda>e. fst e \<le> pc) cache"
  define e where "e = (if ?before = [] then hd cache else last ?before)"
  obtain k start stop s where e': "e = (k, start, stop, s)" by (cases e)
  have "cache \<noteq> []" using assms(2) by (auto simp: FindInCache_def)
  then have "e \<in> set cache" using last_in_set [of ?before] by (auto simp: e_def)
  moreover have "start \<le> pc" "pc \<le> stop" "s = sections"
    using assms(2) \<open>cache \<noteq> []\<close> e' unfolding FindInCache_def Let_def e_def [symmetric] by (auto split: if_splits)
  ultimately show ?thesis using assms(1) e' unfolding cache_ok_def by fastforce
qed

lemma set_map_put: "set (map_put k v es) \<subseteq> insert (k, v) (set es)"
  by (induction k v es rule: map_put.induct) auto

lemma UpdateCache_ok: "cache_ok cache \<Longrightarrow> cache_ok (UpdateCache start stop sections cache)"
proof -
  assume ok: "cache_ok cache"
  then show ?thesis
    using map_put_sorted [of cache start "(start, stop, sections)"] set_map_put [of start "(start, stop, sections)" cache]
    unfolding cache_ok_def UpdateCache_def by blast
qed

lemma UpdateCache_hit:
  assumes "cache_ok cache" "start \<le> pc" "pc \<le> stop" "\<forall>e \<in> set cache. fst e \<le> pc \<longrightarrow> fst e \<le> start"
  shows "FindInCache pc (UpdateCache start stop sections cache) = Some sections"
proof (rule FindInCache_hit [OF UpdateCache_ok [OF assms(1)] _ assms(2,3)])
  note put = map_put_sorted [of cache start "(start, stop, sections)"]
  show "(start, start, stop, sections) \<in> set (UpdateCache start stop sections cache)"
    using put assms(1) by (simp add: cache_ok_def UpdateCache_def)
  show "\<forall>e \<in> set (UpdateCache start stop sections cache). fst e \<le> pc \<longrightarrow> fst e \<le> start"
  proof (intro ballI impI)
    fix e assume "e \<in> set (UpdateCache start stop sections cache)" "fst e \<le> pc"
    then have "fst e \<in> insert start (fst ` set cache)"
      using put assms(1) unfolding cache_ok_def UpdateCache_def by blast
    then show "fst e \<le> start" using assms(4) \<open>fst e \<le> pc\<close> by auto
  qed
qed

lemma ucast_u32_u64 [simp]: "(ucast (ucast (a :: u32) :: u64) :: u32) = a"
  by (rule bit_word_eqI) (simp add: bit_simps)

lemma FindInCache_Nil [simp]: "FindInCache pc [] = None"
  by (simp add: FindInCache_def)

lemma qut_in_memory_set_slot [simp]: "qut_in_memory (set_slot slot d s) = qut_in_memory s"
  by (cases slot) simp_all

lemma new_helper_ok:
  "index_holds read32 native_only (fi_offset info) (unat (fi_size info)) addr d \<Longrightarrow> helper_ok read32 addr (new_helper info)"
  by (simp add: index_holds_def helper_ok_def new_helper_def entry_at_index_def)

lemma exidx_search_first_probe:
  assumes "helper_ok read32 addr h" "0 < total_entries h"
  shows "\<exists>h'. exidx_search read32 (addr (total_entries h div 2)) 0 (total_entries h) None h
      = (Exact (total_entries h div 2) (addr (total_entries h div 2)) (total_entries h), h')
    \<and> same_index h h' \<and> helper_ok read32 addr h'"
  using GetAddr_ok [OF assms(1), of "total_entries h div 2"] assms(2)
  by (subst exidx_search.simps) (auto simp: Let_def)

lemma DecodeEntry_first_probe:
  assumes "index_holds read32 native_only (fi_offset info) n addr d" "n = unat (fi_size info)" "fi_offset info \<noteq> 0" "0 < n"
    and "d (n div 2) = Some is"
  shows "\<exists>h'. DecodeEntry read32 native_only (addr (n div 2)) (new_helper info)
      = Inr (Some (ucast (addr (n div 2)), ucast INT32_MAX, [(ucast (addr (n div 2)), ucast (addr (n div 2)), is)]), h')"
proof -
  let ?h = "new_helper info"
  have ok: "helper_ok read32 addr ?h" using assms(1,2) new_helper_ok by blast
  have h: "total_entries ?h = n" "start_offset ?h = fi_offset info" using assms(2) by (simp_all add: new_helper_def)
  obtain h' where h': "exidx_search read32 (addr (n div 2)) 0 n None ?h = (Exact (n div 2) (addr (n div 2)) n, h')" "same_index ?h h'"
    using exidx_search_first_probe [OF ok] assms(4) h by auto
  have "decode_exidx_entry read32 native_only (entry_at_index ?h (n div 2)) = Inr (Some is)"
    using assms(1,4,5) h(2) by (simp add: index_holds_def entry_at_index_def)
  then show ?thesis
    using assms(3,4) h h' by (simp add: DecodeEntry_def FindEntry_exidx_def with_end_def same_index_simps Let_def)
qed

text \<open>
  C37. A table made at run time can swallow all later functions.  When a program counter is the start of the very entry
  that the search looks at first, that entry is taken for the last one: its range reaches to the largest
  address.  The table is cached with that range, and from then on every program counter above gets it, whatever
  function it is in.
\<close>

theorem first_probe_swallows_functions:
  assumes "index_holds read32 native_only (fi_offset info) n addr d" "n = unat (fi_size info)" "fi_offset info \<noteq> 0" "0 < n"
    and "d (n div 2) = Some is" "\<forall>pc. choose_fde elf pc = None"
    and "PackEntriesToQutSections (gen_arm g) [(ucast (addr (n div 2)), ucast (addr (n div 2)), is)] = Inr sections"
    and "exidx_decoder s = Some (new_helper info)" "qut_in_memory s = []"
  shows "\<exists>s'. GetFutSectionsInMemory g read32 native_only elf (ucast (addr (n div 2))) s = Some (Inr (Some sections, s'))
    \<and> (\<forall>pc. ucast (addr (n div 2)) \<le> pc \<and> pc \<le> 0x7fffffff \<longrightarrow>
         GetFutSectionsInMemory g read32 native_only elf pc s' = Some (Inr (Some sections, s')))"
proof -
  let ?a = "ucast (addr (n div 2)) :: u64"
  obtain h' where h': "DecodeEntry read32 native_only (addr (n div 2)) (new_helper info)
      = Inr (Some (?a, ucast INT32_MAX, [(?a, ?a, is)]), h')"
    using DecodeEntry_first_probe [OF assms(1-5)] by blast
  let ?s = "s\<lparr>exidx_decoder := Some h', qut_in_memory := UpdateCache ?a (ucast INT32_MAX) sections []\<rparr>"
  have "GetFutSectionsInMemory g read32 native_only elf ?a s = Some (Inr (Some sections, ?s))"
    using assms(6-9) h' by (simp add: GetFutSectionsInMemory_def generate_sections_def)
  moreover have "GetFutSectionsInMemory g read32 native_only elf pc ?s = Some (Inr (Some sections, ?s))"
    if "?a \<le> pc" "pc \<le> 0x7fffffff" for pc
    using that UpdateCache_hit [of "[]" ?a pc "ucast INT32_MAX" sections]
    by (simp add: GetFutSectionsInMemory_def cache_ok_def INT32_MAX_def)
  ultimately show ?thesis by blast
qed

text \<open>
  C38. A cached range holds its end.  The end of a range is the start of the next function, but the cache takes
  it for a part of the range: a call that returns to the first instruction of a function is unwound with the table of
  the function before.
\<close>

theorem cached_range_holds_its_end:
  assumes "cache_ok (qut_in_memory s)" "FindInCache pc (qut_in_memory s) = None"
    and "generate_sections g read32 native_only elf pc s = Some (Inr (Some (start, stop, sections), s1))"
    and "start \<le> stop" "\<forall>e \<in> set (qut_in_memory s1). fst e \<le> stop \<longrightarrow> fst e \<le> start"
  shows "\<exists>s'. GetFutSectionsInMemory g read32 native_only elf pc s = Some (Inr (Some sections, s'))
    \<and> GetFutSectionsInMemory g read32 native_only elf stop s' = Some (Inr (Some sections, s'))"
proof -
  have kept: "qut_in_memory s1 = qut_in_memory s"
    using assms(3) unfolding generate_sections_def
    by (auto split: option.splits sum.splits prod.splits)
  let ?s = "s1\<lparr>qut_in_memory := UpdateCache start stop sections (qut_in_memory s1)\<rparr>"
  have "GetFutSectionsInMemory g read32 native_only elf pc s = Some (Inr (Some sections, ?s))"
    using assms(2,3) by (simp add: GetFutSectionsInMemory_def)
  moreover have "FindInCache stop (qut_in_memory ?s) = Some sections"
    using UpdateCache_hit [of "qut_in_memory s1" start stop stop sections] assms(1,4,5) kept by simp
  then have "GetFutSectionsInMemory g read32 native_only elf stop ?s = Some (Inr (Some sections, ?s))"
    by (simp add: GetFutSectionsInMemory_def)
  ultimately show ?thesis by blast
qed

text \<open>Three functions, in an index behind eight bytes.\<close>

definition sample_functions :: "u8 list" where
  "sample_functions = replicate 8 0 @
     [0x00, 0x10, 0, 0, 0xb0, 0xb0, 0x01, 0x80,  0x30, 0x10, 0, 0, 0xb0, 0xb0, 0x03, 0x80,  0x58, 0x10, 0, 0, 1, 0, 0, 0]"

definition functions_info :: frame_info where
  "functions_info = \<lparr>fi_offset = 8, fi_section_bias = 0, fi_size = 3\<rparr>"

definition functions_state :: "u32 quicken_in_memory" where
  "functions_state = \<lparr>eh_frame = None, debug_frame = None, eh_frame_from_gnu_debug_data = None,
     debug_frame_from_gnu_debug_data = None, exidx_decoder = Some (new_helper functions_info), qut_in_memory = []\<rparr>"

definition read_functions :: "u32 \<Rightarrow> u32 option" where
  "read_functions = Read32 (MemoryBuffer_Read sample_functions)"

definition no_sections :: elf_view where
  "no_sections = \<lparr>elf_eh_frame = None, gnu_interface = None\<rparr>"

lemma sample_functions_entries:
  "map (\<lambda>i. GetPrel31Addr read_functions (8 + i * 8)) [0, 1, 2] = [Some 0x1008, Some 0x1040, Some 0x1070]"
  "map (\<lambda>i. decode_exidx_entry read_functions False (8 + i * 8)) [0, 1, 2]
     = [Inr (Some [0xA00000008]), Inr (Some [0xA00000010]), Inr None]"
  by code_simp+

lemma sample_functions_hold:
  "index_holds read_functions False (fi_offset functions_info) 3 (nth [0x1008, 0x1040, 0x1070])
     (nth [Some [0xA00000008], Some [0xA00000010], None])"
proof -
  have all: "(\<forall>i < 3. P i) \<longleftrightarrow> P 0 \<and> P 1 \<and> P (2 :: nat)" for P
    by (auto simp: less_Suc_eq numeral_3_eq_3 numeral_2_eq_2)
  have "[0x1008, 0x1040, 0x1070 :: u32] ! i < [0x1008, 0x1040, 0x1070] ! j" if "i < j" "j < 3" for i j :: nat
    using that by (auto simp: less_Suc_eq numeral_3_eq_3)
  then show ?thesis
    unfolding index_holds_def all using sample_functions_entries by (simp add: functions_info_def)
qed

lemma sample_functions_pack:
  "case PackEntriesToQutSections True [(0x1040, 0x1040, [0xA00000010])] of Inl f \<Rightarrow> False | Inr (sections :: u32 qut_sections) \<Rightarrow> True"
  by code_simp

theorem exidx_entry_of_pc_witness:
  "\<exists>r h'. FindEntry_exidx read_functions 0x1050 (new_helper functions_info) = Inr (r, h') \<and> found_start r = Some 0x1040"
proof -
  let ?h = "new_helper functions_info"
  have h: "helper_ok read_functions (nth [0x1008, 0x1040, 0x1070]) ?h"
    using new_helper_ok [of read_functions False functions_info] sample_functions_hold by (simp add: functions_info_def)
  have n: "start_offset ?h \<noteq> 0" "total_entries ?h = 3" by (simp_all add: new_helper_def functions_info_def)
  from exidx_entry_of_pc [OF h, of "0x1050"] n obtain r h' k where
    r: "FindEntry_exidx read_functions 0x1050 ?h = Inr (r, h')" and k: "k < 3" "[0x1008, 0x1040, 0x1070] ! k \<le> (0x1050 :: u32)"
      "\<forall>j < 3. k < j \<longrightarrow> (0x1050 :: u32) < [0x1008, 0x1040, 0x1070] ! j" "found_start r = Some ([0x1008, 0x1040, 0x1070] ! k)"
    by auto
  have "k = 1" using k(1,2) spec [OF k(3), of 1] by (auto simp: less_Suc_eq numeral_3_eq_3)
  then show ?thesis using r k(4) by simp
qed

theorem first_probe_swallows_functions_witness:
  "\<exists>sections s'. GetFutSectionsInMemory index_generator read_functions False no_sections 0x1040 functions_state = Some (Inr (Some sections, s'))
     \<and> GetFutSectionsInMemory index_generator read_functions False no_sections 0x1070 s' = Some (Inr (Some sections, s'))"
proof -
  obtain sections :: "u32 qut_sections" where pack: "PackEntriesToQutSections True [(0x1040, 0x1040, [0xA00000010])] = Inr sections"
    using sample_functions_pack by (auto split: sum.splits)
  have "\<exists>s'. GetFutSectionsInMemory index_generator read_functions False no_sections (ucast ([0x1008, 0x1040, 0x1070 :: u32] ! (3 div 2))) functions_state
      = Some (Inr (Some sections, s'))
    \<and> (\<forall>pc. ucast ([0x1008, 0x1040, 0x1070 :: u32] ! (3 div 2)) \<le> pc \<and> pc \<le> 0x7fffffff \<longrightarrow>
         GetFutSectionsInMemory index_generator read_functions False no_sections pc s' = Some (Inr (Some sections, s')))"
    by (rule first_probe_swallows_functions [OF sample_functions_hold])
      (use pack in \<open>simp_all add: functions_info_def functions_state_def no_sections_def choose_fde_def index_generator_def\<close>)
  then show ?thesis by fastforce
qed

lemma sample_first_function:
  "case DecodeEntry read_functions False 0x1010 (new_helper functions_info) of
     Inl f \<Rightarrow> False | Inr (r, h) \<Rightarrow> r = Some (0x1008, 0x1040, [(0x1008, 0x1008, [0xA00000008])])"
  "case PackEntriesToQutSections True [(0x1008, 0x1008, [0xA00000008])] of Inl f \<Rightarrow> False | Inr (sections :: u32 qut_sections) \<Rightarrow> True"
  by code_simp+

theorem cached_range_holds_its_end_witness:
  "\<exists>s' sections. GetFutSectionsInMemory index_generator read_functions False no_sections 0x1010 functions_state = Some (Inr (Some sections, s'))
     \<and> GetFutSectionsInMemory index_generator read_functions False no_sections 0x1040 s' = Some (Inr (Some sections, s'))"
proof -
  obtain h where decoded: "DecodeEntry read_functions False 0x1010 (new_helper functions_info)
      = Inr (Some (0x1008, 0x1040, [(0x1008, 0x1008, [0xA00000008])]), h)"
    using sample_first_function(1) by (auto split: sum.splits prod.splits)
  obtain sections :: "u32 qut_sections" where pack: "PackEntriesToQutSections True [(0x1008, 0x1008, [0xA00000008])] = Inr sections"
    using sample_first_function(2) by (auto split: sum.splits)
  have "generate_sections index_generator read_functions False no_sections 0x1010 functions_state
      = Some (Inr (Some (0x1008, 0x1040, sections), functions_state\<lparr>exidx_decoder := Some h\<rparr>))"
    using decoded pack by (simp add: generate_sections_def no_sections_def choose_fde_def functions_state_def index_generator_def)
  from cached_range_holds_its_end [OF _ _ this] show ?thesis
    by (auto simp: functions_state_def cache_ok_def)
qed

end
