(* ===== verification/Splay_Map.thy ===== *)
theory Splay_Map
  imports Qut_Prelude "HOL-Library.Tree"
begin

text \<open>
  \<open>splay_map\<close> of \<^verbatim>\<open>src/matrix-hooks/src/main/cpp/common/struct/splay_map.h\<close>: the map behind the memory hook, a
  top-down splay tree whose nodes are the cells of an array.  Every operation is proved against a map of keys to cells.
\<close>

section \<open>The code\<close>

text \<open>
  A node pointer is an index into the arrays of nodes and of values; cell 0 is no node, but is used as
  scratch space.  \<open>t_info\<close> is the first part of the array of nodes.
\<close>

record 'k node =
  nkey :: 'k
  lc :: nat
  rc :: nat

record ('k, 'v) splay_map =
  root_ptr :: nat
  free_ptr :: nat
  b_size :: nat
  t_size :: nat
  k_buff :: "'k node list"
  v_buff :: "'v list"
  last_ptr :: nat
  i_size :: nat

text \<open>The types of the map: the sizes of a node and a value in bytes, and what zeroed memory is of each.\<close>

record ('k, 'v) layout =
  node_bytes :: nat
  val_bytes :: nat
  zero_node :: "'k node"
  zero_val :: 'v

definition set_lc :: "nat \<Rightarrow> nat \<Rightarrow> 'k node list \<Rightarrow> 'k node list" where
  "set_lc p q ns = ns[p := (ns ! p)\<lparr>lc := q\<rparr>]"

definition set_rc :: "nat \<Rightarrow> nat \<Rightarrow> 'k node list \<Rightarrow> 'k node list" where
  "set_rc p q ns = ns[p := (ns ! p)\<lparr>rc := q\<rparr>]"

text \<open>
  The loop of \<open>splay\<close>.  \<open>l\<close> and \<open>r\<close> are the ends of the two trees that are cut off, where the next part is linked.
  An index out of the array, which \<open>check_overflow\<close> is for, is a fault.
\<close>

partial_function (option) splay_loop ::
  "nat \<Rightarrow> 'k::linorder \<Rightarrow> 'k node list \<Rightarrow> nat \<Rightarrow> nat \<Rightarrow> nat \<Rightarrow> (fault + (bool \<times> 'k node list \<times> nat \<times> nat \<times> nat)) option" where
  "splay_loop b key ns l r t =
     (if b \<le> t then Some (Inl ReadPastEnd)
      else if nkey (ns ! t) > key
      then (let tlc = lc (ns ! t)
            in if tlc = 0 then Some (Inr (False, ns, l, r, t))
               else if b \<le> tlc then Some (Inl ReadPastEnd)
               else (let rotate = nkey (ns ! tlc) > key;
                         ns1 = (if rotate then set_rc tlc t (set_lc t (rc (ns ! tlc)) ns) else ns);
                         t1 = (if rotate then tlc else t)
                     in if rotate \<and> lc (ns1 ! t1) = 0 then Some (Inr (False, ns1, l, r, t1))
                        else if b \<le> r then Some (Inl WritePastEnd)
                        else (let ns2 = set_lc r t1 ns1 in splay_loop b key ns2 l t1 (lc (ns2 ! t1)))))
      else if nkey (ns ! t) < key
      then (let trc = rc (ns ! t)
            in if trc = 0 then Some (Inr (False, ns, l, r, t))
               else if b \<le> trc then Some (Inl ReadPastEnd)
               else (let rotate = nkey (ns ! trc) < key;
                         ns1 = (if rotate then set_lc trc t (set_rc t (lc (ns ! trc)) ns) else ns);
                         t1 = (if rotate then trc else t)
                     in if rotate \<and> rc (ns1 ! t1) = 0 then Some (Inr (False, ns1, l, r, t1))
                        else if b \<le> l then Some (Inl WritePastEnd)
                        else (let ns2 = set_rc l t1 ns1 in splay_loop b key ns2 t1 r (rc (ns2 ! t1)))))
      else Some (Inr (True, ns, l, r, t)))"

declare splay_loop.simps [code]

text \<open>The end: both trees are put under the node reached, and cell 0 is cleared.\<close>

definition assemble :: "nat \<Rightarrow> nat \<Rightarrow> nat \<Rightarrow> 'k node list \<Rightarrow> 'k node list" where
  "assemble l r t ns =
     (let ns1 = set_rc l (lc (ns ! t)) ns;
          ns2 = set_lc r (rc (ns1 ! t)) ns1;
          ns3 = set_lc t (rc (ns2 ! 0)) ns2;
          ns4 = set_rc t (lc (ns3 ! 0)) ns3
      in set_rc 0 0 (set_lc 0 0 ns4))"

definition splay ::
  "nat \<Rightarrow> 'k::linorder \<Rightarrow> nat \<Rightarrow> 'k node list \<Rightarrow> (fault + (bool \<times> nat \<times> 'k node list)) option" where
  "splay b key root ns =
     (if root = 0 then Some (Inr (False, root, ns))
      else (case splay_loop b key ns 0 0 root of
              None \<Rightarrow> None
            | Some (Inl f) \<Rightarrow> Some (Inl f)
            | Some (Inr (ret, ns, l, r, t)) \<Rightarrow>
                if b \<le> t \<or> b \<le> l \<or> b \<le> r then Some (Inl WritePastEnd)
                else Some (Inr (ret, t, assemble l r t ns))))"

text \<open>\<open>splay\<close> on the root of the map, and what follows.\<close>

definition splay_root ::
  "'k::linorder \<Rightarrow> ('k, 'v) splay_map \<Rightarrow> (bool \<Rightarrow> ('k, 'v) splay_map \<Rightarrow> (fault + 'a) option) \<Rightarrow> (fault + 'a) option" where
  "splay_root key m cont =
     (case splay (b_size m) key (root_ptr m) (k_buff m) of
        None \<Rightarrow> None
      | Some (Inl f) \<Rightarrow> Some (Inl f)
      | Some (Inr (ret, root, ns)) \<Rightarrow> cont ret (m\<lparr>root_ptr := root, k_buff := ns\<rparr>))"

text \<open>Cells that were given back are chained through their left children.\<close>

definition free_node :: "nat \<Rightarrow> ('k, 'v) splay_map \<Rightarrow> fault + ('k, 'v) splay_map" where
  "free_node ptr m =
     (if ptr = 0 then Inr m
      else if b_size m \<le> ptr then Inl WritePastEnd
      else Inr (m\<lparr>k_buff := set_lc ptr (free_ptr m) (k_buff m), free_ptr := ptr\<rparr>))"

definition next_free_node :: "('k, 'v) splay_map \<Rightarrow> fault + (nat \<times> ('k, 'v) splay_map)" where
  "next_free_node m =
     (let next_ptr = free_ptr m
      in if next_ptr = 0 then Inr (t_size m, m)
         else if b_size m \<le> next_ptr then Inl ReadPastEnd
         else Inr (next_ptr, m\<lparr>free_ptr := lc (k_buff m ! next_ptr)\<rparr>))"

text \<open>
  \<open>reallocate_memory\<close>.  \<open>grant\<close> tells whether the allocation of the nodes and that of the values succeed; the sizes are computed in
  32 bits, and a size that does not fit gives an array that is written past its end.
\<close>

definition fits_u32 :: "nat \<Rightarrow> bool" where
  "fits_u32 n \<longleftrightarrow> n < 2 ^ 32"

definition reallocate_memory ::
  "('k, 'v) layout \<Rightarrow> bool \<times> bool \<Rightarrow> bool \<Rightarrow> ('k, 'v) splay_map \<Rightarrow> fault + (bool \<times> ('k, 'v) splay_map)" where
  "reallocate_memory lay grant is_init m =
     (let n = (if is_init then i_size m else b_size m + i_size m)
      in if \<not> fst grant then Inr (False, m)
         else if \<not> fits_u32 (16 + n * node_bytes lay) then Inl WritePastEnd
         else (let m1 = (if is_init
                         then m\<lparr>root_ptr := 0, free_ptr := 0, b_size := 0, t_size := 0,
                                k_buff := replicate n (zero_node lay)\<rparr>
                         else m\<lparr>k_buff := take (b_size m) (k_buff m) @ replicate (i_size m) (zero_node lay)\<rparr>)
               in if \<not> snd grant then Inr (False, m1)
                  else if \<not> fits_u32 (n * val_bytes lay) then Inl WritePastEnd
                  else Inr (True, m1\<lparr>b_size := n,
                         v_buff := (if is_init then replicate n (zero_val lay)
                                    else take (b_size m) (v_buff m) @ replicate (i_size m) (zero_val lay))\<rparr>)))"

text \<open>The constructor, whose buffers are in memory and empty at first.\<close>

definition new_splay_map ::
  "('k, 'v) layout \<Rightarrow> bool \<times> bool \<Rightarrow> nat \<Rightarrow> fault + (bool \<times> ('k, 'v) splay_map)" where
  "new_splay_map lay grant is =
     reallocate_memory lay grant True
       \<lparr>root_ptr = 0, free_ptr = 0, b_size = 0, t_size = 0, k_buff = [], v_buff = [], last_ptr = 0,
        i_size = (if is = 0 then 1024 else is)\<rparr>"

text \<open>A fresh cell with its node and value, as the new root.\<close>

definition add_root ::
  "'k node \<Rightarrow> 'v \<Rightarrow> ('k node list \<Rightarrow> 'k node list) \<Rightarrow> ('k, 'v) splay_map \<Rightarrow> fault + (nat option \<times> ('k, 'v) splay_map)" where
  "add_root nd val link m =
     (case next_free_node m of
        Inl f \<Rightarrow> Inl f
      | Inr (n, m) \<Rightarrow>
          if b_size m \<le> n then Inl WritePastEnd
          else Inr (Some n, m\<lparr>k_buff := link ((k_buff m)[n := nd]), v_buff := (v_buff m)[n := val], root_ptr := n\<rparr>))"

definition splay_insert ::
  "('k::linorder, 'v) layout \<Rightarrow> bool \<times> bool \<Rightarrow> 'k \<Rightarrow> 'v \<Rightarrow> ('k, 'v) splay_map
     \<Rightarrow> (fault + (nat option \<times> ('k, 'v) splay_map)) option" where
  "splay_insert lay grant key val m =
     (case (if t_size m + 1 = b_size m then reallocate_memory lay grant False m else Inr (True, m)) of
        Inl f \<Rightarrow> Some (Inl f)
      | Inr (False, m) \<Rightarrow> Some (Inr (None, m))
      | Inr (True, m) \<Rightarrow>
          if root_ptr m = 0
          then Some (add_root \<lparr>nkey = key, lc = 0, rc = 0\<rparr> val id (m\<lparr>t_size := 1\<rparr>))
          else splay_root key m (\<lambda>ret m.
            let root = root_ptr m; nd = k_buff m ! root
            in if ret then Some (Inr (Some root, m\<lparr>v_buff := (v_buff m)[root := val]\<rparr>))
               else if nkey nd > key
               then Some (add_root \<lparr>nkey = key, lc = lc nd, rc = root\<rparr> val (set_lc root 0) (m\<lparr>t_size := t_size m + 1\<rparr>))
               else Some (add_root \<lparr>nkey = key, lc = root, rc = rc nd\<rparr> val (set_rc root 0) (m\<lparr>t_size := t_size m + 1\<rparr>))))"

definition splay_remove ::
  "'k::linorder \<Rightarrow> ('k, 'v) splay_map \<Rightarrow> (fault + (nat option \<times> ('k, 'v) splay_map)) option" where
  "splay_remove key m =
     splay_root key m (\<lambda>ret m.
       if \<not> ret then Some (Inr (None, m))
       else (let r = root_ptr m;
                 finish = (\<lambda>x m. case free_node r m of
                             Inl f \<Rightarrow> Some (Inl f)
                           | Inr m \<Rightarrow> Some (Inr (Some r, m\<lparr>t_size := t_size m - 1, root_ptr := x\<rparr>)))
             in if lc (k_buff m ! r) = 0 then finish (rc (k_buff m ! r)) m
                else (case splay (b_size m) key (lc (k_buff m ! r)) (k_buff m) of
                        None \<Rightarrow> None
                      | Some (Inl f) \<Rightarrow> Some (Inl f)
                      | Some (Inr (_, x, ns)) \<Rightarrow> finish x (m\<lparr>k_buff := set_rc x (rc (ns ! r)) ns\<rparr>))))"

definition inter_find :: "'k::linorder \<Rightarrow> ('k, 'v) splay_map \<Rightarrow> (fault + (nat \<times> ('k, 'v) splay_map)) option" where
  "inter_find key m = splay_root key m (\<lambda>ret m. Some (Inr (if ret then root_ptr m else 0, m)))"

text \<open>\<open>exist\<close>, which keeps the cell for \<open>find\<close>.\<close>

definition splay_exist :: "'k::linorder \<Rightarrow> ('k, 'v) splay_map \<Rightarrow> (fault + (bool \<times> ('k, 'v) splay_map)) option" where
  "splay_exist key m =
     (case inter_find key m of
        None \<Rightarrow> None
      | Some (Inl f) \<Rightarrow> Some (Inl f)
      | Some (Inr (ptr, m)) \<Rightarrow> Some (Inr (ptr \<noteq> 0, m\<lparr>last_ptr := ptr\<rparr>)))"

definition splay_find :: "('k, 'v) splay_map \<Rightarrow> fault + 'v" where
  "splay_find m = (if b_size m \<le> last_ptr m then Inl ReadPastEnd else Inr (v_buff m ! last_ptr m))"

text \<open>\<open>inter_enumerate\<close>: the cells in the order in which they are visited, with a stack and two limits.\<close>

function enumerate_loop ::
  "('k, 'v) splay_map \<Rightarrow> nat \<Rightarrow> nat list \<Rightarrow> nat \<Rightarrow> nat list \<Rightarrow> fault + nat list" where
  "enumerate_loop m root s count out =
     (if root \<noteq> 0
      then (if length (root # s) > t_size m then Inr out
            else if b_size m \<le> root then Inl ReadPastEnd
            else enumerate_loop m (lc (k_buff m ! root)) (root # s) count out)
      else (case s of
              [] \<Rightarrow> Inr out
            | p # s' \<Rightarrow>
                if b_size m \<le> p then Inl ReadPastEnd
                else if count + 1 > t_size m then Inr (out @ [p])
                else enumerate_loop m (rc (k_buff m ! p)) s' (count + 1) (out @ [p])))"
  by pat_completeness auto
termination
  by (relation "measures [\<lambda>(m, root, s, count, out). t_size m - count, \<lambda>(m, root, s, count, out). t_size m + 1 - length s]") auto

declare enumerate_loop.simps [simp del]

definition splay_enumerate :: "('k, 'v) splay_map \<Rightarrow> fault + nat list" where
  "splay_enumerate m = (if root_ptr m = 0 then Inr [] else enumerate_loop m (root_ptr m) [] 0 [])"

section \<open>Trees in the array\<close>

lemma nth_update_if: "xs[p := x] ! j = (if j = p \<and> p < length xs then x else xs ! j)"
  by (cases "p < length xs") (auto simp: list_update_beyond)

lemma set_child_simps [simp]:
  "length (set_lc p q ns) = length ns" "length (set_rc p q ns) = length ns"
  "rc (set_lc p q ns ! j) = rc (ns ! j)" "lc (set_rc p q ns ! j) = lc (ns ! j)"
  "nkey (set_lc p q ns ! j) = nkey (ns ! j)" "nkey (set_rc p q ns ! j) = nkey (ns ! j)"
  "j \<noteq> p \<Longrightarrow> set_lc p q ns ! j = ns ! j" "j \<noteq> p \<Longrightarrow> set_rc p q ns ! j = ns ! j"
  "p < length ns \<Longrightarrow> lc (set_lc p q ns ! p) = q" "p < length ns \<Longrightarrow> rc (set_rc p q ns ! p) = q"
  by (simp_all add: set_lc_def set_rc_def nth_update_if)

text \<open>A tree of cells below a node pointer.\<close>

fun points :: "'k node list \<Rightarrow> nat \<Rightarrow> nat tree \<Rightarrow> bool" where
  "points ns p Leaf \<longleftrightarrow> p = 0"
| "points ns p (Node l q r) \<longleftrightarrow> p = q \<and> q \<noteq> 0 \<and> q < length ns \<and> points ns (lc (ns ! q)) l \<and> points ns (rc (ns ! q)) r"

lemma points_frame: "\<forall>q \<in> set_tree T. ns' ! q = ns ! q \<Longrightarrow> length ns' = length ns \<Longrightarrow> points ns' p T = points ns p T"
  by (induction T arbitrary: p) auto

lemma points_set [simp]:
  assumes "q \<notin> set_tree T"
  shows "points (set_lc q x ns) p T = points ns p T" "points (set_rc q x ns) p T = points ns p T"
  using assms by (auto intro!: points_frame) (metis set_child_simps(7), metis set_child_simps(8))

lemma points_null: "points ns p T \<Longrightarrow> p = 0 \<longleftrightarrow> T = Leaf"
  by (cases T) auto

lemma points_bound: "points ns p T \<Longrightarrow> q \<in> set_tree T \<Longrightarrow> q \<noteq> 0 \<and> q < length ns"
  by (induction T arbitrary: p) auto

lemma points_root: "points ns p T \<Longrightarrow> T \<noteq> Leaf \<Longrightarrow> \<exists>l r. T = Node l p r"
  by (cases T) auto

text \<open>
  The trees that a splay has cut off: their nodes on the way to where the next part is linked, from the top down, each with the tree on
  its other side.  A spine hangs on the right (left) child of a cell, at first of cell 0.
\<close>

type_synonym spine = "(nat \<times> nat tree) list"

fun rspine :: "'k node list \<Rightarrow> nat \<Rightarrow> spine \<Rightarrow> bool" where
  "rspine ns s [] \<longleftrightarrow> True"
| "rspine ns s ((p, T) # ps) \<longleftrightarrow> rc (ns ! s) = p \<and> p \<noteq> 0 \<and> p < length ns \<and> points ns (lc (ns ! p)) T \<and> rspine ns p ps"

fun lspine :: "'k node list \<Rightarrow> nat \<Rightarrow> spine \<Rightarrow> bool" where
  "lspine ns s [] \<longleftrightarrow> True"
| "lspine ns s ((p, T) # ps) \<longleftrightarrow> lc (ns ! s) = p \<and> p \<noteq> 0 \<and> p < length ns \<and> points ns (rc (ns ! p)) T \<and> lspine ns p ps"

definition spine_end :: "nat \<Rightarrow> spine \<Rightarrow> nat" where
  "spine_end s ps = last (s # map fst ps)"

fun rjoin :: "spine \<Rightarrow> nat tree \<Rightarrow> nat tree" where
  "rjoin [] X = X"
| "rjoin ((p, T) # ps) X = Node T p (rjoin ps X)"

fun ljoin :: "spine \<Rightarrow> nat tree \<Rightarrow> nat tree" where
  "ljoin [] X = X"
| "ljoin ((p, T) # ps) X = Node (ljoin ps X) p T"

text \<open>The cells of a spine, in the order of their keys.\<close>

fun rcells :: "spine \<Rightarrow> nat list" where
  "rcells [] = []"
| "rcells ((p, T) # ps) = inorder T @ p # rcells ps"

fun lcells :: "spine \<Rightarrow> nat list" where
  "lcells [] = []"
| "lcells ((p, T) # ps) = lcells ps @ p # inorder T"

lemma spine_end_simps [simp]: "spine_end s [] = s" "spine_end s ((p, T) # ps) = spine_end p ps" "spine_end s (ps @ [(p, T)]) = p"
  by (simp_all add: spine_end_def)

lemma spine_end_rcells: "spine_end s ps = s \<or> spine_end s ps \<in> set (rcells ps)"
proof (induction ps arbitrary: s)
  case (Cons e ps)
  then show ?case using Cons.IH [of "fst e"] by (cases e) auto
qed simp

lemma spine_end_lcells: "spine_end s ps = s \<or> spine_end s ps \<in> set (lcells ps)"
proof (induction ps arbitrary: s)
  case (Cons e ps)
  then show ?case using Cons.IH [of "fst e"] by (cases e) auto
qed simp

lemma inorder_joins [simp]: "inorder (rjoin ps X) = rcells ps @ inorder X" "inorder (ljoin ps X) = inorder X @ lcells ps"
  by (induction ps) auto

lemma cells_append [simp]: "rcells (ps @ qs) = rcells ps @ rcells qs" "lcells (ps @ qs) = lcells qs @ lcells ps"
  by (induction ps) auto

lemma rspine_frame:
  "rc (ns' ! s) = rc (ns ! s) \<Longrightarrow> \<forall>q \<in> set (rcells ps). ns' ! q = ns ! q \<Longrightarrow> length ns' = length ns
     \<Longrightarrow> rspine ns' s ps = rspine ns s ps"
proof (induction ps arbitrary: s)
  case (Cons e ps)
  obtain p T where e: "e = (p, T)" by fastforce
  have "points ns' (lc (ns ! p)) T = points ns (lc (ns ! p)) T"
    using Cons.prems by (intro points_frame) (auto simp: e)
  moreover have "rspine ns' p ps = rspine ns p ps" using Cons by (auto simp: e)
  ultimately show ?case using Cons.prems by (auto simp: e)
qed simp

lemma lspine_frame:
  "lc (ns' ! s) = lc (ns ! s) \<Longrightarrow> \<forall>q \<in> set (lcells ps). ns' ! q = ns ! q \<Longrightarrow> length ns' = length ns
     \<Longrightarrow> lspine ns' s ps = lspine ns s ps"
proof (induction ps arbitrary: s)
  case (Cons e ps)
  obtain p T where e: "e = (p, T)" by fastforce
  have "points ns' (rc (ns ! p)) T = points ns (rc (ns ! p)) T"
    using Cons.prems by (intro points_frame) (auto simp: e)
  moreover have "lspine ns' p ps = lspine ns p ps" using Cons by (auto simp: e)
  ultimately show ?case using Cons.prems by (auto simp: e)
qed simp

text \<open>Linking a node at the end of a spine, and a tree.\<close>

lemma rspine_snoc:
  assumes "rspine ns s ps" "distinct (s # rcells ps)" "s < length ns" "t \<notin> set (s # rcells ps)" "t \<noteq> 0" "t < length ns"
    and "points ns (lc (ns ! t)) T" "set_tree T \<inter> set (s # rcells ps) = {}"
  shows "rspine (set_rc (spine_end s ps) t ns) s (ps @ [(t, T)])"
  using assms
proof (induction ps arbitrary: s)
  case Nil
  then show ?case by auto
next
  case (Cons e ps)
  obtain p U where e: "e = (p, U)" by fastforce
  let ?ns = "set_rc (spine_end p ps) t ns"
  have "spine_end p ps \<noteq> s" "spine_end p ps \<notin> set_tree U"
    using spine_end_rcells [of p ps] Cons.prems(2) by (auto simp: e)
  moreover have "rspine ?ns p (ps @ [(t, T)])"
    using Cons.prems by (intro Cons.IH) (auto simp: e)
  ultimately show ?case using Cons.prems(1) by (auto simp: e)
qed

lemma lspine_snoc:
  assumes "lspine ns s ps" "distinct (s # lcells ps)" "s < length ns" "t \<notin> set (s # lcells ps)" "t \<noteq> 0" "t < length ns"
    and "points ns (rc (ns ! t)) T" "set_tree T \<inter> set (s # lcells ps) = {}"
  shows "lspine (set_lc (spine_end s ps) t ns) s (ps @ [(t, T)])"
  using assms
proof (induction ps arbitrary: s)
  case Nil
  then show ?case by auto
next
  case (Cons e ps)
  obtain p U where e: "e = (p, U)" by fastforce
  let ?ns = "set_lc (spine_end p ps) t ns"
  have "spine_end p ps \<noteq> s" "spine_end p ps \<notin> set_tree U"
    using spine_end_lcells [of p ps] Cons.prems(2) by (auto simp: e)
  moreover have "lspine ?ns p (ps @ [(t, T)])"
    using Cons.prems by (intro Cons.IH) (auto simp: e)
  ultimately show ?case using Cons.prems(1) by (auto simp: e)
qed

lemma rspine_join:
  assumes "rspine ns s ps" "distinct (s # rcells ps)" "s < length ns"
    and "points ns x X" "set_tree X \<inter> set (s # rcells ps) = {}"
  shows "points (set_rc (spine_end s ps) x ns) (rc (set_rc (spine_end s ps) x ns ! s)) (rjoin ps X)"
  using assms
proof (induction ps arbitrary: s)
  case (Cons e ps)
  obtain p U where e: "e = (p, U)" by fastforce
  have "spine_end p ps \<noteq> s" "spine_end p ps \<notin> set_tree U"
    using spine_end_rcells [of p ps] Cons.prems(2) by (auto simp: e)
  moreover have "points (set_rc (spine_end p ps) x ns) (rc (set_rc (spine_end p ps) x ns ! p)) (rjoin ps X)"
    using Cons.prems by (intro Cons.IH) (auto simp: e)
  ultimately show ?case using Cons.prems(1) by (auto simp: e)
qed auto

lemma lspine_join:
  assumes "lspine ns s ps" "distinct (s # lcells ps)" "s < length ns"
    and "points ns x X" "set_tree X \<inter> set (s # lcells ps) = {}"
  shows "points (set_lc (spine_end s ps) x ns) (lc (set_lc (spine_end s ps) x ns ! s)) (ljoin ps X)"
  using assms
proof (induction ps arbitrary: s)
  case (Cons e ps)
  obtain p U where e: "e = (p, U)" by fastforce
  have "spine_end p ps \<noteq> s" "spine_end p ps \<notin> set_tree U"
    using spine_end_lcells [of p ps] Cons.prems(2) by (auto simp: e)
  moreover have "points (set_lc (spine_end p ps) x ns) (lc (set_lc (spine_end p ps) x ns ! p)) (ljoin ps X)"
    using Cons.prems by (intro Cons.IH) (auto simp: e)
  ultimately show ?case using Cons.prems(1) by (auto simp: e)
qed auto

lemma spines_set [simp]:
  "q \<notin> set (rcells ps) \<Longrightarrow> rspine (set_lc q x ns) s ps = rspine ns s ps"
  "q \<notin> set (rcells ps) \<Longrightarrow> q \<noteq> s \<Longrightarrow> rspine (set_rc q x ns) s ps = rspine ns s ps"
  "q \<notin> set (lcells ps) \<Longrightarrow> lspine (set_rc q x ns) s ps = lspine ns s ps"
  "q \<notin> set (lcells ps) \<Longrightarrow> q \<noteq> s \<Longrightarrow> lspine (set_lc q x ns) s ps = lspine ns s ps"
proof -
  have cells: "set_lc q x ns ! j = ns ! j" "set_rc q x ns ! j = ns ! j" if "j \<in> set js" "q \<notin> set js" for j js
    using that by (metis set_child_simps(7), metis set_child_simps(8))
  show "q \<notin> set (rcells ps) \<Longrightarrow> rspine (set_lc q x ns) s ps = rspine ns s ps"
    by (rule rspine_frame) (simp_all add: cells(1) [where js = "rcells ps"])
  show "q \<notin> set (rcells ps) \<Longrightarrow> q \<noteq> s \<Longrightarrow> rspine (set_rc q x ns) s ps = rspine ns s ps"
    by (rule rspine_frame) (simp_all add: cells(2) [where js = "rcells ps"])
  show "q \<notin> set (lcells ps) \<Longrightarrow> lspine (set_rc q x ns) s ps = lspine ns s ps"
    by (rule lspine_frame) (simp_all add: cells(2) [where js = "lcells ps"])
  show "q \<notin> set (lcells ps) \<Longrightarrow> q \<noteq> s \<Longrightarrow> lspine (set_lc q x ns) s ps = lspine ns s ps"
    by (rule lspine_frame) (simp_all add: cells(1) [where js = "lcells ps"])
qed

section \<open>The loop\<close>

text \<open>
  A state of the loop on a tree whose cells in order are \<open>cells\<close>: what is left is a tree below \<open>t\<close>, and all that was cut
  off on its left (right) has smaller (larger) keys than the one that is searched.
\<close>

definition splaying ::
  "'k::linorder node list \<Rightarrow> nat list \<Rightarrow> 'k \<Rightarrow> 'k node list \<Rightarrow> spine \<Rightarrow> nat tree \<Rightarrow> spine \<Rightarrow> nat \<Rightarrow> bool" where
  "splaying ns0 cells key ns L T R t \<longleftrightarrow>
     length ns = length ns0 \<and> (\<forall>j. nkey (ns ! j) = nkey (ns0 ! j))
     \<and> (\<forall>j. j \<notin> set (0 # cells) \<longrightarrow> ns ! j = ns0 ! j) \<and> 0 < length ns
     \<and> points ns t T \<and> rspine ns 0 L \<and> lspine ns 0 R
     \<and> cells = rcells L @ inorder T @ lcells R \<and> distinct (0 # cells)
     \<and> (\<forall>p \<in> set (rcells L). nkey (ns ! p) < key) \<and> (\<forall>p \<in> set (lcells R). key < nkey (ns ! p))"

lemma splaying_distinct:
  assumes "splaying ns0 cells key ns L T R t"
  shows "distinct (0 # rcells L)" "distinct (0 # lcells R)" "distinct (inorder T)"
    "set_tree T \<inter> set (0 # rcells L) = {}" "set_tree T \<inter> set (0 # lcells R) = {}" "set (rcells L) \<inter> set (lcells R) = {}"
  using assms by (auto simp: splaying_def)

lemma splaying_step:
  assumes "splaying ns0 cells key ns L T R t" "length ns' = length ns" "\<And>j. nkey (ns' ! j) = nkey (ns ! j)"
    and "\<And>j. j \<notin> set (0 # cells) \<Longrightarrow> ns' ! j = ns ! j" "points ns' t' T'" "rspine ns' 0 L'" "lspine ns' 0 R'"
    and "rcells L' @ inorder T' @ lcells R' = rcells L @ inorder T @ lcells R"
    and "\<And>p. p \<in> set (rcells L') \<Longrightarrow> nkey (ns ! p) < key" "\<And>p. p \<in> set (lcells R') \<Longrightarrow> key < nkey (ns ! p)"
  shows "splaying ns0 cells key ns' L' T' R' t'"
proof -
  have old: "length ns = length ns0" "\<And>j. nkey (ns ! j) = nkey (ns0 ! j)" "\<And>j. j \<notin> set (0 # cells) \<Longrightarrow> ns ! j = ns0 ! j"
      "0 < length ns" "cells = rcells L @ inorder T @ lcells R" "distinct (0 # cells)"
    using assms(1) unfolding splaying_def by blast+
  show ?thesis
    unfolding splaying_def
  proof (intro conjI allI ballI impI)
    show "nkey (ns' ! j) = nkey (ns0 ! j)" for j by (simp only: assms(3) old(2))
    show "ns' ! j = ns0 ! j" if "j \<notin> set (0 # cells)" for j by (simp only: assms(4) [OF that] old(3) [OF that])
    show "nkey (ns' ! p) < key" if "p \<in> set (rcells L')" for p using assms(9) [OF that] by (simp only: assms(3))
    show "key < nkey (ns' ! p)" if "p \<in> set (lcells R')" for p using assms(10) [OF that] by (simp only: assms(3))
  qed (use assms(2,5-8) old(1,4-6) in simp_all)
qed

lemma splaying_parts:
  assumes "splaying ns0 cells key ns L T R t"
  shows "points ns t T" "rspine ns 0 L" "lspine ns 0 R" "cells = rcells L @ inorder T @ lcells R" "0 < length ns"
    "p \<in> set (rcells L) \<Longrightarrow> nkey (ns ! p) < key" "p \<in> set (lcells R) \<Longrightarrow> key < nkey (ns ! p)"
  using assms unfolding splaying_def by blast+

lemma splaying_rotate_right:
  assumes s: "splaying ns0 cells key ns L (Node (Node A q B) t C) R t"
  shows "splaying ns0 cells key (set_rc q t (set_lc t (rc (ns ! q)) ns)) L (Node A q (Node B t C)) R q"
proof -
  note d = splaying_distinct [OF s] and cells = splaying_parts(4) [OF s]
  have parts: "lc (ns ! t) = q" "points ns (lc (ns ! q)) A" "points ns (rc (ns ! q)) B" "points ns (rc (ns ! t)) C" "q \<noteq> 0"
      "t \<noteq> 0" "q < length ns" "t < length ns" "q \<noteq> t" "q \<notin> set_tree A \<union> set_tree B \<union> set_tree C" "t \<notin> set_tree A \<union> set_tree B \<union> set_tree C"
    using splaying_parts(1) [OF s] d(3) by auto
  show ?thesis
  proof (rule splaying_step [OF s])
    show "points (set_rc q t (set_lc t (rc (ns ! q)) ns)) q (Node A q (Node B t C))" using parts(2-11) by simp
    show "rspine (set_rc q t (set_lc t (rc (ns ! q)) ns)) 0 L" using d(4) parts(5,6) splaying_parts(2) [OF s] by simp
    show "lspine (set_rc q t (set_lc t (rc (ns ! q)) ns)) 0 R" using d(5) parts(5,6) splaying_parts(3) [OF s] by simp
    show "set_rc q t (set_lc t (rc (ns ! q)) ns) ! j = ns ! j" if "j \<notin> set (0 # cells)" for j
    proof -
      have "j \<noteq> q" "j \<noteq> t" using that cells by auto
      then show ?thesis by simp
    qed
  qed (use splaying_parts(6,7) [OF s] in auto)
qed

lemma splaying_rotate_left:
  assumes s: "splaying ns0 cells key ns L (Node A t (Node B q C)) R t"
  shows "splaying ns0 cells key (set_lc q t (set_rc t (lc (ns ! q)) ns)) L (Node (Node A t B) q C) R q"
proof -
  note d = splaying_distinct [OF s] and cells = splaying_parts(4) [OF s]
  have parts: "rc (ns ! t) = q" "points ns (lc (ns ! t)) A" "points ns (lc (ns ! q)) B" "points ns (rc (ns ! q)) C" "q \<noteq> 0"
      "t \<noteq> 0" "q < length ns" "t < length ns" "q \<noteq> t" "q \<notin> set_tree A \<union> set_tree B \<union> set_tree C" "t \<notin> set_tree A \<union> set_tree B \<union> set_tree C"
    using splaying_parts(1) [OF s] d(3) by auto
  show ?thesis
  proof (rule splaying_step [OF s])
    show "points (set_lc q t (set_rc t (lc (ns ! q)) ns)) q (Node (Node A t B) q C)" using parts(2-11) by simp
    show "rspine (set_lc q t (set_rc t (lc (ns ! q)) ns)) 0 L" using d(4) parts(5,6) splaying_parts(2) [OF s] by simp
    show "lspine (set_lc q t (set_rc t (lc (ns ! q)) ns)) 0 R" using d(5) parts(5,6) splaying_parts(3) [OF s] by simp
    show "set_lc q t (set_rc t (lc (ns ! q)) ns) ! j = ns ! j" if "j \<notin> set (0 # cells)" for j
    proof -
      have "j \<noteq> q" "j \<noteq> t" using that cells by auto
      then show ?thesis by simp
    qed
  qed (use splaying_parts(6,7) [OF s] in auto)
qed

lemma spine_end_bound:
  "rspine ns s ps \<Longrightarrow> s < length ns \<Longrightarrow> spine_end s ps < length ns"
  "lspine ns s ps \<Longrightarrow> s < length ns \<Longrightarrow> spine_end s ps < length ns"
  by (induction ps arbitrary: s) auto

lemma splaying_link_right:
  assumes s: "splaying ns0 cells key ns L (Node A t C) R t" and "key < nkey (ns ! t)" "\<forall>p \<in> set_tree C. key < nkey (ns ! p)"
  shows "splaying ns0 cells key (set_lc (spine_end 0 R) t ns) L A (R @ [(t, C)]) (lc (ns ! t))"
    and "lc (set_lc (spine_end 0 R) t ns ! t) = lc (ns ! t)" "spine_end 0 R < length ns"
proof -
  note d = splaying_distinct [OF s] and cells = splaying_parts(4) [OF s]
  let ?r = "spine_end 0 R" and ?ns = "set_lc (spine_end 0 R) t ns"
  have parts: "points ns (lc (ns ! t)) A" "points ns (rc (ns ! t)) C" "t \<noteq> 0" "t < length ns"
    using splaying_parts(1) [OF s] by auto
  have r: "?r \<in> set (0 # lcells R)" using spine_end_lcells [of 0 R] by auto
  have "0 \<notin> set_tree A" "0 \<notin> set_tree C" "0 \<notin> set (rcells L)" using d(1,4) by auto
  then have r': "?r \<noteq> t" "?r \<notin> set_tree A" "?r \<notin> set_tree C" "?r \<notin> set (rcells L)"
    using r d(5,6) parts(3) by auto
  show "splaying ns0 cells key ?ns L A (R @ [(t, C)]) (lc (ns ! t))"
  proof (rule splaying_step [OF s])
    show "points ?ns (lc (ns ! t)) A" using parts(1) r' by simp
    show "rspine ?ns 0 L" using splaying_parts(2) [OF s] r' by simp
    show "lspine ?ns 0 (R @ [(t, C)])"
      using parts d by (intro lspine_snoc splaying_parts [OF s]) auto
    show "?ns ! j = ns ! j" if "j \<notin> set (0 # cells)" for j
    proof -
      have "j \<noteq> ?r" using that r cells by auto
      then show ?thesis by simp
    qed
  qed (use splaying_parts(6,7) [OF s] assms(2,3) in auto)
  show "lc (?ns ! t) = lc (ns ! t)" using r' by simp
  show "?r < length ns" by (rule spine_end_bound(2)) (use splaying_parts [OF s] in auto)
qed

lemma splaying_link_left:
  assumes s: "splaying ns0 cells key ns L (Node A t C) R t" and "nkey (ns ! t) < key" "\<forall>p \<in> set_tree A. nkey (ns ! p) < key"
  shows "splaying ns0 cells key (set_rc (spine_end 0 L) t ns) (L @ [(t, A)]) C R (rc (ns ! t))"
    and "rc (set_rc (spine_end 0 L) t ns ! t) = rc (ns ! t)" "spine_end 0 L < length ns"
proof -
  note d = splaying_distinct [OF s] and cells = splaying_parts(4) [OF s]
  let ?l = "spine_end 0 L" and ?ns = "set_rc (spine_end 0 L) t ns"
  have parts: "points ns (lc (ns ! t)) A" "points ns (rc (ns ! t)) C" "t \<noteq> 0" "t < length ns"
    using splaying_parts(1) [OF s] by auto
  have l: "?l \<in> set (0 # rcells L)" using spine_end_rcells [of 0 L] by auto
  have "0 \<notin> set_tree A" "0 \<notin> set_tree C" "0 \<notin> set (lcells R)" using d(2,4) by auto
  then have l': "?l \<noteq> t" "?l \<notin> set_tree A" "?l \<notin> set_tree C" "?l \<notin> set (lcells R)"
    using l d(4,6) parts(3) by auto
  show "splaying ns0 cells key ?ns (L @ [(t, A)]) C R (rc (ns ! t))"
  proof (rule splaying_step [OF s])
    show "points ?ns (rc (ns ! t)) C" using parts(2) l' by simp
    show "lspine ?ns 0 R" using splaying_parts(3) [OF s] l' by simp
    show "rspine ?ns 0 (L @ [(t, A)])"
      using parts d by (intro rspine_snoc splaying_parts [OF s]) auto
    show "?ns ! j = ns ! j" if "j \<notin> set (0 # cells)" for j
    proof -
      have "j \<noteq> ?l" using that l cells by auto
      then show ?thesis by simp
    qed
  qed (use splaying_parts(6,7) [OF s] assms(2,3) in auto)
  show "rc (?ns ! t) = rc (ns ! t)" using l' by simp
  show "?l < length ns" by (rule spine_end_bound(1)) (use splaying_parts [OF s] in auto)
qed

text \<open>Keys in order, and cells inside the bound.\<close>

definition keys_ok :: "nat \<Rightarrow> 'k::linorder node list \<Rightarrow> nat list \<Rightarrow> bool" where
  "keys_ok b ns cells \<longleftrightarrow> sorted_wrt (\<lambda>p q. nkey (ns ! p) < nkey (ns ! q)) cells \<and> (\<forall>p \<in> set (0 # cells). p < b)"

lemma splaying_keys:
  assumes "splaying ns0 cells key ns L T R t" "keys_ok b ns0 cells"
  shows "sorted_wrt (\<lambda>p q. nkey (ns ! p) < nkey (ns ! q)) (inorder T)" "p \<in> set_tree T \<Longrightarrow> p < b"
    "spine_end 0 L < b" "spine_end 0 R < b"
proof -
  have cells: "cells = rcells L @ inorder T @ lcells R" "\<And>j. nkey (ns ! j) = nkey (ns0 ! j)"
    using assms(1) unfolding splaying_def by blast+
  then show "sorted_wrt (\<lambda>p q. nkey (ns ! p) < nkey (ns ! q)) (inorder T)"
    using assms(2) by (simp add: keys_ok_def sorted_wrt_append)
  show "p \<in> set_tree T \<Longrightarrow> p < b" using assms(2) cells(1) by (simp add: keys_ok_def)
  show "spine_end 0 L < b" using spine_end_rcells [of 0 L] assms(2) cells(1) by (auto simp: keys_ok_def)
  show "spine_end 0 R < b" using spine_end_lcells [of 0 R] assms(2) cells(1) by (auto simp: keys_ok_def)
qed

definition splay_ended :: "'k::linorder \<Rightarrow> 'k node list \<Rightarrow> bool \<Rightarrow> nat tree \<Rightarrow> bool" where
  "splay_ended key ns ret T \<longleftrightarrow>
     (case T of
        Leaf \<Rightarrow> False
      | Node A t C \<Rightarrow>
          if ret then nkey (ns ! t) = key
          else (key < nkey (ns ! t) \<and> A = Leaf) \<or> (nkey (ns ! t) < key \<and> C = Leaf))"

lemma splay_loop_ends:
  assumes "splaying ns0 cells key ns L T R t" "keys_ok b ns0 cells" "T \<noteq> Leaf"
  shows "\<exists>ret ns' L' T' R' t'. splay_loop b key ns (spine_end 0 L) (spine_end 0 R) t
      = Some (Inr (ret, ns', spine_end 0 L', spine_end 0 R', t'))
    \<and> splaying ns0 cells key ns' L' T' R' t' \<and> splay_ended key ns' ret T'"
  using assms(1,3)
proof (induction "size T" arbitrary: ns L T R t rule: less_induct)
  case less
  note s = less.prems(1)
  obtain A C where T: "T = Node A t C" using points_root splaying_parts(1) [OF s] less.prems(2) by blast
  note k = splaying_keys [OF s assms(2)]
  have tb: "t < b" using k(2) T by simp
  have kids: "points ns (lc (ns ! t)) A" "points ns (rc (ns ! t)) C" using splaying_parts(1) [OF s] T by simp_all
  have below: "\<forall>p \<in> set_tree A. nkey (ns ! p) < nkey (ns ! t)" and above: "\<forall>p \<in> set_tree C. nkey (ns ! t) < nkey (ns ! p)"
    using k(1) unfolding T by (simp_all add: sorted_wrt_append)
  consider "nkey (ns ! t) > key" | "nkey (ns ! t) < key" | "nkey (ns ! t) = key" by fastforce
  then show ?case
  proof cases
    case 3
    have "splay_loop b key ns (spine_end 0 L) (spine_end 0 R) t = Some (Inr (True, ns, spine_end 0 L, spine_end 0 R, t))"
      using 3 tb by (subst splay_loop.simps) simp
    moreover have "splay_ended key ns True T" using 3 by (simp add: splay_ended_def T)
    ultimately show ?thesis using s by blast
  next
    case 1
    show ?thesis
    proof (cases "A = Leaf")
      case True
      have "splay_loop b key ns (spine_end 0 L) (spine_end 0 R) t = Some (Inr (False, ns, spine_end 0 L, spine_end 0 R, t))"
        using 1 tb kids(1) True by (subst splay_loop.simps) simp
      moreover have "splay_ended key ns False T" using 1 True by (simp add: splay_ended_def T)
      ultimately show ?thesis using s by blast
    next
      case False
      let ?q = "lc (ns ! t)"
      obtain A1 A2 where A: "A = Node A1 ?q A2" using points_root [OF kids(1) False] by blast
      then have q: "?q \<noteq> 0" "?q < b" using kids(1) k(2) T by auto
      show ?thesis
      proof (cases "nkey (ns ! ?q) > key")
        case rotate: True
        let ?ns1 = "set_rc ?q t (set_lc t (rc (ns ! ?q)) ns)"
        have s1: "splaying ns0 cells key ?ns1 L (Node A1 ?q (Node A2 t C)) R ?q"
          using splaying_rotate_right s unfolding T A by blast
        have loop: "splay_loop b key ns (spine_end 0 L) (spine_end 0 R) t =
            (if lc (?ns1 ! ?q) = 0 then Some (Inr (False, ?ns1, spine_end 0 L, spine_end 0 R, ?q))
             else (let ns2 = set_lc (spine_end 0 R) ?q ?ns1 in splay_loop b key ns2 (spine_end 0 L) ?q (lc (ns2 ! ?q))))"
          using 1 tb q rotate k(4) by (subst splay_loop.simps) (simp add: Let_def)
        show ?thesis
        proof (cases "A1 = Leaf")
          case True
          then have "lc (?ns1 ! ?q) = 0" using splaying_parts(1) [OF s1] by simp
          moreover have "splay_ended key ?ns1 False (Node A1 ?q (Node A2 t C))" using rotate True by (simp add: splay_ended_def)
          ultimately show ?thesis using s1 loop by (metis (full_types))
        next
          case A1: False
          then have "lc (?ns1 ! ?q) \<noteq> 0" using splaying_parts(1) [OF s1] points_null [of ?ns1 "lc (?ns1 ! ?q)" A1] by simp
          have right: "\<forall>p \<in> set_tree (Node A2 t C). key < nkey (?ns1 ! p)"
            using rotate 1 above k(1) unfolding T A by (auto simp: sorted_wrt_append intro: less_trans)
          note link = splaying_link_right [OF s1 _ right]
          let ?ns2 = "set_lc (spine_end 0 R) ?q ?ns1"
          have "size A1 < size T" by (simp add: T A)
          from less.hyps [OF this link(1) A1] loop link(2) \<open>lc (?ns1 ! ?q) \<noteq> 0\<close> rotate
          show ?thesis by (simp add: Let_def)
        qed
      next
        case zig: False
        have right: "\<forall>p \<in> set_tree C. key < nkey (ns ! p)" using above 1 less_trans by blast
        note link = splaying_link_right [OF s [unfolded T] 1 right]
        have loop: "splay_loop b key ns (spine_end 0 L) (spine_end 0 R) t =
            (let ns2 = set_lc (spine_end 0 R) t ns in splay_loop b key ns2 (spine_end 0 L) t (lc (ns2 ! t)))"
          using 1 tb q zig k(4) by (subst splay_loop.simps) (simp add: Let_def)
        have "size A < size T" by (simp add: T)
        from less.hyps [OF this link(1) False] loop link(2) show ?thesis by (simp add: Let_def)
      qed
    qed
  next
    case 2
    show ?thesis
    proof (cases "C = Leaf")
      case True
      have "splay_loop b key ns (spine_end 0 L) (spine_end 0 R) t = Some (Inr (False, ns, spine_end 0 L, spine_end 0 R, t))"
        using 2 less_not_sym [OF 2] tb kids(2) True by (subst splay_loop.simps) simp
      moreover have "splay_ended key ns False T" using 2 True by (simp add: splay_ended_def T)
      ultimately show ?thesis using s by blast
    next
      case False
      let ?q = "rc (ns ! t)"
      obtain C1 C2 where C: "C = Node C1 ?q C2" using points_root [OF kids(2) False] by blast
      then have q: "?q \<noteq> 0" "?q < b" using kids(2) k(2) T by auto
      show ?thesis
      proof (cases "nkey (ns ! ?q) < key")
        case rotate: True
        let ?ns1 = "set_lc ?q t (set_rc t (lc (ns ! ?q)) ns)"
        have s1: "splaying ns0 cells key ?ns1 L (Node (Node A t C1) ?q C2) R ?q"
          using splaying_rotate_left s unfolding T C by blast
        have loop: "splay_loop b key ns (spine_end 0 L) (spine_end 0 R) t =
            (if rc (?ns1 ! ?q) = 0 then Some (Inr (False, ?ns1, spine_end 0 L, spine_end 0 R, ?q))
             else (let ns2 = set_rc (spine_end 0 L) ?q ?ns1 in splay_loop b key ns2 ?q (spine_end 0 R) (rc (ns2 ! ?q))))"
          using 2 less_not_sym [OF 2] tb q rotate k(3) by (subst splay_loop.simps) (simp add: Let_def)
        show ?thesis
        proof (cases "C2 = Leaf")
          case True
          then have "rc (?ns1 ! ?q) = 0" using splaying_parts(1) [OF s1] by simp
          moreover have "splay_ended key ?ns1 False (Node (Node A t C1) ?q C2)" using rotate True by (simp add: splay_ended_def)
          ultimately show ?thesis using s1 loop by (metis (full_types))
        next
          case C2: False
          then have "rc (?ns1 ! ?q) \<noteq> 0" using splaying_parts(1) [OF s1] points_null [of ?ns1 "rc (?ns1 ! ?q)" C2] by simp
          have left: "\<forall>p \<in> set_tree (Node A t C1). nkey (?ns1 ! p) < key"
            using rotate 2 below k(1) unfolding T C by (auto simp: sorted_wrt_append intro: less_trans)
          note link = splaying_link_left [OF s1 _ left]
          have "size C2 < size T" by (simp add: T C)
          from less.hyps [OF this link(1) C2] loop link(2) \<open>rc (?ns1 ! ?q) \<noteq> 0\<close> rotate
          show ?thesis by (simp add: Let_def)
        qed
      next
        case zag: False
        have left: "\<forall>p \<in> set_tree A. nkey (ns ! p) < key" using below 2 less_trans by blast
        note link = splaying_link_left [OF s [unfolded T] 2 left]
        have loop: "splay_loop b key ns (spine_end 0 L) (spine_end 0 R) t =
            (let ns2 = set_rc (spine_end 0 L) t ns in splay_loop b key ns2 t (spine_end 0 R) (rc (ns2 ! t)))"
          using 2 less_not_sym [OF 2] tb q zag k(3) by (subst splay_loop.simps) (simp add: Let_def)
        have "size C < size T" by (simp add: T)
        from less.hyps [OF this link(1) False] loop link(2) show ?thesis by (simp add: Let_def)
      qed
    qed
  qed
qed

lemma set_joins [simp]: "set_tree (rjoin ps X) = set (rcells ps) \<union> set_tree X" "set_tree (ljoin ps X) = set (lcells ps) \<union> set_tree X"
  by (induction ps) auto

lemma assemble_points:
  assumes s: "splaying ns0 cells key ns L (Node A t C) R t"
  defines "ns' \<equiv> assemble (spine_end 0 L) (spine_end 0 R) t ns"
  shows "points ns' t (Node (rjoin L A) t (ljoin R C))" "lc (ns' ! 0) = 0" "rc (ns' ! 0) = 0" "length ns' = length ns0"
    "nkey (ns' ! j) = nkey (ns0 ! j)" "j \<notin> set (0 # cells) \<Longrightarrow> ns' ! j = ns0 ! j"
proof -
  note d = splaying_distinct [OF s] and cells = splaying_parts(4) [OF s]
  let ?l = "spine_end 0 L" and ?r = "spine_end 0 R"
  let ?ns1 = "set_rc ?l (lc (ns ! t)) ns"
  let ?ns2 = "set_lc ?r (rc (?ns1 ! t)) ?ns1"
  let ?ns3 = "set_lc t (rc (?ns2 ! 0)) ?ns2"
  let ?ns4 = "set_rc t (lc (?ns3 ! 0)) ?ns3"
  have ns': "ns' = set_rc 0 0 (set_lc 0 0 ?ns4)" by (simp add: ns'_def assemble_def Let_def)
  have parts: "points ns (lc (ns ! t)) A" "points ns (rc (ns ! t)) C" "t \<noteq> 0" "t < length ns" "0 < length ns"
    using splaying_parts(1,5) [OF s] by auto
  have sets: "0 \<notin> set_tree A" "0 \<notin> set_tree C" "0 \<notin> set (rcells L)" "0 \<notin> set (lcells R)" "t \<notin> set_tree A" "t \<notin> set_tree C"
      "t \<notin> set (rcells L)" "t \<notin> set (lcells R)"
    using d parts(3) by auto
  have l: "?l \<in> set (0 # rcells L)" and r: "?r \<in> set (0 # lcells R)"
    using spine_end_rcells [of 0 L] spine_end_lcells [of 0 R] by auto
  have l': "?l \<noteq> t" "?l \<notin> set_tree C" "?l \<notin> set (lcells R)" and r': "?r \<noteq> t" "?r \<notin> set_tree A" "?r \<notin> set (rcells L)"
    using l r d(4-6) sets parts(3) by auto
  have left1: "points ?ns1 (rc (?ns1 ! 0)) (rjoin L A)"
    using d(1,4) parts(1,5) by (intro rspine_join splaying_parts(2) [OF s]) auto
  have "lspine ?ns1 0 R" using splaying_parts(3) [OF s] l'(3) by simp
  moreover have "points ?ns1 (rc (?ns1 ! t)) C" using parts(2) l' by simp
  ultimately have right2: "points ?ns2 (lc (?ns2 ! 0)) (ljoin R C)"
    using d(2,5) parts(5) by (intro lspine_join) auto
  have left2: "points ?ns2 (rc (?ns2 ! 0)) (rjoin L A)" using left1 r' by simp
  have "lc (?ns3 ! 0) = lc (?ns2 ! 0)" using parts(3) by simp
  then show "points ns' t (Node (rjoin L A) t (ljoin R C))"
    using left2 right2 sets parts(3,4) unfolding ns' by simp
  show "lc (ns' ! 0) = 0" "rc (ns' ! 0) = 0" using parts(5) unfolding ns' by simp_all
  have old: "length ns = length ns0" "\<And>j. nkey (ns ! j) = nkey (ns0 ! j)" "\<And>j. j \<notin> set (0 # cells) \<Longrightarrow> ns ! j = ns0 ! j"
    using s unfolding splaying_def by blast+
  show "length ns' = length ns0" by (simp add: ns' old(1))
  show "nkey (ns' ! j) = nkey (ns0 ! j)" by (simp add: ns' old(2))
  show "ns' ! j = ns0 ! j" if "j \<notin> set (0 # cells)"
  proof -
    have "j \<noteq> 0" "j \<noteq> t" "j \<noteq> ?l" "j \<noteq> ?r" using that cells l r by auto
    then show ?thesis using old(3) [OF that] by (simp add: ns')
  qed
qed

text \<open>
  What a splay does to a tree: the cells stay in their order, with the key at the root if it is in the tree, and next to
  a side that holds no key between it and the root otherwise.
\<close>

definition splayed :: "'k::linorder \<Rightarrow> 'k node list \<Rightarrow> bool \<Rightarrow> nat tree \<Rightarrow> bool" where
  "splayed key ns ret T \<longleftrightarrow>
     (case T of
        Leaf \<Rightarrow> \<not> ret
      | Node A t C \<Rightarrow> (ret \<longleftrightarrow> nkey (ns ! t) = key)
          \<and> (\<forall>p \<in> set_tree A. nkey (ns ! p) < key) \<and> (\<forall>p \<in> set_tree C. key < nkey (ns ! p)))"

lemma splay_splays:
  assumes "points ns root T" "distinct (0 # inorder T)" "keys_ok b ns (inorder T)" "0 < length ns" "lc (ns ! 0) = 0" "rc (ns ! 0) = 0"
  shows "\<exists>ret root' T' ns'. splay b key root ns = Some (Inr (ret, root', ns')) \<and> points ns' root' T' \<and> inorder T' = inorder T
    \<and> splayed key ns' ret T' \<and> lc (ns' ! 0) = 0 \<and> rc (ns' ! 0) = 0 \<and> length ns' = length ns
    \<and> (\<forall>j. nkey (ns' ! j) = nkey (ns ! j)) \<and> (\<forall>j. j \<notin> set (0 # inorder T) \<longrightarrow> ns' ! j = ns ! j)"
proof (cases "T = Leaf")
  case True
  then show ?thesis using assms by (intro exI [of _ False] exI [of _ 0] exI [of _ Leaf] exI [of _ ns]) (simp add: splay_def splayed_def)
next
  case False
  have start: "splaying ns (inorder T) key ns [] T [] root" using assms by (simp add: splaying_def)
  obtain ret ns1 L T1 R t where loop: "splay_loop b key ns 0 0 root = Some (Inr (ret, ns1, spine_end 0 L, spine_end 0 R, t))"
      and s: "splaying ns (inorder T) key ns1 L T1 R t" and ended: "splay_ended key ns1 ret T1"
    using splay_loop_ends [OF start assms(3) False] by auto
  obtain A C where T1: "T1 = Node A t C"
    using points_root [OF splaying_parts(1) [OF s]] ended by (auto simp: splay_ended_def split: tree.splits)
  note k = splaying_keys [OF s assms(3)]
  note out = assemble_points [OF s [unfolded T1]]
  let ?ns = "assemble (spine_end 0 L) (spine_end 0 R) t ns1" and ?T = "Node (rjoin L A) t (ljoin R C)"
  have "root \<noteq> 0" using assms(1) False points_null by blast
  then have run: "splay b key root ns = Some (Inr (ret, t, ?ns))"
    using loop k(2) [of t] k(3,4) T1 by (simp add: splay_def not_le)
  have keys: "nkey (?ns ! j) = nkey (ns1 ! j)" for j
    using out(5) s unfolding splaying_def by (metis (no_types))
  have in': "inorder ?T = inorder T" using splaying_parts(4) [OF s] by (simp add: T1)
  have sides: "\<forall>p \<in> set_tree A. nkey (ns1 ! p) < nkey (ns1 ! t)" "\<forall>p \<in> set_tree C. nkey (ns1 ! t) < nkey (ns1 ! p)"
    using k(1) by (simp_all add: T1 sorted_wrt_append)
  have "splayed key ?ns ret ?T"
    using ended sides splaying_parts(6,7) [OF s] unfolding splayed_def splay_ended_def T1
    by (auto simp: keys split: if_splits intro: less_trans)
  then show ?thesis
    using run out(1-6) in' by (intro exI [of _ ret] exI [of _ t] exI [of _ ?T] exI [of _ ?ns] conjI allI impI)
qed

section \<open>The map of keys to cells\<close>

fun free_chain :: "'k node list \<Rightarrow> nat \<Rightarrow> nat list \<Rightarrow> bool" where
  "free_chain ns p [] \<longleftrightarrow> p = 0"
| "free_chain ns p (q # qs) \<longleftrightarrow> p = q \<and> q \<noteq> 0 \<and> free_chain ns (lc (ns ! q)) qs"

lemma free_chain_frame: "\<forall>q \<in> set qs. lc (ns' ! q) = lc (ns ! q) \<Longrightarrow> free_chain ns' p qs = free_chain ns p qs"
  by (induction qs arbitrary: p) auto

text \<open>
  The cells from 1 on are those of the tree and the free ones; \<open>loc\<close> gives the cell of a key.
\<close>

definition shaped :: "('k::linorder, 'v) splay_map \<Rightarrow> nat tree \<Rightarrow> nat list \<Rightarrow> ('k \<Rightarrow> nat option) \<Rightarrow> bool" where
  "shaped m T fs loc \<longleftrightarrow>
     points (k_buff m) (root_ptr m) T \<and> free_chain (k_buff m) (free_ptr m) fs
     \<and> distinct (0 # inorder T @ fs) \<and> set (inorder T @ fs) = {1..t_size m + length fs} \<and> length (inorder T) = t_size m
     \<and> sorted_wrt (\<lambda>p q. nkey (k_buff m ! p) < nkey (k_buff m ! q)) (inorder T)
     \<and> t_size m + length fs < b_size m \<and> b_size m \<le> length (k_buff m) \<and> b_size m = length (v_buff m)
     \<and> lc (k_buff m ! 0) = 0 \<and> rc (k_buff m ! 0) = 0 \<and> 0 < i_size m
     \<and> (\<forall>k p. loc k = Some p \<longleftrightarrow> p \<in> set_tree T \<and> nkey (k_buff m ! p) = k)"

lemma shaped_cells:
  assumes "shaped m T fs loc"
  shows "p \<in> set (inorder T @ fs) \<Longrightarrow> 0 < p \<and> p < b_size m" "distinct (inorder T @ fs)"
proof -
  have "set (inorder T @ fs) = {1..t_size m + length fs}" "t_size m + length fs < b_size m"
    using assms unfolding shaped_def by blast+
  then show "0 < p \<and> p < b_size m" if "p \<in> set (inorder T @ fs)"
    using that by (simp only: atLeastAtMost_iff) linarith
  show "distinct (inorder T @ fs)" using assms by (simp add: shaped_def)
qed

lemma shaped_keys_ok: "shaped m T fs loc \<Longrightarrow> keys_ok (b_size m) (k_buff m) (inorder T)"
proof -
  assume m: "shaped m T fs loc"
  have "p < b_size m" if "p \<in> set (0 # inorder T)" for p
    using that shaped_cells(1) [OF m, of p] m unfolding shaped_def by fastforce
  then show ?thesis using m unfolding keys_ok_def shaped_def by blast
qed

lemma keys_differ:
  "sorted_wrt (\<lambda>p q. nkey (ns ! p) < (nkey (ns ! q) :: 'k::linorder)) ps \<Longrightarrow> p \<in> set ps \<Longrightarrow> q \<in> set ps \<Longrightarrow> p \<noteq> q
     \<Longrightarrow> nkey (ns ! p) \<noteq> nkey (ns ! q)"
  by (induction ps) auto

lemma splayed_finds:
  assumes "splayed key ns ret T" "points ns root T" "T \<noteq> Leaf"
  shows "ret \<longleftrightarrow> (\<exists>p \<in> set_tree T. nkey (ns ! p) = key)" "ret \<Longrightarrow> nkey (ns ! root) = key \<and> root \<in> set_tree T"
  using assms points_root [OF assms(2,3)] by (auto simp: splayed_def)

lemma splay_shaped:
  assumes m: "shaped m T fs loc"
  shows "\<exists>ret root T' ns. splay (b_size m) key (root_ptr m) (k_buff m) = Some (Inr (ret, root, ns))
    \<and> shaped (m\<lparr>root_ptr := root, k_buff := ns\<rparr>) T' fs loc \<and> splayed key ns ret T' \<and> inorder T' = inorder T
    \<and> (ret \<longleftrightarrow> loc key \<noteq> None) \<and> (ret \<longrightarrow> loc key = Some root)"
proof -
  have start: "points (k_buff m) (root_ptr m) T" "distinct (0 # inorder T)" "0 < length (k_buff m)" "lc (k_buff m ! 0) = 0"
      "rc (k_buff m ! 0) = 0"
    using m by (auto simp: shaped_def)
  obtain ret root T' ns where run: "splay (b_size m) key (root_ptr m) (k_buff m) = Some (Inr (ret, root, ns))"
      and T': "points ns root T'" "inorder T' = inorder T" "splayed key ns ret T'" "lc (ns ! 0) = 0" "rc (ns ! 0) = 0"
      "length ns = length (k_buff m)" "\<And>j. nkey (ns ! j) = nkey (k_buff m ! j)"
      "\<And>j. j \<notin> set (0 # inorder T) \<Longrightarrow> ns ! j = k_buff m ! j"
    using splay_splays [OF start(1,2) shaped_keys_ok [OF m] start(3-5), of key] by blast
  have free: "free_chain ns (free_ptr m) fs"
  proof -
    have "q \<notin> set (0 # inorder T)" if "q \<in> set fs" for q
      using shaped_cells [OF m] that by (auto simp del: set_inorder)
    then have "\<forall>q \<in> set fs. ns ! q = k_buff m ! q" using T'(8) by blast
    then show ?thesis using m free_chain_frame [of fs ns "k_buff m" "free_ptr m"] by (simp add: shaped_def)
  qed
  have set': "set_tree T' = set_tree T" using arg_cong [OF T'(2), of set] by simp
  have shape: "shaped (m\<lparr>root_ptr := root, k_buff := ns\<rparr>) T' fs loc"
    using m T'(1,2,4-7) free set' unfolding shaped_def by simp
  have loc: "loc k = Some p \<longleftrightarrow> p \<in> set_tree T' \<and> nkey (ns ! p) = k" for k p
    using shape by (simp add: shaped_def)
  have "(ret \<longleftrightarrow> loc key \<noteq> None) \<and> (ret \<longrightarrow> loc key = Some root)"
  proof (cases "T' = Leaf")
    case True
    have "loc key = None"
    proof (cases "loc key")
      case (Some p)
      then show ?thesis using loc [of key p] True by simp
    qed simp
    then show ?thesis using T'(3) True by (simp add: splayed_def)
  next
    case False
    note found = splayed_finds [OF T'(3,1) False]
    show ?thesis
    proof (intro conjI iffI impI)
      show "loc key \<noteq> None" if ret
      proof -
        from found(1) that obtain p where "p \<in> set_tree T'" "nkey (ns ! p) = key" by blast
        then show ?thesis using loc [of key p] by simp
      qed
      show ret if "loc key \<noteq> None" using that loc found(1) by blast
      show "loc key = Some root" if ret using found(2) [OF that] loc by blast
    qed
  qed
  then show ?thesis using run shape T'(2,3) by blast
qed

text \<open>A fresh cell.\<close>

lemma next_free_shaped:
  assumes m: "shaped m T fs loc" and room: "t_size m + 1 < b_size m"
  shows "\<exists>n f fs'. next_free_node (m\<lparr>t_size := t_size m + 1\<rparr>) = Inr (n, m\<lparr>t_size := t_size m + 1, free_ptr := f\<rparr>)
    \<and> free_chain (k_buff m) f fs' \<and> distinct (0 # n # inorder T @ fs') \<and> set (n # inorder T @ fs') = {1..t_size m + 1 + length fs'}
    \<and> t_size m + 1 + length fs' < b_size m \<and> n < b_size m"
proof (cases fs)
  case Nil
  have "free_ptr m = 0" "set (inorder T) = {1..t_size m}" "distinct (0 # inorder T)" using m Nil by (simp_all add: shaped_def)
  then show ?thesis using room Nil
    by (intro exI [of _ "t_size m + 1"] exI [of _ 0] exI [of _ "[]"])
      (auto simp: next_free_node_def Let_def)
next
  case (Cons n qs)
  have fs: "free_ptr m = n" "n \<noteq> 0" "free_chain (k_buff m) (lc (k_buff m ! n)) qs"
      "distinct (0 # inorder T @ n # qs)" "set (inorder T @ n # qs) = {1..t_size m + Suc (length qs)}"
      "t_size m + Suc (length qs) < b_size m"
    using m Cons by (simp_all add: shaped_def)
  have "n \<in> {1..t_size m + Suc (length qs)}" using fs(5) by auto
  then have "n < b_size m" using fs(6) by simp
  then show ?thesis using fs
    by (intro exI [of _ n] exI [of _ "lc (k_buff m ! n)"] exI [of _ qs]) (auto simp: next_free_node_def Let_def)
qed

lemma add_root_shaped:
  fixes m :: "('k::linorder, 'v) splay_map"
  assumes m: "shaped m T fs loc" and room: "t_size m + 1 < b_size m" and nd: "nkey nd = key"
    and link: "\<And>ns. length (link ns) = length ns" "\<And>ns j. nkey (link ns ! j) = nkey (ns ! j)"
      "\<And>ns j. j \<notin> set_tree T \<Longrightarrow> link ns ! j = ns ! j"
    and tree: "\<And>ns n. points ns (root_ptr m) T \<Longrightarrow> n \<notin> set (0 # inorder T) \<Longrightarrow> n < length ns \<Longrightarrow> ns ! n = nd
      \<Longrightarrow> \<forall>j \<in> set_tree T. ns ! j = k_buff m ! j \<Longrightarrow> points (link ns) n (T' n)"
    and order: "\<And>n. inorder (T' n) = xs @ n # ys" "inorder T = xs @ ys" "\<forall>p \<in> set xs. nkey (k_buff m ! p) < key"
      "\<forall>p \<in> set ys. key < nkey (k_buff m ! p)"
  shows "\<exists>n m' fs'. add_root nd val link (m\<lparr>t_size := t_size m + 1\<rparr>) = Inr (Some n, m')
    \<and> shaped m' (T' n) fs' (loc(key \<mapsto> n)) \<and> v_buff m' = (v_buff m)[n := val] \<and> n < b_size m \<and> n \<notin> set_tree T
    \<and> root_ptr m' = n \<and> loc key = None"
proof -
  obtain n f fs' where free: "next_free_node (m\<lparr>t_size := t_size m + 1\<rparr>) = Inr (n, m\<lparr>t_size := t_size m + 1, free_ptr := f\<rparr>)"
      "free_chain (k_buff m) f fs'" "distinct (0 # n # inorder T @ fs')" "set (n # inorder T @ fs') = {1..t_size m + 1 + length fs'}"
      "t_size m + 1 + length fs' < b_size m" "n < b_size m"
    using next_free_shaped [OF m room] by blast
  let ?ns = "(k_buff m)[n := nd]"
  define m' where "m' = m\<lparr>t_size := t_size m + 1, free_ptr := f, k_buff := link ?ns, v_buff := (v_buff m)[n := val], root_ptr := n\<rparr>"
  have run: "add_root nd val link (m\<lparr>t_size := t_size m + 1\<rparr>) = Inr (Some n, m')"
    using free(1,6) by (simp add: add_root_def m'_def)
  have old: "points (k_buff m) (root_ptr m) T" "b_size m \<le> length (k_buff m)" "b_size m = length (v_buff m)" "lc (k_buff m ! 0) = 0"
      "rc (k_buff m ! 0) = 0" "length (inorder T) = t_size m" "0 < i_size m"
      "sorted_wrt (\<lambda>p q. nkey (k_buff m ! p) < nkey (k_buff m ! q)) (inorder T)"
      "\<And>k p. loc k = Some p \<longleftrightarrow> p \<in> set_tree T \<and> nkey (k_buff m ! p) = k"
    using m unfolding shaped_def by blast+
  have n: "n \<notin> set (0 # inorder T)" "n \<notin> set fs'" "n < length (k_buff m)" "\<forall>p \<in> set fs'. p \<notin> set (0 # inorder T)"
    using free(3,6) old(2) by auto
  have same: "?ns ! j = k_buff m ! j" if "j \<noteq> n" for j using that by simp
  have sameT: "?ns ! j = k_buff m ! j" if "j \<in> set_tree T" for j using that n(1) by (intro same) auto
  have keys: "nkey (link ?ns ! j) = nkey (k_buff m ! j)" if "j \<noteq> n" for j using link(2) same [OF that] by simp
  have nkey: "nkey (link ?ns ! n) = key" using link(2) n(3) nd by simp
  have "points ?ns (root_ptr m) T = points (k_buff m) (root_ptr m) T"
    by (intro points_frame) (simp_all add: sameT)
  then have points: "points (link ?ns) n (T' n)"
    using old(1) n(1,3) by (intro tree) (simp_all add: sameT)
  have "set_tree T = set xs \<union> set ys" using arg_cong [OF order(2), of set] by simp
  then have xs: "p \<noteq> n" if "p \<in> set xs \<union> set ys" for p using n(1) that by auto
  have cells: "set_tree (T' n) = insert n (set_tree T)" using arg_cong [OF order(1) [of n], of set] arg_cong [OF order(2), of set] by auto
  have fresh: "loc key = None"
  proof (cases "loc key")
    case (Some p)
    then have "p \<in> set xs \<union> set ys" "nkey (k_buff m ! p) = key" using old(9) \<open>set_tree T = _\<close> by auto
    then show ?thesis using order(3,4) by auto
  qed simp
  have "shaped m' (T' n) fs' (loc(key \<mapsto> n))"
    unfolding shaped_def
  proof (intro conjI allI)
    show "points (k_buff m') (root_ptr m') (T' n)" using points by (simp add: m'_def)
    show "free_chain (k_buff m') (free_ptr m') fs'"
    proof -
      have "\<forall>q \<in> set fs'. lc (link ?ns ! q) = lc (k_buff m ! q)"
        using n(2,4) by (metis (no_types, lifting) link(3) list.set_intros(2) same set_inorder)
      then show ?thesis using free(2) free_chain_frame [of fs' "link ?ns" "k_buff m" f] by (simp add: m'_def)
    qed
    show "distinct (0 # inorder (T' n) @ fs')" using free(3) by (auto simp: order)
    show "set (inorder (T' n) @ fs') = {1..t_size m' + length fs'}"
      using free(4) unfolding order by (auto simp: m'_def)
    show "length (inorder (T' n)) = t_size m'" using old(6) by (simp add: order m'_def)
    show "sorted_wrt (\<lambda>p q. nkey (k_buff m' ! p) < nkey (k_buff m' ! q)) (inorder (T' n))"
    proof -
      have "sorted_wrt (\<lambda>p q. nkey (link ?ns ! p) < nkey (link ?ns ! q)) (xs @ ys)"
        using old(8) unfolding order(2) by (rule sorted_wrt_mono_rel [rotated]) (use keys xs in auto)
      then show ?thesis
        using order(3,4) keys nkey xs by (auto simp: order m'_def sorted_wrt_append)
    qed
    show "lc (k_buff m' ! 0) = 0" "rc (k_buff m' ! 0) = 0"
    proof -
      have "link ?ns ! 0 = k_buff m ! 0" using link(3) [of 0 ?ns] points_bound [OF old(1), of 0] n(1) same [of 0] by auto
      then show "lc (k_buff m' ! 0) = 0" "rc (k_buff m' ! 0) = 0" using old(4,5) by (simp_all add: m'_def)
    qed
    show "((loc(key \<mapsto> n)) k = Some p) = (p \<in> set_tree (T' n) \<and> nkey (k_buff m' ! p) = k)" for k p
    proof (cases "p = n")
      case True
      then show ?thesis using nkey n(1) old(9) [of k n] by (auto simp: cells m'_def)
    next
      case False
      then show ?thesis using keys [OF False] old(9) [of k p] fresh by (auto simp: cells m'_def)
    qed
  qed (use free(5) old(2,3,7) link(1) in \<open>simp_all add: m'_def\<close>)
  then show ?thesis using run free(6) n(1) fresh by (auto simp: m'_def)
qed

text \<open>Growing keeps the cells.\<close>

lemma shaped_regrown:
  fixes m :: "('k::linorder, 'v) splay_map"
  assumes m: "shaped m T fs loc"
    and m': "root_ptr m' = root_ptr m" "free_ptr m' = free_ptr m" "t_size m' = t_size m" "i_size m' = i_size m"
      "b_size m \<le> b_size m'" "b_size m' \<le> length (k_buff m')" "b_size m' = length (v_buff m')"
      "\<And>j. j < b_size m \<Longrightarrow> k_buff m' ! j = k_buff m ! j"
  shows "shaped m' T fs loc"
proof -
  note cells = shaped_cells [OF m]
  have same: "k_buff m' ! p = k_buff m ! p" if "p \<in> set (inorder T @ fs)" for p using cells(1) [OF that] m'(8) by blast
  have old: "points (k_buff m) (root_ptr m) T" "free_chain (k_buff m) (free_ptr m) fs"
      "sorted_wrt (\<lambda>p q. nkey (k_buff m ! p) < nkey (k_buff m ! q)) (inorder T)" "t_size m + length fs < b_size m"
      "\<And>k p. loc k = Some p \<longleftrightarrow> p \<in> set_tree T \<and> nkey (k_buff m ! p) = k"
    using m unfolding shaped_def by blast+
  have points: "points ns' p U = points ns p U"
    if "\<forall>q \<in> set_tree U. ns' ! q = ns ! q \<and> q < length ns \<and> q < length ns'" for ns' ns :: "'k node list" and p U
    using that by (induction U arbitrary: p) auto
  have blen: "b_size m \<le> length (k_buff m)" using m unfolding shaped_def by blast
  have inside: "\<forall>q \<in> set_tree T. q < b_size m" using cells(1) by simp
  have "points (k_buff m') (root_ptr m) T"
    using old(1) points [of T "k_buff m'" "k_buff m" "root_ptr m"] same inside blen m'(5,6) by fastforce
  moreover have "free_chain (k_buff m') (free_ptr m) fs"
    using old(2) free_chain_frame [of fs "k_buff m'" "k_buff m"] same by simp
  moreover have "sorted_wrt (\<lambda>p q. nkey (k_buff m' ! p) < nkey (k_buff m' ! q)) (inorder T)"
    using old(3) by (rule sorted_wrt_mono_rel [rotated]) (use same in simp)
  moreover have "loc k = Some p \<longleftrightarrow> p \<in> set_tree T \<and> nkey (k_buff m' ! p) = k" for k p
    using old(5) [of k p] same [of p] by auto
  moreover have "k_buff m' ! 0 = k_buff m ! 0" using m'(8) old(4) by simp
  ultimately show ?thesis using m m' old(4) unfolding shaped_def by simp
qed

lemma reallocate_memory_shaped:
  assumes m: "shaped m T fs loc"
    and fit: "fits_u32 (16 + (b_size m + i_size m) * node_bytes lay)" "fits_u32 ((b_size m + i_size m) * val_bytes lay)"
  shows "\<exists>m' granted. reallocate_memory lay grant False m = Inr (granted, m') \<and> shaped m' T fs loc \<and> t_size m' = t_size m
    \<and> (granted \<longleftrightarrow> grant = (True, True)) \<and> (granted \<longrightarrow> b_size m' = b_size m + i_size m)
    \<and> (\<forall>p < b_size m. v_buff m' ! p = v_buff m ! p)"
proof -
  define k where "k = take (b_size m) (k_buff m) @ replicate (i_size m) (zero_node lay)"
  define v where "v = take (b_size m) (v_buff m) @ replicate (i_size m) (zero_val lay)"
  have len: "b_size m \<le> length (k_buff m)" "b_size m = length (v_buff m)" using m unfolding shaped_def by blast+
  have kv: "length k = b_size m + i_size m" "length v = b_size m + i_size m" "\<And>j. j < b_size m \<Longrightarrow> k ! j = k_buff m ! j"
      "\<And>j. j < b_size m \<Longrightarrow> v ! j = v_buff m ! j"
    using len by (simp_all add: k_def v_def nth_append)
  let ?m1 = "m\<lparr>k_buff := k\<rparr>" and ?m2 = "m\<lparr>k_buff := k, b_size := b_size m + i_size m, v_buff := v\<rparr>"
  have s: "shaped ?m1 T fs loc" "shaped ?m2 T fs loc" using kv len by (auto intro!: shaped_regrown [OF m])
  have run: "reallocate_memory lay grant False m
      = Inr (if fst grant then if snd grant then (True, ?m2) else (False, ?m1) else (False, m))"
    using fit by (simp add: reallocate_memory_def Let_def k_def v_def)
  show ?thesis
    using run s m kv(4) by (cases grant) (auto split: if_splits)
qed

text \<open>The map that is meant.\<close>

definition values_at :: "('k, 'v) splay_map \<Rightarrow> ('k \<Rightarrow> nat option) \<Rightarrow> 'k \<Rightarrow> 'v option" where
  "values_at m loc k = map_option (nth (v_buff m)) (loc k)"

definition may_grow :: "('k, 'v) layout \<Rightarrow> ('k, 'v) splay_map \<Rightarrow> bool" where
  "may_grow lay m \<longleftrightarrow> fits_u32 (16 + (b_size m + i_size m) * node_bytes lay) \<and> fits_u32 ((b_size m + i_size m) * val_bytes lay)"

lemma shaped_loc:
  assumes m: "shaped m T fs loc" and k: "loc k = Some p"
  shows "p \<in> set_tree T \<and> nkey (k_buff m ! p) = k \<and> p < b_size m \<and> p \<noteq> 0"
proof -
  have "p \<in> set_tree T \<and> nkey (k_buff m ! p) = k" using m k unfolding shaped_def by blast
  then show ?thesis using shaped_cells(1) [OF m, of p] by simp
qed

lemma shaped_inj: "shaped m T fs loc \<Longrightarrow> loc k = Some p \<Longrightarrow> loc k' = Some p \<Longrightarrow> k = k'"
  using shaped_loc [of m T fs loc k p] shaped_loc [of m T fs loc k' p] by (metis (full_types))
text \<open>Inserting where there is room.\<close>

definition insert_here ::
  "'k::linorder \<Rightarrow> 'v \<Rightarrow> ('k, 'v) splay_map \<Rightarrow> (fault + (nat option \<times> ('k, 'v) splay_map)) option" where
  "insert_here key val m =
     (if root_ptr m = 0
      then Some (add_root \<lparr>nkey = key, lc = 0, rc = 0\<rparr> val id (m\<lparr>t_size := 1\<rparr>))
      else splay_root key m (\<lambda>ret m.
        let root = root_ptr m; nd = k_buff m ! root
        in if ret then Some (Inr (Some root, m\<lparr>v_buff := (v_buff m)[root := val]\<rparr>))
           else if nkey nd > key
           then Some (add_root \<lparr>nkey = key, lc = lc nd, rc = root\<rparr> val (set_lc root 0) (m\<lparr>t_size := t_size m + 1\<rparr>))
           else Some (add_root \<lparr>nkey = key, lc = root, rc = rc nd\<rparr> val (set_rc root 0) (m\<lparr>t_size := t_size m + 1\<rparr>))))"

lemma insert_here_shaped:
  assumes m: "shaped m T fs loc" and room: "t_size m + 1 < b_size m"
  shows "\<exists>n m' T' fs'. insert_here key val m = Some (Inr (Some n, m')) \<and> shaped m' T' fs' (loc(key \<mapsto> n))
    \<and> v_buff m' = (v_buff m)[n := val] \<and> n < b_size m \<and> (\<forall>p. loc key = Some p \<longrightarrow> n = p)
    \<and> (\<forall>k. k \<noteq> key \<longrightarrow> loc k \<noteq> Some n) \<and> root_ptr m' = n"
proof (cases "root_ptr m = 0")
  case True
  have "points (k_buff m) 0 T" "length (inorder T) = t_size m" using m True unfolding shaped_def by metis+
  then have T: "T = Leaf" "t_size m = 0" using points_null by force+
  have "\<exists>n m' fs'. add_root \<lparr>nkey = key, lc = 0, rc = 0\<rparr> val id (m\<lparr>t_size := t_size m + 1\<rparr>) = Inr (Some n, m')
    \<and> shaped m' (Node Leaf n Leaf) fs' (loc(key \<mapsto> n)) \<and> v_buff m' = (v_buff m)[n := val] \<and> n < b_size m \<and> n \<notin> set_tree T
    \<and> root_ptr m' = n \<and> loc key = None"
    by (rule add_root_shaped [OF m room, where xs = "[]" and ys = "[]"]) (use T in auto)
  then show ?thesis using True T shaped_loc [OF m] by (force simp: insert_here_def)
next
  case False
  obtain ret root T' ns where s: "splay (b_size m) key (root_ptr m) (k_buff m) = Some (Inr (ret, root, ns))"
      "shaped (m\<lparr>root_ptr := root, k_buff := ns\<rparr>) T' fs loc" "splayed key ns ret T'"
      "ret \<longleftrightarrow> loc key \<noteq> None" "ret \<longrightarrow> loc key = Some root" "inorder T' = inorder T"
    using splay_shaped [OF m] by blast
  let ?m = "m\<lparr>root_ptr := root, k_buff := ns\<rparr>"
  have "points (k_buff m) (root_ptr m) T" using m unfolding shaped_def by blast
  then have "T' \<noteq> Leaf" using False points_null s(6) by (metis inorder.simps(1) inorder.simps(2) append_is_Nil_conv neq_Leaf_iff list.distinct(1))
  moreover have points': "points ns root T'" using s(2) by (simp add: shaped_def)
  ultimately obtain A C where T': "T' = Node A root C" using points_root by blast
  have sides: "\<forall>p \<in> set_tree A. nkey (ns ! p) < key" "\<forall>p \<in> set_tree C. key < nkey (ns ! p)" "ret \<longleftrightarrow> nkey (ns ! root) = key"
    using s(3) by (auto simp: splayed_def T')
  have d: "root \<notin> set_tree A" "root \<notin> set_tree C" "root \<noteq> 0" "root < length ns"
    using shaped_cells(2) [OF s(2)] points' by (simp_all add: T')
  have run: "insert_here key val m =
     (if ret then Some (Inr (Some root, ?m\<lparr>v_buff := (v_buff m)[root := val]\<rparr>))
      else if nkey (ns ! root) > key
      then Some (add_root \<lparr>nkey = key, lc = lc (ns ! root), rc = root\<rparr> val (set_lc root 0) (?m\<lparr>t_size := t_size ?m + 1\<rparr>))
      else Some (add_root \<lparr>nkey = key, lc = root, rc = rc (ns ! root)\<rparr> val (set_rc root 0) (?m\<lparr>t_size := t_size ?m + 1\<rparr>)))"
    using False s(1) by (simp add: insert_here_def splay_root_def Let_def)
  have room': "t_size ?m + 1 < b_size ?m" using room by simp
  consider ret | "\<not> ret" "nkey (ns ! root) > key" | "\<not> ret" "nkey (ns ! root) < key" using sides(3) by fastforce
  then show ?thesis
  proof cases
    case 1
    have loc: "loc key = Some root" using s(5) 1 by simp
    let ?m' = "?m\<lparr>v_buff := (v_buff m)[root := val]\<rparr>"
    have same: "loc(key \<mapsto> root) = loc" using loc by (simp add: fun_upd_idem)
    have "shaped ?m' T' fs (loc(key \<mapsto> root))" using s(2) unfolding same by (simp add: shaped_def)
    moreover have "insert_here key val m = Some (Inr (Some root, ?m'))" using run 1 by simp
    moreover have "root < b_size m" using shaped_loc [OF m loc] by blast
    moreover have "\<forall>p. loc key = Some p \<longrightarrow> root = p" using loc by simp
    moreover have "\<forall>k. k \<noteq> key \<longrightarrow> loc k \<noteq> Some root" using shaped_inj [OF m loc] by blast
    ultimately show ?thesis
      by (intro exI [of _ root] exI [of _ ?m'] exI [of _ T'] exI [of _ fs] conjI) (assumption | simp)+
  next
    case 2
    have "\<exists>n m' fs'. add_root \<lparr>nkey = key, lc = lc (ns ! root), rc = root\<rparr> val (set_lc root 0) (?m\<lparr>t_size := t_size ?m + 1\<rparr>)
        = Inr (Some n, m')
      \<and> shaped m' (Node A n (Node Leaf root C)) fs' (loc(key \<mapsto> n)) \<and> v_buff m' = (v_buff ?m)[n := val] \<and> n < b_size ?m
      \<and> n \<notin> set_tree T' \<and> root_ptr m' = n \<and> loc key = None"
    proof (rule add_root_shaped [OF s(2) room', where xs = "inorder A" and ys = "root # inorder C"])
      show "points (set_lc root 0 ns') n (Node A n (Node Leaf root C))"
        if "points ns' (root_ptr ?m) T'" "n \<notin> set (0 # inorder T')" "n < length ns'" "ns' ! n = \<lparr>nkey = key, lc = lc (ns ! root), rc = root\<rparr>"
          "\<forall>j \<in> set_tree T'. ns' ! j = k_buff ?m ! j" for ns' n
        using that d by (auto simp: T')
    qed (use 2 sides in \<open>auto simp: T'\<close>)
    then show ?thesis using run 2 shaped_loc [OF s(2)] by simp (metis option.distinct(1))
  next
    case 3
    have "\<exists>n m' fs'. add_root \<lparr>nkey = key, lc = root, rc = rc (ns ! root)\<rparr> val (set_rc root 0) (?m\<lparr>t_size := t_size ?m + 1\<rparr>)
        = Inr (Some n, m')
      \<and> shaped m' (Node (Node A root Leaf) n C) fs' (loc(key \<mapsto> n)) \<and> v_buff m' = (v_buff ?m)[n := val] \<and> n < b_size ?m
      \<and> n \<notin> set_tree T' \<and> root_ptr m' = n \<and> loc key = None"
    proof (rule add_root_shaped [OF s(2) room', where xs = "inorder A @ [root]" and ys = "inorder C"])
      show "points (set_rc root 0 ns') n (Node (Node A root Leaf) n C)"
        if "points ns' (root_ptr ?m) T'" "n \<notin> set (0 # inorder T')" "n < length ns'" "ns' ! n = \<lparr>nkey = key, lc = root, rc = rc (ns ! root)\<rparr>"
          "\<forall>j \<in> set_tree T'. ns' ! j = k_buff ?m ! j" for ns' n
        using that d by (auto simp: T')
    qed (use 3 sides in \<open>auto simp: T'\<close>)
    then show ?thesis using run 3 less_not_sym [OF 3(2)] shaped_loc [OF s(2)] by simp (metis option.distinct(1))
  qed
qed

definition represents :: "('k::linorder, 'v) splay_map \<Rightarrow> ('k \<Rightarrow> 'v option) \<Rightarrow> bool" where
  "represents m M \<longleftrightarrow> (\<exists>T fs loc. shaped m T fs loc \<and> M = values_at m loc)"

lemma representsI: "shaped m T fs loc \<Longrightarrow> (\<And>k. M k = map_option (nth (v_buff m)) (loc k)) \<Longrightarrow> represents m M"
  unfolding represents_def values_at_def by blast

lemma representsE:
  assumes "represents m M"
  obtains T fs loc where "shaped m T fs loc" "\<And>k. M k = map_option (nth (v_buff m)) (loc k)"
  using assms unfolding represents_def values_at_def by blast

lemma splay_insert_here:
  "splay_insert lay grant key val m =
     (case (if t_size m + 1 = b_size m then reallocate_memory lay grant False m else Inr (True, m)) of
        Inl f \<Rightarrow> Some (Inl f)
      | Inr (False, m) \<Rightarrow> Some (Inr (None, m))
      | Inr (True, m) \<Rightarrow> insert_here key val m)"
  unfolding splay_insert_def insert_here_def by simp

lemma add_root_frame:
  "add_root nd val link m = Inr (n, m') \<Longrightarrow> b_size m' = b_size m \<and> i_size m' = i_size m \<and> t_size m' = t_size m"
  by (auto simp: add_root_def next_free_node_def Let_def split: if_splits)

lemma insert_here_frame:
  assumes "insert_here key val m = Some (Inr (n, m'))"
  shows "b_size m' = b_size m" "i_size m' = i_size m" "t_size m' \<le> t_size m + 1"
proof -
  have "b_size m' = b_size m \<and> i_size m' = i_size m \<and> t_size m' \<le> t_size m + 1"
    using assms unfolding insert_here_def splay_root_def
    by (auto simp: Let_def dest!: add_root_frame split: if_splits option.splits sum.splits)
  then show "b_size m' = b_size m" "i_size m' = i_size m" "t_size m' \<le> t_size m + 1" by blast+
qed

lemma insert_here_represents:
  assumes m: "represents m M" and room: "t_size m + 1 < b_size m"
  shows "\<exists>n m'. insert_here key val m = Some (Inr (Some n, m')) \<and> represents m' (M(key \<mapsto> val)) \<and> v_buff m' ! n = val"
proof -
  obtain T fs loc where s: "shaped m T fs loc" and M: "\<And>k. M k = map_option (nth (v_buff m)) (loc k)"
    using m by (rule representsE) blast
  obtain n m' T' fs' where i: "insert_here key val m = Some (Inr (Some n, m'))" "shaped m' T' fs' (loc(key \<mapsto> n))"
      "v_buff m' = (v_buff m)[n := val]" "n < b_size m" "\<forall>k. k \<noteq> key \<longrightarrow> loc k \<noteq> Some n"
    using insert_here_shaped [OF s room, of key val] by blast
  have "b_size m = length (v_buff m)" using s unfolding shaped_def by blast
  then have val: "v_buff m' ! n = val" using i(3,4) by simp
  have "(M(key \<mapsto> val)) k = map_option (nth (v_buff m')) ((loc(key \<mapsto> n)) k)" for k
  proof (cases "k = key")
    case False
    then have "loc k \<noteq> Some n" using i(5) by blast
    then show ?thesis using False M [of k] by (cases "loc k") (auto simp: i(3))
  qed (simp add: val)
  then show ?thesis using i(1) val representsI [OF i(2)] by blast
qed

text \<open>\<open>insert\<close>: the map with the key at the value, and a pointer to it.\<close>

lemma reallocate_memory_represents:
  assumes m: "represents m M" and fit: "may_grow lay m"
  shows "\<exists>m'. reallocate_memory lay grant False m = Inr (grant = (True, True), m') \<and> represents m' M \<and> t_size m' = t_size m
    \<and> (grant = (True, True) \<longrightarrow> b_size m' = b_size m + i_size m) \<and> i_size m' = i_size m"
proof -
  obtain T fs loc where s: "shaped m T fs loc" and M: "\<And>k. M k = map_option (nth (v_buff m)) (loc k)"
    using m by (rule representsE) blast
  obtain m' granted where g: "reallocate_memory lay grant False m = Inr (granted, m')" "shaped m' T fs loc" "t_size m' = t_size m"
      "granted \<longleftrightarrow> grant = (True, True)" "granted \<longrightarrow> b_size m' = b_size m + i_size m" "\<forall>p < b_size m. v_buff m' ! p = v_buff m ! p"
    using reallocate_memory_shaped [OF s] fit unfolding may_grow_def by blast
  have "M k = map_option (nth (v_buff m')) (loc k)" for k
    using M [of k] g(6) shaped_loc [OF s] by (cases "loc k") auto
  then have "represents m' M" by (rule representsI [OF g(2)])
  moreover have "i_size m' = i_size m"
    using g(1) unfolding reallocate_memory_def Let_def by (auto split: if_splits)
  ultimately show ?thesis using g(1,3-5) by auto
qed

lemma represents_room: "represents m M \<Longrightarrow> t_size m < b_size m \<and> 0 < i_size m"
  by (auto simp: represents_def shaped_def)

lemma splay_insert_represents:
  assumes m: "represents m M" and fit: "t_size m + 1 = b_size m \<Longrightarrow> may_grow lay m"
  shows "\<exists>n m'. splay_insert lay (True, True) key val m = Some (Inr (Some n, m')) \<and> represents m' (M(key \<mapsto> val)) \<and> v_buff m' ! n = val
    \<and> t_size m' \<le> t_size m + 1 \<and> i_size m' = i_size m \<and> (b_size m' = b_size m \<or> b_size m' = t_size m + 1 + i_size m)"
proof (cases "t_size m + 1 = b_size m")
  case True
  obtain m1 where g: "reallocate_memory lay (True, True) False m = Inr (True, m1)" "represents m1 M" "t_size m1 = t_size m"
      "b_size m1 = b_size m + i_size m" "i_size m1 = i_size m"
    using reallocate_memory_represents [OF m fit [OF True], of "(True, True)"] by auto
  have "t_size m1 + 1 < b_size m1" using g(3,4) True represents_room [OF m] by simp
  then obtain n m' where i: "insert_here key val m1 = Some (Inr (Some n, m'))" "represents m' (M(key \<mapsto> val))" "v_buff m' ! n = val"
    using insert_here_represents [OF g(2)] by blast
  then show ?thesis using g True insert_here_frame [OF i(1)] by (simp add: splay_insert_here)
next
  case False
  then have "t_size m + 1 < b_size m" using represents_room [OF m] by simp
  then obtain n m' where i: "insert_here key val m = Some (Inr (Some n, m'))" "represents m' (M(key \<mapsto> val))" "v_buff m' ! n = val"
    using insert_here_represents [OF m] by blast
  then show ?thesis using False insert_here_frame [OF i(1)] by (simp add: splay_insert_here)
qed

section \<open>Removing\<close>

lemma free_root_shaped:
  fixes m :: "('k::linorder, 'v) splay_map"
  assumes m: "shaped m (Node A r C) fs loc" and key: "nkey (k_buff m ! r) = key"
    and ns: "length ns = length (k_buff m)" "\<And>j. nkey (ns ! j) = nkey (k_buff m ! j)"
      "\<And>j. j \<notin> set_tree A \<Longrightarrow> j \<noteq> 0 \<Longrightarrow> lc (ns ! j) = lc (k_buff m ! j)" "lc (ns ! 0) = 0" "rc (ns ! 0) = 0"
    and T: "points ns x T" "inorder T = inorder A @ inorder C"
  shows "\<exists>m'. free_node r (m\<lparr>k_buff := ns\<rparr>) = Inr m'
    \<and> shaped (m'\<lparr>t_size := t_size m' - 1, root_ptr := x\<rparr>) T (r # fs) (loc(key := None))"
proof -
  have old: "free_chain (k_buff m) (free_ptr m) fs" "distinct (0 # inorder (Node A r C) @ fs)"
      "set (inorder (Node A r C) @ fs) = {1..t_size m + length fs}" "length (inorder (Node A r C)) = t_size m"
      "sorted_wrt (\<lambda>p q. nkey (k_buff m ! p) < nkey (k_buff m ! q)) (inorder (Node A r C))"
      "t_size m + length fs < b_size m" "b_size m \<le> length (k_buff m)" "b_size m = length (v_buff m)" "0 < i_size m"
      "\<And>k p. loc k = Some p \<longleftrightarrow> p \<in> set_tree (Node A r C) \<and> nkey (k_buff m ! p) = k"
    using m unfolding shaped_def by blast+
  have r: "r \<noteq> 0" "r < b_size m" using shaped_cells(1) [OF m, of r] by simp_all
  have cells: "set_tree T = set_tree A \<union> set_tree C" using arg_cong [OF T(2), of set] by simp
  have rT: "r \<notin> set_tree T" "r \<notin> set fs" using old(2) cells by auto
  let ?ns = "set_lc r (free_ptr m) ns"
  define m' where "m' = m\<lparr>k_buff := ?ns, free_ptr := r, t_size := t_size m - 1, root_ptr := x\<rparr>"
  have "shaped m' T (r # fs) (loc(key := None))"
    unfolding shaped_def
  proof (intro conjI allI)
    show "points (k_buff m') (root_ptr m') T" using T(1) rT(1) by (simp add: m'_def)
    show "free_chain (k_buff m') (free_ptr m') (r # fs)"
    proof -
      have "lc (?ns ! q) = lc (k_buff m ! q)" if "q \<in> set fs" for q
      proof -
        have "q \<noteq> r" "q \<noteq> 0" "q \<notin> set_tree A" using that old(2) by auto
        then show ?thesis using ns(3) by simp
      qed
      then have "free_chain ?ns (free_ptr m) fs" using old(1) free_chain_frame [of fs ?ns "k_buff m"] by simp
      moreover have "lc (?ns ! r) = free_ptr m" using r ns(1) old(7) by simp
      ultimately show ?thesis using r(1) by (simp add: m'_def)
    qed
    show "distinct (0 # inorder T @ r # fs)" using old(2) T(2) by auto
    show "length (inorder T) = t_size m'" using old(4) T(2) by (simp add: m'_def)
    show "set (inorder T @ r # fs) = {1..t_size m' + length (r # fs)}"
    proof -
      have "set (inorder T @ r # fs) = set (inorder (Node A r C) @ fs)" using T(2) by auto
      moreover have "t_size m' + length (r # fs) = t_size m + length fs" using old(4) by (simp add: m'_def)
      ultimately show ?thesis using old(3) by simp
    qed
    show "sorted_wrt (\<lambda>p q. nkey (k_buff m' ! p) < nkey (k_buff m' ! q)) (inorder T)"
      using old(5) ns(2) by (simp add: T(2) m'_def sorted_wrt_append)
    show "t_size m' + length (r # fs) < b_size m'" using old(4,6) by (simp add: m'_def)
    show "((loc(key := None)) k = Some p) = (p \<in> set_tree T \<and> nkey (k_buff m' ! p) = k)" for k p
    proof (cases "p = r")
      case True
      then show ?thesis using rT(1) key old(10) [of k r] by (auto simp: m'_def)
    next
      case False
      have "nkey (k_buff m ! p) \<noteq> key" if "p \<in> set_tree (Node A r C)"
        using keys_differ [OF old(5), of p r] that False key by simp
      then show ?thesis using False old(10) [of k p] by (auto simp: cells ns(2) m'_def)
    qed
  qed (use old(7-9) ns(1,4,5) r in \<open>simp_all add: m'_def\<close>)
  moreover have "free_node r (m\<lparr>k_buff := ns\<rparr>) = Inr (m\<lparr>k_buff := ?ns, free_ptr := r\<rparr>)"
    using r by (simp add: free_node_def)
  ultimately show ?thesis by (simp add: m'_def)
qed

lemma splay_remove_shaped:
  assumes m: "shaped m T fs loc"
  shows "\<exists>m' T' fs'. splay_remove key m = Some (Inr (loc key, m')) \<and> shaped m' T' fs' (loc(key := None))
    \<and> v_buff m' = v_buff m \<and> t_size m' \<le> t_size m \<and> b_size m' = b_size m \<and> i_size m' = i_size m"
proof -
  obtain ret r T' ns where s: "splay (b_size m) key (root_ptr m) (k_buff m) = Some (Inr (ret, r, ns))"
      "shaped (m\<lparr>root_ptr := r, k_buff := ns\<rparr>) T' fs loc" "splayed key ns ret T'"
      "ret \<longleftrightarrow> loc key \<noteq> None" "ret \<longrightarrow> loc key = Some r"
    using splay_shaped [OF m] by blast
  let ?m = "m\<lparr>root_ptr := r, k_buff := ns\<rparr>"
  show ?thesis
  proof (cases ret)
    case False
    then have none: "loc key = None" using s(4) by simp
    have same: "loc(key := None) = loc" using none by (simp add: fun_upd_idem)
    have "splay_remove key m = Some (Inr (None, ?m))" using s(1) False by (simp add: splay_remove_def splay_root_def)
    then show ?thesis using s(2) unfolding same none by (intro exI [of _ ?m] exI [of _ T'] exI [of _ fs]) simp
  next
    case True
    then have loc: "loc key = Some r" using s(5) by simp
    have points: "points ns r T'" using s(2) by (simp add: shaped_def)
    obtain A C where T': "T' = Node A r C" using s(3) True points_root [OF points] by (auto simp: splayed_def split: tree.splits)
    have key: "nkey (ns ! r) = key" and A: "\<forall>p \<in> set_tree A. nkey (ns ! p) < key" using s(3) True by (simp_all add: splayed_def T')
    have kids: "points ns (lc (ns ! r)) A" "points ns (rc (ns ! r)) C" using points by (simp_all add: T')
    have zero: "lc (ns ! 0) = 0" "rc (ns ! 0) = 0" "0 < length ns" using s(2) by (auto simp: shaped_def)
    have d: "distinct (0 # inorder A)" "r \<notin> set (0 # inorder A)" "set_tree C \<inter> set (0 # inorder A) = {}"
      using s(2) by (auto simp: shaped_def T')
    show ?thesis
    proof (cases "A = Leaf")
      case leaf: True
      have "\<exists>m'. free_node r (?m\<lparr>k_buff := ns\<rparr>) = Inr m'
          \<and> shaped (m'\<lparr>t_size := t_size m' - 1, root_ptr := rc (ns ! r)\<rparr>) C (r # fs) (loc(key := None))"
        by (rule free_root_shaped [OF s(2) [unfolded T']]) (simp_all add: key zero kids leaf)
      then obtain m' where f: "free_node r ?m = Inr m'"
          "shaped (m'\<lparr>t_size := t_size m' - 1, root_ptr := rc (ns ! r)\<rparr>) C (r # fs) (loc(key := None))"
        by auto
      have "v_buff m' = v_buff m \<and> t_size m' = t_size m \<and> b_size m' = b_size m \<and> i_size m' = i_size m"
        using f(1) by (auto simp: free_node_def split: if_splits)
      then show ?thesis
        using s(1) True kids(1) leaf f loc
        by (intro exI [of _ "m'\<lparr>t_size := t_size m' - 1, root_ptr := rc (ns ! r)\<rparr>"] exI [of _ C] exI [of _ "r # fs"])
          (simp add: splay_remove_def splay_root_def Let_def)
    next
      case node: False
      have "keys_ok (b_size m) ns (inorder A)"
        using shaped_keys_ok [OF s(2)] by (simp add: keys_ok_def T' sorted_wrt_append)
      from splay_splays [OF kids(1) d(1) this zero(3,1,2), of key]
      obtain ret' x A' ns' where a: "splay (b_size m) key (lc (ns ! r)) ns = Some (Inr (ret', x, ns'))" "points ns' x A'"
          "inorder A' = inorder A" "splayed key ns' ret' A'" "lc (ns' ! 0) = 0" "rc (ns' ! 0) = 0" "length ns' = length ns"
          "\<And>j. nkey (ns' ! j) = nkey (ns ! j)" "\<And>j. j \<notin> set (0 # inorder A) \<Longrightarrow> ns' ! j = ns ! j"
        by blast
      have setA: "set_tree A' = set_tree A" using arg_cong [OF a(3), of set] by simp
      have "A' \<noteq> Leaf" using setA node by (metis eq_set_tree_empty)
      then obtain A1 A2 where A': "A' = Node A1 x A2" using points_root [OF a(2)] by blast
      have "A2 = Leaf"
      proof (rule ccontr)
        assume "A2 \<noteq> Leaf"
        then obtain p where "p \<in> set_tree A2" by (metis eq_set_tree_empty ex_in_conv)
        then have "key < nkey (ns ! p)" "p \<in> set_tree A'" using a(4) by (simp_all add: splayed_def A' a(8))
        then show False using A setA by (metis less_asym)
      qed
      note A'' = A' [unfolded this]
      have ns'r: "ns' ! r = ns ! r" using a(9) d(2) by blast
      have "points ns' (rc (ns ! r)) C"
      proof -
        have "ns' ! q = ns ! q" if "q \<in> set_tree C" for q
        proof -
          have "q \<notin> set (0 # inorder A)" using that d(3) by blast
          then show ?thesis by (rule a(9))
        qed
        then show ?thesis using kids(2) points_frame [of C ns' ns] a(7) by simp
      qed
      moreover have xA: "x \<in> set_tree A" using setA A'' by auto
      moreover have "distinct (inorder A')" using d(1) a(3) by simp
      moreover have "x \<noteq> 0" "x < length ns'" "points ns' (lc (ns' ! x)) A1" using a(2) by (simp_all add: A'')
      moreover have "x \<notin> set_tree C" using xA d(3) by auto
      moreover have "x \<notin> set_tree A1" using \<open>distinct (inorder A')\<close> by (simp add: A'')
      ultimately have tree: "points (set_rc x (rc (ns ! r)) ns') x (Node A1 x C)" by simp
      have lc: "lc (set_rc x (rc (ns ! r)) ns' ! j) = lc (ns ! j)" if "j \<notin> set_tree A" "j \<noteq> 0" for j
        using a(9) [of j] that by simp
      have merged: "inorder (Node A1 x C) = inorder A @ inorder C" using a(3) by (simp add: A'')
      have freed: "\<exists>m'. free_node r (?m\<lparr>k_buff := set_rc x (rc (ns ! r)) ns'\<rparr>) = Inr m'
          \<and> shaped (m'\<lparr>t_size := t_size m' - 1, root_ptr := x\<rparr>) (Node A1 x C) (r # fs) (loc(key := None))"
      proof (rule free_root_shaped [OF s(2) [unfolded T']])
        show "points (set_rc x (rc (ns ! r)) ns') x (Node A1 x C)" by (rule tree)
      qed (use merged key a(5-8) lc \<open>x \<noteq> 0\<close> in simp_all)
      from freed obtain m' where f: "free_node r (?m\<lparr>k_buff := set_rc x (rc (ns ! r)) ns'\<rparr>) = Inr m'"
          "shaped (m'\<lparr>t_size := t_size m' - 1, root_ptr := x\<rparr>) (Node A1 x C) (r # fs) (loc(key := None))"
        by blast
      have "v_buff m' = v_buff m \<and> t_size m' = t_size m \<and> b_size m' = b_size m \<and> i_size m' = i_size m"
        using f(1) by (auto simp: free_node_def split: if_splits)
      moreover have "lc (ns ! r) \<noteq> 0" using node points_null [OF kids(1)] by blast
      ultimately show ?thesis
        using s(1) True a(1) f loc
        by (intro exI [of _ "m'\<lparr>t_size := t_size m' - 1, root_ptr := x\<rparr>"] exI [of _ "Node A1 x C"] exI [of _ "r # fs"])
          (simp add: splay_remove_def splay_root_def Let_def ns'r)
    qed
  qed
qed

lemma splay_remove_represents:
  assumes m: "represents m M"
  shows "\<exists>r m'. splay_remove key m = Some (Inr (r, m')) \<and> represents m' (M(key := None)) \<and> map_option (nth (v_buff m')) r = M key
    \<and> t_size m' \<le> t_size m \<and> b_size m' = b_size m \<and> i_size m' = i_size m"
proof -
  obtain T fs loc where s: "shaped m T fs loc" and M: "\<And>k. M k = map_option (nth (v_buff m)) (loc k)"
    using m by (rule representsE) blast
  obtain m' T' fs' where r: "splay_remove key m = Some (Inr (loc key, m'))" "shaped m' T' fs' (loc(key := None))"
      "v_buff m' = v_buff m" "t_size m' \<le> t_size m" "b_size m' = b_size m" "i_size m' = i_size m"
    using splay_remove_shaped [OF s, of key] by blast
  have "represents m' (M(key := None))" by (rule representsI [OF r(2)]) (simp add: M r(3))
  then show ?thesis using r(1,4-6) M [of key] r(3) by simp
qed

lemma splay_exist_represents:
  assumes m: "represents m M"
  shows "\<exists>m'. splay_exist key m = Some (Inr (M key \<noteq> None, m')) \<and> represents m' M \<and> (M key \<noteq> None \<longrightarrow> splay_find m' = Inr (the (M key)))
    \<and> t_size m' = t_size m \<and> b_size m' = b_size m \<and> i_size m' = i_size m"
proof -
  obtain T fs loc where s: "shaped m T fs loc" and M: "\<And>k. M k = map_option (nth (v_buff m)) (loc k)"
    using m by (rule representsE) blast
  obtain ret r T' ns where x: "splay (b_size m) key (root_ptr m) (k_buff m) = Some (Inr (ret, r, ns))"
      "shaped (m\<lparr>root_ptr := r, k_buff := ns\<rparr>) T' fs loc" "ret \<longleftrightarrow> loc key \<noteq> None" "ret \<longrightarrow> loc key = Some r"
    using splay_shaped [OF s] by blast
  let ?m = "m\<lparr>root_ptr := r, k_buff := ns, last_ptr := if ret then r else 0\<rparr>"
  have "shaped ?m T' fs loc" using x(2) by (simp add: shaped_def)
  then have rep: "represents ?m M" by (rule representsI) (simp add: M)
  have r: "r \<noteq> 0 \<and> r < b_size m" if ret using shaped_loc [OF s, of key r] x(4) that by simp
  have "splay_exist key m = Some (Inr (M key \<noteq> None, ?m))"
    using x(1,3) r M [of key] by (simp add: splay_exist_def inter_find_def splay_root_def)
  then show ?thesis using rep x(3,4) r M [of key] by (intro exI [of _ ?m]) (auto simp: splay_find_def)
qed

text \<open>Visiting every node: the stack holds the parents whose right sides are still to come.\<close>

fun upcoming :: "(nat \<times> nat tree) list \<Rightarrow> nat list" where
  "upcoming [] = []"
| "upcoming ((p, R) # ps) = p # inorder R @ upcoming ps"

lemma length_upcoming: "length ps \<le> length (upcoming ps)"
  by (induction ps) auto

lemma enumerate_loop_visits:
  assumes "points (k_buff m) root T" "\<forall>(p, R) \<in> set ps. points (k_buff m) (rc (k_buff m ! p)) R \<and> p \<noteq> 0"
    and "\<forall>p \<in> set (inorder T @ upcoming ps). p < b_size m" "count + length (inorder T @ upcoming ps) = t_size m"
  shows "enumerate_loop m root (map fst ps) count out = Inr (out @ inorder T @ upcoming ps)"
  using assms
proof (induction m root "map fst ps" count out arbitrary: T ps rule: enumerate_loop.induct)
  case (1 m root count out)
  note IH = "1.hyps"
  show ?case
  proof (cases "root = 0")
    case False
    then obtain A C where T: "T = Node A root C" using "1.prems"(1) points_null points_root by metis
    have "length (root # map fst ps) \<le> t_size m" using "1.prems"(4) length_upcoming [of ps] by (simp add: T)
    moreover have "root < b_size m" using "1.prems"(3) by (simp add: T)
    moreover have "enumerate_loop m (lc (k_buff m ! root)) (map fst ((root, C) # ps)) count out
        = Inr (out @ inorder A @ upcoming ((root, C) # ps))"
      using False calculation "1.prems" by (intro IH(1)) (simp_all add: T)
    ultimately show ?thesis using False by (subst enumerate_loop.simps) (simp add: T)
  next
    case True
    then have T: "T = Leaf" using "1.prems"(1) points_null by blast
    show ?thesis
    proof (cases ps)
      case Nil
      then show ?thesis using True by (subst enumerate_loop.simps) (simp add: T)
    next
      case (Cons e ps')
      obtain p R where e: "e = (p, R)" by fastforce
      have "p < b_size m" "\<not> t_size m < count + 1" using "1.prems"(3,4) by (simp_all add: T Cons e)
      moreover have "enumerate_loop m (rc (k_buff m ! p)) (map fst ps') (count + 1) (out @ [p])
          = Inr ((out @ [p]) @ inorder R @ upcoming ps')"
        using True calculation "1.prems" by (intro IH(2)) (simp_all add: T Cons e)
      ultimately show ?thesis using True by (subst enumerate_loop.simps) (simp add: T Cons e)
    qed
  qed
qed

lemma splay_enumerate_shaped:
  assumes m: "shaped m T fs loc"
  shows "splay_enumerate m = Inr (inorder T)"
proof -
  have old: "points (k_buff m) (root_ptr m) T" "length (inorder T) = t_size m" using m unfolding shaped_def by blast+
  have "\<forall>p \<in> set (inorder T). p < b_size m" using shaped_cells(1) [OF m] by simp
  then have "enumerate_loop m (root_ptr m) [] 0 [] = Inr (inorder T)"
    using old enumerate_loop_visits [of m "root_ptr m" T "[]" 0 "[]"] by simp
  then show ?thesis using points_null [OF old(1)] by (auto simp: splay_enumerate_def)
qed

definition entries_at :: "('k, 'v) splay_map \<Rightarrow> nat list \<Rightarrow> ('k \<times> 'v) list" where
  "entries_at m ps = map (\<lambda>p. (nkey (k_buff m ! p), v_buff m ! p)) ps"

lemma splay_enumerate_represents:
  assumes m: "represents m M"
  shows "\<exists>ps. splay_enumerate m = Inr ps \<and> sorted_wrt (\<lambda>e f. fst e < fst f) (entries_at m ps)
    \<and> (\<forall>k v. M k = Some v \<longleftrightarrow> (k, v) \<in> set (entries_at m ps))"
proof -
  obtain T fs loc where s: "shaped m T fs loc" and M: "\<And>k. M k = map_option (nth (v_buff m)) (loc k)"
    using m by (rule representsE) blast
  have old: "sorted_wrt (\<lambda>p q. nkey (k_buff m ! p) < nkey (k_buff m ! q)) (inorder T)"
      "\<And>k p. loc k = Some p \<longleftrightarrow> p \<in> set_tree T \<and> nkey (k_buff m ! p) = k"
    using s unfolding shaped_def by blast+
  have "M k = Some v \<longleftrightarrow> (k, v) \<in> set (entries_at m (inorder T))" for k v
  proof -
    have "M k = Some v \<longleftrightarrow> (\<exists>p. loc k = Some p \<and> v_buff m ! p = v)" by (cases "loc k") (auto simp: M)
    then show ?thesis by (auto simp: old(2) entries_at_def)
  qed
  moreover have "sorted_wrt (\<lambda>e f. fst e < fst f) (entries_at m (inorder T))"
    using old(1) by (simp add: entries_at_def sorted_wrt_map)
  ultimately show ?thesis using splay_enumerate_shaped [OF s] by blast
qed

lemma represents_size:
  assumes "represents m M"
  shows "finite (dom M)" "t_size m = card (dom M)"
proof -
  obtain T fs loc where s: "shaped m T fs loc" and M: "\<And>k. M k = map_option (nth (v_buff m)) (loc k)"
    using assms by (rule representsE) blast
  have old: "sorted_wrt (\<lambda>p q. nkey (k_buff m ! p) < nkey (k_buff m ! q)) (inorder T)" "length (inorder T) = t_size m"
      "\<And>k p. loc k = Some p \<longleftrightarrow> p \<in> set_tree T \<and> nkey (k_buff m ! p) = k"
    using s unfolding shaped_def by blast+
  have "dom M = dom loc" using M by (auto simp: dom_def)
  moreover have "dom loc = (\<lambda>p. nkey (k_buff m ! p)) ` set_tree T" by (auto simp: dom_def old(3))
  moreover have "card ((\<lambda>p. nkey (k_buff m ! p)) ` set_tree T) = card (set_tree T)"
    using keys_differ [OF old(1)] by (intro card_image inj_onI) (metis set_inorder)
  moreover have "card (set_tree T) = t_size m"
    using shaped_cells(2) [OF s] old(2) distinct_card [of "inorder T"] by simp
  ultimately show "finite (dom M)" "t_size m = card (dom M)" by simp_all
qed

lemma new_splay_map_represents:
  assumes "i = (if is = 0 then 1024 else is)" and "fits_u32 (16 + i * node_bytes lay)" "fits_u32 (i * val_bytes lay)"
    and "lc (zero_node lay) = 0" "rc (zero_node lay) = 0"
  shows "\<exists>m. new_splay_map lay (True, True) is = Inr (True, m) \<and> represents m (\<lambda>_. None) \<and> b_size m = i \<and> i_size m = i"
proof -
  let ?m = "\<lparr>root_ptr = 0, free_ptr = 0, b_size = i, t_size = 0, k_buff = replicate i (zero_node lay),
        v_buff = replicate i (zero_val lay), last_ptr = 0, i_size = i\<rparr>"
  have "0 < i" using assms(1) by simp
  then have "shaped ?m Leaf [] (\<lambda>_. None)" using assms(4,5) by (simp add: shaped_def)
  then have "represents ?m (\<lambda>_. None)" by (rule representsI) simp
  then show ?thesis using assms(1-3) by (simp add: new_splay_map_def reallocate_memory_def Let_def)
qed

section \<open>Sequences of operations\<close>

text \<open>Running a list of operations, on a state and on what it stands for.\<close>

fun run_steps :: "('o \<Rightarrow> 's \<Rightarrow> (fault + ('r \<times> 's)) option) \<Rightarrow> 'o list \<Rightarrow> 's \<Rightarrow> (fault + ('r list \<times> 's)) option" where
  "run_steps step [] s = Some (Inr ([], s))"
| "run_steps step (op # ops) s =
     (case step op s of
        None \<Rightarrow> None
      | Some (Inl f) \<Rightarrow> Some (Inl f)
      | Some (Inr (r, s)) \<Rightarrow>
          (case run_steps step ops s of
             None \<Rightarrow> None
           | Some (Inl f) \<Rightarrow> Some (Inl f)
           | Some (Inr (rs, s)) \<Rightarrow> Some (Inr (r # rs, s))))"

fun run_spec :: "('o \<Rightarrow> 'a \<Rightarrow> 'r \<times> 'a) \<Rightarrow> 'o list \<Rightarrow> 'a \<Rightarrow> 'r list \<times> 'a" where
  "run_spec spec [] a = ([], a)"
| "run_spec spec (op # ops) a = (let (r, a) = spec op a; (rs, a) = run_spec spec ops a in (r # rs, a))"

fun along :: "('o \<Rightarrow> 'a \<Rightarrow> 'r \<times> 'a) \<Rightarrow> ('a \<Rightarrow> bool) \<Rightarrow> 'o list \<Rightarrow> 'a \<Rightarrow> bool" where
  "along spec P [] a \<longleftrightarrow> P a"
| "along spec P (op # ops) a \<longleftrightarrow> P a \<and> along spec P ops (snd (spec op a))"

locale stepwise =
  fixes rel :: "'s \<Rightarrow> 'a \<Rightarrow> bool" and within :: "'a \<Rightarrow> bool"
    and step :: "'o \<Rightarrow> 's \<Rightarrow> (fault + ('r \<times> 's)) option" and spec :: "'o \<Rightarrow> 'a \<Rightarrow> 'r \<times> 'a"
  assumes step_refines:
    "rel s a \<Longrightarrow> within a \<Longrightarrow> within (snd (spec op a))
       \<Longrightarrow> \<exists>s'. step op s = Some (Inr (fst (spec op a), s')) \<and> rel s' (snd (spec op a))"
begin

lemma along_start: "along spec within ops a \<Longrightarrow> within a"
  by (cases ops) auto

lemma run_refines:
  "rel s a \<Longrightarrow> along spec within ops a
     \<Longrightarrow> \<exists>s'. run_steps step ops s = Some (Inr (fst (run_spec spec ops a), s')) \<and> rel s' (snd (run_spec spec ops a))"
proof (induction ops arbitrary: s a)
  case (Cons op ops)
  obtain s1 where s1: "step op s = Some (Inr (fst (spec op a), s1))" "rel s1 (snd (spec op a))"
    using step_refines [OF Cons.prems(1)] Cons.prems(2) along_start [of ops "snd (spec op a)"] by auto
  then obtain s2 where "run_steps step ops s1 = Some (Inr (fst (run_spec spec ops (snd (spec op a))), s2))"
      "rel s2 (snd (run_spec spec ops (snd (spec op a))))"
    using Cons by auto
  then show ?case using s1 by (auto simp: Let_def split_beta)
qed simp

end

text \<open>The operations of the map, and what they do to a map of keys to values.\<close>

datatype ('k, 'v) map_op = InsertOp 'k 'v | RemoveOp 'k | FindOp 'k

definition splay_step ::
  "('k::linorder, 'v) layout \<Rightarrow> ('k, 'v) map_op \<Rightarrow> ('k, 'v) splay_map \<Rightarrow> (fault + ('v option \<times> ('k, 'v) splay_map)) option" where
  "splay_step lay op m =
     (let read = (\<lambda>x. case x of
                     None \<Rightarrow> None
                   | Some (Inl f) \<Rightarrow> Some (Inl f)
                   | Some (Inr (p, m)) \<Rightarrow> Some (Inr (map_option (nth (v_buff m)) p, m)))
      in case op of
           InsertOp k v \<Rightarrow> read (splay_insert lay (True, True) k v m)
         | RemoveOp k \<Rightarrow> read (splay_remove k m)
         | FindOp k \<Rightarrow>
             (case splay_exist k m of
                None \<Rightarrow> None
              | Some (Inl f) \<Rightarrow> Some (Inl f)
              | Some (Inr (False, m)) \<Rightarrow> Some (Inr (None, m))
              | Some (Inr (True, m)) \<Rightarrow> (case splay_find m of Inl f \<Rightarrow> Some (Inl f) | Inr v \<Rightarrow> Some (Inr (Some v, m)))))"

fun map_step :: "('k, 'v) map_op \<Rightarrow> ('k \<Rightarrow> 'v option) \<Rightarrow> 'v option \<times> ('k \<Rightarrow> 'v option)" where
  "map_step (InsertOp k v) M = (Some v, M(k \<mapsto> v))"
| "map_step (RemoveOp k) M = (M k, M(k := None))"
| "map_step (FindOp k) M = (M k, M)"

definition sized :: "('k, 'v) layout \<Rightarrow> nat \<Rightarrow> nat \<Rightarrow> bool" where
  "sized lay i N \<longleftrightarrow> fits_u32 (16 + (N + 1 + i) * node_bytes lay) \<and> fits_u32 ((N + 1 + i) * val_bytes lay)"

definition splay_rel :: "('k::linorder, 'v) layout \<Rightarrow> nat \<Rightarrow> nat \<Rightarrow> ('k, 'v) splay_map \<Rightarrow> ('k \<Rightarrow> 'v option) \<Rightarrow> bool" where
  "splay_rel lay i N m M \<longleftrightarrow> represents m M \<and> i_size m = i \<and> b_size m \<le> N + 1 + i \<and> sized lay i N"

lemma fits_u32_mono: "fits_u32 n \<Longrightarrow> k \<le> n \<Longrightarrow> fits_u32 k"
  by (simp add: fits_u32_def)

lemma splay_rel_grows:
  assumes "splay_rel lay i N m M" "card (dom M) \<le> N" "t_size m + 1 = b_size m"
  shows "may_grow lay m"
proof -
  have "t_size m \<le> N" "i_size m = i" using assms represents_size(2) [of m M] by (auto simp: splay_rel_def)
  then have "b_size m + i_size m \<le> N + 1 + i" using assms(3) by simp
  then have "(b_size m + i_size m) * x \<le> (N + 1 + i) * x" for x by (rule mult_le_mono1)
  then show ?thesis
    using assms(1) fits_u32_mono unfolding splay_rel_def sized_def may_grow_def by (meson add_left_mono)
qed

interpretation splay: stepwise "splay_rel lay i N" "\<lambda>M. card (dom M) \<le> N" "splay_step lay" map_step for lay i N
proof
  fix m M op
  assume rel: "splay_rel lay i N m M" and N: "card (dom M) \<le> N"
  have m: "represents m M" "i_size m = i" "b_size m \<le> N + 1 + i" "sized lay i N" using rel by (simp_all add: splay_rel_def)
  have t: "t_size m \<le> N" using represents_size(2) [OF m(1)] N by simp
  show "\<exists>m'. splay_step lay op m = Some (Inr (fst (map_step op M), m')) \<and> splay_rel lay i N m' (snd (map_step op M))"
  proof (cases op)
    case (InsertOp k v)
    obtain n m' where "splay_insert lay (True, True) k v m = Some (Inr (Some n, m'))" "represents m' (M(k \<mapsto> v))" "v_buff m' ! n = v"
        "i_size m' = i_size m" "b_size m' = b_size m \<or> b_size m' = t_size m + 1 + i_size m"
      using splay_insert_represents [OF m(1) splay_rel_grows [OF rel N], of k v] by blast
    then show ?thesis using m t by (auto simp: InsertOp splay_step_def splay_rel_def Let_def)
  next
    case (RemoveOp k)
    obtain r m' where "splay_remove k m = Some (Inr (r, m'))" "represents m' (M(k := None))" "map_option (nth (v_buff m')) r = M k"
        "b_size m' = b_size m" "i_size m' = i_size m"
      using splay_remove_represents [OF m(1), of k] by blast
    then show ?thesis using m by (simp add: RemoveOp splay_step_def splay_rel_def Let_def)
  next
    case (FindOp k)
    obtain m' where "splay_exist k m = Some (Inr (M k \<noteq> None, m'))" "represents m' M" "M k \<noteq> None \<longrightarrow> splay_find m' = Inr (the (M k))"
        "b_size m' = b_size m" "i_size m' = i_size m"
      using splay_exist_represents [OF m(1), of k] by blast
    then show ?thesis using m by (cases "M k") (simp_all add: FindOp splay_step_def splay_rel_def Let_def)
  qed
qed

section \<open>Properties\<close>

definition u32_layout :: "(nat, nat) layout" where
  "u32_layout = \<lparr>node_bytes = 12, val_bytes = 4, zero_node = \<lparr>nkey = 0, lc = 0, rc = 0\<rparr>, zero_val = 0\<rparr>"

definition sample_ops :: "(nat, nat) map_op list" where
  "sample_ops = [InsertOp 3 30, InsertOp 1 10, FindOp 3, InsertOp 2 20, RemoveOp 1, InsertOp 2 21, FindOp 1, FindOp 2]"

lemma sample_ops_along: "along map_step (\<lambda>M. card (dom M) \<le> 3) sample_ops (\<lambda>_. None)"
  by (simp add: sample_ops_def card_insert_if insert_Diff_if)

lemma sample_ops_results:
  "fst (run_spec map_step sample_ops (\<lambda>_. None)) = [Some 30, Some 10, Some 30, Some 20, Some 10, Some 21, None, Some 21]"
  by (simp add: sample_ops_def Let_def)

lemma sample_ops_final: "snd (run_spec map_step sample_ops (\<lambda>_. None)) = [3 \<mapsto> 30, 2 \<mapsto> 21]"
  by (auto simp: sample_ops_def Let_def fun_eq_iff)

lemma u32_layout_sized: "sized u32_layout 1 3"
  by (simp add: sized_def u32_layout_def fits_u32_def)

lemma splay_start:
  assumes "sized lay (if is = 0 then 1024 else is) N" "lc (zero_node lay) = 0" "rc (zero_node lay) = 0"
  shows "\<exists>m. new_splay_map lay (True, True) is = Inr (True, m) \<and> splay_rel lay (if is = 0 then 1024 else is) N m (\<lambda>_. None)"
proof -
  let ?i = "if is = 0 then 1024 else is"
  have le: "?i * x \<le> (N + 1 + ?i) * x" for x by (rule mult_le_mono1) simp
  have fit: "fits_u32 (16 + (N + 1 + ?i) * node_bytes lay)" "fits_u32 ((N + 1 + ?i) * val_bytes lay)"
    using assms(1) by (simp_all only: sized_def)
  have "fits_u32 (16 + ?i * node_bytes lay)" by (rule fits_u32_mono [OF fit(1) add_left_mono [OF le]])
  moreover have "fits_u32 (?i * val_bytes lay)" by (rule fits_u32_mono [OF fit(2) le])
  ultimately obtain m where "new_splay_map lay (True, True) is = Inr (True, m)" "represents m (\<lambda>_. None)" "b_size m = ?i" "i_size m = ?i"
    using new_splay_map_represents [OF refl _ _ assms(2,3)] by blast
  then show ?thesis using assms(1) unfolding splay_rel_def by auto
qed

lemma splay_runs:
  assumes "along map_step (\<lambda>M. card (dom M) \<le> N) ops (\<lambda>_. None)" "sized lay (if is = 0 then 1024 else is) N"
    and "lc (zero_node lay) = 0" "rc (zero_node lay) = 0"
  shows "\<exists>m0 m. new_splay_map lay (True, True) is = Inr (True, m0)
    \<and> run_steps (splay_step lay) ops m0 = Some (Inr (fst (run_spec map_step ops (\<lambda>_. None)), m))
    \<and> represents m (snd (run_spec map_step ops (\<lambda>_. None))) \<and> b_size m \<le> N + 1 + (if is = 0 then 1024 else is)"
proof -
  obtain m0 where m0: "new_splay_map lay (True, True) is = Inr (True, m0)" "splay_rel lay (if is = 0 then 1024 else is) N m0 (\<lambda>_. None)"
    using splay_start [OF assms(2-4)] by blast
  then show ?thesis using splay.run_refines [OF m0(2) assms(1)] unfolding splay_rel_def by blast
qed

text \<open>
  C26. The splay map is a map: from the constructor on, any sequence of \<open>insert\<close>, \<open>remove\<close> and \<open>exist\<close> with \<open>find\<close> runs without a fault and
  without an endless loop, and answers what a map of keys to values answers.  Cells that were removed are used again: with at most
  \<open>N\<close> keys at a time the arrays have at most \<open>N + 1\<close> cells more than the increment, no matter how many operations are run.
\<close>

theorem splay_map_refines:
  assumes "along map_step (\<lambda>M. card (dom M) \<le> N) ops (\<lambda>_. None)" "sized lay (if is = 0 then 1024 else is) N"
    and "lc (zero_node lay) = 0" "rc (zero_node lay) = 0"
  shows "\<exists>m0 m. new_splay_map lay (True, True) is = Inr (True, m0)
    \<and> run_steps (splay_step lay) ops m0 = Some (Inr (fst (run_spec map_step ops (\<lambda>_. None)), m))
    \<and> b_size m \<le> N + 1 + (if is = 0 then 1024 else is)"
  using splay_runs [OF assms] by blast

theorem splay_map_refines_witness:
  "\<exists>m0 m. new_splay_map u32_layout (True, True) 1 = Inr (True, m0)
    \<and> run_steps (splay_step u32_layout) sample_ops m0
        = Some (Inr ([Some 30, Some 10, Some 30, Some 20, Some 10, Some 21, None, Some 21], m)) \<and> b_size m \<le> 5"
  using splay_map_refines [OF sample_ops_along, of u32_layout 1] u32_layout_sized
  by (simp add: sample_ops_results) (simp add: u32_layout_def)

text \<open>
  C27. After any sequence of operations \<open>enumerate\<close> visits every key once, in ascending order, with its value.
\<close>

theorem splay_map_enumerates:
  assumes "along map_step (\<lambda>M. card (dom M) \<le> N) ops (\<lambda>_. None)" "sized lay (if is = 0 then 1024 else is) N"
    and "lc (zero_node lay) = 0" "rc (zero_node lay) = 0"
  shows "\<exists>m0 rs m ps. new_splay_map lay (True, True) is = Inr (True, m0) \<and> run_steps (splay_step lay) ops m0 = Some (Inr (rs, m))
    \<and> splay_enumerate m = Inr ps \<and> sorted_wrt (\<lambda>e f. fst e < fst f) (entries_at m ps)
    \<and> (\<forall>k v. snd (run_spec map_step ops (\<lambda>_. None)) k = Some v \<longleftrightarrow> (k, v) \<in> set (entries_at m ps))"
  using splay_runs [OF assms] splay_enumerate_represents by blast

theorem splay_map_enumerates_witness:
  "\<exists>m0 rs m ps. new_splay_map u32_layout (True, True) 1 = Inr (True, m0) \<and> run_steps (splay_step u32_layout) sample_ops m0 = Some (Inr (rs, m))
    \<and> splay_enumerate m = Inr ps \<and> sorted_wrt (\<lambda>e f. fst e < fst f) (entries_at m ps)
    \<and> (\<forall>k v. [3 \<mapsto> 30, 2 \<mapsto> 21] k = Some v \<longleftrightarrow> (k, v) \<in> set (entries_at m ps))"
  using splay_map_enumerates [OF sample_ops_along, of u32_layout 1] u32_layout_sized
  unfolding sample_ops_final by (simp add: u32_layout_def)

text \<open>
  C36. When the arrays are full and the memory for more is refused, for the nodes or only for the values, \<open>insert\<close> returns no pointer,
  and the map has the keys and values that it had.
\<close>

theorem splay_insert_refused:
  assumes "represents m M" "t_size m + 1 = b_size m" "may_grow lay m" "grant \<noteq> (True, True)"
  shows "\<exists>m'. splay_insert lay grant key val m = Some (Inr (None, m')) \<and> represents m' M"
  using reallocate_memory_represents [OF assms(1,3), of grant] assms(2,4) by (auto simp: splay_insert_here)

theorem splay_insert_refused_witness:
  "\<exists>m m'. new_splay_map u32_layout (True, True) 1 = Inr (True, m) \<and> splay_insert u32_layout (True, False) 3 30 m = Some (Inr (None, m'))
    \<and> represents m' (\<lambda>_. None)"
proof -
  obtain m where m: "new_splay_map u32_layout (True, True) 1 = Inr (True, m)" "represents m (\<lambda>_. None)" "b_size m = 1" "i_size m = 1"
    using new_splay_map_represents [of 1 1 u32_layout] by (auto simp: u32_layout_def fits_u32_def)
  have "t_size m = 0" using represents_size(2) [OF m(2)] by simp
  then show ?thesis
    using splay_insert_refused [OF m(2), of u32_layout "(True, False)" 3 30] m by (simp add: may_grow_def u32_layout_def fits_u32_def)
qed

end
