(* ===== verification/Spec2Isabelle.thy ===== *)
theory Spec2Isabelle
  imports Quicken_Interface Exidx_Refinement Dwarf_Expressions Dwarf_Rows Table_Generator Fp_Unwinder Table_Manager Quicken_Unwinder Quicken_In_Memory Splay_Map
begin

text \<open>
  A model of the stack unwinder of \<^verbatim>\<open>src/matrix-backtrace/src/main/cpp/libwechatbacktrace\<close>,
  and proofs that it is right.

  \<^bold>\<open>The program.\<close>  Unwinding a native stack needs, for a program counter, the rules that restore the
  registers of the caller.  They come with a library as DWARF call frame information or as an ARM
  exception index, both slow to interpret.  The program translates them ahead of time: a decoder for every
  source emits instructions of one small instruction set, the generator merges the sources and packs
  the instructions of every range of program counters into an unwind table, which is kept in a file, and at
  run time the interface searches the table, evaluates the instructions found and so steps from frame to
  frame.  Where there are no tables, an unwinder follows the frame pointers.

  \<^bold>\<open>Theories and code.\<close>  A definition has the name of the function it models unless HOL has that
  name already; the pure helpers of a function are cut out under names of their own.
  \<^item> \<^verbatim>\<open>Qut_Prelude\<close>: word types, faults, facts on bits and bytes.
  \<^item> \<^verbatim>\<open>Sleb128\<close>: signed LEB128, the writer in \<^verbatim>\<open>include/QuickenInstructions.h\<close> and the loop that
    reads it in \<^verbatim>\<open>QuickenTable.cpp\<close>; the locale \<open>byte_source\<close> is what the loop needs of a
    byte cursor.
  \<^item> \<^verbatim>\<open>Qut_Instructions\<close>: the instruction set and both encoders,
    \<^verbatim>\<open>include/QuickenInstructions.h\<close>.
  \<^item> \<^verbatim>\<open>Quicken_Table\<close>: the evaluator, \<^verbatim>\<open>QuickenTable.cpp\<close>.
  \<^item> \<^verbatim>\<open>Qut_Semantics\<close>: the meaning of an instruction, and that evaluating the encoded bytes is
    executing the instructions; the locale \<open>row_decoder\<close> stands for both builds.
  \<^item> \<^verbatim>\<open>Table_Packing\<close>: \<open>PackEntriesToQutSections\<close> of \<^verbatim>\<open>QuickenTableGenerator.cpp\<close>.
  \<^item> \<^verbatim>\<open>Quicken_Interface\<close>: search and step, \<^verbatim>\<open>QuickenInterface.cpp\<close>; the locale
    \<open>index_lookup\<close> is the contract of the search.
  \<^item> \<^verbatim>\<open>Exidx_Decoder\<close>, \<^verbatim>\<open>Exidx_Refinement\<close>: \<^verbatim>\<open>ExidxDecoder.cpp\<close>, and its refinement of an
    interpreter of the exception-handling opcodes.
  \<^item> \<^verbatim>\<open>Dwarf_Memory\<close>, \<^verbatim>\<open>Dwarf_Op\<close>, \<^verbatim>\<open>Dwarf_Expressions\<close>: the reader of encoded values and the
    stack machine for expressions, \<^verbatim>\<open>DwarfOp.cpp\<close>.
  \<^item> \<^verbatim>\<open>Dwarf_Cfa\<close>: the interpreter of call frame instructions, \<^verbatim>\<open>DwarfCfa.cpp\<close>.
  \<^item> \<^verbatim>\<open>Dwarf_Section\<close>, \<^verbatim>\<open>Dwarf_Rows\<close>: \<^verbatim>\<open>DwarfSectionDecoder.cpp\<close>, from the entries of a
    section to unwind instructions.
  \<^item> \<^verbatim>\<open>Dwarf_Hdr\<close>: the search table of a section, \<^verbatim>\<open>DwarfEhFrameWithHdrDecoder.cpp\<close>.
  \<^item> \<^verbatim>\<open>Table_Generator\<close>: the rest of \<^verbatim>\<open>QuickenTableGenerator.cpp\<close>.
  \<^item> \<^verbatim>\<open>Fp_Unwinder\<close>: \<^verbatim>\<open>FpUnwinder.cpp\<close>.
  \<^item> \<^verbatim>\<open>Qut_Utility\<close>: the string functions of \<^verbatim>\<open>include/QuickenUtility.h\<close>.
  \<^item> \<^verbatim>\<open>Table_Manager\<close>: the file format and the bookkeeping of \<^verbatim>\<open>QuickenTableManager.cpp\<close>, over a
    file system of names, and the initialisation of an interface from it.
  \<^item> \<^verbatim>\<open>Memory_Objects\<close>: the objects that memory is read through, \<^verbatim>\<open>QuickenMemory.cpp\<close> and the part
    of \<^verbatim>\<open>external/libunwindstack/Memory.cpp\<close> that is used; the locales \<open>memory_object\<close> and
    \<open>exact_memory\<close> are the contracts of their common interface.
  \<^item> \<^verbatim>\<open>Quicken_Maps\<close>: the maps of the process and the memory of the library in a map,
    \<^verbatim>\<open>QuickenMaps.cpp\<close>.
  \<^item> \<^verbatim>\<open>Sha1\<close>: \<^verbatim>\<open>include/SHA1.h\<close> and \<open>ToHash\<close>, against the hash of the standard.
  \<^item> \<^verbatim>\<open>Elf_Wrapper\<close>: how a map gets its interface, \<open>GetQuickenInterface\<close> of \<^verbatim>\<open>QuickenMaps.cpp\<close>
    with \<^verbatim>\<open>ElfWrapper.cpp\<close>, the cache of interfaces and the table manager.
  \<^item> \<^verbatim>\<open>Quicken_Unwinder\<close>: the loop over frames, \<^verbatim>\<open>QuickenUnwinder.cpp\<close>; the locale \<open>stable_lookup\<close>
    is what lets it remember the last map.
  \<^item> \<^verbatim>\<open>Quicken_In_Memory\<close>: tables made at run time, \<^verbatim>\<open>QuickenInMemory.cpp\<close>.
  \<^item> \<^verbatim>\<open>Splay_Map\<close>: the map of the memory hook, \<^verbatim>\<open>splay_map.h\<close> of \<^verbatim>\<open>src/matrix-hooks\<close>; the locale
    \<open>stepwise\<close> takes a simulation of one operation to one of any sequence.
  \<^item> this theory: theorems over the encoders, the packing, the search and the evaluator together.

  \<^bold>\<open>How the code is modelled.\<close>  Machine integers are words of their width, and arithmetic wraps as in
  C++; a function that is compiled for both builds has the build as its argument \<open>arm\<close>, or the width of
  a word as its type variable.  A run that leaves what C++ defines (a read past the end,
  a shift by the width of the type, an \<open>int32_t\<close> sum of the exception-index decoder that does not fit) ends in a value
  of the type \<open>fault\<close>, as does an aborting \<open>CHECK\<close>; the error codes of the program are values of their own.
  The memory that the evaluator reads is one of bytes, so that a word read at the top of the stack depends on
  bytes beyond it.  Objects are
  records that every operation takes and returns.  A loop that may fail to end is a
  \<open>partial_function\<close>, whose value \<open>None\<close> is not returning; that a call returns is then part of
  the theorem.  Every other loop is a total function with its measure; no function has fuel, but for the
  limit of 40 symbolic links that a file name may pass through.

  \<^bold>\<open>What the theorems show.\<close>  From right to left along the program: a step over a packed table does what
  the instructions of its entry mean (\<open>step32_executes_instructions\<close>, \<open>step64_executes_instructions\<close>); those instructions do what the source
  says, for exception indices (\<open>exidx_instructions_perform_opcodes\<close>) and for DWARF rows
  (\<open>row_instructions_unwind\<close>), and the decoders fill the table with the ranges of the source
  (\<open>entry_holds_row_of_pc\<close>, \<open>FillFdes_finds_first\<close>, \<open>exidx_table_ranges\<close>).  Two theorems go
  all the way, from opcodes or from a row of call frame information to the registers after a step
  (\<open>step32_performs_opcodes\<close>, \<open>step64_unwinds_call_frame\<close>).  Around the steps, the maps of the
  process are collected, found and given their interfaces (\<open>maps_collected_and_found\<close>,
  \<open>interface_of_a_map_stays\<close>), tables are saved, loaded and handed out (\<open>saved_sections_load\<close>,
  \<open>tables_stay\<close>), and the loop over frames writes the frames of the walk from caller to caller
  (\<open>unwind_follows_walk\<close>, \<open>unwind_stays_inside\<close>).  Theorems of the kind \<^emph>\<open>error\<close> fix
  where the code departs from what it is meant to do.

  \<^bold>\<open>Not modelled.\<close>  Logging and the statistics hooks, which do not change results; locks (an operation
  that holds a lock is one step); the Java and JNI glue, the installation of hooks, and the other
  libraries of the repository; the ELF reader and LZMA decompression of
  \<^verbatim>\<open>external/libunwindstack\<close>, whose results are arguments where the code uses them.
  The loop over frames takes the tables that are made at run time as an argument too, a table for every program
  counter; how they are made, and what their cache does to that, is in \<^verbatim>\<open>Quicken_In_Memory\<close>.
\<close>

section \<open>A step of the unwinder over a generated table\<close>

text \<open>
  C7. Unwinding one frame, 32 bits.  Let a table be packed from the entries of a library, and let the
  program counter fall into entry \<open>k\<close>.  Then a step finds that entry and changes the registers, the
  frame address and the dex program counter exactly as the instructions of the entry mean: encoding,
  packing into index words or table rows, the search and the byte decoder together lose nothing.
  The hypotheses are that the starts ascend and fit a word, that the entries are of realistic size,
  and that the immediates are ones that the byte encoding can express.
\<close>

theorem step32_executes_instructions:
  assumes "PackEntriesToQutSections True entries = Inr sections" "good_entries 32 True entries"
    and "falls_into (ctx_pc ctx) entries k" "entries ! k = (start, stop, instructions)"
    and "expressible_words True instructions"
  shows "StepInternal (Eval32 env) sections ctx
     = Some (Inr (end_step ctx (effect_outcome (exec_words True env instructions (start_table ctx)))))"
  using assms by (rule StepInternal_packed32)

theorem step32_executes_instructions_witness:
  "\<exists>sections. PackEntriesToQutSections True sample32 = Inr sections
     \<and> StepInternal (Eval32 \<lparr>stack_bottom = 0x1000, stack_top = 0x1ffc, memory = holding_words (\<lambda>a. a + 1)\<rparr>) sections
          \<lparr>ctx_regs = (\<lambda>r. 0x1800), ctx_pc = 0x110, ctx_dex_pc = 0, frame_index = 1, finished = False\<rparr>
       = Some (Inr (True, QUT_ERROR_NONE,
          \<lparr>ctx_regs = ((\<lambda>r. 0x1800)(LR := 0x1805, R7 := 0x1801, PC := 0x1805, SP := 0x1808)),
           ctx_pc = 0x110, ctx_dex_pc = 0, frame_index = 1, finished = False\<rparr>))"
proof -
  have pack: "PackEntriesToQutSections True sample32
      = Inr \<lparr>quidx = [0x100, 0x80819999, 0x200, 0x01000000], qutbl = [0x10E1A2D3 :: u32],
            idx_size = 4, tbl_size = 1\<rparr>"
    by (simp add: PackEntriesToQutSections_def encode_sample32 QUT_TBL_ROW_SIZE_def rows_needed_def
        pack_entry_def Let_def compact_word_def compact_step_def padded_def upt_rec table_rows_def
        row_step_def size_ceil_def combined_word_def)
  show ?thesis
    by (intro exI conjI, rule pack)
      (use step32_executes_instructions [OF pack, where k = 0
        and ctx = "\<lparr>ctx_regs = (\<lambda>r. 0x1800), ctx_pc = 0x110, ctx_dex_pc = 0, frame_index = 1,
                    finished = False\<rparr>"
        and env = "\<lparr>stack_bottom = 0x1000, stack_top = 0x1ffc, memory = holding_words (\<lambda>a. a + 1)\<rparr>"] in
        \<open>simp add: pack good_entries_def falls_into_def sample32_def encode_samples small_entry_def
        QUT_TBL_ROW_SIZE_def expressible_word_def expressible_def prologue_fits_def have_prologue32_def
        instr_imm_mk exec_word_def effect_defs load_effect_def ReadStack_def start_table_def
        effect_outcome_def end_step_def fun_eq_iff\<close>)
qed

text \<open>
  C6. Unwinding one frame, 64 bits: the same statement for the build that is not \<open>__arm__\<close>.
\<close>

theorem step64_executes_instructions:
  assumes "PackEntriesToQutSections False entries = Inr sections" "good_entries 64 False entries"
    and "falls_into (ctx_pc ctx) entries k" "entries ! k = (start, stop, instructions)"
    and "expressible_words False instructions"
  shows "StepInternal (Eval64 env) sections ctx
     = Some (Inr (end_step ctx (effect_outcome (exec_words False env instructions (start_table ctx)))))"
  using assms by (rule StepInternal_packed64)

theorem step64_executes_instructions_witness:
  "\<exists>sections. PackEntriesToQutSections False sample64 = Inr sections
     \<and> StepInternal (Eval64 \<lparr>stack_bottom = 0x1000, stack_top = 0x1ff8, memory = holding_words (\<lambda>a. a + 1)\<rparr>) sections
          \<lparr>ctx_regs = (\<lambda>r. 0x1800), ctx_pc = 0x110, ctx_dex_pc = 0, frame_index = 1, finished = False\<rparr>
       = Some (Inr (True, QUT_ERROR_NONE,
          \<lparr>ctx_regs = ((\<lambda>r. 0x1800)(LR := 0x1809, R29 := 0x1801, PC := 0x1809, SP := 0x1810)),
           ctx_pc = 0x110, ctx_dex_pc = 0, frame_index = 1, finished = False\<rparr>))"
proof -
  have pack: "PackEntriesToQutSections False sample64
      = Inr \<lparr>quidx = [0x100, 0x8081999999999999], qutbl = [] :: u64 list, idx_size = 2, tbl_size = 0\<rparr>"
    by (simp add: PackEntriesToQutSections_def encode_sample64 QUT_TBL_ROW_SIZE_def rows_needed_def
        pack_entry_def Let_def compact_word_def compact_step_def padded_def upt_rec)
  show ?thesis
    by (intro exI conjI, rule pack)
      (use step64_executes_instructions [OF pack, where k = 0
        and ctx = "\<lparr>ctx_regs = (\<lambda>r. 0x1800), ctx_pc = 0x110, ctx_dex_pc = 0, frame_index = 1,
                    finished = False\<rparr>"
        and env = "\<lparr>stack_bottom = 0x1000, stack_top = 0x1ff8, memory = holding_words (\<lambda>a. a + 1)\<rparr>"] in
        \<open>simp add: pack good_entries_def falls_into_def sample64_def encode_samples small_entry_def
        QUT_TBL_ROW_SIZE_def expressible_word_def expressible_def prologue_fits_def have_prologue64_def
        instr_imm_mk exec_word_def effect_defs load_effect_def ReadStack_def start_table_def
        effect_outcome_def end_step_def ends_chain_def fun_eq_iff\<close>)
qed

section \<open>From exception index opcodes to a step\<close>

text \<open>A library of one function that pops \<open>r4\<close> and \<open>lr\<close>.\<close>

definition sample_pop_words :: "u64 list" where
  "sample_pop_words = [0x0000000A00000008, 0x0000000500000004, 0x0000000000000008]"

definition sample_pops :: qut_entries where
  "sample_pops = [(0x100, 0x180, sample_pop_words)]"

lemmas sample_pop_defs = sample_pops_def sample_pop_words_def

lemma encode_sample_pops: "map (encode_entry True) sample_pops = [(0x100, [0x02, 0xE1, 0xA2])]"
  by (simp add: sample_pop_defs encode_defs instr_op_def instr_imm_def qut_of_code_def QutInstructions_def)

text \<open>
  C3. Unwinding one frame from the exception index, end to end, 32 bits.  Let the entry that the
  program counter falls into have been generated from the opcode bytes of its function.  Then a step
  over the packed table leaves the registers and the frame address as performing the ARM opcodes one by
  one on the state leaves them.  The conditions: the decoding ended in the finish opcode; its words are \<open>known\<close> (no
  negative offset has overwritten an operation) and their immediates can be expressed in bytes; the starts of the table
  ascend and its entries are of realistic size; and the registers that the opcodes pop lie inside of the stack bounds of
  the step, whatever these are.
\<close>

theorem step32_performs_opcodes:
  assumes "Eval_exidx \<lparr>ex_data = bytes, ex_context = ctx_reset, ex_instructions = [],
                       ex_status = ARM_STATUS_NONE, ex_native_only = False,
                       ex_status_address = addr\<rparr> = Inr (True, s)"
    and "known (ex_instructions s)" "expressible_words True (ex_instructions s)"
    and "PackEntriesToQutSections True entries = Inr sections" "good_entries 32 True entries"
    and "falls_into (ctx_pc ctx) entries k" "entries ! k = (start, stop, ex_instructions s)"
    and "opcodes_inside env (length bytes) bytes (start_table ctx)"
  shows "\<exists>q. opcodes env (length bytes) bytes (start_table ctx) = Some q
           \<and> StepInternal (Eval32 env) sections ctx = Some (Inr (end_step ctx (QUT_ERROR_NONE, q)))"
  using Eval_exidx_performs [OF assms(1), where q = "start_table ctx" and env = env]
    StepInternal_packed32 [OF assms(4-7,3), of env] assms(2,8)
  by (auto simp: effect_outcome_def)

theorem step32_performs_opcodes_witness:
  "\<exists>sections. PackEntriesToQutSections True sample_pops = Inr sections
     \<and> StepInternal (Eval32 \<lparr>stack_bottom = 0x1000, stack_top = 0x1ffc, memory = holding_words (\<lambda>a. a + 1)\<rparr>) sections
          \<lparr>ctx_regs = (\<lambda>r. 0x1800), ctx_pc = 0x110, ctx_dex_pc = 0, frame_index = 1, finished = False\<rparr>
       = Some (Inr (True, QUT_ERROR_NONE,
          \<lparr>ctx_regs = (\<lambda>r. 0x1800)(R4 := 0x1801, LR := 0x1805, PC := 0x1805, SP := 0x1808),
           ctx_pc = 0x110, ctx_dex_pc = 0, frame_index = 1, finished = False\<rparr>))"
proof -
  let ?env = "\<lparr>stack_bottom = 0x1000, stack_top = 0x1ffc, memory = holding_words (\<lambda>a. a + 1)\<rparr> :: u32 stack_env"
  let ?ctx = "\<lparr>ctx_regs = (\<lambda>r. 0x1800), ctx_pc = 0x110, ctx_dex_pc = 0, frame_index = 1,
               finished = False\<rparr> :: u32 step_context"
  have pack: "PackEntriesToQutSections True sample_pops
      = Inr \<lparr>quidx = [0x100, 0x8002E1A2], qutbl = [] :: u32 list, idx_size = 2, tbl_size = 0\<rparr>"
    by (simp add: PackEntriesToQutSections_def encode_sample_pops QUT_TBL_ROW_SIZE_def rows_needed_def
        pack_entry_def Let_def compact_word_def compact_step_def padded_def upt_rec)
  have "known sample_pop_words" "expressible_words True sample_pop_words"
    "good_entries 32 True sample_pops" "falls_into (ctx_pc ?ctx) sample_pops 0"
    "sample_pops ! 0 = (0x100, 0x180, sample_pop_words)"
    by (simp_all add: known_def QutInstructions_def instr_op_def qut_of_code_def expressible_word_def expressible_def
        sample_pop_defs instr_imm_def prologue_fits_def good_entries_def small_entry_def falls_into_def
        encode_sample_pops [unfolded sample_pop_defs list.map list.inject] QUT_TBL_ROW_SIZE_def)
  moreover have "opcodes_inside ?env 2 [0xA8, 0xB0] (start_table ?ctx)"
    by (rule sample_inside) (simp_all add: ReadStack_def start_table_def)
  ultimately have "\<exists>q. opcodes ?env 2 [0xA8, 0xB0] (start_table ?ctx) = Some q
    \<and> StepInternal (Eval32 ?env) \<lparr>quidx = [0x100, 0x8002E1A2], qutbl = [], idx_size = 2, tbl_size = 0\<rparr> ?ctx
       = Some (Inr (end_step ?ctx (QUT_ERROR_NONE, q)))"
    using step32_performs_opcodes [OF sample_run, folded sample_pop_words_def, of _ _ ?ctx 0 _ _ ?env,
        OF _ _ pack] by (simp add: numeral_2_eq_2 del: opcodes.simps opcodes_inside.simps)
  then show ?thesis
    using pack
    by (auto simp: sample_opcodes start_table_def end_step_def fun_eq_iff simp del: opcodes.simps)
qed

section \<open>From call frame information to a step\<close>

lemma entry_at_falls_into:
  fixes pc :: u64
  assumes "ascending es" "entry_at pc es = Some words"
  shows "\<exists>k start stop. falls_into pc es k \<and> es ! k = (start, stop, words)"
proof -
  let ?below = "takeWhile (\<lambda>e. fst e \<le> pc) es"
  have below: "filter (\<lambda>e. fst e \<le> pc) es = ?below"
    using assms(1) unfolding ascending_def
  proof (induction es)
    case (Cons e es)
    then show ?case by (cases es) (auto simp: filter_empty_conv not_le intro: less_trans)
  qed simp
  then have b: "?below \<noteq> []" "snd (snd (last ?below)) = words"
    using assms(2) by (auto simp: entry_at_def Let_def split: if_splits)
  let ?k = "length ?below - 1"
  have len: "length ?below \<le> length es" by (rule length_takeWhile_le)
  have k: "?k < length ?below" using b(1) by (cases ?below) auto
  have last: "es ! ?k = last ?below"
    using b(1) k by (simp add: last_conv_nth takeWhile_nth)
  have "fst (last ?below) \<le> pc" using b(1) set_takeWhileD last_in_set by metis
  moreover have "pc < fst (es ! (?k + 1))" if "?k + 1 < length es"
    using nth_length_takeWhile [of "\<lambda>e. fst e \<le> pc" es] that k by (cases "length ?below") (simp_all add: not_le)
  ultimately have "falls_into pc es ?k" using k len last by (simp add: falls_into_def)
  moreover have "es ! ?k = (fst (es ! ?k), fst (snd (es ! ?k)), words)"
    using last b(2) by (metis prod.collapse)
  ultimately show ?thesis by blast
qed

text \<open>
  A row whose rules are expressible: the conditions under which its instructions do what the rules mean.
\<close>

definition plain_row ::
  "bool \<Rightarrow> generation_context \<Rightarrow> dwarf_cie \<Rightarrow> 'w::len word stack_env \<Rightarrow> 'w word qtable \<Rightarrow> (u32 \<Rightarrow> DwarfLocation option)
     \<Rightarrow> u32 list \<Rightarrow> bool" where
  "plain_row arm gctx cie env q rs keys \<longleftrightarrow>
     (case rs CFA_REG of
        None \<Rightarrow> False
      | Some l \<Rightarrow> loc_type l = DWARF_LOCATION_REGISTER \<and> small_offset (value1 l)
          \<and> value0 l < ucast (gen_regs_total gctx) \<and> cfa_offset_op arm (gen_native_only gctx) (value0 l) \<noteq> None
          \<and> row_loads arm gctx env rs (frame_address arm q l))
     \<and> return_address_register cie < ucast (gen_regs_total gctx)
     \<and> (\<forall>n l. rs n = Some l \<longrightarrow> plain_rule arm gctx cie n l) \<and> dom rs \<subseteq> set keys"

text \<open>
  C2. Unwinding one frame from call frame information, end to end, 64 bits.  Let an FDE be parsed into entries,
  and these be packed.  Then a step at a program counter of the FDE changes the registers and the
  frame address as the row that the call frame instructions give for that program counter says.
  The conditions on the row of the program counter: the frame address is a register plus an offset, the other rules are
  offsets that fit, the words of its entry can be expressed in bytes, and the stack can be read where the rules
  point (where the frame pointer is among them, it is not zero).  On the whole FDE: no row has a rule that is an
  expression, the instructions advance and none of them restores a remembered state (\<open>forward_from\<close>), the starts of
  the entries ascend and the entries are of realistic size.
\<close>

theorem step64_unwinds_call_frame:
  fixes ctx :: "u64 step_context"
  assumes "fde_cie fde = Some cie"
    and "run_cie TYPE(64) (pc_start fde) fde cie no_locations s = Some (Inr (Some (dcfa, r), s1))"
    and "IterateLocationInfo (pc_start fde) (pc_end fde) (fde_instructions_offset fde) (fde_instructions_end fde) True
           record_row dcfa [] = Some (Inr (True, dcfa', rows))"
    and "\<forall>l \<in> set rows. no_expressions (rules l)"
    and "forward_from (cfa_start (fde_instructions_offset fde) (pc_start fde) no_locations dcfa)"
    and "ParseSingleFde TYPE(64) False regular order fde pc0 True s gctx [] = Some (Inr (True, s2, gctx', es))"
    and "pc_start fde \<le> ctx_pc ctx" "ctx_pc ctx < pc_end fde"
    and "PackEntriesToQutSections False es = Inr sections" "good_entries 64 False es"
    and "\<forall>words. entry_at (ctx_pc ctx) es = Some words \<longrightarrow> expressible_words False words"
    and "\<forall>row. GetLocationInfo (ctx_pc ctx) (fde_instructions_offset fde) (fde_instructions_end fde) (pc_start fde)
           no_locations dcfa = Some (Inr (True, row)) \<longrightarrow>
         plain_row False gctx cie env (start_table ctx) (rules (loc_regs row)) (order (rules (loc_regs row)))"
  shows "\<exists>row l. GetLocationInfo (ctx_pc ctx) (fde_instructions_offset fde) (fde_instructions_end fde) (pc_start fde)
             no_locations dcfa = Some (Inr (True, row))
     \<and> rules (loc_regs row) CFA_REG = Some l
     \<and> StepInternal (Eval64 env) sections ctx
         = Some (Inr (end_step ctx (QUT_ERROR_NONE,
             dwarf_unwind False gctx env (rules (loc_regs row)) (frame_address False (start_table ctx) l) (start_table ctx))))"
proof -
  let ?q = "start_table ctx"
  obtain row where row: "GetLocationInfo (ctx_pc ctx) (fde_instructions_offset fde) (fde_instructions_end fde)
      (pc_start fde) no_locations dcfa = Some (Inr (True, row))"
    using rows_agree [OF assms(3,5), of "ctx_pc ctx"] assms(7,8) unfolding ucast_id by blast
  have entry: "ascending es"
    "entry_at (ctx_pc ctx) es = Some (row_instructions TYPE(64) False regular order cie gctx (loc_regs row))"
    using entry_holds_row [OF assms(1-6), of "ctx_pc ctx"] assms(7,8) row unfolding ucast_id by auto
  have plain: "plain_row False gctx cie env ?q (rules (loc_regs row)) (order (rules (loc_regs row)))"
    using assms(12) row by blast
  then obtain l where l: "rules (loc_regs row) CFA_REG = Some l"
    by (auto simp: plain_row_def split: option.splits)
  let ?rs = "rules (loc_regs row)"
  let ?eval = "\<lambda>ws. \<lparr>row_memory = new_dwarf_memory (\<lambda>_ _. []),
      row_error = \<lparr>err_code = DWARF_ERROR_NONE, err_address = 0\<rparr>, temp_instructions = ws\<rparr>"
  have "\<exists>words. Eval_row TYPE(64) False regular gctx cie ?rs (order ?rs) (?eval []) = Inr (True, ?eval words)
      \<and> exec_words False env words ?q = Go (dwarf_unwind False gctx env ?rs (frame_address False ?q l) ?q)"
    by (rule row_unwinds) (use plain l in \<open>simp_all add: plain_row_def\<close>)
  then obtain words where words: "Eval_row TYPE(64) False regular gctx cie ?rs (order ?rs) (?eval []) = Inr (True, ?eval words)"
      "exec_words False env words ?q = Go (dwarf_unwind False gctx env ?rs (frame_address False ?q l) ?q)" by blast
  then have at: "entry_at (ctx_pc ctx) es = Some words"
    using entry(2) by (simp add: row_instructions_def)
  with entry(1) entry_at_falls_into obtain k start stop where
    k: "falls_into (ctx_pc ctx) es k" "es ! k = (start, stop, words)" by metis
  have "expressible_words False words" using assms(11) at by blast
  from StepInternal_packed64 [OF assms(9,10) k this, of env] words(2) row l
  show ?thesis by (auto simp: effect_outcome_def)
qed

text \<open>The entries of the sample program of the call frame interpreter, \<open>sub sp, #16\<close> at 0x1000.\<close>

definition sample_rows :: qut_entries where
  "sample_rows = [(0x1000, 0, [row_word VSP_OFFSET 0]), (0x1004, 0x1010, [row_word VSP_OFFSET 16])]"

lemma encode_sample_rows: "map (encode_entry False) sample_rows = [(0x1000, [0x40]), (0x1004, [0x04])]"
  by (simp add: sample_rows_def encode_defs row_word_mk instr_imm_mk)

lemmas encode_rows = encode_sample_rows [unfolded sample_rows_def list.map list.inject]

lemma sample_rows_plain:
  assumes "small_offset n"
  shows "plain_row False native_context sample_cie env q (sample_rules n) (key_order (sample_rules n))"
proof -
  have "offset_rule False native_context (sample_rules n) r = None" for r
    by (auto simp: offset_rule_def tracked_reg_def split: option.splits)
  then show ?thesis
    using assms
    by (auto simp: plain_row_def native_context_def cfa_offset_op_def row_loads_def sample_cie_def plain_rule_def
        tracked_reg_def key_order_def CFA_REG_def)
qed

theorem step64_unwinds_call_frame_witness:
  "\<exists>sections. PackEntriesToQutSections False sample_rows = Inr sections
     \<and> StepInternal (Eval64 \<lparr>stack_bottom = 0x1000, stack_top = 0x1ff8, memory = holding_words (\<lambda>a. a + 1)\<rparr>) sections
          \<lparr>ctx_regs = (\<lambda>r. 0x1800), ctx_pc = 0x1008, ctx_dex_pc = 0, frame_index = 1, finished = False\<rparr>
       = Some (Inr (True, QUT_ERROR_NONE,
          \<lparr>ctx_regs = (\<lambda>r. 0x1800)(SP := 0x1810), ctx_pc = 0x1008, ctx_dex_pc = 0, frame_index = 1, finished = False\<rparr>))"
proof -
  let ?env = "\<lparr>stack_bottom = 0x1000, stack_top = 0x1ff8, memory = holding_words (\<lambda>a. a + 1)\<rparr> :: u64 stack_env"
  let ?ctx = "\<lparr>ctx_regs = (\<lambda>r. 0x1800), ctx_pc = 0x1008, ctx_dex_pc = 0, frame_index = 1, finished = False\<rparr> :: u64 step_context"
  obtain sections :: "u64 qut_sections" where pack: "PackEntriesToQutSections False sample_rows = Inr sections"
    by (simp add: PackEntriesToQutSections_def encode_sample_rows QUT_TBL_ROW_SIZE_def rows_needed_def
        pack_entry_def Let_def compact_word_def compact_step_def padded_def upt_rec)
  obtain s2 gctx' es where parse: "ParseSingleFde TYPE(64) False (\<lambda>_ _. []) key_order sample_fde 0 True sample_rows_section
      native_context [] = Some (Inr (True, s2, gctx', es))" and es: "es = sample_rows"
    by (rule case_some_inr [OF sample_parse]) (auto simp: sample_rows_def)
  have good: "good_entries 64 False sample_rows"
    by (simp add: good_entries_def sample_rows_def small_entry_def QUT_TBL_ROW_SIZE_def encode_rows)
  have expressible: "\<forall>words. entry_at (ctx_pc ?ctx) sample_rows = Some words \<longrightarrow> expressible_words False words"
    by (simp add: sample_rows_def entry_at_def expressible_word_def expressible_def prologue_fits_def have_prologue64_def
        row_word_mk instr_imm_mk)
  have rs: "rules (loc_regs row) = sample_rules 16"
    if "GetLocationInfo 0x1008 0 6 0x1000 no_locations sample_run = Some (Inr (True, row))" for row
    using that by (simp add: GetLocationInfo_def sample_steps GetLocationInfo_loop.simps cfa_done_def) (auto simp: end_row_def)
  have "\<exists>row l. GetLocationInfo (ctx_pc ?ctx) 0 6 0x1000 no_locations sample_run = Some (Inr (True, row))
     \<and> rules (loc_regs row) CFA_REG = Some l
     \<and> StepInternal (Eval64 ?env) sections ?ctx
         = Some (Inr (end_step ?ctx (QUT_ERROR_NONE, dwarf_unwind False native_context ?env (rules (loc_regs row))
             (frame_address False (start_table ?ctx) l) (start_table ?ctx))))"
    by (rule step64_unwinds_call_frame [OF sample_fde_simps(1) sample_run_cie _ _ _ parse [unfolded es] _ _ pack good expressible,
          unfolded sample_fde_simps, OF sample_iterates])
      (use sample_forward in \<open>simp_all add: sample_steps sample_no_expressions sample_rows_plain small_offset_def rs\<close>)
  then obtain row l where row: "GetLocationInfo 0x1008 0 6 0x1000 no_locations sample_run = Some (Inr (True, row))"
    "rules (loc_regs row) CFA_REG = Some l"
    "StepInternal (Eval64 ?env) sections ?ctx
         = Some (Inr (end_step ?ctx (QUT_ERROR_NONE, dwarf_unwind False native_context ?env (rules (loc_regs row))
             (frame_address False (start_table ?ctx) l) (start_table ?ctx))))" by auto
  note rs = rs [OF row(1)]
  have l: "l = \<lparr>loc_type = DWARF_LOCATION_REGISTER, value0 = 31, value1 = 16\<rparr>" using row(2) rs by simp
  have "restored False native_context ?env (sample_rules 16) c r = None" for c r
    by (auto simp: restored_def offset_rule_def tracked_reg_def split: option.splits)
  then have unwind: "dwarf_unwind False native_context ?env (sample_rules 16) c q = q\<lparr>cfa := c\<rparr>" for c q
    by (simp add: dwarf_unwind_def)
  show ?thesis
    using pack row(3) unfolding rs l unwind by (auto simp: frame_address_def start_table_def end_step_def fun_eq_iff)
qed

end
